(* ===== verification/Prelude.thy ===== *)
theory Prelude
  imports Main "HOL-Library.Word" "HOL-Library.AList" "HOL-Library.Multiset"
begin

text \<open>
  Shared vocabulary of the darlingserver development: the errors the C and C++ code can
  raise, the numeric types of its interfaces, the errno values it tests for, and the
  generic facts about association lists, lists and reachable states that the component
  theories use.
\<close>

unbundle bit_operations_syntax

section \<open>Errors and results\<close>

text \<open>
  A C++ exception, an XNU \<open>panic\<close>, a failed \<open>assert\<close>, a self-deadlock on a
  non-recursive lock and an access the language leaves undefined are values of one type, so
  that every way in which an operation does not return normally is a branch of its model.
\<close>

datatype exn =
    Runtime_error string
  | System_error int
  | Invalid_argument string
  | Out_of_range string
  | Bad_alloc
  | Panic string
  | Assertion_failed string
  | Deadlock
  | Undefined_behaviour string

type_synonym 'a result = "exn + 'a"

type_synonym u8 = "8 word"
type_synonym u16 = "16 word"
type_synonym u32 = "32 word"
type_synonym u64 = "64 word"
type_synonym ptr = nat

abbreviation EPERM :: int where "EPERM \<equiv> 1"
abbreviation ESRCH :: int where "ESRCH \<equiv> 3"
abbreviation EINTR :: int where "EINTR \<equiv> 4"
abbreviation EAGAIN :: int where "EAGAIN \<equiv> 11"
abbreviation ENOMEM :: int where "ENOMEM \<equiv> 12"
abbreviation EFAULT :: int where "EFAULT \<equiv> 14"
abbreviation EMFILE :: int where "EMFILE \<equiv> 24"
abbreviation EPIPE :: int where "EPIPE \<equiv> 32"
abbreviation ENOSYS :: int where "ENOSYS \<equiv> 38"
abbreviation ECONNREFUSED :: int where "ECONNREFUSED \<equiv> 111"

text \<open>Events of a process, as \<open>sys/event.h\<close> numbers them.\<close>

abbreviation NOTE_EXIT :: u32 where "NOTE_EXIT \<equiv> 0x80000000"
abbreviation NOTE_FORK :: u32 where "NOTE_FORK \<equiv> 0x40000000"
abbreviation NOTE_EXEC :: u32 where "NOTE_EXEC \<equiv> 0x20000000"

section \<open>Association lists as the hash maps of the code\<close>

named_theorems alist_simps \<open>lookup after insert and erase on an association list\<close>

lemma map_of_update_eq [alist_simps]:
  "map_of (AList.update k v al) = (map_of al)(k \<mapsto> v)"
  by (rule update_conv')

lemma map_of_delete_eq [alist_simps]:
  "map_of (AList.delete k al) = (map_of al)(k := None)"
  by (rule delete_conv')

lemma distinct_keys_update [alist_simps]:
  "distinct (map fst al) \<Longrightarrow> distinct (map fst (AList.update k v al))"
  by (rule distinct_update)

lemma distinct_keys_delete [alist_simps]:
  "distinct (map fst al) \<Longrightarrow> distinct (map fst (AList.delete k al))"
  by (rule distinct_delete)

lemma length_update_new:
  "map_of al k = None \<Longrightarrow> length (AList.update k v al) = Suc (length al)"
  by (induction al) (auto split: if_splits)

lemma length_delete_present:
  assumes "distinct (map fst al)" and "map_of al k = Some v"
  shows "Suc (length (AList.delete k al)) = length al"
  using assms
proof (induction al)
  case Nil
  then show ?case by simp
next
  case (Cons x al)
  show ?case
  proof (cases "fst x = k")
    case True
    with Cons.prems have "k \<notin> fst ` set al" by auto
    with True show ?thesis by (cases x) simp
  next
    case False
    with Cons show ?thesis by (cases x) auto
  qed
qed

lemma set_snd_eq_ran: "distinct (map fst al) \<Longrightarrow> snd ` set al = ran (map_of al)"
  by (force simp: ran_def image_iff)

section \<open>Options, words and lists\<close>

lemma option_eqI: "(\<And>x. a = Some x \<longleftrightarrow> b = Some x) \<Longrightarrow> a = b"
  by (metis option.exhaust)

lemma word_less_plus_one:
  fixes c :: "'a::len word"
  assumes "c \<noteq> - 1"
  shows "x < c + 1 \<longleftrightarrow> x \<le> c"
proof -
  have "c + 1 \<noteq> 0" using assms by (metis add_eq_0_iff2)
  then have "unat (c + 1) = Suc (unat c)"
    by (metis add.commute unatSuc)
  then show ?thesis by (simp add: word_less_nat_alt word_le_nat_alt less_Suc_eq_le)
qed

text \<open>Clearing the low bits of a word.\<close>

lemma and_not_mask: "(x :: 'a::len word) AND NOT (mask n) = push_bit n (drop_bit n x)"
  by (rule bit_word_eqI) (auto simp: bit_simps)

lemma unat_clear_low: "unat ((x :: 'a::len word) AND NOT (mask n)) = unat x div 2 ^ n * 2 ^ n"
proof -
  have "push_bit n (drop_bit n x) = x - take_bit n x"
    using bits_ident [of n x] by (simp add: algebra_simps)
  moreover have low: "unat (take_bit n x) = unat x mod 2 ^ n"
    by (simp only: unsigned_take_bit_eq take_bit_nat_def)
  moreover have "take_bit n x \<le> x"
    by (simp only: word_le_nat_alt low) simp
  ultimately show ?thesis
    by (simp add: and_not_mask unat_sub minus_mod_eq_div_mult)
qed

lemma filter_update_drop:
  assumes "i < length xs" and "P (xs ! i)" and "\<not> P y"
  shows "filter P (xs[i := y]) = filter P (take i xs) @ filter P (drop (Suc i) xs)"
  using assms by (simp add: upd_conv_take_nth_drop)

lemma filter_take_nth_drop:
  assumes "i < length xs"
  shows "filter P xs = filter P (take i xs) @ filter P [xs ! i] @ filter P (drop (Suc i) xs)"
proof -
  have "xs = take i xs @ [xs ! i] @ drop (Suc i) xs"
    using assms by (simp add: Cons_nth_drop_Suc)
  then show ?thesis by (metis filter_append)
qed

definition opt_list :: "'a option \<Rightarrow> 'a list" where
  "opt_list x = (case x of None \<Rightarrow> [] | Some y \<Rightarrow> [y])"

lemma opt_list_simps [simp]: "opt_list None = []" "opt_list (Some x) = [x]"
  by (simp_all add: opt_list_def)

lemma returns: "(case x of None \<Rightarrow> False | Some y \<Rightarrow> P y) \<Longrightarrow> \<exists>y. x = Some y \<and> P y"
  by (cases x) auto

text \<open>Counting the elements of a list that satisfy a test, when one of them is replaced.\<close>

definition count_if :: "('a \<Rightarrow> bool) \<Rightarrow> 'a list \<Rightarrow> nat" where
  "count_if P xs = length (filter P xs)"

lemma count_if_simps [simp]:
  "count_if P [] = 0" "count_if P (x # xs) = of_bool (P x) + count_if P xs"
  "count_if P (xs @ ys) = count_if P xs + count_if P ys"
  by (simp_all add: count_if_def)

lemma count_if_update:
  assumes "i < length xs"
  shows "count_if P (xs[i := y]) + of_bool (P (xs ! i)) = count_if P xs + of_bool (P y)"
  using assms
proof (induction xs arbitrary: i)
  case (Cons x xs)
  then show ?case by (cases i) auto
qed simp

lemma count_if_pos_iff: "0 < count_if P xs \<longleftrightarrow> (\<exists>x \<in> set xs. P x)"
  by (induction xs) auto

lemma count_if_zero_iff: "count_if P xs = 0 \<longleftrightarrow> (\<forall>x \<in> set xs. \<not> P x)"
  using count_if_pos_iff [of P xs] by auto

lemma count_if_mono: "(\<And>x. x \<in> set xs \<Longrightarrow> P x \<Longrightarrow> Q x) \<Longrightarrow> count_if P xs \<le> count_if Q xs"
proof (induction xs)
  case (Cons x xs)
  then have "count_if P xs \<le> count_if Q xs" by simp
  with Cons.prems [of x] show ?case by auto
qed simp

lemma count_if_nth_pos: "i < length xs \<Longrightarrow> P (xs ! i) \<Longrightarrow> 0 < count_if P xs"
  by (auto simp: count_if_pos_iff)

lemma count_if_remove1: "x \<in> set xs \<Longrightarrow> count_if P (remove1 x xs) + of_bool (P x) = count_if P xs"
  by (induction xs) auto

lemma distinct_mset_part:
  assumes "mset ys = A + mset xs" and "distinct ys"
  shows "distinct xs"
  unfolding distinct_count_atmost_1
proof
  fix a
  have "count (mset ys) a \<le> 1" using assms(2) by (simp add: distinct_count_atmost_1)
  then have "count (mset xs) a \<le> 1" by (simp add: assms(1))
  then show "count (mset xs) a = (if a \<in> set xs then 1 else 0)"
    by (cases "a \<in> set xs") (simp_all add: count_mset_0_iff le_Suc_eq)
qed

section \<open>Reachable states and invariants\<close>

text \<open>
  Components that several threads drive are transition systems: an initial-state predicate
  and a step relation. A safety property is proved as an inductive invariant; the locale
  carries the one induction over runs that every such proof needs.
\<close>

inductive reach :: "('s \<Rightarrow> bool) \<Rightarrow> ('s \<Rightarrow> 's \<Rightarrow> bool) \<Rightarrow> 's \<Rightarrow> bool"
  for init step where
  reach_start: "init s \<Longrightarrow> reach init step s"
| reach_next: "reach init step s \<Longrightarrow> step s t \<Longrightarrow> reach init step t"

lemma reach_steps: "reach init step s \<Longrightarrow> step\<^sup>*\<^sup>* s t \<Longrightarrow> reach init step t"
  by (rotate_tac, induction rule: rtranclp_induct) (auto intro: reach_next)

locale inductive_invariant =
  fixes init :: "'s \<Rightarrow> bool"
    and step :: "'s \<Rightarrow> 's \<Rightarrow> bool"
    and inv :: "'s \<Rightarrow> bool"
  assumes holds_initially: "init s \<Longrightarrow> inv s"
    and kept_by_step: "step s t \<Longrightarrow> inv s \<Longrightarrow> inv t"
begin

lemma holds_when_reached: "reach init step s \<Longrightarrow> inv s"
proof (induction rule: reach.induct)
  case (reach_start s)
  then show ?case by (rule holds_initially)
next
  case (reach_next s t)
  from reach_next.hyps(2) reach_next.IH show ?case by (rule kept_by_step)
qed

end

section \<open>First-in, first-out queues\<close>

text \<open>
  The deques of the program are used through a push at the back and a pop at the front. The
  contract of that interface, and what a client concludes from it: values come out in the order
  in which they went in.
\<close>

locale fifo =
  fixes contents :: "'q \<Rightarrow> 'v list"
    and observe :: "'a \<Rightarrow> 'v"
    and push_back :: "'a \<Rightarrow> 'q \<Rightarrow> 'q"
    and pop_front :: "'q \<Rightarrow> ('a \<times> 'q) option"
  assumes contents_push: "contents (push_back x q) = contents q @ [observe x]"
    and pop_empty: "pop_front q = None \<longleftrightarrow> contents q = []"
    and pop_head: "pop_front q = Some (x, q') \<Longrightarrow> contents q = observe x # contents q'"
begin

primrec pop_n :: "nat \<Rightarrow> 'q \<Rightarrow> 'a list \<times> 'q" where
  "pop_n 0 q = ([], q)"
| "pop_n (Suc n) q = (case pop_front q of None \<Rightarrow> ([], q)
     | Some (x, q') \<Rightarrow> (let (xs, q'') = pop_n n q' in (x # xs, q'')))"

lemma contents_push_all: "contents (fold push_back xs q) = contents q @ map observe xs"
  by (induction xs arbitrary: q) (simp_all add: contents_push)

lemma pop_n_take:
  "map observe (fst (pop_n n q)) = take n (contents q) \<and> contents (snd (pop_n n q)) = drop n (contents q)"
proof (induction n arbitrary: q)
  case (Suc n)
  show ?case
  proof (cases "pop_front q")
    case None
    with pop_empty [of q] show ?thesis by simp
  next
    case (Some xq)
    then obtain x q' where "pop_front q = Some (x, q')" by (cases xq) auto
    with Suc [of q'] pop_head [OF this] show ?thesis by (auto split: prod.splits)
  qed
qed simp

lemma push_all_pop_all:
  "contents q = [] \<Longrightarrow> map observe (fst (pop_n (length xs) (fold push_back xs q))) = map observe xs"
  by (simp add: pop_n_take contents_push_all)

end

end
