(* ===== verification/Registry.thy ===== *)
theory Registry
  imports Prelude
begin

text \<open>
  The registries of processes and threads (\<open>internal-include/darlingserver/registry.hpp\<close>,
  class \<open>Registry\<close>). An entry is reachable under three keys: its ID in the server's
  namespace, its ID in the namespace of the container and a 64-bit eternal ID that the
  registry hands out. Entries are shared pointers, so they live in an explicit store; the
  record of an entry is extensible, since the template is instantiated with both processes
  and threads. The read-write lock is seen from the calling thread: whether that thread holds
  it exclusively, so that locking it a second time is a deadlock.
\<close>

section \<open>Model\<close>

record entry =
  ent_id :: int
  ent_nsid :: int
  ent_eternalID :: u64

type_synonym 'e store = "ptr \<Rightarrow> 'e"

record registry =
  reg_map :: "(int \<times> ptr) list"
  reg_nsmap :: "(int \<times> ptr) list"
  reg_emap :: "(u64 \<times> ptr) list"
  reg_eternalCounter :: u64
  reg_rwlock :: bool
  reg_registeringWithLockHeld :: bool

definition EternalIDInvalid :: u64 where
  "EternalIDInvalid = - 1"

definition empty_registry :: registry where
  "empty_registry = \<lparr>reg_map = [], reg_nsmap = [], reg_emap = [], reg_eternalCounter = 0,
     reg_rwlock = False, reg_registeringWithLockHeld = False\<rparr>"

definition lock :: "registry \<Rightarrow> registry result" where
  "lock r = (if reg_rwlock r then Inl Deadlock else Inr (r\<lparr>reg_rwlock := True\<rparr>))"

definition unlock :: "registry \<Rightarrow> registry" where
  "unlock r = r\<lparr>reg_rwlock := False\<rparr>"

text \<open>The shared acquisition inside the lookups: none at all while this thread registers.\<close>

definition lock_shared :: "registry \<Rightarrow> unit result" where
  "lock_shared r =
     (if reg_registeringWithLockHeld r then Inr ()
      else if reg_rwlock r then Inl Deadlock else Inr ())"

text \<open>Giving an entry the next eternal ID and entering it into the three maps.\<close>

definition enter_maps :: "ptr \<Rightarrow> registry \<Rightarrow> ('a entry_scheme) store
    \<Rightarrow> registry \<times> ('a entry_scheme) store" where
  "enter_maps p r h =
     (let h' = h(p := (h p)\<lparr>ent_eternalID := reg_eternalCounter r\<rparr>);
          r' = r\<lparr>reg_eternalCounter := reg_eternalCounter r + 1,
                 reg_map := AList.update (ent_id (h' p)) p (reg_map r),
                 reg_nsmap := AList.update (ent_nsid (h' p)) p (reg_nsmap r),
                 reg_emap := AList.update (ent_eternalID (h' p)) p (reg_emap r)\<rparr>
      in (r', h'))"

type_synonym 'e factory = "registry \<Rightarrow> 'e store \<Rightarrow> ptr option result \<times> 'e store"

definition registerIfAbsent :: "int \<Rightarrow> ('a entry_scheme) factory \<Rightarrow> registry
    \<Rightarrow> ('a entry_scheme) store \<Rightarrow> ptr option result \<times> registry \<times> ('a entry_scheme) store" where
  "registerIfAbsent nsid entryFactory r h =
     (case lock r of
        Inl e \<Rightarrow> (Inl e, r, h)
      | Inr r1 \<Rightarrow>
          (case map_of (reg_nsmap r1) nsid of
             Some p \<Rightarrow> (Inr (Some p), unlock r1, h)
           | None \<Rightarrow>
               (let r2 = r1\<lparr>reg_registeringWithLockHeld := True\<rparr> in
                case entryFactory r2 h of
                  (Inl e, h1) \<Rightarrow> (Inl e, unlock r2, h1)
                | (Inr entry, h1) \<Rightarrow>
                    (let r3 = r2\<lparr>reg_registeringWithLockHeld := False\<rparr> in
                     case entry of
                       None \<Rightarrow> (Inr None, unlock r3, h1)
                     | Some p \<Rightarrow>
                         (let (r4, h2) = enter_maps p r3 h1
                          in (Inr (Some p), unlock r4, h2))))))"

definition registerEntry :: "ptr \<Rightarrow> bool \<Rightarrow> registry \<Rightarrow> ('a entry_scheme) store
    \<Rightarrow> bool result \<times> registry \<times> ('a entry_scheme) store" where
  "registerEntry p replace r h =
     (case lock r of
        Inl e \<Rightarrow> (Inl e, r, h)
      | Inr r1 \<Rightarrow>
          (if \<not> replace \<and> (map_of (reg_map r1) (ent_id (h p)) \<noteq> None
                \<or> map_of (reg_nsmap r1) (ent_nsid (h p)) \<noteq> None)
           then (Inr False, unlock r1, h)
           else (let (r2, h2) = enter_maps p r1 h in (Inr True, unlock r2, h2))))"

definition erase_maps :: "int \<Rightarrow> int \<Rightarrow> u64 \<Rightarrow> registry \<Rightarrow> registry" where
  "erase_maps i n e r = r\<lparr>reg_map := AList.delete i (reg_map r),
     reg_nsmap := AList.delete n (reg_nsmap r), reg_emap := AList.delete e (reg_emap r)\<rparr>"

definition unregisterEntryByID :: "int \<Rightarrow> registry \<Rightarrow> ('a entry_scheme) store
    \<Rightarrow> bool result \<times> registry" where
  "unregisterEntryByID i r h =
     (case lock r of
        Inl e \<Rightarrow> (Inl e, r)
      | Inr r1 \<Rightarrow>
          (case map_of (reg_map r1) i of
             None \<Rightarrow> (Inr False, unlock r1)
           | Some p \<Rightarrow>
               (case map_of (reg_nsmap r1) (ent_nsid (h p)) of
                  None \<Rightarrow> (Inr False, unlock r1)
                | Some _ \<Rightarrow>
                    (case map_of (reg_emap r1) (ent_eternalID (h p)) of
                       None \<Rightarrow> (Inr False, unlock r1)
                     | Some _ \<Rightarrow> (Inr True,
                         unlock (erase_maps i (ent_nsid (h p)) (ent_eternalID (h p)) r1))))))"

definition unregisterEntryByNSID :: "int \<Rightarrow> registry \<Rightarrow> ('a entry_scheme) store
    \<Rightarrow> bool result \<times> registry" where
  "unregisterEntryByNSID nsid r h =
     (case lock r of
        Inl e \<Rightarrow> (Inl e, r)
      | Inr r1 \<Rightarrow>
          (case map_of (reg_nsmap r1) nsid of
             None \<Rightarrow> (Inr False, unlock r1)
           | Some p \<Rightarrow>
               (case map_of (reg_map r1) (ent_id (h p)) of
                  None \<Rightarrow> (Inr False, unlock r1)
                | Some _ \<Rightarrow>
                    (case map_of (reg_emap r1) (ent_eternalID (h p)) of
                       None \<Rightarrow> (Inr False, unlock r1)
                     | Some _ \<Rightarrow> (Inr True,
                         unlock (erase_maps (ent_id (h p)) nsid (ent_eternalID (h p)) r1))))))"

definition unregistryEntryByEternalID :: "u64 \<Rightarrow> registry \<Rightarrow> ('a entry_scheme) store
    \<Rightarrow> bool result \<times> registry" where
  "unregistryEntryByEternalID eid r h =
     (case lock r of
        Inl e \<Rightarrow> (Inl e, r)
      | Inr r1 \<Rightarrow>
          (case map_of (reg_emap r1) eid of
             None \<Rightarrow> (Inr False, unlock r1)
           | Some p \<Rightarrow>
               (case map_of (reg_nsmap r1) (ent_nsid (h p)) of
                  None \<Rightarrow> (Inr False, unlock r1)
                | Some _ \<Rightarrow>
                    (case map_of (reg_map r1) (ent_id (h p)) of
                       None \<Rightarrow> (Inr False, unlock r1)
                     | Some _ \<Rightarrow> (Inr True,
                         unlock (erase_maps (ent_id (h p)) (ent_nsid (h p)) eid r1))))))"

definition unregisterEntry :: "ptr \<Rightarrow> registry \<Rightarrow> ('a entry_scheme) store
    \<Rightarrow> bool result \<times> registry" where
  "unregisterEntry p r h =
     (case lock r of
        Inl e \<Rightarrow> (Inl e, r)
      | Inr r1 \<Rightarrow>
          (let it = map_of (reg_map r1) (ent_id (h p));
               it2 = map_of (reg_nsmap r1) (ent_nsid (h p));
               it3 = map_of (reg_emap r1) (ent_eternalID (h p))
           in if it = None \<or> it2 = None \<or> it3 = None then (Inr False, unlock r1)
              else if it \<noteq> Some p \<or> it2 \<noteq> Some p \<or> it3 \<noteq> Some p then (Inr False, unlock r1)
              else (Inr True, unlock
                (erase_maps (ent_id (h p)) (ent_nsid (h p)) (ent_eternalID (h p)) r1))))"

definition lookupEntryByID :: "int \<Rightarrow> registry \<Rightarrow> ptr option result" where
  "lookupEntryByID i r =
     (case lock_shared r of Inl e \<Rightarrow> Inl e | Inr _ \<Rightarrow> Inr (map_of (reg_map r) i))"

definition lookupEntryByNSID :: "int \<Rightarrow> registry \<Rightarrow> ptr option result" where
  "lookupEntryByNSID nsid r =
     (case lock_shared r of Inl e \<Rightarrow> Inl e | Inr _ \<Rightarrow> Inr (map_of (reg_nsmap r) nsid))"

definition lookupEntryByEternalID :: "u64 \<Rightarrow> registry \<Rightarrow> ptr option result" where
  "lookupEntryByEternalID eid r =
     (case lock_shared r of Inl e \<Rightarrow> Inl e | Inr _ \<Rightarrow> Inr (map_of (reg_emap r) eid))"

definition copyEntries :: "registry \<Rightarrow> ptr list result" where
  "copyEntries r = (if reg_rwlock r then Inl Deadlock else Inr (map snd (reg_emap r)))"

definition registry_size :: "registry \<Rightarrow> nat result" where
  "registry_size r = (if reg_rwlock r then Inl Deadlock else Inr (length (reg_map r)))"

section \<open>Well-formed registries\<close>

text \<open>
  The abstraction of a registry is the set of entries registered in it. Each of the three
  maps is an index of that set: it has one binding per entry, under that entry's own key.
\<close>

definition registered :: "registry \<Rightarrow> ptr set" where
  "registered r = snd ` set (reg_emap r)"

definition index_ok :: "(ptr \<Rightarrow> 'k) \<Rightarrow> ('k \<times> ptr) list \<Rightarrow> ptr set \<Rightarrow> bool" where
  "index_ok key al S \<longleftrightarrow> distinct (map fst al) \<and>
     (\<forall>k p. map_of al k = Some p \<longleftrightarrow> p \<in> S \<and> key p = k)"

definition registry_ok :: "('a entry_scheme) store \<Rightarrow> registry \<Rightarrow> bool" where
  "registry_ok h r \<longleftrightarrow>
     index_ok (\<lambda>p. ent_id (h p)) (reg_map r) (registered r) \<and>
     index_ok (\<lambda>p. ent_nsid (h p)) (reg_nsmap r) (registered r) \<and>
     index_ok (\<lambda>p. ent_eternalID (h p)) (reg_emap r) (registered r) \<and>
     (\<forall>p \<in> registered r. ent_eternalID (h p) < reg_eternalCounter r) \<and>
     \<not> reg_rwlock r \<and> \<not> reg_registeringWithLockHeld r"

lemma finite_registered [simp]: "finite (registered r)"
  by (simp add: registered_def)

lemma index_ok_lookup:
  "index_ok key al S \<Longrightarrow> map_of al k = Some p \<longleftrightarrow> p \<in> S \<and> key p = k"
  unfolding index_ok_def by blast

lemma index_ok_cong:
  assumes "index_ok key al S" and "\<And>p. p \<in> S \<Longrightarrow> key' p = key p"
  shows "index_ok key' al S"
  using assms unfolding index_ok_def by metis

lemma index_ok_insert:
  assumes ok: "index_ok key al S" and fresh: "p \<notin> S" and free: "map_of al (key' p) = None"
    and same: "\<And>q. q \<in> S \<Longrightarrow> key' q = key q"
  shows "index_ok key' (AList.update (key' p) p al) (insert p S)"
proof -
  have "\<And>q. q \<in> S \<Longrightarrow> key' q \<noteq> key' p"
    using ok free same unfolding index_ok_def by (metis option.distinct(1))
  then show ?thesis
    using ok fresh same unfolding index_ok_def by (auto simp: alist_simps)
qed

lemma index_ok_remove:
  assumes ok: "index_ok key al S" and "p \<in> S"
  shows "index_ok key (AList.delete (key p) al) (S - {p})"
proof -
  have "\<And>q. q \<in> S \<Longrightarrow> key q = key p \<Longrightarrow> q = p"
    using ok \<open>p \<in> S\<close> unfolding index_ok_def by (metis option.inject)
  then show ?thesis
    using ok unfolding index_ok_def by (auto simp: alist_simps)
qed

lemma index_ok_entries:
  "index_ok key al S \<Longrightarrow> snd ` set al = S"
  unfolding index_ok_def by (force simp: set_snd_eq_ran ran_def)

lemma index_ok_length:
  assumes "index_ok key al S"
  shows "length al = card S"
proof -
  have "inj_on snd (set al)"
    using assms unfolding index_ok_def inj_on_def
    by (metis map_of_is_SomeI prod.collapse)
  moreover have "distinct al" using assms by (simp add: index_ok_def distinct_map)
  ultimately show ?thesis
    using index_ok_entries [OF assms] by (metis card_image distinct_card)
qed

lemmas lock_defs = lock_def unlock_def lock_shared_def

lemma registry_ok_unlocked:
  "registry_ok h r \<Longrightarrow> \<not> reg_rwlock r \<and> \<not> reg_registeringWithLockHeld r"
  by (simp add: registry_ok_def)

lemma registry_ok_indices:
  assumes "registry_ok h r"
  shows "index_ok (\<lambda>p. ent_id (h p)) (reg_map r) (registered r)"
    and "index_ok (\<lambda>p. ent_nsid (h p)) (reg_nsmap r) (registered r)"
    and "index_ok (\<lambda>p. ent_eternalID (h p)) (reg_emap r) (registered r)"
  using assms by (simp_all add: registry_ok_def)

text \<open>
  What a client of a lookup relies on, for any of the three keys: a lookup returns an entry
  exactly when that entry is registered under the key.
\<close>

locale entry_index =
  fixes find :: "registry \<Rightarrow> 'k \<Rightarrow> ptr option"
    and key :: "('a entry_scheme) store \<Rightarrow> ptr \<Rightarrow> 'k"
  assumes find_iff: "registry_ok h r \<Longrightarrow> find r k = Some p \<longleftrightarrow> p \<in> registered r \<and> key h p = k"
begin

lemma find_registered: "registry_ok h r \<Longrightarrow> p \<in> registered r \<Longrightarrow> find r (key h p) = Some p"
  using find_iff by blast

lemma key_unique:
  assumes "registry_ok h r" "p \<in> registered r" "q \<in> registered r" "key h p = key h q"
  shows "p = q"
  using assms find_registered by (metis option.inject)

lemma find_none_iff:
  assumes "registry_ok h r"
  shows "find r k = None \<longleftrightarrow> (\<forall>p \<in> registered r. key h p \<noteq> k)"
  using find_iff [OF assms] by (metis option.exhaust option.distinct(1))

lemma find_after_insert:
  assumes "registry_ok h r" "registry_ok h' r'" "registered r' = insert p (registered r)"
    and "\<And>q. q \<in> registered r \<Longrightarrow> key h' q = key h q"
  shows "find r' k = (if k = key h' p then Some p else find r k)"
proof (cases "k = key h' p")
  case True
  with assms(2,3) show ?thesis by (simp add: find_iff)
next
  case False
  have "find r' k = Some q \<longleftrightarrow> find r k = Some q" for q
    using False assms by (auto simp: find_iff)
  with False show ?thesis by (simp add: option_eqI)
qed

lemma find_after_remove:
  assumes "registry_ok h r" "registry_ok h r'" "registered r' = registered r - {p}" "p \<in> registered r"
  shows "find r' k = (if k = key h p then None else find r k)"
proof (cases "k = key h p")
  case True
  then show ?thesis using assms key_unique by (auto simp: find_none_iff)
next
  case False
  have "find r' k = Some q \<longleftrightarrow> find r k = Some q" for q
    using False assms by (auto simp: find_iff)
  with False show ?thesis by (simp add: option_eqI)
qed

end

interpretation by_id: entry_index "\<lambda>r. map_of (reg_map r)" "\<lambda>h p. ent_id (h p)"
  by unfold_locales (rule index_ok_lookup [OF registry_ok_indices(1)])

interpretation by_nsid: entry_index "\<lambda>r. map_of (reg_nsmap r)" "\<lambda>h p. ent_nsid (h p)"
  by unfold_locales (rule index_ok_lookup [OF registry_ok_indices(2)])

interpretation by_eternalID: entry_index "\<lambda>r. map_of (reg_emap r)" "\<lambda>h p. ent_eternalID (h p)"
  by unfold_locales (rule index_ok_lookup [OF registry_ok_indices(3)])

section \<open>Operations on well-formed registries\<close>

lemma enter_maps_registered:
  assumes ok: "registry_ok h r" and "p \<notin> registered r"
    and counter: "reg_eternalCounter r \<noteq> EternalIDInvalid"
    and free: "map_of (reg_map r) (ent_id (h p)) = None"
      "map_of (reg_nsmap r) (ent_nsid (h p)) = None"
    and enter: "enter_maps p r h = (r', h')"
  shows "registry_ok h' r' \<and> registered r' = insert p (registered r)"
proof -
  let ?h = "h(p := (h p)\<lparr>ent_eternalID := reg_eternalCounter r\<rparr>)"
  have bound: "q \<in> registered r \<Longrightarrow> ent_eternalID (h q) < reg_eternalCounter r" for q
    using ok by (simp add: registry_ok_def)
  have free3: "map_of (reg_emap r) (reg_eternalCounter r) = None"
    using by_eternalID.find_none_iff [OF ok] bound by fastforce
  have "index_ok (\<lambda>q. ent_id (?h q)) (AList.update (ent_id (?h p)) p (reg_map r)) (insert p (registered r))"
    by (rule index_ok_insert [OF registry_ok_indices(1) [OF ok] \<open>p \<notin> _\<close>])
      (use free \<open>p \<notin> _\<close> in auto)
  moreover have "index_ok (\<lambda>q. ent_nsid (?h q)) (AList.update (ent_nsid (?h p)) p (reg_nsmap r)) (insert p (registered r))"
    by (rule index_ok_insert [OF registry_ok_indices(2) [OF ok] \<open>p \<notin> _\<close>])
      (use free \<open>p \<notin> _\<close> in auto)
  moreover have emap: "index_ok (\<lambda>q. ent_eternalID (?h q)) (AList.update (ent_eternalID (?h p)) p (reg_emap r)) (insert p (registered r))"
    by (rule index_ok_insert [OF registry_ok_indices(3) [OF ok] \<open>p \<notin> _\<close>])
      (use free3 \<open>p \<notin> _\<close> in auto)
  moreover have "\<forall>q \<in> insert p (registered r). ent_eternalID (?h q) < reg_eternalCounter r + 1"
    using counter bound by (auto simp: EternalIDInvalid_def word_less_plus_one less_imp_le)
  moreover have h': "h' = ?h" and r': "r' = r\<lparr>reg_eternalCounter := reg_eternalCounter r + 1,
      reg_map := AList.update (ent_id (?h p)) p (reg_map r),
      reg_nsmap := AList.update (ent_nsid (?h p)) p (reg_nsmap r),
      reg_emap := AList.update (ent_eternalID (?h p)) p (reg_emap r)\<rparr>"
    using enter by (auto simp: enter_maps_def Let_def)
  moreover have "registered r' = insert p (registered r)"
    using index_ok_entries [OF emap] by (simp add: registered_def r')
  ultimately show ?thesis
    using registry_ok_unlocked [OF ok] by (simp add: registry_ok_def)
qed

lemma enter_maps_store:
  "enter_maps p r h = (r', h') \<Longrightarrow>
     h' = h(p := (h p)\<lparr>ent_eternalID := reg_eternalCounter r\<rparr>) \<and>
     reg_eternalCounter r' = reg_eternalCounter r + 1 \<and> reg_rwlock r' = reg_rwlock r \<and>
     reg_registeringWithLockHeld r' = reg_registeringWithLockHeld r"
  by (auto simp: enter_maps_def Let_def)

lemma enter_maps_locked:
  "enter_maps p (r\<lparr>reg_rwlock := b, reg_registeringWithLockHeld := c\<rparr>) h
   = (let (r', h') = enter_maps p r h
      in (r'\<lparr>reg_rwlock := b, reg_registeringWithLockHeld := c\<rparr>, h'))"
  by (simp add: enter_maps_def Let_def)

lemma registerEntry_refused:
  assumes "registry_ok h r"
    and "map_of (reg_map r) (ent_id (h p)) \<noteq> None \<or> map_of (reg_nsmap r) (ent_nsid (h p)) \<noteq> None"
  shows "registerEntry p False r h = (Inr False, r, h)"
  using assms registry_ok_unlocked [OF assms(1)]
  by (simp add: registerEntry_def lock_defs)

lemma registerEntry_accepted:
  assumes "registry_ok h r"
    and "map_of (reg_map r) (ent_id (h p)) = None" "map_of (reg_nsmap r) (ent_nsid (h p)) = None"
  shows "registerEntry p False r h = (let (r', h') = enter_maps p r h in (Inr True, r', h'))"
  using assms registry_ok_unlocked [OF assms(1)]
  by (simp add: registerEntry_def lock_defs enter_maps_def Let_def)

lemma registerEntry_ok:
  assumes ok: "registry_ok h r" and counter: "reg_eternalCounter r \<noteq> EternalIDInvalid"
    and reg: "registerEntry p False r h = (res, r', h')"
  shows "registry_ok h' r' \<and>
    (if \<exists>q \<in> registered r. ent_id (h q) = ent_id (h p) \<or> ent_nsid (h q) = ent_nsid (h p)
     then res = Inr False \<and> r' = r \<and> h' = h
     else res = Inr True \<and> registered r' = insert p (registered r) \<and> p \<notin> registered r \<and>
       h' = h(p := (h p)\<lparr>ent_eternalID := reg_eternalCounter r\<rparr>) \<and>
       reg_eternalCounter r' = reg_eternalCounter r + 1)"
proof (cases "\<exists>q \<in> registered r. ent_id (h q) = ent_id (h p) \<or> ent_nsid (h q) = ent_nsid (h p)")
  case True
  then have "map_of (reg_map r) (ent_id (h p)) \<noteq> None \<or> map_of (reg_nsmap r) (ent_nsid (h p)) \<noteq> None"
    using by_id.find_none_iff [OF ok] by_nsid.find_none_iff [OF ok] by metis
  with registerEntry_refused [OF ok] reg True ok show ?thesis by simp
next
  case False
  then have free: "map_of (reg_map r) (ent_id (h p)) = None" "map_of (reg_nsmap r) (ent_nsid (h p)) = None"
    and fresh: "p \<notin> registered r"
    by (auto simp: by_id.find_none_iff [OF ok] by_nsid.find_none_iff [OF ok])
  from reg have enter: "enter_maps p r h = (r', h')" and res: "res = Inr True"
    by (auto simp: registerEntry_accepted [OF ok free] split: prod.splits)
  from enter_maps_registered [OF ok fresh counter free enter] enter_maps_store [OF enter]
  show ?thesis using False res fresh by auto
qed

text \<open>Erasing one entry from the three maps, whichever key the caller gave.\<close>

lemma erase_maps_ok:
  assumes ok: "registry_ok h r" and "p \<in> registered r"
    and r': "r' = erase_maps (ent_id (h p)) (ent_nsid (h p)) (ent_eternalID (h p)) r"
  shows "registry_ok h r' \<and> registered r' = registered r - {p} \<and>
    reg_eternalCounter r' = reg_eternalCounter r"
proof -
  note indices = registry_ok_indices [OF ok]
  have S: "registered r' = registered r - {p}"
    using index_ok_entries [OF index_ok_remove [OF indices(3) \<open>p \<in> registered r\<close>]]
    by (simp add: r' erase_maps_def registered_def)
  show ?thesis
    unfolding registry_ok_def S
    using ok index_ok_remove [OF indices(1) \<open>p \<in> registered r\<close>]
      index_ok_remove [OF indices(2) \<open>p \<in> registered r\<close>]
      index_ok_remove [OF indices(3) \<open>p \<in> registered r\<close>]
    by (simp add: r' erase_maps_def registry_ok_def)
qed

definition remove_entry :: "('a entry_scheme) store \<Rightarrow> ptr \<Rightarrow> registry \<Rightarrow> registry" where
  "remove_entry h p r = erase_maps (ent_id (h p)) (ent_nsid (h p)) (ent_eternalID (h p)) r"

definition unregister_spec :: "ptr option \<Rightarrow> registry \<Rightarrow> ('a entry_scheme) store
    \<Rightarrow> bool result \<times> registry" where
  "unregister_spec target r h =
     (case target of None \<Rightarrow> (Inr False, r) | Some p \<Rightarrow> (Inr True, remove_entry h p r))"

lemma unlock_erase_maps:
  "\<not> reg_rwlock r \<Longrightarrow> unlock (erase_maps i n e (r\<lparr>reg_rwlock := True\<rparr>)) = erase_maps i n e r"
  by (simp add: unlock_def erase_maps_def)

lemma registered_in_maps:
  assumes "registry_ok h r" "p \<in> registered r"
  shows "map_of (reg_map r) (ent_id (h p)) = Some p"
    and "map_of (reg_nsmap r) (ent_nsid (h p)) = Some p"
    and "map_of (reg_emap r) (ent_eternalID (h p)) = Some p"
  using assms by_id.find_iff by_nsid.find_iff by_eternalID.find_iff by blast+

lemma unlock_lock: "\<not> reg_rwlock r \<Longrightarrow> unlock (r\<lparr>reg_rwlock := True\<rparr>) = r"
  by (simp add: unlock_def)

lemmas unregister_defs = unregisterEntryByID_def unregisterEntryByNSID_def
  unregistryEntryByEternalID_def unregisterEntry_def lock_def unregister_spec_def remove_entry_def

lemma unregisterEntryByID_spec:
  assumes ok: "registry_ok h r"
  shows "unregisterEntryByID i r h = unregister_spec (map_of (reg_map r) i) r h"
proof (cases "map_of (reg_map r) i")
  case None
  then show ?thesis using registry_ok_unlocked [OF ok] by (simp add: unregister_defs unlock_lock)
next
  case (Some p)
  with by_id.find_iff [OF ok] have "p \<in> registered r" "ent_id (h p) = i" by simp_all
  with Some registered_in_maps [OF ok] registry_ok_unlocked [OF ok] show ?thesis
    by (simp add: unregister_defs unlock_erase_maps)
qed

lemma unregisterEntryByNSID_spec:
  assumes ok: "registry_ok h r"
  shows "unregisterEntryByNSID n r h = unregister_spec (map_of (reg_nsmap r) n) r h"
proof (cases "map_of (reg_nsmap r) n")
  case None
  then show ?thesis using registry_ok_unlocked [OF ok] by (simp add: unregister_defs unlock_lock)
next
  case (Some p)
  with by_nsid.find_iff [OF ok] have "p \<in> registered r" "ent_nsid (h p) = n" by simp_all
  with Some registered_in_maps [OF ok] registry_ok_unlocked [OF ok] show ?thesis
    by (simp add: unregister_defs unlock_erase_maps)
qed

lemma unregistryEntryByEternalID_spec:
  assumes ok: "registry_ok h r"
  shows "unregistryEntryByEternalID e r h = unregister_spec (map_of (reg_emap r) e) r h"
proof (cases "map_of (reg_emap r) e")
  case None
  then show ?thesis using registry_ok_unlocked [OF ok] by (simp add: unregister_defs unlock_lock)
next
  case (Some p)
  with by_eternalID.find_iff [OF ok] have "p \<in> registered r" "ent_eternalID (h p) = e" by simp_all
  with Some registered_in_maps [OF ok] registry_ok_unlocked [OF ok] show ?thesis
    by (simp add: unregister_defs unlock_erase_maps)
qed

lemma unregisterEntry_spec:
  assumes ok: "registry_ok h r"
  shows "unregisterEntry p r h = unregister_spec (if p \<in> registered r then Some p else None) r h"
proof (cases "p \<in> registered r")
  case True
  with registered_in_maps [OF ok] registry_ok_unlocked [OF ok] show ?thesis
    by (simp add: unregister_defs unlock_erase_maps)
next
  case False
  then have "map_of (reg_map r) (ent_id (h p)) \<noteq> Some p" using by_id.find_iff [OF ok] by simp
  with False registry_ok_unlocked [OF ok] show ?thesis
    by (simp add: unregister_defs unlock_lock Let_def)
qed

lemma unregister_spec_ok:
  assumes ok: "registry_ok h r" and target: "\<And>p. target = Some p \<Longrightarrow> p \<in> registered r"
    and "unregister_spec target r h = (res, r')"
  shows "registry_ok h r' \<and> registered r' = registered r - set_option target \<and>
    reg_eternalCounter r' = reg_eternalCounter r"
  using assms erase_maps_ok [OF ok target refl]
  by (auto simp: unregister_spec_def remove_entry_def split: option.splits)

lemma unregister_by_key:
  assumes ok: "registry_ok h r" and found: "\<And>p. target = Some p \<longleftrightarrow> p \<in> registered r \<and> key p = k"
    and res: "unregister_spec target r h = (res, r')"
  shows "res = Inr (\<exists>q \<in> registered r. key q = k) \<and> registered r' = {q \<in> registered r. key q \<noteq> k} \<and>
    registry_ok h r'"
proof -
  from unregister_spec_ok [OF ok _ res] found
  have "registry_ok h r'" "registered r' = registered r - set_option target" by auto
  moreover have "res = Inr (target \<noteq> None)"
    using res by (auto simp: unregister_spec_def split: option.splits)
  moreover have "target \<noteq> None \<longleftrightarrow> (\<exists>q \<in> registered r. key q = k)"
    using found by (metis option.exhaust option.distinct(1))
  moreover have "registered r - set_option target = {q \<in> registered r. key q \<noteq> k}"
    using found by auto
  ultimately show ?thesis by simp
qed

lemma unregister_entry_set:
  assumes ok: "registry_ok h r" and "unregisterEntry p r h = (res, r')"
  shows "res = Inr (p \<in> registered r) \<and> registered r' = registered r - {p} \<and> registry_ok h r'"
proof -
  have "(if p \<in> registered r then Some p else None) = Some q \<longleftrightarrow> q \<in> registered r \<and> q = p" for q
    by auto
  from unregister_by_key [OF ok this assms(2) [unfolded unregisterEntry_spec [OF ok]]]
  show ?thesis by auto
qed

lemma registerIfAbsent_present:
  assumes "registry_ok h r" "map_of (reg_nsmap r) nsid = Some p"
  shows "registerIfAbsent nsid fac r h = (Inr (Some p), r, h)"
  using assms registry_ok_unlocked [OF assms(1)]
  by (simp add: registerIfAbsent_def lock_def unlock_lock)

text \<open>The registry as the factory sees it: locked by this thread, lookups unlocked.\<close>

definition registering :: "registry \<Rightarrow> registry" where
  "registering r = r\<lparr>reg_rwlock := True, reg_registeringWithLockHeld := True\<rparr>"

lemma registerIfAbsent_absent:
  assumes ok: "registry_ok h r" and "map_of (reg_nsmap r) nsid = None"
  shows "registerIfAbsent nsid fac r h =
    (case fac (registering r) h of
       (Inl e, h1) \<Rightarrow> (Inl e, r\<lparr>reg_registeringWithLockHeld := True\<rparr>, h1)
     | (Inr None, h1) \<Rightarrow> (Inr None, r, h1)
     | (Inr (Some p), h1) \<Rightarrow> (let (r', h2) = enter_maps p r h1 in (Inr (Some p), r', h2)))"
  using assms registry_ok_unlocked [OF ok]
  by (auto simp: registerIfAbsent_def lock_defs registering_def enter_maps_def Let_def
      split: prod.splits sum.splits option.splits)

section \<open>Runs of a registry\<close>

text \<open>
  Threads call the operations one at a time, since each holds the lock for its whole body.
  Between the calls entries are created and changed freely as long as the entries that are
  registered keep their IDs. A factory is well behaved when it does not throw, leaves the
  registered entries alone and returns a new entry whose IDs are not taken.
\<close>

definition factory_ok :: "('a entry_scheme) factory \<Rightarrow> registry \<Rightarrow> ('a entry_scheme) store \<Rightarrow> bool" where
  "factory_ok fac r h \<longleftrightarrow>
     (case fac (registering r) h of
        (Inl e, h1) \<Rightarrow> False
      | (Inr entry, h1) \<Rightarrow> (\<forall>q \<in> registered r. h1 q = h q) \<and>
          (case entry of None \<Rightarrow> True
           | Some p \<Rightarrow> p \<notin> registered r \<and> (\<forall>q \<in> registered r.
               ent_id (h q) \<noteq> ent_id (h1 p) \<and> ent_nsid (h q) \<noteq> ent_nsid (h1 p))))"

inductive registry_step :: "('a entry_scheme) store \<times> registry \<Rightarrow> ('a entry_scheme) store \<times> registry \<Rightarrow> bool"
  where
  step_store: "(\<forall>q \<in> registered r. ent_id (h' q) = ent_id (h q) \<and> ent_nsid (h' q) = ent_nsid (h q)
      \<and> ent_eternalID (h' q) = ent_eternalID (h q)) \<Longrightarrow> registry_step (h, r) (h', r)"
| step_registerEntry: "registerEntry p False r h = (res, r', h') \<Longrightarrow>
    reg_eternalCounter r \<noteq> EternalIDInvalid \<Longrightarrow> registry_step (h, r) (h', r')"
| step_registerIfAbsent: "registerIfAbsent nsid fac r h = (res, r', h') \<Longrightarrow> factory_ok fac r h \<Longrightarrow>
    reg_eternalCounter r \<noteq> EternalIDInvalid \<Longrightarrow> registry_step (h, r) (h', r')"
| step_unregisterEntryByID: "unregisterEntryByID i r h = (b, r') \<Longrightarrow> registry_step (h, r) (h, r')"
| step_unregisterEntryByNSID: "unregisterEntryByNSID i r h = (b, r') \<Longrightarrow> registry_step (h, r) (h, r')"
| step_unregistryEntryByEternalID: "unregistryEntryByEternalID e r h = (b, r') \<Longrightarrow> registry_step (h, r) (h, r')"
| step_unregisterEntry: "unregisterEntry p r h = (b, r') \<Longrightarrow> registry_step (h, r) (h, r')"

inductive_cases registry_stepE: "registry_step (h, r) (h', r')"

lemma registry_ok_store_cong:
  assumes "registry_ok h r" and "\<forall>q \<in> registered r. ent_id (h' q) = ent_id (h q) \<and>
    ent_nsid (h' q) = ent_nsid (h q) \<and> ent_eternalID (h' q) = ent_eternalID (h q)"
  shows "registry_ok h' r"
  using assms unfolding registry_ok_def by (auto elim!: index_ok_cong)

text \<open>
  What an operation may do to the set of entries: new entries get eternal IDs that were not
  handed out before, the others keep theirs.
\<close>

definition registry_grows :: "('a entry_scheme) store \<Rightarrow> registry \<Rightarrow> ('a entry_scheme) store
    \<Rightarrow> registry \<Rightarrow> bool" where
  "registry_grows h r h' r' \<longleftrightarrow> registry_ok h' r' \<and>
     reg_eternalCounter r \<le> reg_eternalCounter r' \<and>
     (\<forall>p \<in> registered r'. (p \<in> registered r \<and> ent_eternalID (h' p) = ent_eternalID (h p))
        \<or> reg_eternalCounter r \<le> ent_eternalID (h' p))"

lemma counter_le_next:
  fixes c :: u64
  assumes "c \<noteq> EternalIDInvalid"
  shows "c \<le> c + 1"
  using assms by (simp add: EternalIDInvalid_def word_less_plus_one less_imp_le)

lemma registerIfAbsent_ok:
  assumes ok: "registry_ok h r" and fac: "factory_ok fac r h"
    and counter: "reg_eternalCounter r \<noteq> EternalIDInvalid"
    and reg: "registerIfAbsent nsid fac r h = (res, r', h')"
  shows "registry_grows h r h' r'"
proof (cases "map_of (reg_nsmap r) nsid")
  case (Some p)
  with registerIfAbsent_present [OF ok Some] reg ok show ?thesis by (auto simp: registry_grows_def)
next
  case None
  obtain entry h1 where f: "fac (registering r) h = (Inr entry, h1)"
    and same: "\<forall>q \<in> registered r. h1 q = h q"
    using fac by (auto simp: factory_ok_def split: prod.splits sum.splits)
  have ok1: "registry_ok h1 r"
    by (rule registry_ok_store_cong [OF ok]) (use same in simp)
  show ?thesis
  proof (cases entry)
    case None
    with f reg ok1 same \<open>map_of _ _ = None\<close> show ?thesis
      by (auto simp: registerIfAbsent_absent [OF ok] registry_grows_def)
  next
    case (Some p)
    with f reg \<open>map_of _ _ = None\<close> have enter: "enter_maps p r h1 = (r', h')"
      by (auto simp: registerIfAbsent_absent [OF ok] split: prod.splits)
    have "p \<notin> registered r" "map_of (reg_map r) (ent_id (h1 p)) = None"
      "map_of (reg_nsmap r) (ent_nsid (h1 p)) = None"
      using f Some fac same
      by (auto simp: factory_ok_def by_id.find_none_iff [OF ok1] by_nsid.find_none_iff [OF ok1])
    from enter_maps_registered [OF ok1 this(1) counter this(2,3) enter] enter_maps_store [OF enter]
    show ?thesis
      using same counter by (auto simp: registry_grows_def counter_le_next)
  qed
qed

lemma unregister_grows:
  assumes "registry_ok h r" and "\<And>p. target = Some p \<Longrightarrow> p \<in> registered r"
    and "unregister_spec target r h = (b, r')"
  shows "registry_grows h r h r'"
  using unregister_spec_ok [OF assms] by (simp add: registry_grows_def)

lemma registry_grows_trans:
  assumes "registry_grows h r h' r'" "registry_grows h' r' h'' r''"
  shows "registry_grows h r h'' r''"
proof -
  have "p \<in> registered r \<and> ent_eternalID (h'' p) = ent_eternalID (h p)
      \<or> reg_eternalCounter r \<le> ent_eternalID (h'' p)" if "p \<in> registered r''" for p
    using assms that unfolding registry_grows_def by (metis order_trans)
  then show ?thesis using assms unfolding registry_grows_def by (blast intro: order_trans)
qed

lemma registry_step_grows:
  assumes "registry_step s t" and ok: "registry_ok (fst s) (snd s)"
  shows "registry_grows (fst s) (snd s) (fst t) (snd t)"
  using assms
proof (induction rule: registry_step.induct)
  case (step_store r h' h)
  then show ?case by (auto simp: registry_grows_def intro: registry_ok_store_cong)
next
  case (step_registerEntry p r h res r' h')
  then have "registry_ok h r" by simp
  from registerEntry_ok [OF this step_registerEntry(2,1)] step_registerEntry(2) show ?case
    by (auto simp: registry_grows_def counter_le_next split: if_splits)
next
  case (step_registerIfAbsent nsid fac r h res r' h')
  then show ?case using registerIfAbsent_ok [of h r] by simp
next
  case (step_unregisterEntryByID i r h b r')
  then have ok: "registry_ok h r" by simp
  from unregister_grows [OF ok _ step_unregisterEntryByID(1) [unfolded unregisterEntryByID_spec [OF ok]]]
  show ?case by (simp add: by_id.find_iff [OF ok])
next
  case (step_unregisterEntryByNSID i r h b r')
  then have ok: "registry_ok h r" by simp
  from unregister_grows [OF ok _ step_unregisterEntryByNSID(1) [unfolded unregisterEntryByNSID_spec [OF ok]]]
  show ?case by (simp add: by_nsid.find_iff [OF ok])
next
  case (step_unregistryEntryByEternalID e r h b r')
  then have ok: "registry_ok h r" by simp
  from unregister_grows [OF ok _ step_unregistryEntryByEternalID(1) [unfolded unregistryEntryByEternalID_spec [OF ok]]]
  show ?case by (simp add: by_eternalID.find_iff [OF ok])
next
  case (step_unregisterEntry p r h b r')
  then have ok: "registry_ok h r" by simp
  from unregister_grows [OF ok _ step_unregisterEntry(1) [unfolded unregisterEntry_spec [OF ok]]]
  show ?case by (metis fst_conv option.distinct(1) option.inject snd_conv)
qed

interpretation registry_runs: inductive_invariant
  "\<lambda>s. snd s = empty_registry" registry_step "\<lambda>s. registry_ok (fst s) (snd s)"
proof
  show "snd s = empty_registry \<Longrightarrow> registry_ok (fst s) (snd s)" for s :: "('a entry_scheme) store \<times> registry"
    by (simp add: registry_ok_def empty_registry_def registered_def index_ok_def)
  show "registry_step s t \<Longrightarrow> registry_ok (fst s) (snd s) \<Longrightarrow> registry_ok (fst t) (snd t)"
    for s t :: "('a entry_scheme) store \<times> registry"
    using registry_step_grows [of s t] by (simp add: registry_grows_def)
qed

lemma registry_run_grows:
  assumes "registry_step\<^sup>*\<^sup>* s t" and ok: "registry_ok (fst s) (snd s)"
  shows "registry_grows (fst s) (snd s) (fst t) (snd t)"
  using assms(1)
proof (induction rule: rtranclp_induct)
  case base
  from ok show ?case by (simp add: registry_grows_def)
next
  case (step t u)
  then have "registry_ok (fst t) (snd t)" by (simp add: registry_grows_def)
  from registry_grows_trans [OF step.IH registry_step_grows [OF step.hyps(2) this]] show ?case .
qed

section \<open>Properties\<close>


definition demo_store :: "entry store" where
  "demo_store p = \<lparr>ent_id = int p, ent_nsid = int p + 100, ent_eternalID = 0\<rparr>"

lemma demo_register:
  "registerEntry 7 False empty_registry demo_store =
     (Inr True, \<lparr>reg_map = [(7, 7)], reg_nsmap = [(107, 7)], reg_emap = [(0, 7)],
        reg_eternalCounter = 1, reg_rwlock = False, reg_registeringWithLockHeld = False\<rparr>, demo_store)"
  by (simp add: registerEntry_def lock_defs enter_maps_def Let_def demo_store_def empty_registry_def fun_eq_iff)


text \<open>Registering an entry whose IDs are free succeeds, gives it the next eternal ID, and
  afterwards every lookup by ID, by namespace ID or by eternal ID returns that entry for
  its keys and what it returned before for every other key; the size grows by one.\<close>

lemma registerEntry_lookup:
  assumes ok: "registry_ok h r" and counter: "reg_eternalCounter r \<noteq> EternalIDInvalid"
    and free: "\<forall>q \<in> registered r. ent_id (h q) \<noteq> ent_id (h p) \<and> ent_nsid (h q) \<noteq> ent_nsid (h p)"
    and reg: "registerEntry p False r h = (res, r', h')"
  shows "res = Inr True \<and> ent_eternalID (h' p) = reg_eternalCounter r \<and>
    lookupEntryByID i r' = (if i = ent_id (h p) then Inr (Some p) else lookupEntryByID i r) \<and>
    lookupEntryByNSID n r' = (if n = ent_nsid (h p) then Inr (Some p) else lookupEntryByNSID n r) \<and>
    lookupEntryByEternalID e r' =
      (if e = reg_eternalCounter r then Inr (Some p) else lookupEntryByEternalID e r) \<and>
    registry_size r' = map_sum id Suc (registry_size r)"
proof -
  note R = registerEntry_ok [OF ok counter reg]
  with free have ok': "registry_ok h' r'" and S: "registered r' = insert p (registered r)"
    and h': "h' = h(p := (h p)\<lparr>ent_eternalID := reg_eternalCounter r\<rparr>)" and res: "res = Inr True"
    and p: "p \<notin> registered r"
    by (auto split: if_splits)
  have "length (reg_map r') = Suc (length (reg_map r))"
    using index_ok_length [OF registry_ok_indices(1) [OF ok]]
      index_ok_length [OF registry_ok_indices(1) [OF ok']] p
    by (simp add: S)
  moreover have "map_of (reg_map r') i = (if i = ent_id (h p) then Some p else map_of (reg_map r) i)"
    using by_id.find_after_insert [OF ok ok' S, of i] by (simp add: h')
  moreover have "map_of (reg_nsmap r') n = (if n = ent_nsid (h p) then Some p else map_of (reg_nsmap r) n)"
    using by_nsid.find_after_insert [OF ok ok' S, of n] by (simp add: h')
  moreover have "map_of (reg_emap r') e = (if e = reg_eternalCounter r then Some p else map_of (reg_emap r) e)"
  proof -
    have "q \<in> registered r \<Longrightarrow> ent_eternalID (h' q) = ent_eternalID (h q)" for q
      using p by (auto simp: h')
    from by_eternalID.find_after_insert [OF ok ok' S this, of e] show ?thesis by (simp add: h')
  qed
  ultimately show ?thesis
    using res registry_ok_unlocked [OF ok] registry_ok_unlocked [OF ok']
    by (simp add: h' lookupEntryByID_def lookupEntryByNSID_def lookupEntryByEternalID_def
        lock_shared_def registry_size_def)
qed

lemma empty_registry_ok: "registry_ok h empty_registry"
  by (simp add: registry_ok_def empty_registry_def registered_def index_ok_def)

text \<open>Unregistering reports whether there was an entry to remove. By ID, by namespace ID and
  by eternal ID it removes the entry that the corresponding lookup returned; given an
  entry, it removes that very entry and returns false for an entry that is not registered,
  even if its IDs are taken by another one. The removed entry is then found under none of
  its keys, and all other lookups are unchanged.\<close>

lemma unregister_removes:
  assumes ok: "registry_ok h r"
    and unregister: "(target = map_of (reg_map r) i \<and> unregisterEntryByID i r h = (res, r')) \<or>
      (target = map_of (reg_nsmap r) n \<and> unregisterEntryByNSID n r h = (res, r')) \<or>
      (target = map_of (reg_emap r) e \<and> unregistryEntryByEternalID e r h = (res, r')) \<or>
      (target = (if p \<in> registered r then Some p else None) \<and> unregisterEntry p r h = (res, r'))"
  shows "res = Inr (target \<noteq> None) \<and> registry_ok h r' \<and>
    (\<forall>q. target = Some q \<longrightarrow>
       lookupEntryByID j r' = (if j = ent_id (h q) then Inr None else lookupEntryByID j r) \<and>
       lookupEntryByNSID m r' = (if m = ent_nsid (h q) then Inr None else lookupEntryByNSID m r) \<and>
       lookupEntryByEternalID d r' =
         (if d = ent_eternalID (h q) then Inr None else lookupEntryByEternalID d r)) \<and>
    (target = None \<longrightarrow> r' = r)"
proof -
  have spec: "unregister_spec target r h = (res, r')"
    using unregister unfolding unregisterEntryByID_spec [OF ok] unregisterEntryByNSID_spec [OF ok]
      unregistryEntryByEternalID_spec [OF ok] unregisterEntry_spec [OF ok] by (elim disjE conjE) simp_all
  have target: "q \<in> registered r" if "target = Some q" for q
    using unregister that by (elim disjE conjE) (simp_all add: by_id.find_iff [OF ok]
      by_nsid.find_iff [OF ok] by_eternalID.find_iff [OF ok] eq_commute [of "Some q"] split: if_splits)
  from unregister_spec_ok [OF ok target spec] have ok': "registry_ok h r'"
    and S: "registered r' = registered r - set_option target" by simp_all
  note unlocked = registry_ok_unlocked [OF ok] registry_ok_unlocked [OF ok']
  show ?thesis
  proof (cases target)
    case None
    with spec ok show ?thesis by (auto simp: unregister_spec_def)
  next
    case (Some q)
    then have S': "registered r' = registered r - {q}" and q: "q \<in> registered r"
      using S target by auto
    from Some spec have "res = Inr True" by (simp add: unregister_spec_def)
    with Some ok' unlocked show ?thesis
      using by_id.find_after_remove [OF ok ok' S' q, of j] by_nsid.find_after_remove [OF ok ok' S' q, of m]
        by_eternalID.find_after_remove [OF ok ok' S' q, of d]
      by (simp add: lookupEntryByID_def lookupEntryByNSID_def lookupEntryByEternalID_def lock_shared_def)
  qed
qed

text \<open>C14: The registry refines a set of entries: a lookup by ID, by namespace ID or by eternal ID
  finds exactly the member of the set with that key, the size is the number of members,
  registering inserts the entry if neither of its IDs is taken and refuses it otherwise, and
  each way of unregistering removes the members with that key, or that very entry, and tells
  whether there was one.\<close>

theorem registry_refines_set:
  assumes ok: "registry_ok h r"
  shows "(lookupEntryByID i r = Inr (Some p) \<longleftrightarrow> p \<in> registered r \<and> ent_id (h p) = i) \<and>
    (lookupEntryByNSID n r = Inr (Some p) \<longleftrightarrow> p \<in> registered r \<and> ent_nsid (h p) = n) \<and>
    (lookupEntryByEternalID e r = Inr (Some p) \<longleftrightarrow> p \<in> registered r \<and> ent_eternalID (h p) = e) \<and>
    registry_size r = Inr (card (registered r)) \<and>
    (reg_eternalCounter r \<noteq> EternalIDInvalid \<and> registerEntry p False r h = (res, r', h') \<longrightarrow>
       (let taken = \<exists>q \<in> registered r. ent_id (h q) = ent_id (h p) \<or> ent_nsid (h q) = ent_nsid (h p) in
        res = Inr (\<not> taken) \<and> registered r' = registered r \<union> (if taken then {} else {p}) \<and> registry_ok h' r')) \<and>
    (unregisterEntry p r h = (res, r') \<longrightarrow>
       res = Inr (p \<in> registered r) \<and> registered r' = registered r - {p} \<and> registry_ok h r') \<and>
    (unregisterEntryByID i r h = (res, r') \<longrightarrow>
       res = Inr (\<exists>q \<in> registered r. ent_id (h q) = i) \<and>
       registered r' = {q \<in> registered r. ent_id (h q) \<noteq> i} \<and> registry_ok h r') \<and>
    (unregisterEntryByNSID n r h = (res, r') \<longrightarrow>
       res = Inr (\<exists>q \<in> registered r. ent_nsid (h q) = n) \<and>
       registered r' = {q \<in> registered r. ent_nsid (h q) \<noteq> n} \<and> registry_ok h r') \<and>
    (unregistryEntryByEternalID e r h = (res, r') \<longrightarrow>
       res = Inr (\<exists>q \<in> registered r. ent_eternalID (h q) = e) \<and>
       registered r' = {q \<in> registered r. ent_eternalID (h q) \<noteq> e} \<and> registry_ok h r')"
proof (intro conjI impI)
  note unlocked = registry_ok_unlocked [OF ok]
  note finds = by_id.find_iff [OF ok] by_nsid.find_iff [OF ok] by_eternalID.find_iff [OF ok]
  show "lookupEntryByID i r = Inr (Some p) \<longleftrightarrow> p \<in> registered r \<and> ent_id (h p) = i"
    "lookupEntryByNSID n r = Inr (Some p) \<longleftrightarrow> p \<in> registered r \<and> ent_nsid (h p) = n"
    "lookupEntryByEternalID e r = Inr (Some p) \<longleftrightarrow> p \<in> registered r \<and> ent_eternalID (h p) = e"
    using finds unlocked
    by (simp_all add: lookupEntryByID_def lookupEntryByNSID_def lookupEntryByEternalID_def lock_shared_def)
  show "registry_size r = Inr (card (registered r))"
    using index_ok_length [OF registry_ok_indices(1) [OF ok]] unlocked by (simp add: registry_size_def)
  show "let taken = \<exists>q \<in> registered r. ent_id (h q) = ent_id (h p) \<or> ent_nsid (h q) = ent_nsid (h p) in
        res = Inr (\<not> taken) \<and> registered r' = registered r \<union> (if taken then {} else {p}) \<and> registry_ok h' r'"
    if "reg_eternalCounter r \<noteq> EternalIDInvalid \<and> registerEntry p False r h = (res, r', h')"
    using registerEntry_ok [OF ok conjunct1 [OF that] conjunct2 [OF that]]
    by (auto simp: Let_def split: if_splits)
  show "res = Inr (\<exists>q \<in> registered r. ent_id (h q) = i)"
    "registered r' = {q \<in> registered r. ent_id (h q) \<noteq> i}" "registry_ok h r'"
    if "unregisterEntryByID i r h = (res, r')"
    using unregister_by_key [OF ok by_id.find_iff [OF ok] that [unfolded unregisterEntryByID_spec [OF ok]]] by blast+
  show "res = Inr (\<exists>q \<in> registered r. ent_nsid (h q) = n)"
    "registered r' = {q \<in> registered r. ent_nsid (h q) \<noteq> n}" "registry_ok h r'"
    if "unregisterEntryByNSID n r h = (res, r')"
    using unregister_by_key [OF ok by_nsid.find_iff [OF ok] that [unfolded unregisterEntryByNSID_spec [OF ok]]] by blast+
  show "res = Inr (\<exists>q \<in> registered r. ent_eternalID (h q) = e)"
    "registered r' = {q \<in> registered r. ent_eternalID (h q) \<noteq> e}" "registry_ok h r'"
    if "unregistryEntryByEternalID e r h = (res, r')"
    using unregister_by_key [OF ok by_eternalID.find_iff [OF ok] that [unfolded unregistryEntryByEternalID_spec [OF ok]]] by blast+
  show "res = Inr (p \<in> registered r)" "registered r' = registered r - {p}" "registry_ok h r'"
    if "unregisterEntry p r h = (res, r')"
    using unregister_entry_set [OF ok that] by blast+
qed

theorem registry_refines_set_witness:
  "lookupEntryByNSID 107 (fst (snd (registerEntry 7 False empty_registry demo_store))) = Inr (Some 7)"
proof -
  obtain res r' h' where reg: "registerEntry 7 False empty_registry demo_store = (res, r', h')"
    by (metis prod_cases3)
  have "registry_ok h' r' \<and> 7 \<in> registered r'"
    using registry_refines_set [OF empty_registry_ok, where p = 7 and h = demo_store and res = res and r' = r' and h' = h'] reg
    by (simp add: Let_def registered_def empty_registry_def EternalIDInvalid_def)
  moreover have "ent_nsid (h' 7) = 107"
    using reg demo_register by (auto simp: demo_store_def)
  ultimately have "lookupEntryByNSID 107 r' = Inr (Some 7)"
    using registry_refines_set [where h = h' and r = r' and p = 7 and n = 107] by blast
  with reg show ?thesis by simp
qed

text \<open>An eternal ID names at most one entry for ever. If, after any number of further
  operations, an eternal ID that had already been handed out leads to an entry, it led to the
  same entry before: a stale eternal ID is either still valid or found to be gone, and it is
  never given to another entry.\<close>

lemma eternal_id_never_reused:
  assumes ok: "registry_ok h r" and run: "registry_step\<^sup>*\<^sup>* (h, r) (h', r')"
    and "e < reg_eternalCounter r" and found: "lookupEntryByEternalID e r' = Inr (Some p)"
  shows "lookupEntryByEternalID e r = Inr (Some p)"
proof -
  from registry_run_grows [OF run] ok have grows: "registry_grows h r h' r'" by simp
  then have ok': "registry_ok h' r'" by (simp add: registry_grows_def)
  from found registry_ok_unlocked [OF ok'] have "map_of (reg_emap r') e = Some p"
    by (simp add: lookupEntryByEternalID_def lock_shared_def)
  with by_eternalID.find_iff [OF ok'] have "p \<in> registered r'" "ent_eternalID (h' p) = e" by simp_all
  with grows \<open>e < _\<close> have "p \<in> registered r \<and> ent_eternalID (h p) = e"
    by (auto simp: registry_grows_def)
  with by_eternalID.find_iff [OF ok] registry_ok_unlocked [OF ok] show ?thesis
    by (simp add: lookupEntryByEternalID_def lock_shared_def)
qed

text \<open>While a factory runs inside \<open>registerIfAbsent\<close>, the lookups return what the registry
  holds although the lock is taken. If the factory throws, nothing is registered and the lock is
  released, but the flag that disables locking in lookups stays set, so later lookups of this
  thread read the maps even while the lock is held.\<close>

lemma registerIfAbsent_factory_lookups:
  assumes ok: "registry_ok h r" and absent: "\<forall>q \<in> registered r. ent_nsid (h q) \<noteq> nsid"
  shows "registerIfAbsent nsid fac r h =
      (case fac (registering r) h of
         (Inl e, h1) \<Rightarrow> (Inl e, r\<lparr>reg_registeringWithLockHeld := True\<rparr>, h1)
       | (Inr None, h1) \<Rightarrow> (Inr None, r, h1)
       | (Inr (Some p), h1) \<Rightarrow> (let (r', h2) = enter_maps p r h1 in (Inr (Some p), r', h2))) \<and>
    lookupEntryByID i (registering r) = lookupEntryByID i r \<and>
    lookupEntryByNSID n (registering r) = lookupEntryByNSID n r \<and>
    lookupEntryByEternalID e (registering r) = lookupEntryByEternalID e r \<and>
    lookupEntryByID i (r\<lparr>reg_rwlock := True, reg_registeringWithLockHeld := b\<rparr>) =
      (if b then lookupEntryByID i r else Inl Deadlock)"
proof -
  from absent have "map_of (reg_nsmap r) nsid = None" by (simp add: by_nsid.find_none_iff [OF ok])
  from registerIfAbsent_absent [OF ok this] registry_ok_unlocked [OF ok] show ?thesis
    by (simp add: lookupEntryByID_def lookupEntryByNSID_def lookupEntryByEternalID_def
        lock_shared_def registering_def)
qed

text \<open>Registering with \<open>replace\<close> an entry whose ID is taken, as kernel threads do, which all
  have ID -1, leaves the older entry in the other two maps; \<open>unregisterEntry\<close> then refuses to
  remove the older entry, which stays reachable by namespace ID and eternal ID.\<close>

lemma replace_orphans_entry:
  assumes ok: "registry_ok h r" and q: "q \<in> registered r" and p: "p \<notin> registered r"
    and same: "ent_id (h p) = ent_id (h q)" and other: "ent_nsid (h p) \<noteq> ent_nsid (h q)"
    and counter: "ent_eternalID (h q) \<noteq> reg_eternalCounter r"
    and reg: "registerEntry p True r h = (res, r', h')"
  shows "res = Inr True \<and> unregisterEntry q r' h' = (Inr False, r') \<and>
    lookupEntryByID (ent_id (h q)) r' = Inr (Some p) \<and>
    lookupEntryByNSID (ent_nsid (h q)) r' = Inr (Some q) \<and>
    lookupEntryByEternalID (ent_eternalID (h q)) r' = Inr (Some q)"
proof -
  have "p \<noteq> q" using p q by blast
  then show ?thesis
    using reg registry_ok_unlocked [OF ok] registered_in_maps [OF ok q] same other counter
    by (auto simp: registerEntry_def lock_defs enter_maps_def Let_def unregisterEntry_def alist_simps
        lookupEntryByID_def lookupEntryByNSID_def lookupEntryByEternalID_def)
qed

definition kernel_threads :: "entry store" where
  "kernel_threads p = \<lparr>ent_id = - 1, ent_nsid = int p, ent_eternalID = 0\<rparr>"

definition one_kernel_thread :: registry where
  "one_kernel_thread = \<lparr>reg_map = [(- 1, 7)], reg_nsmap = [(7, 7)], reg_emap = [(0, 7)],
     reg_eternalCounter = 1, reg_rwlock = False, reg_registeringWithLockHeld = False\<rparr>"

end
