(* ===== verification/Message.thy ===== *)
theory Message
  imports Prelude
begin

text \<open>
  Messages on the server's Unix sockets (\<open>src/message.cpp\<close>, classes \<open>Address\<close> and
  \<open>Message\<close>) and the owning file descriptor wrapper \<open>FD\<close> of \<open>src/utility.cpp\<close>. The control
  data of a message is the sequence of headers that the \<open>CMSG_FIRSTHDR\<close> and \<open>CMSG_NXTHDR\<close>
  walk visits; the data behind a header is a list of four-byte cells, three for credentials and
  one per descriptor. A cell that \<open>malloc\<close> returned and nothing has written is \<open>None\<close>, and
  reading it is undefined. Closing a descriptor is an output of the operations that do it.
\<close>

section \<open>Model\<close>

type_synonym fd = u32

definition no_fd :: fd where
  "no_fd = - 1"

record address =
  addr_sun_path :: "u8 list"
  addr_size :: nat

definition Address_new :: address where
  "Address_new = \<lparr>addr_sun_path = replicate 108 0, addr_size = 110\<rparr>"

definition Address_of_raw :: "u8 list \<Rightarrow> nat \<Rightarrow> address" where
  "Address_of_raw rawAddress addressLength = \<lparr>addr_sun_path = rawAddress, addr_size = addressLength\<rparr>"

definition setRawSize :: "nat \<Rightarrow> address \<Rightarrow> address" where
  "setRawSize newRawSize a = a\<lparr>addr_size := newRawSize\<rparr>"

text \<open>The size macros of \<open>sys/socket.h\<close> on a 64-bit system; a control header has 16 bytes.\<close>

definition CMSG_ALIGN :: "nat \<Rightarrow> nat" where
  "CMSG_ALIGN n = (n + 7) div 8 * 8"

definition CMSG_SPACE :: "nat \<Rightarrow> nat" where
  "CMSG_SPACE n = CMSG_ALIGN n + CMSG_ALIGN 16"

definition CMSG_LEN :: "nat \<Rightarrow> nat" where
  "CMSG_LEN n = CMSG_ALIGN 16 + n"

abbreviation sizeof_int :: nat where "sizeof_int \<equiv> 4"
abbreviation sizeof_ucred :: nat where "sizeof_ucred \<equiv> 12"
abbreviation SOL_SOCKET :: int where "SOL_SOCKET \<equiv> 1"
abbreviation SCM_RIGHTS :: int where "SCM_RIGHTS \<equiv> 1"
abbreviation SCM_CREDENTIALS :: int where "SCM_CREDENTIALS \<equiv> 2"

record cmsghdr =
  cmsg_level :: int
  cmsg_type :: int
  cmsg_data :: "u32 option list"

definition cmsg_len :: "cmsghdr \<Rightarrow> nat" where
  "cmsg_len hdr = CMSG_LEN (sizeof_int * length (cmsg_data hdr))"

record ucred =
  cred_pid :: u32
  cred_uid :: u32
  cred_gid :: u32

definition ucred_cells :: "ucred \<Rightarrow> u32 option list" where
  "ucred_cells c = [Some (cred_pid c), Some (cred_uid c), Some (cred_gid c)]"

text \<open>
  A message: its data buffer, the length the I/O vector announces for it, the peer address and
  the length announced for it, whether the control buffer pointer is set, what the control
  pointer of the header leads to and its length, and the callback.
\<close>

record message =
  msg_buffer :: "u8 list"
  msg_iov_len :: nat
  msg_address :: address
  msg_namelen :: nat
  msg_controlHeader :: bool
  msg_control :: "cmsghdr list"
  msg_controllen :: nat
  msg_callback :: "nat option"

text \<open>What a message needs of the system: the process's credentials, and which allocations succeed.\<close>

record os_env =
  os_creds :: ucred
  os_malloc :: "nat \<Rightarrow> bool"

definition credentials_hdr :: "ucred \<Rightarrow> cmsghdr" where
  "credentials_hdr c = \<lparr>cmsg_level = SOL_SOCKET, cmsg_type = SCM_CREDENTIALS, cmsg_data = ucred_cells c\<rparr>"

definition rights_hdr :: "u32 option list \<Rightarrow> cmsghdr" where
  "rights_hdr cells = \<lparr>cmsg_level = SOL_SOCKET, cmsg_type = SCM_RIGHTS, cmsg_data = cells\<rparr>"

definition Message_new :: "os_env \<Rightarrow> nat \<Rightarrow> nat \<Rightarrow> nat option \<Rightarrow> message result" where
  "Message_new env bufferSpace descriptorSpace callback =
     (let controlLen = CMSG_SPACE sizeof_ucred +
            (if descriptorSpace > 0 then CMSG_SPACE (sizeof_int * descriptorSpace) else 0)
      in if \<not> os_malloc env controlLen then Inl Bad_alloc
         else Inr \<lparr>msg_buffer = replicate bufferSpace 0, msg_iov_len = bufferSpace,
           msg_address = Address_new, msg_namelen = addr_size Address_new,
           msg_controlHeader = True,
           msg_control = credentials_hdr (os_creds env) #
             (if descriptorSpace > 0 then [rights_hdr (replicate descriptorSpace (Some no_fd))] else []),
           msg_controllen = controlLen, msg_callback = callback\<rparr>)"

definition is_credentials :: "cmsghdr \<Rightarrow> bool" where
  "is_credentials hdr \<longleftrightarrow> cmsg_level hdr = SOL_SOCKET \<and> cmsg_type hdr = SCM_CREDENTIALS"

definition is_rights :: "cmsghdr \<Rightarrow> bool" where
  "is_rights hdr \<longleftrightarrow> cmsg_level hdr = SOL_SOCKET \<and> cmsg_type hdr = SCM_RIGHTS"

fun walk_headers :: "(cmsghdr \<Rightarrow> bool) \<Rightarrow> cmsghdr list \<Rightarrow> cmsghdr option" where
  "walk_headers P [] = None"
| "walk_headers P (hdr # rest) = (if P hdr then Some hdr else walk_headers P rest)"

definition credentialsHeader :: "message \<Rightarrow> cmsghdr option" where
  "credentialsHeader m = walk_headers is_credentials (msg_control m)"

definition descriptorHeader :: "message \<Rightarrow> cmsghdr option" where
  "descriptorHeader m = walk_headers is_rights (msg_control m)"

definition descriptorSpace :: "message \<Rightarrow> nat" where
  "descriptorSpace m =
     (case descriptorHeader m of None \<Rightarrow> 0
      | Some hdr \<Rightarrow> (cmsg_len hdr - CMSG_LEN 0) div sizeof_int)"

text \<open>Reading one cell of the descriptor array; writing through the pointer to a header.\<close>

definition read_cell :: "cmsghdr \<Rightarrow> nat \<Rightarrow> u32 result" where
  "read_cell hdr i =
     (if i < length (cmsg_data hdr)
      then (case cmsg_data hdr ! i of None \<Rightarrow> Inl (Undefined_behaviour ''uninitialised'') | Some v \<Rightarrow> Inr v)
      else Inl (Undefined_behaviour ''out of bounds''))"

fun update_header :: "(cmsghdr \<Rightarrow> bool) \<Rightarrow> (cmsghdr \<Rightarrow> cmsghdr) \<Rightarrow> cmsghdr list \<Rightarrow> cmsghdr list" where
  "update_header P f [] = []"
| "update_header P f (hdr # rest) = (if P hdr then f hdr # rest else hdr # update_header P f rest)"

definition write_cell :: "nat \<Rightarrow> u32 \<Rightarrow> message \<Rightarrow> message" where
  "write_cell i v m = m\<lparr>msg_control :=
     update_header is_rights (\<lambda>hdr. hdr\<lparr>cmsg_data := (cmsg_data hdr)[i := Some v]\<rparr>) (msg_control m)\<rparr>"

text \<open>The descriptors from cell \<open>i\<close> on, in the order of the loops that collect or close them.\<close>

function collect_fds :: "cmsghdr \<Rightarrow> nat \<Rightarrow> nat \<Rightarrow> fd list result" where
  "collect_fds hdr space i =
     (if i < space
      then (case read_cell hdr i of
              Inl e \<Rightarrow> Inl e
            | Inr fd \<Rightarrow>
                (case collect_fds hdr space (Suc i) of
                   Inl e \<Rightarrow> Inl e
                 | Inr fds \<Rightarrow> Inr (if fd \<noteq> no_fd then fd # fds else fds)))
      else Inr [])"
  by auto
termination by (relation "measure (\<lambda>(hdr, space, i). space - i)") auto

declare collect_fds.simps [simp del]

definition descriptors :: "message \<Rightarrow> fd list result" where
  "descriptors m =
     (case descriptorHeader m of None \<Rightarrow> Inr []
      | Some hdr \<Rightarrow> collect_fds hdr (descriptorSpace m) 0)"

text \<open>Releasing a message: the descriptors it closes, and the message without a control buffer.\<close>

definition cleanupSelf :: "message \<Rightarrow> (fd list \<times> message) result" where
  "cleanupSelf m =
     (if msg_controlHeader m
      then (case (case descriptorHeader m of None \<Rightarrow> Inr []
                  | Some hdr \<Rightarrow> collect_fds hdr (descriptorSpace m) 0) of
              Inl e \<Rightarrow> Inl e
            | Inr closed \<Rightarrow> Inr (closed, m\<lparr>msg_controlHeader := False\<rparr>))
      else Inr ([], m))"

text \<open>Taking over another message: the new value of this one and what is left of the other.\<close>

definition initWithOther :: "message \<Rightarrow> message \<times> message" where
  "initWithOther other =
     (\<lparr>msg_buffer = msg_buffer other, msg_iov_len = length (msg_buffer other),
        msg_address = msg_address other, msg_namelen = msg_namelen other,
        msg_controlHeader = msg_controlHeader other, msg_control = msg_control other,
        msg_controllen = msg_controllen other, msg_callback = msg_callback other\<rparr>,
      other\<lparr>msg_callback := None, msg_buffer := [], msg_controlHeader := False\<rparr>)"

definition Message_assign :: "message \<Rightarrow> message \<Rightarrow> (fd list \<times> message \<times> message) result" where
  "Message_assign this other =
     (case cleanupSelf this of
        Inl e \<Rightarrow> Inl e
      | Inr (closed, _) \<Rightarrow> (let (this', other') = initWithOther other in Inr (closed, this', other')))"

definition setAddress :: "address \<Rightarrow> message \<Rightarrow> message" where
  "setAddress a m = m\<lparr>msg_address := a, msg_namelen := addr_size a\<rparr>"

definition ensureCredentialsHeader :: "os_env \<Rightarrow> message \<Rightarrow> message result" where
  "ensureCredentialsHeader env m =
     (case credentialsHeader m of
        Some _ \<Rightarrow> Inr m
      | None \<Rightarrow>
          (let fdHeader = descriptorHeader m;
               descSpace = descriptorSpace m;
               controlLen = CMSG_SPACE sizeof_ucred +
                 (if descSpace > 0 then CMSG_SPACE (sizeof_int * descSpace) else 0)
           in if \<not> os_malloc env controlLen then Inl Bad_alloc
              else Inr (m\<lparr>msg_controlHeader := True,
                msg_control := credentials_hdr (os_creds env) #
                  (if descSpace > 0 then (case fdHeader of None \<Rightarrow> [] | Some hdr \<Rightarrow> [hdr]) else []),
                msg_controllen := controlLen\<rparr>)))"

text \<open>
  The new descriptor array is fresh memory: the loop fills the cells from the old size up, and
  no cell of the old array is copied.
\<close>

definition ensureDescriptorHeader :: "os_env \<Rightarrow> nat \<Rightarrow> message \<Rightarrow> message result" where
  "ensureDescriptorHeader env newSpace m =
     (if descriptorSpace m = newSpace then Inr m
      else
        (let credHeader = credentialsHeader m;
             oldSpace = descriptorSpace m;
             controlLen = (if credHeader \<noteq> None then CMSG_SPACE sizeof_ucred else 0) +
               (if newSpace = 0 then 0 else CMSG_SPACE (sizeof_int * newSpace))
         in if controlLen = 0
            then Inr (m\<lparr>msg_controlHeader := False, msg_control := [], msg_controllen := 0\<rparr>)
            else if \<not> os_malloc env controlLen then Inl Bad_alloc
            else Inr (m\<lparr>msg_controlHeader := True,
              msg_control := (case credHeader of None \<Rightarrow> [] | Some hdr \<Rightarrow> [hdr]) @
                (if newSpace > 0
                 then [rights_hdr (map (\<lambda>i. if oldSpace \<le> i then Some no_fd else None) [0..<newSpace])]
                 else []),
              msg_controllen := controlLen\<rparr>)))"

text \<open>The first cell from \<open>i\<close> on whose value satisfies a test.\<close>

function find_cell :: "(u32 \<Rightarrow> bool) \<Rightarrow> cmsghdr \<Rightarrow> nat \<Rightarrow> nat \<Rightarrow> nat option result" where
  "find_cell test hdr space i =
     (if i < space
      then (case read_cell hdr i of
              Inl e \<Rightarrow> Inl e
            | Inr fd \<Rightarrow> (if test fd then Inr (Some i) else find_cell test hdr space (Suc i)))
      else Inr None)"
  by auto
termination by (relation "measure (\<lambda>(test, hdr, space, i). space - i)") auto

declare find_cell.simps [simp del]

definition grow_and_push :: "os_env \<Rightarrow> fd \<Rightarrow> message \<Rightarrow> message result" where
  "grow_and_push env descriptor m =
     (let oldSpace = descriptorSpace m in
      case ensureDescriptorHeader env (oldSpace + 1) m of
        Inl e \<Rightarrow> Inl e
      | Inr m' \<Rightarrow> Inr (write_cell oldSpace descriptor m'))"

definition pushDescriptor :: "os_env \<Rightarrow> fd \<Rightarrow> message \<Rightarrow> message result" where
  "pushDescriptor env descriptor m =
     (case descriptorHeader m of
        Some hdr \<Rightarrow>
          (case find_cell (\<lambda>fd. fd = no_fd) hdr (descriptorSpace m) 0 of
             Inl e \<Rightarrow> Inl e
           | Inr (Some i) \<Rightarrow> Inr (write_cell i descriptor m)
           | Inr None \<Rightarrow> grow_and_push env descriptor m)
      | None \<Rightarrow> grow_and_push env descriptor m)"

definition extractDescriptor :: "fd \<Rightarrow> message \<Rightarrow> (fd \<times> message) result" where
  "extractDescriptor descriptor m =
     (case descriptorHeader m of
        None \<Rightarrow> Inr (no_fd, m)
      | Some hdr \<Rightarrow>
          (case find_cell (\<lambda>fd. fd = descriptor) hdr (descriptorSpace m) 0 of
             Inl e \<Rightarrow> Inl e
           | Inr (Some i) \<Rightarrow> Inr (descriptor, write_cell i no_fd m)
           | Inr None \<Rightarrow> Inr (no_fd, m)))"

function find_present :: "cmsghdr \<Rightarrow> nat \<Rightarrow> nat \<Rightarrow> nat \<Rightarrow> nat \<Rightarrow> (nat \<times> fd) option result" where
  "find_present hdr space index i presentIndex =
     (if i < space
      then (case read_cell hdr i of
              Inl e \<Rightarrow> Inl e
            | Inr fd \<Rightarrow>
                (if fd = no_fd then find_present hdr space index (Suc i) presentIndex
                 else if presentIndex \<noteq> index
                 then find_present hdr space index (Suc i) (Suc presentIndex)
                 else Inr (Some (i, fd))))
      else Inr None)"
  by auto
termination by (relation "measure (\<lambda>(hdr, space, index, i, presentIndex). space - i)") auto

declare find_present.simps [simp del]

definition extractDescriptorAtIndex :: "nat \<Rightarrow> message \<Rightarrow> (fd \<times> message) result" where
  "extractDescriptorAtIndex index m =
     (case descriptorHeader m of
        None \<Rightarrow> Inr (no_fd, m)
      | Some hdr \<Rightarrow>
          (case find_present hdr (descriptorSpace m) index 0 0 of
             Inl e \<Rightarrow> Inl e
           | Inr (Some (i, fd)) \<Rightarrow> Inr (fd, write_cell i no_fd m)
           | Inr None \<Rightarrow> Inr (no_fd, m)))"

definition replaceDescriptors :: "os_env \<Rightarrow> fd list \<Rightarrow> message \<Rightarrow> message result" where
  "replaceDescriptors env newDescriptors m =
     (case ensureDescriptorHeader env (length newDescriptors) m of
        Inl e \<Rightarrow> Inl e
      | Inr m' \<Rightarrow> Inr (m'\<lparr>msg_control := update_header is_rights
          (\<lambda>hdr. hdr\<lparr>cmsg_data := map Some newDescriptors @ drop (length newDescriptors) (cmsg_data hdr)\<rparr>)
          (msg_control m')\<rparr>))"

definition copyCredentialsOut :: "message \<Rightarrow> ucred option result" where
  "copyCredentialsOut m =
     (case credentialsHeader m of
        None \<Rightarrow> Inr None
      | Some hdr \<Rightarrow>
          (case (read_cell hdr 0, read_cell hdr 1, read_cell hdr 2) of
             (Inr p, Inr u, Inr g) \<Rightarrow> Inr (Some \<lparr>cred_pid = p, cred_uid = u, cred_gid = g\<rparr>)
           | _ \<Rightarrow> Inl (Undefined_behaviour ''credentials'')))"

definition copyCredentialsIn :: "os_env \<Rightarrow> ucred \<Rightarrow> message \<Rightarrow> message result" where
  "copyCredentialsIn env inputCredentials m =
     (case ensureCredentialsHeader env m of
        Inl e \<Rightarrow> Inl e
      | Inr m' \<Rightarrow> Inr (m'\<lparr>msg_control := update_header is_credentials
          (\<lambda>hdr. hdr\<lparr>cmsg_data := ucred_cells inputCredentials @ drop 3 (cmsg_data hdr)\<rparr>)
          (msg_control m')\<rparr>))"

text \<open>The accessors of the single credentials; an absent header reads as -1.\<close>

definition get_cred :: "(ucred \<Rightarrow> u32) \<Rightarrow> message \<Rightarrow> u32 result" where
  "get_cred f m = (case copyCredentialsOut m of Inl e \<Rightarrow> Inl e
     | Inr None \<Rightarrow> Inr (- 1) | Inr (Some creds) \<Rightarrow> Inr (f creds))"

definition set_cred :: "os_env \<Rightarrow> (ucred \<Rightarrow> ucred) \<Rightarrow> message \<Rightarrow> message result" where
  "set_cred env f m =
     (case ensureCredentialsHeader env m of
        Inl e \<Rightarrow> Inl e
      | Inr m1 \<Rightarrow>
          (case copyCredentialsOut m1 of
             Inl e \<Rightarrow> Inl e
           | Inr None \<Rightarrow> Inl (Undefined_behaviour ''uninitialised'')
           | Inr (Some creds) \<Rightarrow> copyCredentialsIn env (f creds) m1))"

definition Message_pid :: "message \<Rightarrow> u32 result" where
  "Message_pid = get_cred cred_pid"

definition Message_uid :: "message \<Rightarrow> u32 result" where
  "Message_uid = get_cred cred_uid"

definition Message_gid :: "message \<Rightarrow> u32 result" where
  "Message_gid = get_cred cred_gid"

definition setPID :: "os_env \<Rightarrow> u32 \<Rightarrow> message \<Rightarrow> message result" where
  "setPID env p = set_cred env (\<lambda>creds. creds\<lparr>cred_pid := p\<rparr>)"

definition setUID :: "os_env \<Rightarrow> u32 \<Rightarrow> message \<Rightarrow> message result" where
  "setUID env u = set_cred env (\<lambda>creds. creds\<lparr>cred_uid := u\<rparr>)"

definition setGID :: "os_env \<Rightarrow> u32 \<Rightarrow> message \<Rightarrow> message result" where
  "setGID env g = set_cred env (\<lambda>creds. creds\<lparr>cred_gid := g\<rparr>)"

text \<open>The owning descriptor wrapper; its value is the descriptor it owns, or -1.\<close>

definition FD_dtor :: "fd \<Rightarrow> fd list" where
  "FD_dtor this = (if this \<noteq> no_fd then [this] else [])"

definition FD_move :: "fd \<Rightarrow> fd \<times> fd" where
  "FD_move other = (other, no_fd)"

definition FD_assign :: "fd \<Rightarrow> fd \<Rightarrow> fd list \<times> fd \<times> fd" where
  "FD_assign this other = (if this \<noteq> no_fd then [this] else [], other, no_fd)"

definition FD_extract :: "fd \<Rightarrow> fd \<times> fd" where
  "FD_extract this = (this, no_fd)"

definition FD_bool :: "fd \<Rightarrow> bool" where
  "FD_bool this \<longleftrightarrow> this \<noteq> no_fd"

section \<open>Control data\<close>

named_theorems control_simps \<open>walking and updating control headers\<close>

lemma length_ucred_cells [simp]: "length (ucred_cells c) = 3"
  by (simp add: ucred_cells_def)

lemma ucred_cells_exists [simp]: "\<exists>c'. ucred_cells c = ucred_cells c'"
  by (rule exI [of _ c]) (rule refl)

lemma rights_not_credentials [simp]:
  "is_rights hdr \<Longrightarrow> \<not> is_credentials hdr" "is_credentials hdr \<Longrightarrow> \<not> is_rights hdr"
  by (simp_all add: is_rights_def is_credentials_def)

lemma header_kinds [simp]:
  "is_credentials (credentials_hdr c)" "\<not> is_rights (credentials_hdr c)"
  "is_rights (rights_hdr cs)" "\<not> is_credentials (rights_hdr cs)"
  "is_rights (hdr\<lparr>cmsg_data := cs\<rparr>) = is_rights hdr"
  "is_credentials (hdr\<lparr>cmsg_data := cs\<rparr>) = is_credentials hdr"
  "cmsg_data (credentials_hdr c) = ucred_cells c" "cmsg_data (rights_hdr cs) = cs"
  by (simp_all add: credentials_hdr_def rights_hdr_def is_rights_def is_credentials_def)

lemma walk_update_same [control_simps]:
  "(\<And>hdr. P (f hdr) = P hdr) \<Longrightarrow> walk_headers P (update_header P f hs) = map_option f (walk_headers P hs)"
  by (induction hs) auto

lemma walk_update_other [control_simps]:
  "(\<And>hdr. Q (f hdr) = Q hdr) \<Longrightarrow> (\<And>hdr. P hdr \<Longrightarrow> \<not> Q hdr) \<Longrightarrow>
   walk_headers Q (update_header P f hs) = walk_headers Q hs"
  by (induction hs) auto

lemma walk_headers_append [control_simps]:
  "walk_headers P (xs @ ys) = (case walk_headers P xs of None \<Rightarrow> walk_headers P ys | Some h \<Rightarrow> Some h)"
  by (induction xs) auto

lemma walk_headers_sat: "walk_headers P hs = Some h \<Longrightarrow> P h \<and> h \<in> set hs"
  by (induction hs) (auto split: if_splits)

definition hdr_space :: "cmsghdr \<Rightarrow> nat" where
  "hdr_space hdr = CMSG_SPACE (sizeof_int * length (cmsg_data hdr))"

lemma hdr_space_update [control_simps]:
  "(\<And>hdr. walk_headers P hs = Some hdr \<Longrightarrow> length (cmsg_data (f hdr)) = length (cmsg_data hdr)) \<Longrightarrow>
   map hdr_space (update_header P f hs) = map hdr_space hs"
  by (induction hs) (auto simp: hdr_space_def)

lemma CMSG_SPACE_pos [simp]: "0 < CMSG_SPACE n" "CMSG_SPACE n \<noteq> 0"
  by (simp_all add: CMSG_SPACE_def CMSG_ALIGN_def)

lemma CMSG_fits: "CMSG_LEN n \<le> CMSG_SPACE n" "8 dvd CMSG_SPACE n"
proof -
  have "n \<le> (n + 7) div 8 * 8" by presburger
  then show "CMSG_LEN n \<le> CMSG_SPACE n" by (simp add: CMSG_LEN_def CMSG_SPACE_def CMSG_ALIGN_def)
  show "8 dvd CMSG_SPACE n" by (simp add: CMSG_SPACE_def CMSG_ALIGN_def)
qed

section \<open>The descriptor array\<close>

definition cells :: "message \<Rightarrow> u32 option list" where
  "cells m = (case descriptorHeader m of None \<Rightarrow> [] | Some hdr \<Rightarrow> cmsg_data hdr)"

definition present :: "u32 option list \<Rightarrow> fd list" where
  "present cs = filter (\<lambda>fd. fd \<noteq> no_fd) (map the cs)"

abbreviation fds :: "message \<Rightarrow> fd list" where
  "fds m \<equiv> present (cells m)"

lemma descriptorSpace_length: "descriptorSpace m = length (cells m)"
  by (simp add: descriptorSpace_def cells_def cmsg_len_def CMSG_LEN_def split: option.splits)

lemma present_append [simp]: "present (xs @ ys) = present xs @ present ys"
  by (simp add: present_def)

lemma present_simps [simp]:
  "present [] = []" "present (Some v # cs) = (if v = no_fd then present cs else v # present cs)"
  "present (replicate n (Some no_fd)) = []"
  by (simp_all add: present_def)

lemma collect_fds_drop:
  assumes "i \<le> length (cmsg_data hdr)"
  shows "collect_fds hdr (length (cmsg_data hdr)) i =
    (if None \<in> set (drop i (cmsg_data hdr)) then Inl (Undefined_behaviour ''uninitialised'')
     else Inr (present (drop i (cmsg_data hdr))))"
  using assms
proof (induction "length (cmsg_data hdr) - i" arbitrary: i)
  case 0
  then show ?case by (simp add: collect_fds.simps)
next
  case (Suc n)
  then have i: "i < length (cmsg_data hdr)" by simp
  then have "drop i (cmsg_data hdr) = cmsg_data hdr ! i # drop (Suc i) (cmsg_data hdr)"
    by (simp add: Cons_nth_drop_Suc)
  with Suc.hyps(1) [of "Suc i"] Suc.hyps(2) i show ?case
    by (subst collect_fds.simps) (auto simp: read_cell_def split: option.splits)
qed

lemma descriptors_fds:
  "descriptors m = (if None \<in> set (cells m) then Inl (Undefined_behaviour ''uninitialised'')
     else Inr (fds m))"
  by (simp add: descriptors_def descriptorSpace_length collect_fds_drop cells_def split: option.splits)

lemma cleanupSelf_fds:
  "None \<notin> set (cells m) \<Longrightarrow> cleanupSelf m =
     Inr (if msg_controlHeader m then fds m else [], m\<lparr>msg_controlHeader := False\<rparr>)"
  by (simp add: cleanupSelf_def descriptorSpace_length collect_fds_drop cells_def split: option.splits)

lemma find_cell_result:
  assumes "None \<notin> set (cmsg_data hdr)" and "i \<le> length (cmsg_data hdr)"
  shows "find_cell test hdr (length (cmsg_data hdr)) i = Inr None \<and>
      (\<forall>k. i \<le> k \<longrightarrow> k < length (cmsg_data hdr) \<longrightarrow> \<not> test (the (cmsg_data hdr ! k))) \<or>
    (\<exists>j. find_cell test hdr (length (cmsg_data hdr)) i = Inr (Some j) \<and>
      j < length (cmsg_data hdr) \<and> test (the (cmsg_data hdr ! j)))"
  using assms(2)
proof (induction "length (cmsg_data hdr) - i" arbitrary: i)
  case 0
  then show ?case by (simp add: find_cell.simps)
next
  case (Suc n)
  then have i: "i < length (cmsg_data hdr)" by simp
  with assms(1) obtain v where v: "cmsg_data hdr ! i = Some v" by (metis nth_mem option.exhaust)
  with i have step: "find_cell test hdr (length (cmsg_data hdr)) i =
      (if test v then Inr (Some i) else find_cell test hdr (length (cmsg_data hdr)) (Suc i))"
    by (subst find_cell.simps) (simp add: read_cell_def)
  show ?case
  proof (cases "test v")
    case True
    with step i v show ?thesis by auto
  next
    case False
    have later: "i \<le> k \<longleftrightarrow> k = i \<or> Suc i \<le> k" for k by auto
    from Suc.hyps(2) i have "n = length (cmsg_data hdr) - Suc i" by simp
    from Suc.hyps(1) [OF this] i False show ?thesis
      unfolding step by (auto simp: v later)
  qed
qed

lemma present_nth_split:
  assumes "j < length cs" and "None \<notin> set cs"
  shows "present cs = present (take j cs) @
    (if the (cs ! j) = no_fd then [] else [the (cs ! j)]) @ present (drop (Suc j) cs)"
proof -
  obtain v where v: "cs ! j = Some v" using assms by (metis nth_mem option.exhaust)
  have "cs = take j cs @ [cs ! j] @ drop (Suc j) cs"
    using assms(1) by (simp add: Cons_nth_drop_Suc)
  then have "present cs = present (take j cs @ [cs ! j] @ drop (Suc j) cs)" by (rule arg_cong)
  then show ?thesis by (simp add: v)
qed

lemma present_update:
  assumes "j < length cs"
  shows "present (cs[j := Some v]) = present (take j cs) @
    (if v = no_fd then [] else [v]) @ present (drop (Suc j) cs)"
  using assms by (simp add: upd_conv_take_nth_drop)

lemma find_present_result:
  assumes init: "None \<notin> set (cmsg_data hdr)" and "i \<le> length (cmsg_data hdr)"
    and "length (present (take i (cmsg_data hdr))) \<le> index"
  shows "find_present hdr (length (cmsg_data hdr)) index i (length (present (take i (cmsg_data hdr)))) = Inr None
      \<and> length (present (cmsg_data hdr)) \<le> index \<or>
    (\<exists>j < length (cmsg_data hdr).
      find_present hdr (length (cmsg_data hdr)) index i (length (present (take i (cmsg_data hdr))))
        = Inr (Some (j, the (cmsg_data hdr ! j))) \<and>
      the (cmsg_data hdr ! j) \<noteq> no_fd \<and> length (present (take j (cmsg_data hdr))) = index)"
  using assms(2,3)
proof (induction "length (cmsg_data hdr) - i" arbitrary: i)
  case 0
  then show ?case by (simp add: find_present.simps)
next
  case (Suc n)
  then have i: "i < length (cmsg_data hdr)" by simp
  with init obtain v where v: "cmsg_data hdr ! i = Some v" by (metis nth_mem option.exhaust)
  have n: "n = length (cmsg_data hdr) - Suc i" using Suc.hyps(2) by simp
  have take: "present (take (Suc i) (cmsg_data hdr)) =
      present (take i (cmsg_data hdr)) @ (if v = no_fd then [] else [v])"
    using i by (simp add: take_Suc_conv_app_nth v)
  let ?k = "length (present (take i (cmsg_data hdr)))"
  have step: "find_present hdr (length (cmsg_data hdr)) index i ?k =
      (if v \<noteq> no_fd \<and> ?k = index then Inr (Some (i, v))
       else find_present hdr (length (cmsg_data hdr)) index (Suc i)
         (length (present (take (Suc i) (cmsg_data hdr)))))"
    using i by (subst find_present.simps) (simp add: read_cell_def v take)
  show ?case
  proof (cases "v \<noteq> no_fd \<and> ?k = index")
    case True
    with i v step show ?thesis by auto
  next
    case False
    then have "length (present (take (Suc i) (cmsg_data hdr))) \<le> index"
      using Suc.prems(2) by (auto simp: take)
    from Suc.hyps(1) [OF n _ this] i False show ?thesis unfolding step by auto
  qed
qed

section \<open>Well-formed messages\<close>

definition message_ok :: "message \<Rightarrow> bool" where
  "message_ok m \<longleftrightarrow> None \<notin> set (cells m) \<and>
     (\<forall>hdr. credentialsHeader m = Some hdr \<longrightarrow> (\<exists>c. cmsg_data hdr = ucred_cells c)) \<and>
     msg_controllen m = sum_list (map hdr_space (msg_control m)) \<and>
     (msg_control m \<noteq> [] \<longrightarrow> msg_controlHeader m)"

lemma message_ok_initialised: "message_ok m \<Longrightarrow> None \<notin> set (cells m)"
  by (simp add: message_ok_def)

lemma update_header_nil [simp]: "update_header P f hs = [] \<longleftrightarrow> hs = []"
  by (cases hs) auto

lemma write_cell_headers:
  "descriptorHeader (write_cell i v m) =
     map_option (\<lambda>hdr. hdr\<lparr>cmsg_data := (cmsg_data hdr)[i := Some v]\<rparr>) (descriptorHeader m)"
  "credentialsHeader (write_cell i v m) = credentialsHeader m"
  "cells (write_cell i v m) = (cells m)[i := Some v]"
  by (simp_all add: descriptorHeader_def credentialsHeader_def write_cell_def control_simps
      cells_def option.map_comp split: option.splits)

lemma write_cell_ok:
  assumes "message_ok m"
  shows "message_ok (write_cell i v m)"
proof -
  have "None \<notin> set ((cells m)[i := Some v])"
    using message_ok_initialised [OF assms] set_update_subset_insert by fastforce
  with assms show ?thesis
    by (simp add: message_ok_def write_cell_headers) (simp add: write_cell_def control_simps)
qed

lemma Message_new_ok:
  assumes "Message_new env b d cb = Inr m"
  shows "message_ok m \<and> cells m = replicate d (Some no_fd)"
  using assms
  by (auto simp: Message_new_def Let_def message_ok_def cells_def descriptorHeader_def
      credentialsHeader_def hdr_space_def split: if_splits)

lemma ensureCredentialsHeader_ok:
  assumes ok: "message_ok m" and ens: "ensureCredentialsHeader env m = Inr m'"
  shows "message_ok m' \<and> cells m' = cells m \<and> (\<exists>hdr c. credentialsHeader m' = Some hdr \<and>
    cmsg_data hdr = ucred_cells c \<and> (credentialsHeader m \<noteq> None \<longrightarrow> m' = m) \<and>
    (credentialsHeader m = None \<longrightarrow> c = os_creds env))"
proof (cases "credentialsHeader m")
  case (Some hdr)
  with assms show ?thesis by (auto simp: ensureCredentialsHeader_def message_ok_def)
next
  case None
  show ?thesis
  proof (cases "descriptorHeader m")
    case (Some hdr)
    then have "is_rights hdr" using walk_headers_sat by (auto simp: descriptorHeader_def)
    with Some None assms show ?thesis
      by (auto simp: ensureCredentialsHeader_def Let_def message_ok_def cells_def descriptorSpace_length
          descriptorHeader_def credentialsHeader_def hdr_space_def split: if_splits)
  next
    case None
    with \<open>credentialsHeader m = None\<close> assms show ?thesis
      by (auto simp: ensureCredentialsHeader_def Let_def message_ok_def cells_def descriptorSpace_length
          descriptorHeader_def credentialsHeader_def hdr_space_def split: if_splits)
  qed
qed

lemma ensureDescriptorHeader_cells:
  assumes ok: "message_ok m" and ens: "ensureDescriptorHeader env n m = Inr m'"
  shows "length (cells m') = n \<and> credentialsHeader m' = credentialsHeader m \<and>
    (n \<noteq> length (cells m) \<longrightarrow>
       cells m' = map (\<lambda>i. if length (cells m) \<le> i then Some no_fd else None) [0..<n]) \<and>
    (n = length (cells m) \<longrightarrow> m' = m) \<and>
    msg_controllen m' = sum_list (map hdr_space (msg_control m')) \<and>
    (msg_control m' \<noteq> [] \<longrightarrow> msg_controlHeader m')"
proof (cases "n = length (cells m)")
  case True
  with assms show ?thesis by (auto simp: ensureDescriptorHeader_def descriptorSpace_length message_ok_def)
next
  case False
  show ?thesis
  proof (cases "credentialsHeader m")
    case (Some hdr)
    then have "is_credentials hdr" using walk_headers_sat by (auto simp: credentialsHeader_def)
    moreover obtain c where "cmsg_data hdr = ucred_cells c" using ok Some by (auto simp: message_ok_def)
    ultimately show ?thesis
      using Some False ens
      by (auto simp: ensureDescriptorHeader_def Let_def cells_def [of m'] descriptorSpace_length
          descriptorHeader_def credentialsHeader_def hdr_space_def
          split: if_splits)
  next
    case None
    with False ens show ?thesis
      by (auto simp: ensureDescriptorHeader_def Let_def cells_def [of m'] descriptorSpace_length
          descriptorHeader_def credentialsHeader_def hdr_space_def split: if_splits)
  qed
qed

lemma cells_cases:
  "descriptorHeader m = None \<and> cells m = [] \<or>
   (\<exists>hdr. descriptorHeader m = Some hdr \<and> cells m = cmsg_data hdr)"
  by (cases "descriptorHeader m") (simp_all add: cells_def)

lemma find_cell_cells:
  assumes "message_ok m" and "descriptorHeader m = Some hdr"
  shows "find_cell test hdr (descriptorSpace m) 0 = Inr None \<and> (\<forall>v \<in> set (cells m). \<not> test (the v)) \<or>
    (\<exists>j < length (cells m). find_cell test hdr (descriptorSpace m) 0 = Inr (Some j) \<and> test (the (cells m ! j)))"
  using find_cell_result [of hdr 0 test] assms
  by (auto simp: message_ok_def cells_def descriptorSpace_length in_set_conv_nth)

lemma pushDescriptor_free:
  assumes ok: "message_ok m" and free: "Some no_fd \<in> set (cells m)"
  shows "\<exists>i < length (cells m). cells m ! i = Some no_fd \<and> pushDescriptor env d m = Inr (write_cell i d m)"
proof -
  obtain hdr where hdr: "descriptorHeader m = Some hdr" and cells: "cells m = cmsg_data hdr"
    using free cells_cases [of m] by auto
  have "\<not> (\<forall>v \<in> set (cells m). the v \<noteq> no_fd)" using free by (metis option.sel)
  with find_cell_cells [OF ok hdr, of "\<lambda>fd. fd = no_fd"] obtain j where
    j: "j < length (cells m)" "find_cell (\<lambda>fd. fd = no_fd) hdr (descriptorSpace m) 0 = Inr (Some j)"
      "the (cells m ! j) = no_fd" by auto
  moreover from j(1) message_ok_initialised [OF ok] have "cells m ! j \<noteq> None" by (metis nth_mem)
  ultimately show ?thesis by (auto simp: pushDescriptor_def hdr)
qed

lemma pushDescriptor_full:
  assumes ok: "message_ok m" and full: "Some no_fd \<notin> set (cells m)"
  shows "pushDescriptor env d m = grow_and_push env d m"
proof (cases "descriptorHeader m")
  case None
  then show ?thesis by (simp add: pushDescriptor_def)
next
  case (Some hdr)
  have "the (cells m ! j) \<noteq> no_fd" if "j < length (cells m)" for j
    using that full message_ok_initialised [OF ok] by (metis nth_mem option.exhaust_sel)
  with find_cell_cells [OF ok Some, of "\<lambda>fd. fd = no_fd"] Some show ?thesis
    by (auto simp: pushDescriptor_def)
qed

lemma grow_and_push_cells:
  assumes ok: "message_ok m" and grow: "grow_and_push env d m = Inr m'"
  shows "cells m' = replicate (length (cells m)) None @ [Some d] \<and>
    credentialsHeader m' = credentialsHeader m \<and>
    msg_controllen m' = sum_list (map hdr_space (msg_control m')) \<and>
    (msg_control m' \<noteq> [] \<longrightarrow> msg_controlHeader m')"
proof -
  obtain m1 where m1: "ensureDescriptorHeader env (length (cells m) + 1) m = Inr m1"
    and m': "m' = write_cell (length (cells m)) d m1"
    using grow by (auto simp: grow_and_push_def Let_def descriptorSpace_length split: sum.splits)
  note E = ensureDescriptorHeader_cells [OF ok m1]
  have "map (\<lambda>i. if n \<le> i then Some no_fd else None) [0..<n] = replicate n None" for n
    by (rule nth_equalityI) auto
  with E show ?thesis
    by (auto simp: m' write_cell_headers list_update_append) (auto simp: write_cell_def control_simps)
qed

lemma pushDescriptor_ok:
  assumes ok: "message_ok m" and room: "Some no_fd \<in> set (cells m) \<or> cells m = []"
    and push: "pushDescriptor env d m = Inr m'"
  shows "message_ok m' \<and> credentialsHeader m' = credentialsHeader m"
proof (cases "Some no_fd \<in> set (cells m)")
  case True
  with pushDescriptor_free [OF ok True, of env d] push write_cell_ok [OF ok] show ?thesis
    by (auto simp: write_cell_headers)
next
  case False
  with push pushDescriptor_full [OF ok False, of env d] have "grow_and_push env d m = Inr m'" by simp
  from grow_and_push_cells [OF ok this] False room ok show ?thesis
    by (auto simp: message_ok_def)
qed

lemma extractDescriptor_result:
  assumes ok: "message_ok m"
  shows "(d \<notin> the ` set (cells m) \<and> extractDescriptor d m = Inr (no_fd, m)) \<or>
    (\<exists>j < length (cells m). cells m ! j = Some d \<and> extractDescriptor d m = Inr (d, write_cell j no_fd m))"
proof (cases "descriptorHeader m")
  case None
  then show ?thesis by (simp add: extractDescriptor_def cells_def)
next
  case (Some hdr)
  have "cells m ! j = Some (the (cells m ! j))" if "j < length (cells m)" for j
    using that message_ok_initialised [OF ok] by (metis nth_mem option.exhaust_sel)
  then have present: "cells m ! j = Some d" if "j < length (cells m)" "the (cells m ! j) = d" for j
    using that by metis
  from find_cell_cells [OF ok Some, of "\<lambda>fd. fd = d"] show ?thesis
  proof (elim disjE exE conjE)
    fix j
    assume "j < length (cells m)" "find_cell (\<lambda>fd. fd = d) hdr (descriptorSpace m) 0 = Inr (Some j)"
      "the (cells m ! j) = d"
    with present [of j] Some show ?thesis by (auto simp: extractDescriptor_def)
  qed (use Some in \<open>auto simp: extractDescriptor_def\<close>)
qed

lemma pushDescriptor_inserts:
  assumes ok: "message_ok m"
    and room: "Some no_fd \<in> set (cells m) \<or> (cells m = [] \<and> os_malloc env = (\<lambda>_. True))"
  shows "\<exists>m' i. pushDescriptor env d m = Inr m' \<and> message_ok m' \<and>
    credentialsHeader m' = credentialsHeader m \<and>
    cells m' = take i (cells m) @ Some d # drop (Suc i) (cells m) \<and>
    fds m = present (take i (cells m)) @ present (drop (Suc i) (cells m))"
proof (cases "Some no_fd \<in> set (cells m)")
  case True
  with pushDescriptor_free [OF ok True, of env d] obtain i where
    i: "i < length (cells m)" "cells m ! i = Some no_fd" "pushDescriptor env d m = Inr (write_cell i d m)" by auto
  with present_nth_split [of i "cells m"] message_ok_initialised [OF ok]
    pushDescriptor_ok [OF ok _ i(3)] True show ?thesis
    by (auto simp: write_cell_headers upd_conv_take_nth_drop)
next
  case False
  with room have empty: "cells m = []" "os_malloc env = (\<lambda>_. True)" by auto
  then obtain m' where push: "pushDescriptor env d m = Inr m'" "grow_and_push env d m = Inr m'"
    using pushDescriptor_full [OF ok False, of env d]
    by (auto simp: grow_and_push_def ensureDescriptorHeader_def Let_def split: sum.splits if_splits)
  from grow_and_push_cells [OF ok push(2)] pushDescriptor_ok [OF ok _ push(1)] empty push(1) show ?thesis
    by (intro exI [of _ m'] exI [of _ 0]) simp
qed

lemma extractDescriptor_removes:
  assumes ok: "message_ok m" and fds: "fds m = xs @ d # ys" and d: "d \<noteq> no_fd" "d \<notin> set xs" "d \<notin> set ys"
  shows "\<exists>m'. extractDescriptor d m = Inr (d, m') \<and> descriptors m' = Inr (xs @ ys)"
proof -
  have "d \<in> set (fds m)" by (simp add: fds)
  then have "d \<in> the ` set (cells m)" by (auto simp: present_def)
  with extractDescriptor_result [OF ok] obtain j where j: "j < length (cells m)" "cells m ! j = Some d"
    and ext: "extractDescriptor d m = Inr (d, write_cell j no_fd m)" by auto
  let ?as = "present (take j (cells m))" and ?bs = "present (drop (Suc j) (cells m))"
  from present_nth_split [OF j(1) message_ok_initialised [OF ok]] j(2) d(1)
  have "xs @ d # ys = ?as @ d # ?bs" unfolding fds by simp
  then have "xs = ?as" "ys = ?bs" using d(2,3)
    by (metis append_Cons_eq_iff in_set_conv_decomp_first)+
  then show ?thesis
    using ext message_ok_initialised [OF write_cell_ok [OF ok, of j no_fd]] j(1)
    by (simp add: descriptors_fds write_cell_headers present_update)
qed

lemma extractDescriptorAtIndex_result:
  assumes ok: "message_ok m"
  shows "(length (fds m) \<le> index \<and> extractDescriptorAtIndex index m = Inr (no_fd, m)) \<or>
    (\<exists>j < length (cells m). the (cells m ! j) \<noteq> no_fd \<and> length (present (take j (cells m))) = index \<and>
       extractDescriptorAtIndex index m = Inr (the (cells m ! j), write_cell j no_fd m))"
proof (cases "descriptorHeader m")
  case None
  then show ?thesis by (simp add: extractDescriptorAtIndex_def cells_def)
next
  case (Some hdr)
  then have cells: "cells m = cmsg_data hdr" by (simp add: cells_def)
  with message_ok_initialised [OF ok] find_present_result [of hdr 0 index] Some show ?thesis
    by (auto simp: extractDescriptorAtIndex_def descriptorSpace_length)
qed

lemma replaceDescriptors_cells:
  assumes ok: "message_ok m" and rep: "replaceDescriptors env new m = Inr m'"
  shows "message_ok m' \<and> cells m' = map Some new \<and> credentialsHeader m' = credentialsHeader m"
proof -
  obtain m1 where m1: "ensureDescriptorHeader env (length new) m = Inr m1"
    and m': "m' = m1\<lparr>msg_control := update_header is_rights
      (\<lambda>hdr. hdr\<lparr>cmsg_data := map Some new @ drop (length new) (cmsg_data hdr)\<rparr>) (msg_control m1)\<rparr>"
    using rep by (auto simp: replaceDescriptors_def split: sum.splits)
  note E = ensureDescriptorHeader_cells [OF ok m1]
  have hdr1: "length (cmsg_data hdr) = length new" if "walk_headers is_rights (msg_control m1) = Some hdr" for hdr
    using E that by (simp add: cells_def descriptorHeader_def)
  have cells: "cells m' = map Some new"
    using E by (auto simp: m' cells_def descriptorHeader_def control_simps split: option.splits)
  have cred: "credentialsHeader m' = credentialsHeader m"
    using E by (simp add: m' credentialsHeader_def control_simps)
  have "map hdr_space (msg_control m') = map hdr_space (msg_control m1)"
    using hdr1 by (simp add: m' hdr_space_update)
  with E have "msg_controllen m' = sum_list (map hdr_space (msg_control m'))
      \<and> (msg_control m' \<noteq> [] \<longrightarrow> msg_controlHeader m')"
    by (simp add: m')
  with cells cred ok show ?thesis by (auto simp: message_ok_def)
qed

lemma copyCredentialsOut_cells:
  "credentialsHeader m = Some hdr \<Longrightarrow> cmsg_data hdr = ucred_cells c \<Longrightarrow> copyCredentialsOut m = Inr (Some c)"
  by (simp add: copyCredentialsOut_def read_cell_def ucred_cells_def)

lemma copyCredentialsOut_none: "credentialsHeader m = None \<Longrightarrow> copyCredentialsOut m = Inr None"
  by (simp add: copyCredentialsOut_def)

lemma copyCredentialsOut_defined:
  assumes "message_ok m"
  shows "\<exists>c. copyCredentialsOut m = Inr c"
proof (cases "credentialsHeader m")
  case None
  then show ?thesis by (simp add: copyCredentialsOut_def)
next
  case (Some hdr)
  with assms obtain c where "cmsg_data hdr = ucred_cells c" by (auto simp: message_ok_def)
  from copyCredentialsOut_cells [OF Some this] show ?thesis by blast
qed

lemma copyCredentialsIn_ok:
  assumes ok: "message_ok m" and inp: "copyCredentialsIn env c m = Inr m'"
  shows "message_ok m' \<and> cells m' = cells m \<and> copyCredentialsOut m' = Inr (Some c)"
proof -
  let ?f = "\<lambda>hdr. hdr\<lparr>cmsg_data := ucred_cells c @ drop 3 (cmsg_data hdr)\<rparr>"
  obtain m1 where m1: "ensureCredentialsHeader env m = Inr m1"
    and m': "m' = m1\<lparr>msg_control := update_header is_credentials ?f (msg_control m1)\<rparr>"
    using inp by (auto simp: copyCredentialsIn_def split: sum.splits)
  from ensureCredentialsHeader_ok [OF ok m1] obtain hdr c1 where ok1: "message_ok m1"
    and same: "cells m1 = cells m" and hdr: "credentialsHeader m1 = Some hdr"
    and data: "cmsg_data hdr = ucred_cells c1" by blast
  have h': "credentialsHeader m' = Some (?f hdr)"
    using hdr by (simp add: m' credentialsHeader_def control_simps)
  have data': "cmsg_data (?f hdr) = ucred_cells c" by (simp add: data)
  have "cells m' = cells m1"
    by (simp add: m' cells_def descriptorHeader_def control_simps)
  moreover have "map hdr_space (msg_control m') = map hdr_space (msg_control m1)"
    using hdr data by (simp add: m' credentialsHeader_def) (rule hdr_space_update, simp)
  ultimately have "message_ok m'"
    using ok1 h' data' by (simp add: message_ok_def m')
  with copyCredentialsOut_cells [OF h' data'] same \<open>cells m' = cells m1\<close> show ?thesis by simp
qed

lemma set_cred_ok:
  assumes ok: "message_ok m" and set: "set_cred env f m = Inr m'"
  shows "message_ok m' \<and> cells m' = cells m \<and> (\<exists>c. copyCredentialsOut m' = Inr (Some (f c)) \<and>
    copyCredentialsOut m = Inr (if credentialsHeader m = None then None else Some c) \<and>
    (credentialsHeader m = None \<longrightarrow> c = os_creds env))"
proof -
  obtain m1 where m1: "ensureCredentialsHeader env m = Inr m1"
    using set by (auto simp: set_cred_def split: sum.splits)
  from ensureCredentialsHeader_ok [OF ok m1] obtain hdr c where ok1: "message_ok m1"
    and same: "cells m1 = cells m" and hdr: "credentialsHeader m1 = Some hdr" "cmsg_data hdr = ucred_cells c"
    and keep: "credentialsHeader m \<noteq> None \<longrightarrow> m1 = m" "credentialsHeader m = None \<longrightarrow> c = os_creds env"
    by auto
  have out1: "copyCredentialsOut m1 = Inr (Some c)" by (rule copyCredentialsOut_cells [OF hdr])
  with set m1 have "copyCredentialsIn env (f c) m1 = Inr m'" by (simp add: set_cred_def)
  note copied = copyCredentialsIn_ok [OF ok1 this]
  have "copyCredentialsOut m = Inr (if credentialsHeader m = None then None else Some c)"
    using keep(1) out1 by (auto simp: copyCredentialsOut_none)
  with copied same keep(2) show ?thesis by metis
qed

section \<open>Runs of a message\<close>

text \<open>
  The operations that change a message. A descriptor is pushed only when the array has a free
  cell or does not exist: growing an array is the subject of a property of its own.
\<close>

inductive message_step :: "os_env \<Rightarrow> message \<Rightarrow> message \<Rightarrow> bool" for env where
  "message_step env m (setAddress a m)"
| "message_step env m (fst (initWithOther m))"
| "pushDescriptor env d m = Inr m' \<Longrightarrow> Some no_fd \<in> set (cells m) \<or> cells m = [] \<Longrightarrow> message_step env m m'"
| "extractDescriptor d m = Inr (r, m') \<Longrightarrow> message_step env m m'"
| "extractDescriptorAtIndex i m = Inr (r, m') \<Longrightarrow> message_step env m m'"
| "replaceDescriptors env ds m = Inr m' \<Longrightarrow> message_step env m m'"
| "copyCredentialsIn env c m = Inr m' \<Longrightarrow> message_step env m m'"
| "setPID env v m = Inr m' \<Longrightarrow> message_step env m m'"
| "setUID env v m = Inr m' \<Longrightarrow> message_step env m m'"
| "setGID env v m = Inr m' \<Longrightarrow> message_step env m m'"

lemma message_ok_control_cong:
  "msg_control m' = msg_control m \<Longrightarrow> msg_controllen m' = msg_controllen m \<Longrightarrow>
   msg_controlHeader m' = msg_controlHeader m \<Longrightarrow> message_ok m \<Longrightarrow> message_ok m'"
  by (simp add: message_ok_def cells_def descriptorHeader_def credentialsHeader_def)

lemma message_step_ok:
  assumes "message_step env m m'" and "message_ok m"
  shows "message_ok m'"
  using assms
proof (induction rule: message_step.induct)
  case (1 m a)
  then show ?case by (auto simp: setAddress_def intro: message_ok_control_cong)
next
  case (2 m)
  then show ?case by (auto simp: initWithOther_def intro: message_ok_control_cong [of _ m])
next
  case (3 d m m')
  then show ?case using pushDescriptor_ok by blast
next
  case (4 d m r m')
  then show ?case using extractDescriptor_result [of m d] write_cell_ok [of m] by auto
next
  case (5 i m r m')
  then show ?case using extractDescriptorAtIndex_result [of m i] write_cell_ok [of m] by auto
next
  case (6 ds m m')
  then show ?case using replaceDescriptors_cells by blast
next
  case (7 c m m')
  then show ?case using copyCredentialsIn_ok by blast
qed (auto simp: setPID_def setUID_def setGID_def dest: set_cred_ok)

interpretation message_runs: inductive_invariant
  "\<lambda>m. \<exists>b d cb. Message_new env b d cb = Inr m" "message_step env" message_ok
  using Message_new_ok message_step_ok by unfold_locales blast+

section \<open>Properties\<close>


definition demo_env :: os_env where
  "demo_env = \<lparr>os_creds = \<lparr>cred_pid = 10, cred_uid = 11, cred_gid = 12\<rparr>, os_malloc = (\<lambda>_. True)\<rparr>"

definition demo_message :: message where
  "demo_message = \<lparr>msg_buffer = [], msg_iov_len = 0, msg_address = Address_new, msg_namelen = 110,
     msg_controlHeader = True,
     msg_control = [credentials_hdr (os_creds demo_env), rights_hdr [Some no_fd, Some no_fd]],
     msg_controllen = 56, msg_callback = None\<rparr>"

lemma demo_message_new: "Message_new demo_env 0 2 None = Inr demo_message"
  by (simp add: Message_new_def demo_env_def demo_message_def Address_new_def CMSG_SPACE_def CMSG_ALIGN_def
      numeral_2_eq_2)

lemma demo_message_ok: "message_ok demo_message"
  using Message_new_ok [OF demo_message_new] by simp


text \<open>Pushing a descriptor into a message with a free cell, or without a descriptor array,
  inserts it into the list of descriptors and keeps the others and the credentials; with a free
  cell it cannot fail. Extracting the descriptor again returns it and restores the list.\<close>

lemma push_extract_roundtrip:
  assumes ok: "message_ok m" and room: "Some no_fd \<in> set (cells m) \<or> (cells m = [] \<and> os_malloc env = (\<lambda>_. True))"
    and d: "d \<noteq> no_fd" "descriptors m = Inr ds" "d \<notin> set ds"
  shows "\<exists>m' m'' xs ys. pushDescriptor env d m = Inr m' \<and> ds = xs @ ys \<and>
    descriptors m' = Inr (xs @ d # ys) \<and> copyCredentialsOut m' = copyCredentialsOut m \<and>
    extractDescriptor d m' = Inr (d, m'') \<and> descriptors m'' = Inr ds"
proof -
  have ds: "ds = fds m" using d(2) by (simp add: descriptors_fds split: if_splits)
  from pushDescriptor_inserts [OF ok room] obtain m' i where push: "pushDescriptor env d m = Inr m'"
    and ok': "message_ok m'" and cred: "credentialsHeader m' = credentialsHeader m"
    and cells: "cells m' = take i (cells m) @ Some d # drop (Suc i) (cells m)"
    and split: "fds m = present (take i (cells m)) @ present (drop (Suc i) (cells m))" by blast
  let ?xs = "present (take i (cells m))" and ?ys = "present (drop (Suc i) (cells m))"
  from d(3) have notin: "d \<notin> set ?xs" "d \<notin> set ?ys" by (simp_all add: ds split)
  have fds': "fds m' = ?xs @ d # ?ys" using d(1) by (simp add: cells)
  from extractDescriptor_removes [OF ok' fds' d(1) notin] obtain m'' where
    "extractDescriptor d m' = Inr (d, m'')" "descriptors m'' = Inr (?xs @ ?ys)" by blast
  moreover have "descriptors m' = Inr (?xs @ d # ?ys)"
    using message_ok_initialised [OF ok'] fds' by (simp add: descriptors_fds)
  moreover have "copyCredentialsOut m' = copyCredentialsOut m"
    by (simp add: copyCredentialsOut_def cred)
  ultimately show ?thesis using push ds split by metis
qed

text \<open>Extracting by index takes the descriptor at that index of the list of descriptors out of
  the message, leaving the others in order; an index past the end returns -1 and changes
  nothing.\<close>

lemma extractDescriptorAtIndex_list:
  assumes ok: "message_ok m" and ds: "descriptors m = Inr ds"
  shows "\<exists>m'. extractDescriptorAtIndex index m =
      Inr (if index < length ds then ds ! index else no_fd, m') \<and>
    descriptors m' = Inr (take index ds @ drop (Suc index) ds) \<and>
    copyCredentialsOut m' = copyCredentialsOut m \<and> (length ds \<le> index \<longrightarrow> m' = m)"
proof -
  have ds': "ds = fds m" using ds by (simp add: descriptors_fds split: if_splits)
  from extractDescriptorAtIndex_result [OF ok, of index] show ?thesis
  proof (elim disjE exE conjE)
    fix j
    assume j: "j < length (cells m)" "the (cells m ! j) \<noteq> no_fd" "length (present (take j (cells m))) = index"
      and ext: "extractDescriptorAtIndex index m = Inr (the (cells m ! j), write_cell j no_fd m)"
    from present_nth_split [OF j(1) message_ok_initialised [OF ok]] j(2)
    have split: "ds = present (take j (cells m)) @ the (cells m ! j) # present (drop (Suc j) (cells m))"
      by (simp add: ds')
    moreover have "descriptors (write_cell j no_fd m) =
        Inr (present (take j (cells m)) @ present (drop (Suc j) (cells m)))"
      using message_ok_initialised [OF write_cell_ok [OF ok, of j no_fd]] j(1)
      by (simp add: descriptors_fds write_cell_headers present_update)
    moreover have "copyCredentialsOut (write_cell j no_fd m) = copyCredentialsOut m"
      by (simp add: copyCredentialsOut_def write_cell_headers)
    ultimately show ?thesis using ext j(3) by (auto simp: nth_append)
  qed (use ds ds' in auto)
qed

text \<open>Moving a message into another one closes exactly the descriptors the target owned and
  hands over those of the source: destroying the moved-from message afterwards closes nothing,
  and destroying the target closes each of the source's descriptors.\<close>

lemma move_closes_each_once:
  assumes target: "message_ok this" and other: "message_ok other"
  shows "\<exists>this' other'. Message_assign this other =
      Inr (if msg_controlHeader this then fds this else [], this', other') \<and>
    cleanupSelf other' = Inr ([], other') \<and>
    descriptors this' = descriptors other \<and> msg_buffer this' = msg_buffer other \<and>
    map_sum id fst (cleanupSelf this') = map_sum id fst (cleanupSelf other)"
proof -
  let ?this' = "fst (initWithOther other)"
  have cells: "cells ?this' = cells other"
    by (simp add: initWithOther_def cells_def descriptorHeader_def)
  have "cleanupSelf (snd (initWithOther other)) = Inr ([], snd (initWithOther other))"
    by (simp add: initWithOther_def cleanupSelf_def)
  moreover have "msg_controlHeader ?this' = msg_controlHeader other" "msg_buffer ?this' = msg_buffer other"
    by (simp_all add: initWithOther_def)
  ultimately show ?thesis
    using message_ok_initialised [OF target] message_ok_initialised [OF other] cells
    by (intro exI [of _ ?this'] exI [of _ "snd (initWithOther other)"])
      (simp add: Message_assign_def cleanupSelf_fds descriptors_fds split: prod.splits)
qed

text \<open>Credentials written into a message are read back unchanged and leave its descriptors
  alone; setting the process ID alone keeps the user and group ID that were there, or those of
  the server if the message had no credentials.\<close>

lemma credentials_roundtrip:
  assumes ok: "message_ok m" and inp: "copyCredentialsIn env c m = Inr m1" and set: "setPID env p m = Inr m2"
  shows "copyCredentialsOut m1 = Inr (Some c) \<and> descriptors m1 = descriptors m \<and>
    Message_pid m2 = Inr p \<and> descriptors m2 = descriptors m \<and>
    Message_uid m2 = (if credentialsHeader m = None then Inr (cred_uid (os_creds env)) else Message_uid m) \<and>
    Message_gid m2 = (if credentialsHeader m = None then Inr (cred_gid (os_creds env)) else Message_gid m)"
  using copyCredentialsIn_ok [OF ok inp] set_cred_ok [OF ok set [unfolded setPID_def]]
  by (auto simp: descriptors_fds Message_pid_def Message_uid_def Message_gid_def get_cred_def)

text \<open>Replacing the descriptors makes the message hold exactly the given ones, whatever it
  held before, and keeps the credentials.\<close>

lemma replaceDescriptors_list:
  assumes "message_ok m" and "replaceDescriptors env new m = Inr m'"
  shows "descriptors m' = Inr (filter (\<lambda>fd. fd \<noteq> no_fd) new) \<and>
    copyCredentialsOut m' = copyCredentialsOut m \<and> message_ok m'"
  using replaceDescriptors_cells [OF assms] message_ok_initialised [of m']
  by (simp add: descriptors_fds copyCredentialsOut_def present_def comp_def)

text \<open>Pushing a descriptor into a message whose descriptor array is full replaces the array
  by a larger one without copying the old cells: the descriptors it held are lost, and listing
  or closing its descriptors reads uninitialised memory. Pushing -1, documented as the way to
  grow the array, changes nothing while a cell is free.\<close>

lemma push_into_full_loses_descriptors:
  assumes ok: "message_ok m" and full: "Some no_fd \<notin> set (cells m)" "cells m \<noteq> []"
    and push: "pushDescriptor env d m = Inr m'"
  shows "descriptors m' = Inl (Undefined_behaviour ''uninitialised'') \<and>
    cells m' = replicate (length (cells m)) None @ [Some d] \<and>
    (message_ok m0 \<and> Some no_fd \<in> set (cells m0) \<longrightarrow>
      map_sum id cells (pushDescriptor env no_fd m0) = Inr (cells m0))"
proof -
  from push pushDescriptor_full [OF ok full(1), of env d] have "grow_and_push env d m = Inr m'" by simp
  from grow_and_push_cells [OF ok this] have cells: "cells m' = replicate (length (cells m)) None @ [Some d]" by blast
  with full(2) have "None \<in> set (cells m')" by simp
  moreover have "map_sum id cells (pushDescriptor env no_fd m0) = Inr (cells m0)"
    if ok0: "message_ok m0" and free: "Some no_fd \<in> set (cells m0)"
  proof -
    from pushDescriptor_free [OF ok0 free, of env no_fd] obtain i where
      "cells m0 ! i = Some no_fd" "pushDescriptor env no_fd m0 = Inr (write_cell i no_fd m0)" by blast
    then show ?thesis by (simp add: write_cell_headers) (metis list_update_id)
  qed
  ultimately show ?thesis using cells by (simp add: descriptors_fds)
qed



end
