(* ===== verification/MessageQueue.thy ===== *)
theory MessageQueue
  imports Message
begin

text \<open>
  The inbox and outbox of the server (\<open>src/message.cpp\<close>, class \<open>MessageQueue\<close>). Each operation
  holds the queue's lock for its whole body, so it is one atomic function on the queue; the
  callbacks it makes are outputs. \<open>sendmmsg\<close> and \<open>recvmmsg\<close> belong to the kernel: what they
  answer is given by a script, a list of answers used one after the other, and a loop that
  outlives its script has no result.
\<close>

section \<open>Model\<close>

record message_queue =
  mq_messages :: "message list"
  mq_arrivalCallback :: bool

text \<open>Pushing and popping; the flag tells whether the arrival callback is called.\<close>

definition MessageQueue_push :: "message \<Rightarrow> message_queue \<Rightarrow> bool \<times> message_queue" where
  "MessageQueue_push m q =
     (let q' = q\<lparr>mq_messages := mq_messages q @ [fst (initWithOther m)]\<rparr>
      in (length (mq_messages q') > 0 \<and> mq_arrivalCallback q', q'))"

definition MessageQueue_pop :: "message_queue \<Rightarrow> (message \<times> message_queue) option" where
  "MessageQueue_pop q =
     (case mq_messages q of
        [] \<Rightarrow> None
      | m # rest \<Rightarrow> Some (fst (initWithOther m), q\<lparr>mq_messages := rest\<rparr>))"

definition setMessageArrivalNotificationCallback :: "bool \<Rightarrow> message_queue \<Rightarrow> message_queue" where
  "setMessageArrivalNotificationCallback b q = q\<lparr>mq_arrivalCallback := b\<rparr>"

definition MessageQueue_empty :: "message_queue \<Rightarrow> bool" where
  "MessageQueue_empty q \<longleftrightarrow> mq_messages q = []"

text \<open>What the kernel is handed for a message: the peer's name, absent when it is all null bytes.\<close>

record wire =
  wire_name :: "u8 list option"
  wire_namelen :: nat
  wire_data :: "u8 list"
  wire_control :: "cmsghdr list"

definition wire_of :: "message \<Rightarrow> wire" where
  "wire_of m =
     (let isAddressEmpty = list_all (\<lambda>b. b = 0) (addr_sun_path (msg_address m))
      in \<lparr>wire_name = (if isAddressEmpty then None else Some (addr_sun_path (msg_address m))),
          wire_namelen = (if isAddressEmpty then 0 else msg_namelen m),
          wire_data = take (msg_iov_len m) (msg_buffer m), wire_control = msg_control m\<rparr>)"

datatype send_answer = Sent nat | Send_error int

text \<open>What became of the messages, in the order in which they left the queue.\<close>

datatype send_event = Ev_sent message | Ev_dropped message

type_synonym send_result = "bool result \<times> message list \<times> send_event list"

fun sendMany_loop :: "send_answer list \<Rightarrow> message list \<Rightarrow> send_event list \<Rightarrow> send_result option" where
  "sendMany_loop script [] log = Some (Inr True, [], log)"
| "sendMany_loop [] (m # ms) log = None"
| "sendMany_loop (Sent n # script) (m # ms) log =
     (if n \<le> length (m # ms)
      then sendMany_loop script (drop n (m # ms)) (log @ map Ev_sent (take n (m # ms)))
      else Some (Inl (Undefined_behaviour ''pop_front''), [], log @ map Ev_sent (m # ms)))"
| "sendMany_loop (Send_error e # script) (m # ms) log =
     (if e = EAGAIN then Some (Inr False, m # ms, log)
      else if e = EINTR then sendMany_loop script (m # ms) log
      else if e = EPIPE \<or> e = ECONNREFUSED then sendMany_loop script ms (log @ [Ev_dropped m])
      else Some (Inl (System_error e), m # ms, log))"

text \<open>The callbacks made after the messages that the kernel took.\<close>

fun sent_callbacks :: "send_event list \<Rightarrow> nat list" where
  "sent_callbacks [] = []"
| "sent_callbacks (Ev_sent m # log) =
     (case msg_callback m of None \<Rightarrow> sent_callbacks log | Some cb \<Rightarrow> cb # sent_callbacks log)"
| "sent_callbacks (Ev_dropped m # log) = sent_callbacks log"

definition sendMany :: "send_answer list \<Rightarrow> message_queue
    \<Rightarrow> (bool result \<times> message_queue \<times> send_event list \<times> nat list) option" where
  "sendMany script q =
     (case sendMany_loop script (mq_messages q) [] of
        None \<Rightarrow> None
      | Some (res, rest, log) \<Rightarrow> Some (res, q\<lparr>mq_messages := rest\<rparr>, log, sent_callbacks log))"

text \<open>The batch handed to one call of \<open>sendmmsg\<close>, at most sixteen messages from the front.\<close>

definition send_batch :: "message list \<Rightarrow> wire list" where
  "send_batch ms = map wire_of (take 16 ms)"

record datagram =
  dg_data :: "u8 list"
  dg_sun_path :: "u8 list"
  dg_namelen :: nat
  dg_control :: "cmsghdr list"
  dg_controllen :: nat

datatype recv_answer = Received "datagram list" | Recv_error int

text \<open>
  One received message: the default message whose header the kernel filled in, its buffer
  resized to the length received, its address set, moved into the queue.
\<close>

definition fill_message :: "message \<Rightarrow> datagram \<Rightarrow> message" where
  "fill_message fresh d =
     fst (initWithOther (setAddress (Address_of_raw (dg_sun_path d) (dg_namelen d))
       (fresh\<lparr>msg_control := dg_control d, msg_controllen := dg_controllen d,
          msg_buffer := dg_data d\<rparr>)))"

fun receiveMany_loop :: "os_env \<Rightarrow> recv_answer list \<Rightarrow> message list \<Rightarrow> (bool result \<times> message list) option" where
  "receiveMany_loop env script ms =
     (case Message_new env 256 4 None of
        Inl e \<Rightarrow> Some (Inl e, ms)
      | Inr fresh \<Rightarrow>
          (case script of
             [] \<Rightarrow> None
           | Received ds # rest \<Rightarrow> receiveMany_loop env rest (ms @ map (fill_message fresh) ds)
           | Recv_error e # rest \<Rightarrow>
               (if e = EAGAIN then Some (Inr False, ms)
                else if e = EINTR then receiveMany_loop env rest ms
                else Some (Inl (System_error e), ms))))"

declare receiveMany_loop.simps [simp del]

text \<open>The result, the queue, and whether the arrival callback is called.\<close>

definition receiveMany :: "os_env \<Rightarrow> recv_answer list \<Rightarrow> message_queue
    \<Rightarrow> (bool result \<times> message_queue \<times> bool) option" where
  "receiveMany env script q =
     (case receiveMany_loop env script (mq_messages q) of
        None \<Rightarrow> None
      | Some (Inl e, ms) \<Rightarrow> Some (Inl e, q\<lparr>mq_messages := ms\<rparr>, False)
      | Some (Inr canReadMore, ms) \<Rightarrow> Some (Inr canReadMore, q\<lparr>mq_messages := ms\<rparr>,
          length ms > 0 \<and> mq_arrivalCallback q))"

section \<open>First in, first out\<close>

text \<open>
  Moving a message refreshes the length that its I/O vector announces and changes nothing else;
  the value of a message is what is left after a move.
\<close>

definition message_value :: "message \<Rightarrow> message" where
  "message_value m = fst (initWithOther m)"

lemma message_value_idem [simp]: "message_value (message_value m) = message_value m"
  by (simp add: message_value_def initWithOther_def)

interpretation mq: fifo "\<lambda>q. map message_value (mq_messages q)" message_value
  "\<lambda>m q. snd (MessageQueue_push m q)" MessageQueue_pop
  by unfold_locales (auto simp: MessageQueue_push_def MessageQueue_pop_def Let_def
      simp flip: message_value_def split: list.splits)

section \<open>Sending\<close>

primrec event_message :: "send_event \<Rightarrow> message" where
  "event_message (Ev_sent m) = m"
| "event_message (Ev_dropped m) = m"

text \<open>
  The documented behaviour of \<open>sendmmsg\<close> on the batches the loop hands it: it reports at least
  one and at most the number of messages given.
\<close>

fun answers_documented :: "send_answer list \<Rightarrow> message list \<Rightarrow> bool" where
  "answers_documented [] ms = True"
| "answers_documented (Sent n # script) ms =
     (ms \<noteq> [] \<longrightarrow> 1 \<le> n \<and> n \<le> length (send_batch ms) \<and> answers_documented script (drop n ms))"
| "answers_documented (Send_error e # script) ms =
     answers_documented script (if e = EPIPE \<or> e = ECONNREFUSED then tl ms else ms)"

definition interrupted :: "send_answer \<Rightarrow> bool" where
  "interrupted a \<longleftrightarrow> a = Send_error EINTR"

lemma sendMany_loop_log:
  "sendMany_loop script ms log = Some (res, rest, log') \<Longrightarrow> answers_documented script ms \<Longrightarrow>
   \<exists>events. log' = log @ events \<and> map event_message events @ rest = ms \<and>
     (res = Inr True \<longrightarrow> rest = []) \<and>
     (res = Inr False \<longrightarrow> rest \<noteq> [] \<and> Send_error EAGAIN \<in> set script) \<and>
     (\<forall>e. res = Inl e \<longrightarrow> rest \<noteq> [] \<and> (\<exists>n. e = System_error n \<and> Send_error n \<in> set script \<and>
        n \<notin> {EAGAIN, EINTR, EPIPE, ECONNREFUSED}))"
proof (induction script ms log rule: sendMany_loop.induct)
  case (3 n script m ms log)
  then have n: "n \<le> length (m # ms)" "answers_documented script (drop n (m # ms))"
    by (auto simp: send_batch_def)
  from 3 n obtain events where E: "log' = (log @ map Ev_sent (take n (m # ms))) @ events"
    "map event_message events @ rest = drop n (m # ms)"
    "(res = Inr True \<longrightarrow> rest = []) \<and> (res = Inr False \<longrightarrow> rest \<noteq> [] \<and> Send_error EAGAIN \<in> set script) \<and>
     (\<forall>e. res = Inl e \<longrightarrow> rest \<noteq> [] \<and> (\<exists>n. e = System_error n \<and> Send_error n \<in> set script \<and>
        n \<notin> {EAGAIN, EINTR, EPIPE, ECONNREFUSED}))" by auto
  have "map event_message (map Ev_sent xs) = xs" for xs by (induction xs) simp_all
  with E show ?case
    by (intro exI [of _ "map Ev_sent (take n (m # ms)) @ events"]) (auto simp del: drop_Suc_Cons take_Suc_Cons)
next
  case (4 e script m ms log)
  show ?case
  proof (cases "e = EPIPE \<or> e = ECONNREFUSED")
    case True
    with 4 obtain events where "log' = (log @ [Ev_dropped m]) @ events" "map event_message events @ rest = ms"
      "(res = Inr True \<longrightarrow> rest = []) \<and> (res = Inr False \<longrightarrow> rest \<noteq> [] \<and> Send_error EAGAIN \<in> set script) \<and>
       (\<forall>e. res = Inl e \<longrightarrow> rest \<noteq> [] \<and> (\<exists>n. e = System_error n \<and> Send_error n \<in> set script \<and>
          n \<notin> {EAGAIN, EINTR, EPIPE, ECONNREFUSED}))" by auto
    then show ?thesis by (intro exI [of _ "Ev_dropped m # events"]) auto
  next
    case False
    with 4 show ?thesis by (auto split: if_splits)
  qed
qed auto

lemma sendMany_loop_returns:
  "answers_documented script ms \<Longrightarrow> length ms \<le> length (filter (\<lambda>a. \<not> interrupted a) script) \<Longrightarrow>
   sendMany_loop script ms log \<noteq> None"
proof (induction script ms log rule: sendMany_loop.induct)
  case (3 n script m ms log)
  then show ?case by (auto simp: interrupted_def)
qed (auto simp: interrupted_def split: if_splits)

section \<open>Receiving\<close>

text \<open>The datagrams the kernel delivers up to the first answer that ends the loop.\<close>

fun delivered :: "recv_answer list \<Rightarrow> datagram list" where
  "delivered [] = []"
| "delivered (Received ds # script) = ds @ delivered script"
| "delivered (Recv_error e # script) = (if e = EINTR then delivered script else [])"

fun final_answer :: "recv_answer list \<Rightarrow> bool result option" where
  "final_answer [] = None"
| "final_answer (Received ds # script) = final_answer script"
| "final_answer (Recv_error e # script) =
     (if e = EINTR then final_answer script
      else Some (if e = EAGAIN then Inr False else Inl (System_error e)))"

lemma receiveMany_loop_delivered:
  assumes new: "Message_new env 256 4 None = Inr fresh"
  shows "receiveMany_loop env script ms =
    map_option (\<lambda>res. (res, ms @ map (fill_message fresh) (delivered script))) (final_answer script)"
proof (induction script arbitrary: ms)
  case Nil
  then show ?case by (simp add: receiveMany_loop.simps new)
next
  case (Cons a script)
  then show ?case by (cases a) (simp_all add: receiveMany_loop.simps [of env "_ # _"] new)
qed

section \<open>Properties\<close>

text \<open>C29: Messages pushed into the outbox leave it in the order in which they were pushed, behind
  those that were there, whatever sequence of answers \<open>sendmmsg\<close> gives: each one was handed
  to the kernel, dropped because its peer was gone, or is still queued. Callbacks are made
  for the sent ones alone, in order. The loop reports that more can be sent only with an empty
  queue, and reports that it cannot only after EAGAIN; any other error is thrown with the failing
  message still queued.\<close>

theorem outbox_in_order:
  assumes docs: "answers_documented script (mq_messages q @ map message_value ms)"
    and send: "sendMany script (fold (\<lambda>m q. snd (MessageQueue_push m q)) ms q) = Some (res, q', log, cbs)"
  shows "map event_message log @ mq_messages q' = mq_messages q @ map message_value ms \<and>
    cbs = sent_callbacks log \<and>
    (res = Inr True \<longrightarrow> MessageQueue_empty q') \<and>
    (res = Inr False \<longrightarrow> \<not> MessageQueue_empty q' \<and> Send_error EAGAIN \<in> set script) \<and>
    (\<forall>e. res = Inl e \<longrightarrow> \<not> MessageQueue_empty q' \<and> (\<exists>n. e = System_error n \<and>
       n \<notin> {EAGAIN, EINTR, EPIPE, ECONNREFUSED}))"
proof -
  have "mq_messages (fold (\<lambda>m q. snd (MessageQueue_push m q)) ms q) = mq_messages q @ map message_value ms"
    by (induction ms arbitrary: q) (simp_all add: MessageQueue_push_def Let_def message_value_def)
  with send obtain rest where
    loop: "sendMany_loop script (mq_messages q @ map message_value ms) [] = Some (res, rest, log)"
    and q': "mq_messages q' = rest" and cbs: "cbs = sent_callbacks log"
    by (auto simp: sendMany_def split: option.splits)
  from sendMany_loop_log [OF loop docs] q' cbs show ?thesis
    by (auto simp: MessageQueue_empty_def)
qed

theorem outbox_in_order_witness:
  "\<exists>q' log cbs. sendMany [Send_error EINTR, Sent 1]
      (fold (\<lambda>m q. snd (MessageQueue_push m q)) [demo_message] \<lparr>mq_messages = [], mq_arrivalCallback = True\<rparr>)
    = Some (Inr True, q', log, cbs) \<and> map event_message log = [message_value demo_message]"
proof -
  have doc: "answers_documented [Send_error EINTR, Sent 1]
      (mq_messages \<lparr>mq_messages = [], mq_arrivalCallback = True\<rparr> @ map message_value [demo_message])"
    by (simp add: send_batch_def)
  obtain q' log cbs where send: "sendMany [Send_error EINTR, Sent 1]
      (fold (\<lambda>m q. snd (MessageQueue_push m q)) [demo_message] \<lparr>mq_messages = [], mq_arrivalCallback = True\<rparr>)
      = Some (Inr True, q', log, cbs)"
    by (simp add: sendMany_def MessageQueue_push_def Let_def)
  from outbox_in_order [OF doc send] send show ?thesis by (auto simp: MessageQueue_empty_def)
qed

text \<open>The sending loop returns: as many answers other than EINTR as there are queued messages
  are enough, whatever they are, since each takes at least one message off the queue or ends
  the loop.\<close>

lemma sendMany_returns:
  assumes "answers_documented script (mq_messages q)"
    and "length (mq_messages q) \<le> length (filter (\<lambda>a. \<not> interrupted a) script)"
  shows "\<exists>res q' log cbs. sendMany script q = Some (res, q', log, cbs)"
  using sendMany_loop_returns [OF assms, of "[]"] by (auto simp: sendMany_def)

text \<open>Receiving appends every datagram the kernel delivers, in order, as a message with the
  datagram's bytes, sender address and control data, until the kernel has no more (EAGAIN, and the
  loop then reports that it cannot read more) or fails. Popping them afterwards returns them in
  that order. The arrival callback is made exactly when the queue is not empty on a normal return.\<close>

lemma inbox_in_order:
  assumes new: "Message_new env 256 4 None = Inr fresh" and "mq_messages q = []"
    and recv: "receiveMany env script q = Some (res, q', called)"
  shows "final_answer script = Some res \<and>
    map (\<lambda>m. (msg_buffer m, addr_sun_path (msg_address m), msg_namelen m, msg_control m, msg_controllen m))
        (fst (mq.pop_n (length (delivered script)) q')) =
      map (\<lambda>d. (dg_data d, dg_sun_path d, dg_namelen d, dg_control d, dg_controllen d)) (delivered script) \<and>
    (\<forall>more. res = Inr more \<longrightarrow> \<not> more \<and> called = (delivered script \<noteq> [] \<and> mq_arrivalCallback q))"
proof -
  let ?f = "\<lambda>m. (msg_buffer m, addr_sun_path (msg_address m), msg_namelen m, msg_control m, msg_controllen m)"
  from recv have fin: "final_answer script = Some res" and q': "mq_messages q' = map (fill_message fresh) (delivered script)"
    using assms(2) by (auto simp: receiveMany_def receiveMany_loop_delivered [OF new] split: option.splits sum.splits)
  have "map message_value (fst (mq.pop_n (length (delivered script)) q')) =
      map message_value (map (fill_message fresh) (delivered script))"
    using mq.pop_n_take [of "length (delivered script)" q'] by (simp add: q')
  then have "map ?f (map message_value (fst (mq.pop_n (length (delivered script)) q'))) =
      map ?f (map message_value (map (fill_message fresh) (delivered script)))" by simp
  moreover have "?f (message_value m) = ?f m" for m by (simp add: message_value_def initWithOther_def)
  moreover have "?f (fill_message fresh d) = (dg_data d, dg_sun_path d, dg_namelen d, dg_control d, dg_controllen d)" for d
    by (simp add: fill_message_def initWithOther_def setAddress_def Address_of_raw_def)
  moreover have "final_answer script = Some (Inr more) \<Longrightarrow> \<not> more" for more
    by (induction script rule: final_answer.induct) (auto split: if_splits)
  ultimately show ?thesis
    using recv fin assms(2) by (auto simp: comp_def receiveMany_def receiveMany_loop_delivered [OF new])
qed

end
