(* ===== verification/Workers.thy ===== *)
theory Workers
  imports Prelude
begin

text \<open>
  The work queue and its worker threads (\<open>internal-include/darlingserver/workers.hpp\<close>, class
  \<open>WorkQueue\<close>). The threads interleave, so the queue is a transition system: each stretch of
  code that a thread runs with the queue's mutex held is one step, and so are the notifications,
  which are sent after the mutex is released. A thread blocked on the condition variable can be
  woken by a notification, spuriously or by its timeout. The history of items pushed and of items
  handed to the worker function is kept beside the state, to state what happens to them.
\<close>

section \<open>Model\<close>

definition minimumThreads :: "bool \<Rightarrow> nat" where
  "minimumThreads singleThreadedWorkQueue = (if singleThreadedWorkQueue then 1 else 2)"

definition maximumThreads :: "bool \<Rightarrow> nat \<Rightarrow> nat" where
  "maximumThreads singleThreadedWorkQueue hw =
     (if \<not> singleThreadedWorkQueue \<and> hw > 0 \<and> hw > minimumThreads singleThreadedWorkQueue
      then hw else minimumThreads singleThreadedWorkQueue)"

text \<open>
  Where a worker is: before the lock at the top of its loop, blocked on the condition variable,
  woken and about to test the predicate, running the worker function on an item, returned because
  the queue is dying, or gone because its wait timed out.
\<close>

datatype 'a wstate = At_lock | Waiting | Notified | Working 'a | Returned | Expired

record 'a worker =
  w_permanent :: bool
  w_state :: "'a wstate"

record 'a work_queue =
  wq_items :: "'a list"
  wq_workers :: "'a worker list"
  wq_threadsAvailable :: nat
  wq_dying :: bool
  wq_notify_one :: nat
  wq_notify_all :: bool
  wq_pushed :: "'a list"
  wq_taken :: "'a list"

definition set_state :: "nat \<Rightarrow> 'a wstate \<Rightarrow> 'a work_queue \<Rightarrow> 'a work_queue" where
  "set_state i st q = q\<lparr>wq_workers := (wq_workers q)[i := (wq_workers q ! i)\<lparr>w_state := st\<rparr>]\<rparr>"

text \<open>The threads the queue knows: a worker that expires has erased itself from the map.\<close>

definition workerThreads :: "'a work_queue \<Rightarrow> 'a worker list" where
  "workerThreads q = filter (\<lambda>w. w_state w \<noteq> Expired) (wq_workers q)"

definition WorkQueue_new :: "bool \<Rightarrow> 'a work_queue" where
  "WorkQueue_new single = \<lparr>wq_items = [],
     wq_workers = replicate (minimumThreads single) \<lparr>w_permanent = True, w_state = At_lock\<rparr>,
     wq_threadsAvailable = 0, wq_dying = False, wq_notify_one = 0, wq_notify_all = False,
     wq_pushed = [], wq_taken = []\<rparr>"

text \<open>The predicate of the wait, with its effects: whether to stop waiting, and the item taken.\<close>

definition wait_predicate :: "'a work_queue \<Rightarrow> bool \<times> 'a option \<times> 'a work_queue" where
  "wait_predicate q =
     (if wq_dying q then (True, None, q\<lparr>wq_threadsAvailable := wq_threadsAvailable q - 1\<rparr>)
      else (case wq_items q of
              x # rest \<Rightarrow> (True, Some x, q\<lparr>wq_items := rest,
                wq_threadsAvailable := wq_threadsAvailable q - 1, wq_taken := wq_taken q @ [x]\<rparr>)
            | [] \<Rightarrow> (False, None, q)))"

text \<open>What follows the wait: die with the queue, die after a timeout, or go to work.\<close>

definition after_wait :: "nat \<Rightarrow> bool \<Rightarrow> 'a option \<Rightarrow> 'a work_queue \<Rightarrow> 'a work_queue" where
  "after_wait i waitResult workItem q =
     (if wq_dying q then set_state i Returned q
      else if \<not> waitResult then set_state i Expired q
      else (case workItem of Some x \<Rightarrow> set_state i (Working x) q | None \<Rightarrow> q))"

definition worker_enter :: "nat \<Rightarrow> 'a work_queue \<Rightarrow> 'a work_queue" where
  "worker_enter i q =
     (let q1 = q\<lparr>wq_threadsAvailable := wq_threadsAvailable q + 1\<rparr>;
          (stop, workItem, q2) = wait_predicate q1
      in if stop then after_wait i True workItem q2 else set_state i Waiting q2)"

definition worker_woken :: "nat \<Rightarrow> 'a work_queue \<Rightarrow> 'a work_queue" where
  "worker_woken i q =
     (let (stop, workItem, q1) = wait_predicate q
      in if stop then after_wait i True workItem q1 else set_state i Waiting q1)"

definition worker_timeout :: "nat \<Rightarrow> 'a work_queue \<Rightarrow> 'a work_queue" where
  "worker_timeout i q =
     (let (waitResult, workItem, q1) = wait_predicate q in after_wait i waitResult workItem q1)"

definition worker_finish :: "nat \<Rightarrow> 'a work_queue \<Rightarrow> 'a work_queue" where
  "worker_finish i q = set_state i At_lock q"

text \<open>Pushing an item: a temporary worker, or a notification once the mutex is released.\<close>

definition WorkQueue_push :: "bool \<Rightarrow> nat \<Rightarrow> 'a \<Rightarrow> 'a work_queue \<Rightarrow> 'a work_queue" where
  "WorkQueue_push single hw x q =
     (let q1 = q\<lparr>wq_items := wq_items q @ [x], wq_pushed := wq_pushed q @ [x]\<rparr>
      in if wq_threadsAvailable q1 = 0 \<and> length (workerThreads q1) < maximumThreads single hw
         then q1\<lparr>wq_workers := wq_workers q1 @ [\<lparr>w_permanent = False, w_state = At_lock\<rparr>]\<rparr>
         else q1\<lparr>wq_notify_one := wq_notify_one q1 + 1\<rparr>)"

definition notify_one :: "nat option \<Rightarrow> 'a work_queue \<Rightarrow> 'a work_queue" where
  "notify_one woken q =
     (let q1 = q\<lparr>wq_notify_one := wq_notify_one q - 1\<rparr>
      in case woken of None \<Rightarrow> q1 | Some i \<Rightarrow> set_state i Notified q1)"

text \<open>The destructor sets the flag under the mutex and then notifies every waiter.\<close>

definition WorkQueue_destroy :: "'a work_queue \<Rightarrow> 'a work_queue" where
  "WorkQueue_destroy q = q\<lparr>wq_dying := True, wq_notify_all := True\<rparr>"

definition notify_all :: "'a work_queue \<Rightarrow> 'a work_queue" where
  "notify_all q = q\<lparr>wq_notify_all := False, wq_workers :=
     map (\<lambda>w. if w_state w = Waiting then w\<lparr>w_state := Notified\<rparr> else w) (wq_workers q)\<rparr>"

abbreviation state_of :: "'a work_queue \<Rightarrow> nat \<Rightarrow> 'a wstate" where
  "state_of q i \<equiv> w_state (wq_workers q ! i)"

inductive wq_step :: "bool \<Rightarrow> nat \<Rightarrow> 'a work_queue \<Rightarrow> 'a work_queue \<Rightarrow> bool" for single hw where
  step_enter: "i < length (wq_workers q) \<Longrightarrow> state_of q i = At_lock \<Longrightarrow> wq_step single hw q (worker_enter i q)"
| step_woken: "i < length (wq_workers q) \<Longrightarrow> state_of q i = Notified \<Longrightarrow> wq_step single hw q (worker_woken i q)"
| step_spurious: "i < length (wq_workers q) \<Longrightarrow> state_of q i = Waiting \<Longrightarrow>
    wq_step single hw q (set_state i Notified q)"
| step_timeout: "i < length (wq_workers q) \<Longrightarrow> state_of q i \<in> {Waiting, Notified} \<Longrightarrow>
    \<not> w_permanent (wq_workers q ! i) \<Longrightarrow> wq_step single hw q (worker_timeout i q)"
| step_finish: "i < length (wq_workers q) \<Longrightarrow> state_of q i = Working x \<Longrightarrow>
    wq_step single hw q (worker_finish i q)"
| step_push: "\<not> wq_dying q \<Longrightarrow> wq_step single hw q (WorkQueue_push single hw x q)"
| step_notify_some: "0 < wq_notify_one q \<Longrightarrow> i < length (wq_workers q) \<Longrightarrow> state_of q i = Waiting \<Longrightarrow>
    wq_step single hw q (notify_one (Some i) q)"
| step_notify_none: "0 < wq_notify_one q \<Longrightarrow> \<forall>w \<in> set (wq_workers q). w_state w \<noteq> Waiting \<Longrightarrow>
    wq_step single hw q (notify_one None q)"
| step_destroy: "\<not> wq_dying q \<Longrightarrow> wq_step single hw q (WorkQueue_destroy q)"
| step_notify_all: "wq_notify_all q \<Longrightarrow> wq_step single hw q (notify_all q)"

section \<open>Invariant\<close>

definition idle :: "'a worker \<Rightarrow> bool" where
  "idle w \<longleftrightarrow> w_state w = Waiting \<or> w_state w = Notified"

definition expired :: "'a worker \<Rightarrow> bool" where
  "expired w \<longleftrightarrow> w_state w = Expired"

text \<open>A worker that will look at the queue again without being notified.\<close>

definition active :: "'a worker \<Rightarrow> bool" where
  "active w \<longleftrightarrow> w_state w \<noteq> Waiting \<and> w_state w \<noteq> Returned \<and> w_state w \<noteq> Expired"

definition items_ok :: "'a work_queue \<Rightarrow> bool" where
  "items_ok q \<longleftrightarrow> wq_taken q @ wq_items q = wq_pushed q"

definition available_ok :: "'a work_queue \<Rightarrow> bool" where
  "available_ok q \<longleftrightarrow>
     wq_threadsAvailable q = count_if idle (wq_workers q) + count_if expired (wq_workers q)"

definition threads_ok :: "bool \<Rightarrow> nat \<Rightarrow> 'a work_queue \<Rightarrow> bool" where
  "threads_ok single hw q \<longleftrightarrow>
     count_if w_permanent (wq_workers q) = minimumThreads single \<and>
     count_if (\<lambda>w. w_permanent w \<and> expired w) (wq_workers q) = 0 \<and>
     (\<not> wq_dying q \<longrightarrow> count_if (\<lambda>w. w_state w = Returned) (wq_workers q) = 0) \<and>
     count_if (\<lambda>w. \<not> expired w) (wq_workers q) \<le> maximumThreads single hw"

definition wakeup_ok :: "'a work_queue \<Rightarrow> bool" where
  "wakeup_ok q \<longleftrightarrow>
     (\<not> wq_dying q \<and> wq_items q \<noteq> [] \<longrightarrow> 0 < wq_notify_one q \<or> 0 < count_if active (wq_workers q)) \<and>
     (wq_dying q \<and> \<not> wq_notify_all q \<longrightarrow> count_if (\<lambda>w. w_state w = Waiting) (wq_workers q) = 0)"

lemma set_state_simps [simp]:
  "wq_items (set_state i st q) = wq_items q" "wq_threadsAvailable (set_state i st q) = wq_threadsAvailable q"
  "wq_dying (set_state i st q) = wq_dying q" "wq_notify_one (set_state i st q) = wq_notify_one q"
  "wq_notify_all (set_state i st q) = wq_notify_all q" "wq_pushed (set_state i st q) = wq_pushed q"
  "wq_taken (set_state i st q) = wq_taken q"
  "wq_workers (set_state i st q) = (wq_workers q)[i := (wq_workers q ! i)\<lparr>w_state := st\<rparr>]"
  by (simp_all add: set_state_def)

lemma workerThreads_length: "length (workerThreads q) = count_if (\<lambda>w. \<not> expired w) (wq_workers q)"
  by (simp add: workerThreads_def count_if_def expired_def)

text \<open>The three outcomes of the code that tests the predicate.\<close>

definition take_item :: "nat \<Rightarrow> 'a \<Rightarrow> 'a list \<Rightarrow> 'a work_queue \<Rightarrow> 'a work_queue" where
  "take_item i x rest q = set_state i (Working x) (q\<lparr>wq_items := rest, wq_taken := wq_taken q @ [x]\<rparr>)"

lemma worker_enter_cases:
  "wq_dying q \<Longrightarrow> worker_enter i q = set_state i Returned q"
  "\<not> wq_dying q \<Longrightarrow> wq_items q = x # rest \<Longrightarrow> worker_enter i q = take_item i x rest q"
  "\<not> wq_dying q \<Longrightarrow> wq_items q = [] \<Longrightarrow>
     worker_enter i q = set_state i Waiting (q\<lparr>wq_threadsAvailable := wq_threadsAvailable q + 1\<rparr>)"
  by (simp_all add: worker_enter_def wait_predicate_def after_wait_def take_item_def Let_def set_state_def)

lemma worker_woken_cases:
  "wq_dying q \<Longrightarrow> worker_woken i q =
     set_state i Returned (q\<lparr>wq_threadsAvailable := wq_threadsAvailable q - 1\<rparr>)"
  "\<not> wq_dying q \<Longrightarrow> wq_items q = x # rest \<Longrightarrow> worker_woken i q =
     take_item i x rest (q\<lparr>wq_threadsAvailable := wq_threadsAvailable q - 1\<rparr>)"
  "\<not> wq_dying q \<Longrightarrow> wq_items q = [] \<Longrightarrow> worker_woken i q = set_state i Waiting q"
  by (simp_all add: worker_woken_def wait_predicate_def after_wait_def take_item_def Let_def set_state_def)

lemma worker_timeout_cases:
  "wq_dying q \<Longrightarrow> worker_timeout i q =
     set_state i Returned (q\<lparr>wq_threadsAvailable := wq_threadsAvailable q - 1\<rparr>)"
  "\<not> wq_dying q \<Longrightarrow> wq_items q = x # rest \<Longrightarrow> worker_timeout i q =
     take_item i x rest (q\<lparr>wq_threadsAvailable := wq_threadsAvailable q - 1\<rparr>)"
  "\<not> wq_dying q \<Longrightarrow> wq_items q = [] \<Longrightarrow> worker_timeout i q = set_state i Expired q"
  by (simp_all add: worker_timeout_def wait_predicate_def after_wait_def take_item_def Let_def set_state_def)

text \<open>
  Every step is one of a few kinds of change to the state, so that each part of the invariant is
  checked once for each kind.
\<close>

inductive change :: "bool \<Rightarrow> nat \<Rightarrow> 'a work_queue \<Rightarrow> 'a work_queue \<Rightarrow> bool" for single hw where
  ch_die: "i < length (wq_workers q) \<Longrightarrow> wq_dying q \<Longrightarrow> state_of q i \<in> {At_lock, Waiting, Notified} \<Longrightarrow>
    n = wq_threadsAvailable q - of_bool (idle (wq_workers q ! i)) \<Longrightarrow>
    change single hw q (set_state i Returned (q\<lparr>wq_threadsAvailable := n\<rparr>))"
| ch_take: "i < length (wq_workers q) \<Longrightarrow> \<not> wq_dying q \<Longrightarrow> state_of q i \<in> {At_lock, Waiting, Notified} \<Longrightarrow>
    n = wq_threadsAvailable q - of_bool (idle (wq_workers q ! i)) \<Longrightarrow> wq_items q = x # rest \<Longrightarrow>
    change single hw q (take_item i x rest (q\<lparr>wq_threadsAvailable := n\<rparr>))"
| ch_wait: "i < length (wq_workers q) \<Longrightarrow> \<not> wq_dying q \<Longrightarrow> state_of q i \<in> {At_lock, Notified} \<Longrightarrow>
    n = wq_threadsAvailable q + of_bool (\<not> idle (wq_workers q ! i)) \<Longrightarrow> wq_items q = [] \<Longrightarrow>
    change single hw q (set_state i Waiting (q\<lparr>wq_threadsAvailable := n\<rparr>))"
| ch_expire: "i < length (wq_workers q) \<Longrightarrow> \<not> wq_dying q \<Longrightarrow> state_of q i \<in> {Waiting, Notified} \<Longrightarrow>
    \<not> w_permanent (wq_workers q ! i) \<Longrightarrow> wq_items q = [] \<Longrightarrow> change single hw q (set_state i Expired q)"
| ch_wake: "i < length (wq_workers q) \<Longrightarrow> state_of q i = Waiting \<Longrightarrow> n = wq_notify_one q \<or> n = wq_notify_one q - 1 \<Longrightarrow>
    change single hw q (set_state i Notified (q\<lparr>wq_notify_one := n\<rparr>))"
| ch_finish: "i < length (wq_workers q) \<Longrightarrow> state_of q i = Working x \<Longrightarrow> change single hw q (set_state i At_lock q)"
| ch_push: "\<not> wq_dying q \<Longrightarrow> change single hw q (WorkQueue_push single hw x q)"
| ch_notify_none: "\<forall>w \<in> set (wq_workers q). w_state w \<noteq> Waiting \<Longrightarrow>
    change single hw q (q\<lparr>wq_notify_one := wq_notify_one q - 1\<rparr>)"
| ch_destroy: "change single hw q (WorkQueue_destroy q)"
| ch_notify_all: "wq_notify_all q \<Longrightarrow> change single hw q (notify_all q)"

lemma set_available_id [simp]: "q\<lparr>wq_threadsAvailable := wq_threadsAvailable q\<rparr> = q"
  by simp

lemma wq_step_change: "wq_step single hw q q' \<Longrightarrow> change single hw q q'"
proof (induction rule: wq_step.induct)
  case (step_enter i q)
  then have "\<not> idle (wq_workers q ! i)" by (simp add: idle_def)
  with step_enter show ?case
    by (cases "wq_dying q"; cases "wq_items q")
      (use ch_die [of i q "wq_threadsAvailable q"] ch_take [of i q "wq_threadsAvailable q"]
        ch_wait [of i q "wq_threadsAvailable q + 1"] in \<open>simp_all add: worker_enter_cases\<close>)
next
  case (step_woken i q)
  then have "idle (wq_workers q ! i)" by (simp add: idle_def)
  with step_woken show ?case
    by (cases "wq_dying q"; cases "wq_items q")
      (use ch_die [of i q "wq_threadsAvailable q - 1"] ch_take [of i q "wq_threadsAvailable q - 1"]
        ch_wait [of i q "wq_threadsAvailable q"] in \<open>simp_all add: worker_woken_cases\<close>)
next
  case (step_timeout i q)
  then have "idle (wq_workers q ! i)" by (auto simp: idle_def)
  with step_timeout show ?case
    by (cases "wq_dying q"; cases "wq_items q")
      (use ch_die [of i q "wq_threadsAvailable q - 1"] ch_take [of i q "wq_threadsAvailable q - 1"]
        ch_expire [of i q] in \<open>auto simp: worker_timeout_cases\<close>)
next
  case (step_spurious i q)
  then show ?case using ch_wake [of i q "wq_notify_one q"] by simp
next
  case (step_notify_some q i)
  then show ?case using ch_wake [of i q "wq_notify_one q - 1"] by (simp add: notify_one_def)
next
  case (step_notify_none q)
  then show ?case using ch_notify_none by (simp add: notify_one_def)
qed (auto simp: worker_finish_def intro: change.intros)

lemma items_ok_change: "change single hw q q' \<Longrightarrow> items_ok q \<Longrightarrow> items_ok q'"
  by (induction rule: change.induct)
    (auto simp: items_ok_def take_item_def WorkQueue_push_def WorkQueue_destroy_def notify_all_def Let_def)

text \<open>How one worker's new state moves a count.\<close>

lemma count_state_update:
  assumes "i < length ws"
  shows "count_if P (ws[i := (ws ! i)\<lparr>w_state := st\<rparr>]) =
    count_if P ws + of_bool (P ((ws ! i)\<lparr>w_state := st\<rparr>)) - of_bool (P (ws ! i))"
  using count_if_update [OF assms, of P "(ws ! i)\<lparr>w_state := st\<rparr>"] by linarith

lemma count_nth_le: "i < length ws \<Longrightarrow> of_bool (P (ws ! i)) \<le> count_if P ws"
  using count_if_nth_pos [of i ws P] by (cases "P (ws ! i)") auto

lemma count_if_notify_all:
  "count_if P (wq_workers (notify_all q)) =
   count_if (\<lambda>w. P (if w_state w = Waiting then w\<lparr>w_state := Notified\<rparr> else w)) (wq_workers q)"
  by (simp add: notify_all_def count_if_def filter_map comp_def)

lemma count_if_notify_all_same:
  assumes "\<And>w. w_state w = Waiting \<Longrightarrow> P (w\<lparr>w_state := Notified\<rparr>) = P w"
  shows "count_if P (wq_workers (notify_all q)) = count_if P (wq_workers q)"
proof -
  have "P (if w_state w = Waiting then w\<lparr>w_state := Notified\<rparr> else w) = P w" for w
    using assms by simp
  then show ?thesis by (simp add: count_if_notify_all)
qed

lemma available_ok_change: "change single hw q q' \<Longrightarrow> available_ok q \<Longrightarrow> available_ok q'"
proof (induction rule: change.induct)
  case (ch_die i q n)
  then show ?case using count_nth_le [of i "wq_workers q" idle]
    by (auto simp: available_ok_def count_state_update idle_def expired_def)
next
  case (ch_take i q n x rest)
  then show ?case using count_nth_le [of i "wq_workers q" idle]
    by (auto simp: available_ok_def count_state_update idle_def expired_def take_item_def)
next
  case (ch_expire i q)
  then show ?case using count_nth_le [of i "wq_workers q" idle]
    by (auto simp: available_ok_def count_state_update idle_def expired_def)
next
  case (ch_push q x)
  then show ?case by (auto simp: available_ok_def WorkQueue_push_def Let_def idle_def expired_def)
next
  case (ch_notify_all q)
  then show ?case
    by (simp add: available_ok_def count_if_notify_all_same idle_def expired_def) (simp add: notify_all_def)
qed (auto simp: available_ok_def count_state_update idle_def expired_def WorkQueue_destroy_def)

lemma threads_ok_change: "change single hw q q' \<Longrightarrow> threads_ok single hw q \<Longrightarrow> threads_ok single hw q'"
proof (induction rule: change.induct)
  case (ch_push q x)
  then show ?case
    by (auto simp: threads_ok_def WorkQueue_push_def Let_def workerThreads_length expired_def)
next
  case (ch_notify_all q)
  then show ?case
    by (simp add: threads_ok_def count_if_notify_all_same expired_def) (simp add: notify_all_def)
next
  case (ch_expire i q)
  then show ?case using count_nth_le [of i "wq_workers q" "\<lambda>w. \<not> expired w"]
    by (auto simp: threads_ok_def count_state_update expired_def)
qed (auto simp: threads_ok_def count_state_update expired_def take_item_def WorkQueue_destroy_def
    split: if_splits)

text \<open>With the threads accounted for, some worker is alive unless the queue is being destroyed.\<close>

lemma permanent_alive:
  assumes "threads_ok single hw q" and "\<not> wq_dying q" and "\<forall>w \<in> set (wq_workers q). w_state w \<noteq> Waiting"
  shows "0 < count_if active (wq_workers q)"
proof -
  have "0 < count_if w_permanent (wq_workers q)"
    using assms(1) by (simp add: threads_ok_def minimumThreads_def)
  then obtain w where w: "w \<in> set (wq_workers q)" "w_permanent w" by (auto simp: count_if_pos_iff)
  with assms have "active w"
    by (auto simp: threads_ok_def active_def expired_def count_if_zero_iff)
  with w show ?thesis by (auto simp: count_if_pos_iff)
qed

lemma wakeup_ok_change:
  "change single hw q q' \<Longrightarrow> threads_ok single hw q \<Longrightarrow> wakeup_ok q \<Longrightarrow> wakeup_ok q'"
proof (induction rule: change.induct)
  case (ch_die i q n)
  then show ?case by (auto simp: wakeup_ok_def count_state_update)
next
  case (ch_take i q n x rest)
  have "0 < count_if active ((wq_workers q)[i := (wq_workers q ! i)\<lparr>w_state := Working x\<rparr>])"
    using ch_take.hyps(1) by (auto simp: count_if_pos_iff active_def set_update_memI intro!: bexI [where x = "(wq_workers q ! i)\<lparr>w_state := Working x\<rparr>"])
  with ch_take show ?case by (auto simp: wakeup_ok_def take_item_def)
next
  case (ch_wake i q n)
  have "0 < count_if active ((wq_workers q)[i := (wq_workers q ! i)\<lparr>w_state := Notified\<rparr>])"
    using ch_wake.hyps(1) by (auto simp: count_if_pos_iff active_def set_update_memI intro!: bexI [where x = "(wq_workers q ! i)\<lparr>w_state := Notified\<rparr>"])
  with ch_wake show ?case by (auto simp: wakeup_ok_def count_state_update)
next
  case (ch_finish i q x)
  have "0 < count_if active ((wq_workers q)[i := (wq_workers q ! i)\<lparr>w_state := At_lock\<rparr>])"
    using ch_finish.hyps(1) by (auto simp: count_if_pos_iff active_def set_update_memI intro!: bexI [where x = "(wq_workers q ! i)\<lparr>w_state := At_lock\<rparr>"])
  with ch_finish show ?case by (auto simp: wakeup_ok_def count_state_update)
next
  case (ch_notify_none q)
  then show ?case using permanent_alive [of single hw q] by (auto simp: wakeup_ok_def)
next
  case (ch_notify_all q)
  have "count_if (\<lambda>w. w_state w = Waiting) (wq_workers (notify_all q)) = 0"
    by (auto simp: notify_all_def count_if_zero_iff)
  moreover have "count_if active (wq_workers q) \<le> count_if active (wq_workers (notify_all q))"
    by (auto simp: count_if_notify_all active_def intro!: count_if_mono)
  ultimately show ?case using ch_notify_all by (auto simp: wakeup_ok_def) (auto simp: notify_all_def)
qed (auto simp: wakeup_ok_def WorkQueue_push_def WorkQueue_destroy_def Let_def active_def)

definition wq_ok :: "bool \<Rightarrow> nat \<Rightarrow> 'a work_queue \<Rightarrow> bool" where
  "wq_ok single hw q \<longleftrightarrow> items_ok q \<and> available_ok q \<and> threads_ok single hw q \<and> wakeup_ok q"

lemma wq_new_ok: "wq_ok single hw (WorkQueue_new single)"
  by (auto simp: wq_ok_def WorkQueue_new_def items_ok_def available_ok_def threads_ok_def wakeup_ok_def
      count_if_def idle_def expired_def maximumThreads_def)

interpretation wq_runs: inductive_invariant
  "\<lambda>q. q = WorkQueue_new single" "wq_step single hw" "wq_ok single hw"
  using wq_new_ok items_ok_change available_ok_change threads_ok_change wakeup_ok_change
  by unfold_locales (auto simp: wq_ok_def dest!: wq_step_change)

abbreviation wq_reachable :: "bool \<Rightarrow> nat \<Rightarrow> 'a work_queue \<Rightarrow> bool" where
  "wq_reachable single hw \<equiv> reach (\<lambda>q. q = WorkQueue_new single) (wq_step single hw)"

text \<open>Executing a schedule: a list of actions, each of which must be enabled.\<close>

datatype 'a action = A_enter nat | A_woken nat | A_timeout nat | A_finish nat | A_push 'a | A_notify nat

fun perform :: "bool \<Rightarrow> nat \<Rightarrow> 'a action \<Rightarrow> 'a work_queue \<Rightarrow> 'a work_queue option" where
  "perform single hw (A_enter i) q =
     (if i < length (wq_workers q) \<and> state_of q i = At_lock then Some (worker_enter i q) else None)"
| "perform single hw (A_woken i) q =
     (if i < length (wq_workers q) \<and> state_of q i = Notified then Some (worker_woken i q) else None)"
| "perform single hw (A_timeout i) q =
     (if i < length (wq_workers q) \<and> state_of q i \<in> {Waiting, Notified} \<and> \<not> w_permanent (wq_workers q ! i)
      then Some (worker_timeout i q) else None)"
| "perform single hw (A_finish i) q =
     (if i < length (wq_workers q) then (case state_of q i of Working x \<Rightarrow> Some (worker_finish i q) | _ \<Rightarrow> None)
      else None)"
| "perform single hw (A_push x) q = (if wq_dying q then None else Some (WorkQueue_push single hw x q))"
| "perform single hw (A_notify i) q =
     (if 0 < wq_notify_one q \<and> i < length (wq_workers q) \<and> state_of q i = Waiting
      then Some (notify_one (Some i) q) else None)"

fun run_schedule :: "bool \<Rightarrow> nat \<Rightarrow> 'a action list \<Rightarrow> 'a work_queue \<Rightarrow> 'a work_queue option" where
  "run_schedule single hw [] q = Some q"
| "run_schedule single hw (a # as) q =
     (case perform single hw a q of None \<Rightarrow> None | Some q' \<Rightarrow> run_schedule single hw as q')"

lemma perform_step: "perform single hw a q = Some q' \<Longrightarrow> wq_step single hw q q'"
  by (cases a) (auto intro: wq_step.intros split: if_splits wstate.splits)

lemma run_schedule_steps: "run_schedule single hw as q = Some q' \<Longrightarrow> (wq_step single hw)\<^sup>*\<^sup>* q q'"
  by (induction as arbitrary: q)
    (auto split: option.splits dest!: perform_step intro: converse_rtranclp_into_rtranclp)

text \<open>From every reachable state with queued items, some schedule hands out the next one.\<close>

lemma active_takes_next:
  assumes i: "i < length (wq_workers q)" "active (wq_workers q ! i)"
    and q: "\<not> wq_dying q" "wq_items q = x # rest"
  shows "\<exists>as q'. run_schedule single hw as q = Some q' \<and> wq_taken q' = wq_taken q @ [x]"
proof (cases "state_of q i")
  case At_lock
  with i q show ?thesis
    by (intro exI [of _ "[A_enter i]"]) (simp add: worker_enter_cases take_item_def)
next
  case Notified
  with i q show ?thesis
    by (intro exI [of _ "[A_woken i]"]) (simp add: worker_woken_cases take_item_def)
next
  case (Working y)
  with i q show ?thesis
    by (intro exI [of _ "[A_finish i, A_enter i]"])
      (simp add: worker_finish_def worker_enter_cases take_item_def)
qed (use i in \<open>simp_all add: active_def\<close>)

lemma next_item_reachable:
  assumes ok: "wq_ok single hw q" and q: "\<not> wq_dying q" "wq_items q = x # rest"
  shows "\<exists>as q'. run_schedule single hw as q = Some q' \<and> wq_taken q' = wq_taken q @ [x]"
proof (cases "\<exists>i < length (wq_workers q). active (wq_workers q ! i)")
  case True
  then obtain i where "i < length (wq_workers q)" "active (wq_workers q ! i)" by blast
  from active_takes_next [OF this q] show ?thesis .
next
  case False
  then have none: "count_if active (wq_workers q) = 0" by (auto simp: count_if_zero_iff in_set_conv_nth)
  with ok q have notify: "0 < wq_notify_one q" by (simp add: wq_ok_def wakeup_ok_def)
  from permanent_alive [of single hw q] ok q none have "\<exists>w \<in> set (wq_workers q). w_state w = Waiting"
    by (auto simp: wq_ok_def)
  then obtain i where i: "i < length (wq_workers q)" "state_of q i = Waiting"
    by (auto simp: in_set_conv_nth)
  let ?q1 = "notify_one (Some i) q"
  have "\<exists>as q'. run_schedule single hw as ?q1 = Some q' \<and> wq_taken q' = wq_taken ?q1 @ [x]"
    by (rule active_takes_next [of i]) (use i q in \<open>simp_all add: notify_one_def Let_def active_def\<close>)
  then obtain as q' where "run_schedule single hw as ?q1 = Some q'" "wq_taken q' = wq_taken q @ [x]"
    by (auto simp: notify_one_def Let_def)
  with i notify show ?thesis by (intro exI [of _ "A_notify i # as"]) simp
qed

section \<open>Properties\<close>


definition demo_schedule :: "char action list" where
  "demo_schedule = [A_enter 0, A_enter 1, A_push CHR ''a'', A_notify 0, A_woken 0, A_push CHR ''b'',
     A_notify 1, A_woken 1, A_push CHR ''c'', A_enter 2, A_finish 2, A_enter 2, A_timeout 2]"

definition demo_final :: "char work_queue" where
  "demo_final = \<lparr>wq_items = [], wq_workers =
     [\<lparr>w_permanent = True, w_state = Working CHR ''a''\<rparr>, \<lparr>w_permanent = True, w_state = Working CHR ''b''\<rparr>,
      \<lparr>w_permanent = False, w_state = Expired\<rparr>], wq_threadsAvailable = 1, wq_dying = False,
     wq_notify_one = 0, wq_notify_all = False, wq_pushed = ''abc'', wq_taken = ''abc''\<rparr>"

lemmas wq_eval = WorkQueue_new_def minimumThreads_def maximumThreads_def worker_enter_cases
  worker_woken_cases worker_timeout_cases worker_finish_def take_item_def WorkQueue_push_def
  notify_one_def set_state_def workerThreads_def Let_def numeral_2_eq_2

lemma demo_run: "run_schedule False 3 demo_schedule (WorkQueue_new False) = Some demo_final"
  by (simp add: demo_schedule_def demo_final_def wq_eval)

lemma demo_reachable: "wq_reachable False 3 demo_final"
  by (rule reach_steps [OF reach_start run_schedule_steps [OF demo_run]]) simp


text \<open>C19: No wake-up is lost. In every reachable state with queued items, while the queue is not
  being destroyed, some worker will test the queue again without a notification or a notification
  is on its way, and some schedule of the workers hands out the next item. Once the
  destructor has notified, no worker is left waiting.\<close>

theorem no_lost_wakeup:
  assumes "wq_reachable single hw q"
  shows "(\<not> wq_dying q \<and> wq_items q \<noteq> [] \<longrightarrow>
      (0 < wq_notify_one q \<or> (\<exists>w \<in> set (wq_workers q). active w)) \<and>
      (\<exists>q'. (wq_step single hw)\<^sup>*\<^sup>* q q' \<and> wq_taken q' = wq_taken q @ [hd (wq_items q)])) \<and>
    (wq_dying q \<and> \<not> wq_notify_all q \<longrightarrow> (\<forall>w \<in> set (wq_workers q). w_state w \<noteq> Waiting))"
proof -
  have ok: "wq_ok single hw q" by (rule wq_runs.holds_when_reached [OF assms])
  have "\<exists>q'. (wq_step single hw)\<^sup>*\<^sup>* q q' \<and> wq_taken q' = wq_taken q @ [hd (wq_items q)]"
    if "\<not> wq_dying q" "wq_items q \<noteq> []"
    using next_item_reachable [OF ok that(1), of "hd (wq_items q)" "tl (wq_items q)"] that(2)
      run_schedule_steps by (metis list.collapse)
  moreover have "wakeup_ok q" using ok by (simp add: wq_ok_def)
  ultimately show ?thesis
    by (auto simp: wakeup_ok_def count_if_pos_iff count_if_zero_iff)
qed

definition demo_pushed :: "char work_queue" where
  "demo_pushed = WorkQueue_push False 3 CHR ''d'' demo_final"

lemma demo_pushed_reachable: "wq_reachable False 3 demo_pushed"
  unfolding demo_pushed_def
  by (rule reach_next [OF demo_reachable]) (rule step_push, simp add: demo_final_def)

theorem no_lost_wakeup_witness:
  "\<exists>q'. (wq_step False 3)\<^sup>*\<^sup>* demo_pushed q' \<and> wq_taken q' = ''abcd''"
proof -
  have "\<not> wq_dying demo_pushed \<and> wq_items demo_pushed \<noteq> [] \<and> wq_taken demo_pushed @ [hd (wq_items demo_pushed)] = ''abcd''"
    by (simp add: demo_pushed_def demo_final_def WorkQueue_push_def Let_def)
  with no_lost_wakeup [OF demo_pushed_reachable] show ?thesis by metis
qed

text \<open>The queue keeps its permanent workers and never runs more threads than its maximum. Its
  count of available threads is the number of workers inside the wait plus the number of
  temporary workers that have timed out, since a worker that expires does not take itself out of
  the count: from the first expiry on, a push never starts another temporary worker, even
  when every worker is busy.\<close>

lemma thread_accounting:
  assumes "wq_reachable single hw q"
  shows "minimumThreads single \<le> length (workerThreads q) \<and>
    length (workerThreads q) \<le> maximumThreads single hw \<and>
    wq_threadsAvailable q = count_if idle (wq_workers q) + count_if expired (wq_workers q) \<and>
    ((\<exists>w \<in> set (wq_workers q). expired w) \<longrightarrow> wq_workers (WorkQueue_push single hw x q) = wq_workers q)"
proof -
  have ok: "available_ok q" "threads_ok single hw q"
    using wq_runs.holds_when_reached [OF assms] by (simp_all add: wq_ok_def)
  have "count_if w_permanent (wq_workers q) \<le> count_if (\<lambda>w. \<not> expired w) (wq_workers q)"
    using ok(2) by (intro count_if_mono) (auto simp: threads_ok_def count_if_zero_iff)
  moreover have "wq_workers (WorkQueue_push single hw x q) = wq_workers q" if "0 < wq_threadsAvailable q"
    using that by (simp add: WorkQueue_push_def Let_def)
  ultimately show ?thesis
    using ok by (auto simp: available_ok_def threads_ok_def workerThreads_length count_if_pos_iff)
qed

end
