(* ===== verification/StackPool.thy ===== *)
theory StackPool
  imports Prelude
begin

text \<open>
  The pool of stacks for microthreads (\<open>src/stack-pool.cpp\<close>). Memory is the list of mapped
  regions, each an address and a length, and the list of pages made inaccessible. The kernel
  chooses the addresses, so \<open>mmap\<close> is a parameter that gets the current mappings; what the code
  relies on is that it returns a page-aligned region that overlaps no mapping.
\<close>

section \<open>Model\<close>

record vm =
  vm_maps :: "(nat \<times> nat) list"
  vm_guards :: "nat list"

type_synonym mmap_oracle = "vm \<Rightarrow> nat \<Rightarrow> nat result"

record stack =
  stack_base :: nat
  stack_size :: nat
  stack_usesGuardPages :: bool

definition Stack_isValid :: "stack \<Rightarrow> bool" where
  "Stack_isValid s \<longleftrightarrow> stack_base s \<noteq> 0 \<and> stack_size s \<noteq> 0"

record stack_pool =
  sp_idleStackCount :: nat
  sp_stackSize :: nat
  sp_useGuardPages :: bool
  sp_stacks :: "nat list"

text \<open>System calls: mapping anonymous memory, taking all access from pages, unmapping.\<close>

definition sys_mmap :: "mmap_oracle \<Rightarrow> nat \<Rightarrow> vm \<Rightarrow> nat result \<times> vm" where
  "sys_mmap mmap len v =
     (case mmap v len of Inl e \<Rightarrow> (Inl e, v) | Inr a \<Rightarrow> (Inr a, v\<lparr>vm_maps := (a, len) # vm_maps v\<rparr>))"

definition sys_mprotect_none :: "nat \<Rightarrow> nat \<Rightarrow> vm \<Rightarrow> vm" where
  "sys_mprotect_none pageSize a v = (if pageSize dvd a then v\<lparr>vm_guards := a # vm_guards v\<rparr> else v)"

definition sys_munmap :: "nat \<Rightarrow> nat \<Rightarrow> vm \<Rightarrow> unit result \<times> vm" where
  "sys_munmap a len v =
     (if (a, len) \<in> set (vm_maps v)
      then (Inr (), v\<lparr>vm_maps := remove1 (a, len) (vm_maps v),
              vm_guards := filter (\<lambda>g. \<not> (a \<le> g \<and> g < a + len)) (vm_guards v)\<rparr>)
      else (Inl (System_error 22), v))"

definition StackPool_allocate_raw :: "nat \<Rightarrow> mmap_oracle \<Rightarrow> nat \<Rightarrow> bool \<Rightarrow> vm \<Rightarrow> nat result \<times> vm" where
  "StackPool_allocate_raw pageSize mmap stackSize useGuardPages v =
     (case sys_mmap mmap (if useGuardPages then stackSize + pageSize * 2 else stackSize) v of
        (Inl e, v1) \<Rightarrow> (Inl e, v1)
      | (Inr stack, v1) \<Rightarrow>
          (if useGuardPages
           then (let v2 = sys_mprotect_none pageSize stack v1;
                     stack' = stack + pageSize;
                     v3 = sys_mprotect_none pageSize (stack' + stackSize) v2
                 in (Inr stack', v3))
           else (Inr stack, v1)))"

definition StackPool_free_raw :: "nat \<Rightarrow> nat \<Rightarrow> nat \<Rightarrow> bool \<Rightarrow> vm \<Rightarrow> unit result \<times> vm" where
  "StackPool_free_raw pageSize stack stackSize useGuardPages v =
     (if useGuardPages then sys_munmap (stack - pageSize) (stackSize + pageSize * 2) v
      else sys_munmap stack stackSize v)"

text \<open>The constructor fills the pool; an exception leaves the stacks mapped so far behind.\<close>

primrec StackPool_fill :: "nat \<Rightarrow> mmap_oracle \<Rightarrow> nat \<Rightarrow> stack_pool \<Rightarrow> vm \<Rightarrow> stack_pool result \<times> vm" where
  "StackPool_fill pageSize mmap 0 p v = (Inr p, v)"
| "StackPool_fill pageSize mmap (Suc n) p v =
     (case StackPool_allocate_raw pageSize mmap (sp_stackSize p) (sp_useGuardPages p) v of
        (Inl e, v1) \<Rightarrow> (Inl e, v1)
      | (Inr a, v1) \<Rightarrow> StackPool_fill pageSize mmap n (p\<lparr>sp_stacks := sp_stacks p @ [a]\<rparr>) v1)"

definition StackPool_new :: "nat \<Rightarrow> mmap_oracle \<Rightarrow> nat \<Rightarrow> nat \<Rightarrow> bool \<Rightarrow> vm \<Rightarrow> stack_pool result \<times> vm" where
  "StackPool_new pageSize mmap idleStackCount stackSize useGuardPages v =
     StackPool_fill pageSize mmap idleStackCount
       \<lparr>sp_idleStackCount = idleStackCount, sp_stackSize = stackSize, sp_useGuardPages = useGuardPages,
        sp_stacks = []\<rparr> v"

definition StackPool_allocate :: "nat \<Rightarrow> mmap_oracle \<Rightarrow> stack_pool \<Rightarrow> vm
    \<Rightarrow> stack result \<times> stack_pool \<times> vm" where
  "StackPool_allocate pageSize mmap p v =
     (if length (sp_stacks p) > 0
      then (Inr \<lparr>stack_base = last (sp_stacks p), stack_size = sp_stackSize p,
              stack_usesGuardPages = sp_useGuardPages p\<rparr>,
            p\<lparr>sp_stacks := butlast (sp_stacks p)\<rparr>, v)
      else (case StackPool_allocate_raw pageSize mmap (sp_stackSize p) (sp_useGuardPages p) v of
              (Inl e, v1) \<Rightarrow> (Inl e, p, v1)
            | (Inr a, v1) \<Rightarrow> (Inr \<lparr>stack_base = a, stack_size = sp_stackSize p,
                stack_usesGuardPages = sp_useGuardPages p\<rparr>, p, v1)))"

definition StackPool_free :: "nat \<Rightarrow> stack \<Rightarrow> stack_pool \<Rightarrow> vm \<Rightarrow> stack result \<times> stack_pool \<times> vm" where
  "StackPool_free pageSize s p v =
     (if stack_size s \<noteq> sp_stackSize p \<or> stack_usesGuardPages s \<noteq> sp_useGuardPages p
      then (Inl (Assertion_failed ''stack''), p, v)
      else
        (let reset = \<lparr>stack_base = 0, stack_size = 0, stack_usesGuardPages = False\<rparr>
         in if length (sp_stacks p) > sp_idleStackCount p
            then (case StackPool_free_raw pageSize (stack_base s) (stack_size s) (stack_usesGuardPages s) v of
                    (Inl e, v1) \<Rightarrow> (Inl e, p, v1)
                  | (Inr _, v1) \<Rightarrow> (Inr reset, p, v1))
            else (Inr reset, p\<lparr>sp_stacks := sp_stacks p @ [stack_base s]\<rparr>, v)))"

section \<open>Ownership\<close>

text \<open>
  A stack occupies one mapping: its bytes, and a page on either side if it has guard pages. The
  stacks in the pool together with those in the hands of clients are the owned stacks.
\<close>

definition region :: "nat \<Rightarrow> stack_pool \<Rightarrow> nat \<Rightarrow> nat \<times> nat" where
  "region pageSize p a = (if sp_useGuardPages p then (a - pageSize, sp_stackSize p + pageSize * 2)
     else (a, sp_stackSize p))"

definition overlap :: "nat \<times> nat \<Rightarrow> nat \<times> nat \<Rightarrow> bool" where
  "overlap r1 r2 \<longleftrightarrow> fst r1 < fst r2 + snd r2 \<and> fst r2 < fst r1 + snd r1"

definition mmap_documented :: "nat \<Rightarrow> mmap_oracle \<Rightarrow> bool" where
  "mmap_documented pageSize mmap \<longleftrightarrow>
     (\<forall>v len a. mmap v len = Inr a \<longrightarrow> 0 < a \<and> pageSize dvd a \<and>
        (\<forall>r \<in> set (vm_maps v). \<not> overlap (a, len) r))"

type_synonym pool_state = "stack_pool \<times> vm \<times> nat list"

definition pool_ok :: "nat \<Rightarrow> (nat \<times> nat) list \<Rightarrow> pool_state \<Rightarrow> bool" where
  "pool_ok pageSize foreign s \<longleftrightarrow> (case s of (p, v, held) \<Rightarrow>
     mset (vm_maps v) = mset foreign + mset (map (region pageSize p) (sp_stacks p @ held)) \<and>
     distinct (vm_maps v) \<and> (\<forall>r1 \<in> set (vm_maps v). \<forall>r2 \<in> set (vm_maps v). r1 \<noteq> r2 \<longrightarrow> \<not> overlap r1 r2) \<and>
     (\<forall>a \<in> set (sp_stacks p @ held). 0 < a \<and> pageSize dvd a \<and>
        (sp_useGuardPages p \<longrightarrow> pageSize < a \<and> a - pageSize \<in> set (vm_guards v) \<and> a + sp_stackSize p \<in> set (vm_guards v))) \<and>
     length (sp_stacks p) \<le> sp_idleStackCount p + 1)"

inductive pool_step :: "nat \<Rightarrow> mmap_oracle \<Rightarrow> pool_state \<Rightarrow> pool_state \<Rightarrow> bool" for pageSize mmap where
  step_allocate: "StackPool_allocate pageSize mmap p v = (Inr s, p', v') \<Longrightarrow>
    pool_step pageSize mmap (p, v, held) (p', v', stack_base s # held)"
| step_allocate_fails: "StackPool_allocate pageSize mmap p v = (Inl e, p', v') \<Longrightarrow>
    pool_step pageSize mmap (p, v, held) (p', v', held)"
| step_free: "stack_base s \<in> set held \<Longrightarrow> StackPool_free pageSize s p v = (Inr t, p', v') \<Longrightarrow>
    pool_step pageSize mmap (p, v, held) (p', v', remove1 (stack_base s) held)"
| step_free_fails: "stack_base s \<in> set held \<Longrightarrow> StackPool_free pageSize s p v = (Inl e, p', v') \<Longrightarrow>
    pool_step pageSize mmap (p, v, held) (p', v', held)"

lemma sys_mprotect_simps [simp]:
  "vm_maps (sys_mprotect_none ps a v) = vm_maps v"
  "ps dvd a \<Longrightarrow> vm_guards (sys_mprotect_none ps a v) = a # vm_guards v"
  "set (vm_guards v) \<subseteq> set (vm_guards (sys_mprotect_none ps a v))"
  by (auto simp: sys_mprotect_none_def)

text \<open>A new stack: one new mapping, apart from all others, guarded on both sides.\<close>

lemma allocate_raw_result:
  assumes doc: "mmap_documented pageSize mmap" and aligned: "pageSize dvd stackSize" "0 < pageSize"
    and alloc: "StackPool_allocate_raw pageSize mmap stackSize guards v = (Inr a, v')"
  shows "\<exists>r. vm_maps v' = r # vm_maps v \<and> (\<forall>r' \<in> set (vm_maps v). \<not> overlap r r') \<and>
    r = (if guards then (a - pageSize, stackSize + pageSize * 2) else (a, stackSize)) \<and>
    0 < a \<and> pageSize dvd a \<and> set (vm_guards v) \<subseteq> set (vm_guards v') \<and>
    (guards \<longrightarrow> pageSize < a \<and> a - pageSize \<in> set (vm_guards v') \<and> a + stackSize \<in> set (vm_guards v'))"
proof -
  let ?len = "if guards then stackSize + pageSize * 2 else stackSize"
  obtain b where b: "mmap v ?len = Inr b" and a: "a = (if guards then b + pageSize else b)"
    using alloc by (auto simp: StackPool_allocate_raw_def sys_mmap_def Let_def split: sum.splits if_splits)
  from doc b have B: "0 < b" "pageSize dvd b" "\<forall>r \<in> set (vm_maps v). \<not> overlap (b, ?len) r"
    by (auto simp: mmap_documented_def)
  show ?thesis
  proof (cases guards)
    case True
    let ?v1 = "v\<lparr>vm_maps := (b, ?len) # vm_maps v\<rparr>"
    have v': "v' = sys_mprotect_none pageSize (b + pageSize + stackSize) (sys_mprotect_none pageSize b ?v1)"
      using alloc b True by (auto simp: StackPool_allocate_raw_def sys_mmap_def Let_def)
    have "pageSize dvd b + pageSize + stackSize" using B aligned by (simp add: dvd_add)
    with B aligned True show ?thesis by (auto simp: a v' dvd_add)
  next
    case False
    with alloc b B show ?thesis
      by (auto simp: a StackPool_allocate_raw_def sys_mmap_def)
  qed
qed

lemma overlap_sym: "overlap r1 r2 = overlap r2 r1"
  by (auto simp: overlap_def)

lemma pool_ok_new_stack:
  assumes ok: "pool_ok pageSize foreign (p, v, held)" and size: "0 < sp_stackSize p"
    and maps: "vm_maps v' = region pageSize p a # vm_maps v"
    and fresh: "\<forall>r \<in> set (vm_maps v). \<not> overlap (region pageSize p a) r"
    and a: "0 < a" "pageSize dvd a" "set (vm_guards v) \<subseteq> set (vm_guards v')"
      "sp_useGuardPages p \<longrightarrow> pageSize < a \<and> a - pageSize \<in> set (vm_guards v') \<and> a + sp_stackSize p \<in> set (vm_guards v')"
  shows "pool_ok pageSize foreign (p, v', a # held)"
proof -
  have "overlap (region pageSize p a) (region pageSize p a)"
    using size by (simp add: overlap_def region_def)
  with fresh have "region pageSize p a \<notin> set (vm_maps v)" by blast
  moreover have "\<forall>r \<in> set (vm_maps v). \<not> overlap r (region pageSize p a)"
    using fresh by (simp add: overlap_sym)
  moreover have "\<forall>b \<in> set (sp_stacks p @ a # held). 0 < b \<and> pageSize dvd b \<and> (sp_useGuardPages p \<longrightarrow>
      pageSize < b \<and> b - pageSize \<in> set (vm_guards v') \<and> b + sp_stackSize p \<in> set (vm_guards v'))"
    using ok a by (auto simp: pool_ok_def)
  ultimately show ?thesis
    using ok fresh unfolding pool_ok_def prod.case maps by (simp add: conj_ac)
qed

lemma mset_map_remove1:
  "a \<in> set xs \<Longrightarrow> mset (map f xs) = add_mset (f a) (mset (map f (remove1 a xs)))"
  by (induction xs) auto

lemma pool_ok_unmapped:
  assumes ok: "pool_ok pageSize foreign (p, v, held)" and ps: "0 < pageSize" and held: "a \<in> set held"
    and maps: "vm_maps v' = remove1 (region pageSize p a) (vm_maps v)"
    and guards: "vm_guards v' = filter (\<lambda>g. \<not> (fst (region pageSize p a) \<le> g \<and>
      g < fst (region pageSize p a) + snd (region pageSize p a))) (vm_guards v)"
  shows "pool_ok pageSize foreign (p, v', remove1 a held)"
proof -
  let ?own = "sp_stacks p @ remove1 a held"
  have maps': "mset (vm_maps v') = mset foreign + mset (map (region pageSize p) ?own)"
  proof -
    have "mset (vm_maps v) = mset foreign + (mset (map (region pageSize p) (sp_stacks p)) +
        mset (map (region pageSize p) held))"
      using ok by (simp add: pool_ok_def)
    then have "mset (vm_maps v) = add_mset (region pageSize p a)
        (mset foreign + mset (map (region pageSize p) ?own))"
      unfolding mset_map_remove1 [OF held, of "region pageSize p"] by simp
    then show ?thesis unfolding maps mset_remove1 by simp
  qed
  have rest: "set (vm_maps v') = set (vm_maps v) - {region pageSize p a}" "distinct (vm_maps v')"
    using ok by (simp_all add: maps pool_ok_def)
  have apart: "\<not> overlap (region pageSize p a) (region pageSize p b)" if "b \<in> set ?own" for b
  proof -
    from that have "region pageSize p b \<in> set (map (region pageSize p) ?own)" unfolding set_map by (rule imageI)
    then have "region pageSize p b \<in># mset (vm_maps v')"
      unfolding maps' set_mset_union set_mset_mset by blast
    then have "region pageSize p b \<in> set (vm_maps v')" by simp
    moreover have "region pageSize p a \<in># mset (vm_maps v)"
      using ok held by (auto simp: pool_ok_def)
    ultimately show ?thesis using ok rest by (auto simp: pool_ok_def)
  qed
  have "0 < b \<and> pageSize dvd b \<and> (sp_useGuardPages p \<longrightarrow>
      pageSize < b \<and> b - pageSize \<in> set (vm_guards v') \<and> b + sp_stackSize p \<in> set (vm_guards v'))"
    if b: "b \<in> set ?own" for b
  proof -
    have "b \<in> set (sp_stacks p @ held)" using b by (auto dest: notin_set_remove1 set_mp [OF set_remove1_subset])
    with ok have B: "0 < b" "pageSize dvd b" "sp_useGuardPages p \<longrightarrow>
        pageSize < b \<and> b - pageSize \<in> set (vm_guards v) \<and> b + sp_stackSize p \<in> set (vm_guards v)"
      by (auto simp: pool_ok_def)
    moreover have "\<not> (fst (region pageSize p a) \<le> g \<and> g < fst (region pageSize p a) + snd (region pageSize p a))"
      if "sp_useGuardPages p" "g = b - pageSize \<or> g = b + sp_stackSize p" for g
      using apart [OF b] that B ps by (auto simp: overlap_def region_def)
    ultimately show ?thesis unfolding guards by auto
  qed
  with maps' rest ok show ?thesis by (auto simp: pool_ok_def)
qed

lemma pool_ok_perm:
  "pool_ok ps foreign (p, v, held) \<Longrightarrow> mset (sp_stacks p' @ held') = mset (sp_stacks p @ held) \<Longrightarrow>
   sp_stackSize p' = sp_stackSize p \<Longrightarrow> sp_useGuardPages p' = sp_useGuardPages p \<Longrightarrow>
   sp_idleStackCount p' = sp_idleStackCount p \<Longrightarrow> length (sp_stacks p') \<le> sp_idleStackCount p + 1 \<Longrightarrow>
   pool_ok ps foreign (p', v, held')"
proof -
  assume ok: "pool_ok ps foreign (p, v, held)" and m: "mset (sp_stacks p' @ held') = mset (sp_stacks p @ held)"
    and same: "sp_stackSize p' = sp_stackSize p" "sp_useGuardPages p' = sp_useGuardPages p"
      "sp_idleStackCount p' = sp_idleStackCount p" "length (sp_stacks p') \<le> sp_idleStackCount p + 1"
  have "region ps p' = region ps p" using same by (simp add: region_def fun_eq_iff)
  then have "mset (map (region ps p') (sp_stacks p' @ held')) = mset (map (region ps p) (sp_stacks p @ held))"
    using m by (metis mset_map)
  moreover have "set (sp_stacks p' @ held') = set (sp_stacks p @ held)"
    using m by (rule mset_eq_setD)
  ultimately show ?thesis using ok same by (simp add: pool_ok_def)
qed

definition pool_sane :: "nat \<Rightarrow> stack_pool \<Rightarrow> bool" where
  "pool_sane pageSize p \<longleftrightarrow> 0 < pageSize \<and> 0 < sp_stackSize p \<and> pageSize dvd sp_stackSize p"

lemma pool_step_ok:
  assumes "pool_step pageSize mmap s s'" and doc: "mmap_documented pageSize mmap"
    and "pool_sane pageSize (fst s) \<and> pool_ok pageSize foreign s"
  shows "pool_sane pageSize (fst s') \<and> pool_ok pageSize foreign s'"
  using assms(1,3)
proof (induction rule: pool_step.induct)
  case (step_allocate p v s p' v' held)
  then have ok: "pool_ok pageSize foreign (p, v, held)" and sane: "pool_sane pageSize p" by auto
  show ?case
  proof (cases "sp_stacks p = []")
    case True
    with step_allocate obtain a where
      raw: "StackPool_allocate_raw pageSize mmap (sp_stackSize p) (sp_useGuardPages p) v = (Inr a, v')"
      and s: "stack_base s = a" "p' = p"
      by (auto simp: StackPool_allocate_def split: prod.splits sum.splits)
    from sane have "pageSize dvd sp_stackSize p" "0 < pageSize" "0 < sp_stackSize p" by (auto simp: pool_sane_def)
    from allocate_raw_result [OF doc this(1,2) raw] pool_ok_new_stack [OF ok this(3), of v' a] sane s
    show ?thesis by (auto simp: region_def)
  next
    case False
    with step_allocate(1) have "stack_base s = last (sp_stacks p)" "v' = v" "p' = p\<lparr>sp_stacks := butlast (sp_stacks p)\<rparr>"
      by (auto simp: StackPool_allocate_def)
    moreover have "mset (butlast (sp_stacks p)) + {#last (sp_stacks p)#} = mset (sp_stacks p)"
      using False by (metis append_butlast_last_id mset.simps(1,2) mset_append)
    ultimately show ?thesis
      using sane ok pool_ok_perm [OF ok, of p' "stack_base s # held"]
      by (auto simp: pool_sane_def pool_ok_def union_assoc add.commute)
  qed
next
  case (step_allocate_fails p v e p' v' held)
  then show ?case
    by (auto simp: StackPool_allocate_def StackPool_allocate_raw_def sys_mmap_def Let_def
        split: if_splits sum.splits prod.splits)
next
  case (step_free s held p v t p' v')
  then have ok: "pool_ok pageSize foreign (p, v, held)" and sane: "pool_sane pageSize p" by auto
  have match: "stack_size s = sp_stackSize p" "stack_usesGuardPages s = sp_useGuardPages p"
    using step_free(2) by (auto simp: StackPool_free_def split: if_splits)
  show ?case
  proof (cases "length (sp_stacks p) > sp_idleStackCount p")
    case True
    with step_free(2) match have "p' = p" and
      maps: "vm_maps v' = remove1 (region pageSize p (stack_base s)) (vm_maps v)" and
      guards: "vm_guards v' = filter (\<lambda>g. \<not> (fst (region pageSize p (stack_base s)) \<le> g \<and>
        g < fst (region pageSize p (stack_base s)) + snd (region pageSize p (stack_base s)))) (vm_guards v)"
      by (auto simp: StackPool_free_def StackPool_free_raw_def sys_munmap_def region_def Let_def
          split: if_splits prod.splits sum.splits)
    with pool_ok_unmapped [OF ok _ step_free(1) maps guards] sane show ?thesis by (simp add: pool_sane_def)
  next
    case False
    with step_free(2) match have "v' = v" and p': "p' = p\<lparr>sp_stacks := sp_stacks p @ [stack_base s]\<rparr>"
      by (auto simp: StackPool_free_def Let_def)
    with False sane pool_ok_perm [OF ok, of p' "remove1 (stack_base s) held"] step_free(1) show ?thesis
      by (auto simp: pool_sane_def)
  qed
next
  case (step_free_fails s held p v e p' v')
  then show ?case
    by (auto simp: StackPool_free_def StackPool_free_raw_def sys_munmap_def Let_def
        split: if_splits sum.splits prod.splits)
qed

lemma pool_steps_ok:
  assumes "(pool_step pageSize mmap)\<^sup>*\<^sup>* s s'" and "mmap_documented pageSize mmap"
    and "pool_sane pageSize (fst s) \<and> pool_ok pageSize foreign s"
  shows "pool_sane pageSize (fst s') \<and> pool_ok pageSize foreign s'"
  using assms(1)
proof (induction rule: rtranclp_induct)
  case base
  show ?case by (rule assms(3))
next
  case (step t u)
  from pool_step_ok [OF step.hyps(2) assms(2) step.IH] show ?case .
qed

lemma StackPool_fill_ok:
  assumes doc: "mmap_documented pageSize mmap"
  shows "StackPool_fill pageSize mmap n p v = (Inr p', v') \<Longrightarrow> pool_sane pageSize p \<Longrightarrow>
    pool_ok pageSize foreign (p, v, []) \<Longrightarrow> length (sp_stacks p) + n \<le> sp_idleStackCount p + 1 \<Longrightarrow>
    pool_sane pageSize p' \<and> pool_ok pageSize foreign (p', v', [])"
proof (induction n arbitrary: p v)
  case 0
  then show ?case by simp
next
  case (Suc n)
  from Suc.prems obtain a v1 where
    raw: "StackPool_allocate_raw pageSize mmap (sp_stackSize p) (sp_useGuardPages p) v = (Inr a, v1)"
    and rest: "StackPool_fill pageSize mmap n (p\<lparr>sp_stacks := sp_stacks p @ [a]\<rparr>) v1 = (Inr p', v')"
    by (auto split: prod.splits sum.splits)
  from Suc.prems(2) have sane: "pageSize dvd sp_stackSize p" "0 < pageSize" "0 < sp_stackSize p" by (auto simp: pool_sane_def)
  from allocate_raw_result [OF doc sane(1,2) raw] pool_ok_new_stack [OF Suc.prems(3) sane(3), of v1 a]
  have "pool_ok pageSize foreign (p, v1, [a])" by (auto simp: region_def)
  from pool_ok_perm [OF this, of "p\<lparr>sp_stacks := sp_stacks p @ [a]\<rparr>" "[]"] Suc.prems(4)
  have "pool_ok pageSize foreign (p\<lparr>sp_stacks := sp_stacks p @ [a]\<rparr>, v1, [])" by simp
  from Suc.IH [OF rest _ this] Suc.prems(2,4) show ?case by (simp add: pool_sane_def)
qed

section \<open>Properties\<close>


definition bump_mmap :: mmap_oracle where
  "bump_mmap v len = Inr (4096 * (1 + sum_list (map (\<lambda>(a, l). a + l) (vm_maps v))))"

lemma bump_documented: "mmap_documented 4096 bump_mmap"
proof -
  have "a + l \<le> sum_list (map (\<lambda>(a, l). a + l) ms)" if "(a, l) \<in> set ms" for a l :: nat and ms
    using that by (induction ms) force+
  then show ?thesis
    by (fastforce simp: mmap_documented_def bump_mmap_def overlap_def)
qed

definition demo_pool :: stack_pool where
  "demo_pool = \<lparr>sp_idleStackCount = 1, sp_stackSize = 8192, sp_useGuardPages = True, sp_stacks = [8192]\<rparr>"

definition demo_vm :: vm where
  "demo_vm = \<lparr>vm_maps = [(4096, 16384)], vm_guards = [16384, 4096]\<rparr>"


end
