(* ===== verification/AsyncWriter.thy ===== *)
theory AsyncWriter
  imports Prelude
begin

text \<open>
  The buffered writer used for the debugging calls (\<open>src/async-writer.cpp\<close>). It holds the bytes
  that the descriptor would not take yet and keeps a reference to itself until they are written.
  The answers of \<open>write\<close> are a script, as for the message queues; the bytes that reached the
  descriptor and the bytes that clients handed over are kept as a history.
\<close>

section \<open>Model\<close>

record async_writer =
  aw_buffer :: "u8 list"
  aw_canSend :: bool
  aw_keepMeAliveUntilEmpty :: bool
  aw_monitor :: bool
  aw_output :: "u8 list"
  aw_input :: "u8 list"

datatype write_answer = Written nat | Write_error int

definition AsyncWriter_make :: async_writer where
  "AsyncWriter_make = \<lparr>aw_buffer = [], aw_canSend = True, aw_keepMeAliveUntilEmpty = False,
     aw_monitor = True, aw_output = [], aw_input = []\<rparr>"

text \<open>
  The flags are read and written with \<open>fcntl\<close> before the monitor is added; either call may fail.
\<close>

definition AsyncWriter_init :: "int result \<Rightarrow> (int \<Rightarrow> unit result) \<Rightarrow> async_writer result" where
  "AsyncWriter_init getfl setfl =
     (case getfl of Inl e \<Rightarrow> Inl e
      | Inr flags \<Rightarrow> (case setfl (or flags 2048) of Inl e \<Rightarrow> Inl e | Inr _ \<Rightarrow> Inr AsyncWriter_make))"

fun trySendLocked :: "write_answer list \<Rightarrow> async_writer \<Rightarrow> (unit result \<times> async_writer) option" where
  "trySendLocked [] w = None"
| "trySendLocked (Write_error e # script) w =
     (if e = EINTR then (if aw_canSend w then trySendLocked script w else Some (Inr (), w))
      else if e = EAGAIN then Some (Inr (), w\<lparr>aw_canSend := False\<rparr>)
      else Some (Inl (System_error e), w))"
| "trySendLocked (Written n # script) w =
     (let w1 = w\<lparr>aw_buffer := drop n (aw_buffer w), aw_output := aw_output w @ take n (aw_buffer w)\<rparr>
      in if aw_buffer w1 = [] then Some (Inr (), w1\<lparr>aw_keepMeAliveUntilEmpty := False\<rparr>)
         else if aw_canSend w1 then trySendLocked script w1
         else Some (Inr (), w1))"

definition AsyncWriter_write :: "write_answer list \<Rightarrow> u8 list \<Rightarrow> async_writer
    \<Rightarrow> (unit result \<times> async_writer) option" where
  "AsyncWriter_write script data w =
     (if length data = 0 then Some (Inr (), w)
      else trySendLocked script (w\<lparr>aw_buffer := aw_buffer w @ data, aw_input := aw_input w @ data,
             aw_keepMeAliveUntilEmpty := True\<rparr>))"

text \<open>The monitor's callback; a hang-up takes precedence and removes the monitor.\<close>

definition AsyncWriter_event :: "write_answer list \<Rightarrow> bool \<Rightarrow> bool \<Rightarrow> async_writer
    \<Rightarrow> (unit result \<times> async_writer) option" where
  "AsyncWriter_event script hangUp writable w =
     (if hangUp then Some (Inr (), w\<lparr>aw_monitor := False\<rparr>)
      else if writable then trySendLocked script (w\<lparr>aw_canSend := True\<rparr>)
      else Some (Inr (), w))"

text \<open>The destructor of a stream writes what was collected in it.\<close>

definition Stream_dtor :: "write_answer list \<Rightarrow> u8 list \<Rightarrow> async_writer \<Rightarrow> (unit result \<times> async_writer) option" where
  "Stream_dtor script collected w = AsyncWriter_write script collected w"

section \<open>Runs\<close>

inductive writer_step :: "async_writer \<Rightarrow> async_writer \<Rightarrow> bool" where
  "AsyncWriter_write script data w = Some (r, w') \<Longrightarrow> writer_step w w'"
| "AsyncWriter_event script hangUp writable w = Some (r, w') \<Longrightarrow> aw_monitor w \<Longrightarrow> writer_step w w'"
| "Stream_dtor script collected w = Some (r, w') \<Longrightarrow> writer_step w w'"

definition writer_ok :: "async_writer \<Rightarrow> bool" where
  "writer_ok w \<longleftrightarrow> aw_output w @ aw_buffer w = aw_input w \<and>
     aw_keepMeAliveUntilEmpty w = (aw_buffer w \<noteq> [])"

lemma trySendLocked_ok:
  "trySendLocked script w = Some (r, w') \<Longrightarrow> aw_output w @ aw_buffer w = aw_input w \<Longrightarrow>
   aw_keepMeAliveUntilEmpty w = (aw_buffer w \<noteq> []) \<Longrightarrow>
   writer_ok w' \<and> aw_input w' = aw_input w \<and> aw_monitor w' = aw_monitor w \<and>
   (r = Inr () \<longrightarrow> aw_buffer w' = [] \<or> \<not> aw_canSend w')"
proof (induction script w rule: trySendLocked.induct)
  case (3 n script w)
  then show ?case by (auto simp: Let_def writer_ok_def split: if_splits)
qed (auto simp: writer_ok_def split: if_splits)

lemma AsyncWriter_write_ok:
  assumes "AsyncWriter_write script data w = Some (r, w')" and "writer_ok w"
  shows "writer_ok w' \<and> aw_input w' = aw_input w @ data"
proof (cases "data = []")
  case True
  with assms show ?thesis by (simp add: AsyncWriter_write_def)
next
  case False
  with assms(1) have "trySendLocked script (w\<lparr>aw_buffer := aw_buffer w @ data, aw_input := aw_input w @ data,
      aw_keepMeAliveUntilEmpty := True\<rparr>) = Some (r, w')" by (simp add: AsyncWriter_write_def)
  from trySendLocked_ok [OF this] assms(2) False show ?thesis by (simp add: writer_ok_def)
qed

lemma writer_step_ok: "writer_step w w' \<Longrightarrow> writer_ok w \<Longrightarrow> writer_ok w'"
proof (induction rule: writer_step.induct)
  case (2 script hangUp writable w r w')
  then show ?case
    using trySendLocked_ok [of script "w\<lparr>aw_canSend := True\<rparr>" r w']
    by (auto simp: AsyncWriter_event_def writer_ok_def split: if_splits)
qed (auto simp: Stream_dtor_def dest: AsyncWriter_write_ok)

interpretation writer_runs: inductive_invariant "\<lambda>w. w = AsyncWriter_make" writer_step writer_ok
  using writer_step_ok by unfold_locales (auto simp: AsyncWriter_make_def writer_ok_def)

text \<open>The loop ends: answers documented for \<open>write\<close> report at least one byte of a non-empty buffer.\<close>

definition gives_progress :: "write_answer \<Rightarrow> bool" where
  "gives_progress a \<longleftrightarrow> a \<noteq> Write_error EINTR \<and> a \<noteq> Written 0"

lemma trySendLocked_returns:
  "length (aw_buffer w) \<le> length (filter gives_progress script) \<Longrightarrow> aw_buffer w \<noteq> [] \<Longrightarrow>
   trySendLocked script w \<noteq> None"
proof (induction script w rule: trySendLocked.induct)
  case (3 n script w)
  show ?case
  proof (cases "n = 0")
    case True
    with 3 show ?thesis by (auto simp: Let_def gives_progress_def)
  next
    case False
    then have "gives_progress (Written n)" by (simp add: gives_progress_def)
    with 3(2) False have "length (drop n (aw_buffer w)) \<le> length (filter gives_progress script)" by simp
    with 3 show ?thesis by (auto simp: Let_def)
  qed
qed (auto simp: gives_progress_def split: if_splits)

section \<open>Properties\<close>


definition demo_writer :: async_writer where
  "demo_writer = \<lparr>aw_buffer = [2, 3], aw_canSend = False, aw_keepMeAliveUntilEmpty = True,
     aw_monitor = True, aw_output = [1], aw_input = [1, 2, 3]\<rparr>"

lemma demo_write:
  "AsyncWriter_write [Write_error EINTR, Written 1, Write_error EAGAIN] [1, 2, 3] AsyncWriter_make
     = Some (Inr (), demo_writer)"
  by (simp add: AsyncWriter_write_def AsyncWriter_make_def demo_writer_def Let_def)


text \<open>C35: A write returns once the descriptor has given as many answers that make progress as
  there are bytes to write, and when it returns normally either everything is written or the
  descriptor has said that it is full, in which case the next writable event resumes.\<close>

theorem write_returns:
  assumes "writer_ok w" and "data \<noteq> []"
    and "length (aw_buffer w @ data) \<le> length (filter gives_progress script)"
  shows "\<exists>r w'. AsyncWriter_write script data w = Some (r, w') \<and>
    (r = Inr () \<longrightarrow> aw_buffer w' = [] \<or> \<not> aw_canSend w')"
proof -
  let ?w = "w\<lparr>aw_buffer := aw_buffer w @ data, aw_input := aw_input w @ data, aw_keepMeAliveUntilEmpty := True\<rparr>"
  from trySendLocked_returns [of ?w script] assms obtain r w' where
    "trySendLocked script ?w = Some (r, w')" by fastforce
  with trySendLocked_ok [OF this] assms show ?thesis
    by (auto simp: AsyncWriter_write_def writer_ok_def)
qed

theorem write_returns_witness:
  "\<exists>r w'. AsyncWriter_write [Written 1, Written 1] [7, 8] AsyncWriter_make = Some (r, w') \<and>
     (r = Inr () \<longrightarrow> aw_buffer w' = [] \<or> \<not> aw_canSend w')"
  by (rule write_returns) (simp_all add: writer_ok_def AsyncWriter_make_def gives_progress_def)

end
