(* ===== verification/Timer.thy ===== *)
theory Timer
  imports Prelude
begin

text \<open>
  Timers: the \<open>timer_arm\<close> hook of \<open>src/server.cpp\<close>, which programs the server's single timer
  descriptor, the glue of \<open>duct-tape/src/timer.c\<close>, and the operations of the vendored
  \<open>osfmk/kern/timer_call.c\<close> that use it: entering, cancelling and expiring timer calls. A call
  in the queue has a deadline, by which the queue is ordered, and a soft deadline from which it
  may run. The hook and the queue have separate locks, so the operations are given once as
  atomic steps and once in the pieces between which other threads can run.
\<close>

section \<open>Model\<close>

abbreviation UINT64_MAX :: u64 where "UINT64_MAX \<equiv> - 1"

text \<open>
  The server's idea of the deadline, and the value the descriptor is programmed with in seconds
  and nanoseconds, both zero when it is disarmed.
\<close>

record timer =
  tm_currentTimerDeadline :: u64
  tm_sec :: u64
  tm_nsec :: u64

definition timer_arm :: "unit result \<Rightarrow> u64 \<Rightarrow> bool \<Rightarrow> timer \<Rightarrow> unit result \<times> timer" where
  "timer_arm settime deadline_ns override t =
     (let deadline_ns = (if deadline_ns = UINT64_MAX then 0 else deadline_ns);
          tv_sec = deadline_ns div 1000000000;
          tv_nsec = deadline_ns mod 1000000000
      in if \<not> override \<and> tm_currentTimerDeadline t \<noteq> 0 \<and> tm_currentTimerDeadline t \<le> deadline_ns
         then (Inr (), t)
         else (let t1 = t\<lparr>tm_currentTimerDeadline := deadline_ns\<rparr>
               in case settime of Inl e \<Rightarrow> (Inl e, t1)
                  | Inr _ \<Rightarrow> (Inr (), t1\<lparr>tm_sec := tv_sec, tm_nsec := tv_nsec\<rparr>)))"

text \<open>The programmed expiration in nanoseconds.\<close>

definition timer_fd :: "timer \<Rightarrow> u64" where
  "timer_fd t = tm_sec t * 1000000000 + tm_nsec t"

record timer_call =
  tc_id :: nat
  tc_deadline :: u64
  tc_soft_deadline :: u64
  tc_ratelimited :: bool

text \<open>The head of the priority queue: a call with the earliest deadline.\<close>

fun queue_min :: "timer_call list \<Rightarrow> timer_call option" where
  "queue_min [] = None"
| "queue_min (c # cs) =
     (case queue_min cs of None \<Rightarrow> Some c
      | Some d \<Rightarrow> Some (if tc_deadline c \<le> tc_deadline d then c else d))"

definition next_deadline :: "timer_call list \<Rightarrow> u64" where
  "next_deadline q = (case queue_min q of None \<Rightarrow> UINT64_MAX | Some c \<Rightarrow> tc_deadline c)"

text \<open>Whether the expiry loop runs the head of the queue at a given time.\<close>

definition head_expires :: "u64 \<Rightarrow> timer_call list \<Rightarrow> bool" where
  "head_expires now q = (case queue_min q of None \<Rightarrow> False
     | Some c \<Rightarrow> tc_soft_deadline c \<le> now \<and> \<not> (tc_ratelimited c \<and> now < tc_deadline c))"

record timer_state =
  ts_timer :: timer
  ts_queue :: "timer_call list"
  ts_handlers :: nat

text \<open>
  The glue and the queue operations as atomic steps: entering a call assigns it a queue, which
  arms the timer without overriding, and enqueues it; cancelling dequeues the call and arms for
  the new head; a fired handler runs calls off the head and finally arms for the rest.
\<close>

definition arm_ok :: "u64 \<Rightarrow> bool \<Rightarrow> timer \<Rightarrow> timer" where
  "arm_ok d override t = snd (timer_arm (Inr ()) d override t)"

definition timer_queue_assign :: "u64 \<Rightarrow> timer_state \<Rightarrow> timer_state" where
  "timer_queue_assign d s = s\<lparr>ts_timer := arm_ok d False (ts_timer s)\<rparr>"

definition timer_queue_cancel :: "u64 \<Rightarrow> timer_state \<Rightarrow> timer_state" where
  "timer_queue_cancel new_deadline s = s\<lparr>ts_timer := arm_ok new_deadline True (ts_timer s)\<rparr>"

definition enqueue_call :: "timer_call \<Rightarrow> timer_state \<Rightarrow> timer_state" where
  "enqueue_call c s = s\<lparr>ts_queue := c # filter (\<lambda>c'. tc_id c' \<noteq> tc_id c) (ts_queue s)\<rparr>"

definition timer_call_enter :: "timer_call \<Rightarrow> timer_state \<Rightarrow> timer_state" where
  "timer_call_enter c s = enqueue_call c (timer_queue_assign (tc_deadline c) s)"

definition dequeue_call :: "nat \<Rightarrow> timer_state \<Rightarrow> timer_state" where
  "dequeue_call i s = s\<lparr>ts_queue := filter (\<lambda>c. tc_id c \<noteq> i) (ts_queue s)\<rparr>"

definition timer_call_cancel :: "nat \<Rightarrow> timer_state \<Rightarrow> timer_state" where
  "timer_call_cancel i s =
     (if \<exists>c \<in> set (ts_queue s). tc_id c = i
      then (let s1 = dequeue_call i s in timer_queue_cancel (next_deadline (ts_queue s1)) s1)
      else s)"

text \<open>The descriptor expires; the main loop starts a handler in a microthread.\<close>

definition timer_expires :: "timer_state \<Rightarrow> timer_state" where
  "timer_expires s = s\<lparr>ts_timer := (ts_timer s)\<lparr>tm_sec := 0, tm_nsec := 0\<rparr>, ts_handlers := ts_handlers s + 1\<rparr>"

definition expire_one :: "timer_state \<Rightarrow> timer_state" where
  "expire_one s = (case queue_min (ts_queue s) of None \<Rightarrow> s | Some c \<Rightarrow> dequeue_call (tc_id c) s)"

definition handler_arm :: "u64 \<Rightarrow> timer_state \<Rightarrow> timer_state" where
  "handler_arm next s = s\<lparr>ts_timer := arm_ok next True (ts_timer s), ts_handlers := ts_handlers s - 1\<rparr>"

text \<open>The last part of \<open>dtape_timer_fired\<close>: the loop found nothing more to run.\<close>

definition dtape_timer_fired_end :: "timer_state \<Rightarrow> timer_state" where
  "dtape_timer_fired_end s = handler_arm (next_deadline (ts_queue s)) s"

definition timer_start :: timer_state where
  "timer_start = \<lparr>ts_timer = \<lparr>tm_currentTimerDeadline = 0, tm_sec = 0, tm_nsec = 0\<rparr>, ts_queue = [], ts_handlers = 0\<rparr>"

inductive timer_step :: "timer_state \<Rightarrow> timer_state \<Rightarrow> bool" where
  "tc_deadline c \<noteq> 0 \<Longrightarrow> tc_deadline c \<noteq> UINT64_MAX \<Longrightarrow> timer_step s (timer_call_enter c s)"
| "timer_step s (timer_call_cancel i s)"
| "timer_fd (ts_timer s) \<noteq> 0 \<Longrightarrow> timer_step s (timer_expires s)"
| "0 < ts_handlers s \<Longrightarrow> head_expires now (ts_queue s) \<Longrightarrow> timer_step s (expire_one s)"
| "0 < ts_handlers s \<Longrightarrow> \<not> head_expires now (ts_queue s) \<Longrightarrow> timer_step s (dtape_timer_fired_end s)"

text \<open>
  The same operations in pieces: a thread that has armed the timer and not yet enqueued its
  call, and a handler that has read the next deadline and not yet armed the timer.
\<close>

record fine_state =
  fs_state :: timer_state
  fs_entering :: "timer_call list"
  fs_arming :: "u64 list"

inductive fine_step :: "fine_state \<Rightarrow> fine_state \<Rightarrow> bool" where
  fine_assign: "fine_step f (f\<lparr>fs_state := timer_queue_assign (tc_deadline c) (fs_state f), fs_entering := c # fs_entering f\<rparr>)"
| fine_enqueue: "c \<in> set (fs_entering f) \<Longrightarrow>
    fine_step f (f\<lparr>fs_state := enqueue_call c (fs_state f), fs_entering := remove1 c (fs_entering f)\<rparr>)"
| fine_cancel: "fine_step f (f\<lparr>fs_state := timer_call_cancel i (fs_state f)\<rparr>)"
| fine_expires: "timer_fd (ts_timer (fs_state f)) \<noteq> 0 \<Longrightarrow> fine_step f (f\<lparr>fs_state := timer_expires (fs_state f)\<rparr>)"
| fine_expire_one: "0 < ts_handlers (fs_state f) \<Longrightarrow> head_expires now (ts_queue (fs_state f)) \<Longrightarrow>
    fine_step f (f\<lparr>fs_state := expire_one (fs_state f)\<rparr>)"
| fine_read_next: "0 < ts_handlers (fs_state f) \<Longrightarrow> \<not> head_expires now (ts_queue (fs_state f)) \<Longrightarrow>
    fine_step f (f\<lparr>fs_arming := next_deadline (ts_queue (fs_state f)) # fs_arming f\<rparr>)"
| fine_arm: "d \<in> set (fs_arming f) \<Longrightarrow>
    fine_step f (f\<lparr>fs_state := handler_arm d (fs_state f), fs_arming := remove1 d (fs_arming f)\<rparr>)"

section \<open>Arming\<close>

lemma div_mod_nanoseconds: "(d :: u64) div 1000000000 * 1000000000 + d mod 1000000000 = d"
  by (simp add: word_mod_div_equality)

lemma timer_fd_arm:
  "arm_ok d override t =
     (let d' = (if d = UINT64_MAX then 0 else d)
      in if \<not> override \<and> tm_currentTimerDeadline t \<noteq> 0 \<and> tm_currentTimerDeadline t \<le> d' then t
         else t\<lparr>tm_currentTimerDeadline := d', tm_sec := d' div 1000000000, tm_nsec := d' mod 1000000000\<rparr>)"
  by (simp add: arm_ok_def timer_arm_def Let_def)

lemma timer_fd_sec_nsec [simp]:
  "timer_fd (t\<lparr>tm_currentTimerDeadline := c, tm_sec := d div 1000000000, tm_nsec := d mod 1000000000\<rparr>) = d"
  by (simp add: timer_fd_def div_mod_nanoseconds)

lemma queue_min_none [simp]: "queue_min q = None \<longleftrightarrow> q = []"
  by (cases q) (auto split: option.splits)

lemma queue_min_least:
  "queue_min q = Some c \<Longrightarrow> c \<in> set q \<and> (\<forall>c' \<in> set q. tc_deadline c \<le> tc_deadline c')"
  by (induction q arbitrary: c) (auto split: option.splits if_splits)

text \<open>The timer is set for the calls in the queue, or a handler is about to set it.\<close>

definition armed_for :: "timer_state \<Rightarrow> bool" where
  "armed_for s \<longleftrightarrow> tm_currentTimerDeadline (ts_timer s) = timer_fd (ts_timer s) \<and>
     (ts_queue s \<noteq> [] \<longrightarrow> timer_fd (ts_timer s) \<noteq> 0 \<and>
        (\<forall>c \<in> set (ts_queue s). timer_fd (ts_timer s) \<le> tc_deadline c))"

definition timer_ok :: "timer_state \<Rightarrow> bool" where
  "timer_ok s \<longleftrightarrow> (0 < ts_handlers s \<or> armed_for s) \<and>
     (\<forall>c \<in> set (ts_queue s). tc_deadline c \<noteq> 0 \<and> tc_deadline c \<noteq> UINT64_MAX)"

lemma override_arms_for_queue:
  assumes "\<forall>c \<in> set q. tc_deadline c \<noteq> 0 \<and> tc_deadline c \<noteq> UINT64_MAX"
    and "ts_timer s = arm_ok (next_deadline q) True t" and "ts_queue s = q"
  shows "armed_for s"
proof (cases "queue_min q")
  case None
  with assms show ?thesis by (simp add: armed_for_def timer_fd_arm next_deadline_def timer_fd_def)
next
  case (Some c)
  from queue_min_least [OF Some] assms Some show ?thesis
    by (auto simp: armed_for_def timer_fd_arm next_deadline_def Let_def)
qed

lemma timer_step_ok: "timer_step s s' \<Longrightarrow> timer_ok s \<Longrightarrow> timer_ok s'"
proof (induction rule: timer_step.induct)
  case (1 c s)
  show ?case
  proof (cases "0 < ts_handlers s")
    case True
    with 1 show ?thesis
      by (auto simp: timer_ok_def timer_call_enter_def enqueue_call_def timer_queue_assign_def)
  next
    case False
    with 1 have armed: "armed_for s" by (simp add: timer_ok_def)
    have "armed_for (timer_call_enter c s)"
    proof (cases "timer_fd (ts_timer s) \<noteq> 0 \<and> timer_fd (ts_timer s) \<le> tc_deadline c")
      case True
      with armed 1 show ?thesis
        by (auto simp: armed_for_def timer_call_enter_def enqueue_call_def timer_queue_assign_def timer_fd_arm Let_def)
    next
      case False
      with armed 1 have "\<forall>c' \<in> set (ts_queue s). tc_deadline c \<le> tc_deadline c'"
        by (force simp: armed_for_def)
      with False armed 1 show ?thesis
        by (auto simp: armed_for_def timer_call_enter_def enqueue_call_def timer_queue_assign_def timer_fd_arm Let_def)
    qed
    with 1 show ?thesis
      by (auto simp: timer_ok_def timer_call_enter_def enqueue_call_def timer_queue_assign_def)
  qed
next
  case (2 s i)
  show ?case
  proof (cases "\<exists>c \<in> set (ts_queue s). tc_id c = i")
    case True
    let ?q = "filter (\<lambda>c. tc_id c \<noteq> i) (ts_queue s)"
    have "armed_for (timer_call_cancel i s)"
      by (rule override_arms_for_queue [of ?q _ "ts_timer s"])
        (use 2 True in \<open>auto simp: timer_ok_def timer_call_cancel_def dequeue_call_def timer_queue_cancel_def Let_def\<close>)
    with 2 True show ?thesis
      by (auto simp: timer_ok_def timer_call_cancel_def dequeue_call_def timer_queue_cancel_def Let_def)
  next
    case False
    with 2 show ?thesis by (simp add: timer_call_cancel_def)
  qed
next
  case (4 s now)
  then show ?case by (auto simp: timer_ok_def expire_one_def dequeue_call_def split: option.splits)
next
  case (5 s now)
  have "armed_for (dtape_timer_fired_end s)"
    by (rule override_arms_for_queue [of "ts_queue s" _ "ts_timer s"])
      (use 5 in \<open>auto simp: timer_ok_def dtape_timer_fired_end_def handler_arm_def\<close>)
  with 5 show ?case by (auto simp: timer_ok_def dtape_timer_fired_end_def handler_arm_def)
qed (auto simp: timer_ok_def timer_expires_def)

lemma timer_start_ok: "timer_ok timer_start"
  by (simp add: timer_ok_def armed_for_def timer_start_def timer_fd_def)

interpretation timer_runs: inductive_invariant "\<lambda>s. s = timer_start" timer_step timer_ok
  by unfold_locales (simp add: timer_start_ok, rule timer_step_ok)

section \<open>Properties\<close>

text \<open>Arming the timer programs the descriptor with exactly the requested deadline, split into
  seconds and less than a second of nanoseconds; without override it never postpones a
  pending expiration.\<close>

lemma timer_arm_exact:
  assumes "tm_currentTimerDeadline t = timer_fd t" and "d \<noteq> 0" and "d \<noteq> UINT64_MAX"
    and "timer_arm (Inr ()) d override t = (r, t')"
  shows "r = Inr () \<and> tm_currentTimerDeadline t' = timer_fd t' \<and>
    timer_fd t' = (if override \<or> timer_fd t = 0 then d else min (timer_fd t) d) \<and>
    (t' \<noteq> t \<longrightarrow> tm_nsec t' < 1000000000)"
proof -
  have "d mod 1000000000 < 1000000000" by (rule word_mod_less_divisor) simp
  then show ?thesis
    using assms by (auto simp: timer_arm_def Let_def min_def split: if_splits)
qed

text \<open>C31: When the queue operations run one after the other, no timer call is forgotten: in every
  reachable state either a handler for an expired timer is about to run, or the descriptor is set
  to expire no later than the deadline of any queued call. This is for deadlines other than
  zero and the largest 64-bit value.\<close>

theorem timer_covers_queue:
  assumes "reach (\<lambda>s. s = timer_start) timer_step s"
  shows "0 < ts_handlers s \<or> ts_queue s = [] \<or>
    (timer_fd (ts_timer s) \<noteq> 0 \<and> (\<forall>c \<in> set (ts_queue s). timer_fd (ts_timer s) \<le> tc_deadline c))"
  using timer_runs.holds_when_reached [OF assms] by (auto simp: timer_ok_def armed_for_def)

definition demo_call :: timer_call where
  "demo_call = \<lparr>tc_id = 1, tc_deadline = 50, tc_soft_deadline = 40, tc_ratelimited = False\<rparr>"

theorem timer_covers_queue_witness:
  "timer_fd (ts_timer (timer_call_enter demo_call timer_start)) \<le> 50"
proof -
  have "reach (\<lambda>s. s = timer_start) timer_step (timer_call_enter demo_call timer_start)"
    by (rule reach_next [where s = timer_start])
      (simp_all add: reach_start timer_step.intros(1) demo_call_def)
  from timer_covers_queue [OF this] show ?thesis
    by (simp add: timer_call_enter_def enqueue_call_def timer_queue_assign_def timer_start_def demo_call_def)
qed

text \<open>When the pieces of the operations interleave, a queued call can be forgotten: there is a
  run that ends with nothing in flight, a call in the queue and the timer disarmed, because a
  handler read the next deadline before the call was enqueued and armed the timer after it.
  Entering a call with the largest deadline has the same effect on an earlier queued call without
  any interleaving, since it disarms the timer although it does not override.\<close>

lemma timer_race_loses_call:
  "(\<exists>f. fine_step\<^sup>*\<^sup>* \<lparr>fs_state = timer_start, fs_entering = [], fs_arming = []\<rparr> f \<and>
      fs_entering f = [] \<and> fs_arming f = [] \<and> ts_handlers (fs_state f) = 0 \<and>
      ts_queue (fs_state f) = [demo_call] \<and> timer_fd (ts_timer (fs_state f)) = 0) \<and>
   timer_fd (ts_timer (timer_call_enter (demo_call\<lparr>tc_id := 2, tc_deadline := UINT64_MAX\<rparr>)
      (timer_call_enter demo_call timer_start))) = 0"
proof (rule conjI, rule exI, intro conjI)
  let ?f0 = "\<lparr>fs_state = timer_start, fs_entering = [], fs_arming = []\<rparr>"
  let ?f1 = "?f0\<lparr>fs_state := timer_queue_assign 50 timer_start, fs_entering := [demo_call]\<rparr>"
  let ?f2 = "?f1\<lparr>fs_state := timer_expires (fs_state ?f1)\<rparr>"
  let ?f3 = "?f2\<lparr>fs_arming := [UINT64_MAX]\<rparr>"
  let ?f4 = "?f3\<lparr>fs_state := enqueue_call demo_call (fs_state ?f3), fs_entering := []\<rparr>"
  let ?f5 = "?f4\<lparr>fs_state := handler_arm UINT64_MAX (fs_state ?f4), fs_arming := []\<rparr>"
  note eval = timer_start_def timer_queue_assign_def timer_expires_def enqueue_call_def handler_arm_def
    timer_fd_arm Let_def timer_fd_def demo_call_def head_expires_def next_deadline_def
  have "fine_step ?f0 ?f1" using fine_assign [of ?f0 demo_call] by (simp add: demo_call_def)
  moreover have "fine_step ?f1 ?f2" using fine_expires [of ?f1] by (simp add: eval)
  moreover have "fine_step ?f2 ?f3" using fine_read_next [of ?f2 0] by (simp add: eval)
  moreover have "fine_step ?f3 ?f4" using fine_enqueue [of demo_call ?f3] by simp
  moreover have "fine_step ?f4 ?f5" using fine_arm [of UINT64_MAX ?f4] by simp
  ultimately show "fine_step\<^sup>*\<^sup>* ?f0 ?f5"
    by (meson converse_rtranclp_into_rtranclp rtranclp.rtrancl_refl)
  show "fs_entering ?f5 = []" "fs_arming ?f5 = []" "ts_handlers (fs_state ?f5) = 0"
    "ts_queue (fs_state ?f5) = [demo_call]" "timer_fd (ts_timer (fs_state ?f5)) = 0"
    by (simp_all add: eval)
  show "timer_fd (ts_timer (timer_call_enter (demo_call\<lparr>tc_id := 2, tc_deadline := UINT64_MAX\<rparr>)
      (timer_call_enter demo_call timer_start))) = 0"
    by (simp add: timer_call_enter_def eval)
qed

end
