(* ===== verification/Monitors.thy ===== *)
theory Monitors
  imports Prelude
begin

text \<open>
  Descriptor monitors of the server (\<open>src/server.cpp\<close>: \<open>addMonitor\<close>, \<open>removeMonitor\<close>, class
  \<open>Monitor\<close>, and the dispatch of events in \<open>Server::start\<close>). The kernel's interest list maps a
  descriptor to the pointer and the event mask registered for it. Monitors are objects in a store
  whose addresses can be reused once nothing in the server refers to them, so every object has an
  identity of its own, and the events of one wake-up remember whose they are.
\<close>

unbundle bit_operations_syntax

section \<open>Model\<close>

abbreviation EPOLLET :: u32 where "EPOLLET \<equiv> 2147483648"
abbreviation EPOLLONESHOT :: u32 where "EPOLLONESHOT \<equiv> 1073741824"

record monitor =
  mon_fd :: int
  mon_userEvents :: u32
  mon_events :: u32
  mon_server :: bool
  mon_identity :: nat

definition Monitor_new :: "int \<Rightarrow> u32 \<Rightarrow> bool \<Rightarrow> bool \<Rightarrow> nat \<Rightarrow> monitor" where
  "Monitor_new descriptor events edgeTriggered oneshot identity =
     \<lparr>mon_fd = descriptor, mon_userEvents = events,
      mon_events = events OR (if oneshot then EPOLLONESHOT else 0) OR (if edgeTriggered then EPOLLET else 0),
      mon_server = False, mon_identity = identity\<rparr>"

record monitor_server =
  ms_monitors :: "ptr list"
  ms_monitorsWaitingToDie :: "ptr list"
  ms_monitorsLock :: bool
  ms_epoll :: "(int \<times> ptr \<times> u32) list"
  ms_store :: "ptr \<Rightarrow> monitor"
  ms_wakeups :: nat
  ms_pending :: "(ptr \<times> nat) list"
  ms_dispatching :: bool
  ms_nextIdentity :: nat

text \<open>
  The three operations of \<open>epoll_ctl\<close>, which fail if the descriptor is (ADD) or is not (MOD,
  DEL) in the interest list, and may fail for a reason of their own.
\<close>

definition epoll_add :: "int option \<Rightarrow> int \<Rightarrow> ptr \<Rightarrow> u32 \<Rightarrow> (int \<times> ptr \<times> u32) list \<Rightarrow> (int \<times> ptr \<times> u32) list result" where
  "epoll_add failure fd p ev tab =
     (case failure of Some e \<Rightarrow> Inl (System_error e)
      | None \<Rightarrow> if map_of tab fd \<noteq> None then Inl (System_error 17) else Inr (AList.update fd (p, ev) tab))"

definition epoll_mod :: "int option \<Rightarrow> int \<Rightarrow> ptr \<Rightarrow> u32 \<Rightarrow> (int \<times> ptr \<times> u32) list \<Rightarrow> (int \<times> ptr \<times> u32) list result" where
  "epoll_mod failure fd p ev tab =
     (case failure of Some e \<Rightarrow> Inl (System_error e)
      | None \<Rightarrow> if map_of tab fd = None then Inl (System_error 2) else Inr (AList.update fd (p, ev) tab))"

definition epoll_del :: "int option \<Rightarrow> int \<Rightarrow> (int \<times> ptr \<times> u32) list \<Rightarrow> (int \<times> ptr \<times> u32) list result" where
  "epoll_del failure fd tab =
     (case failure of Some e \<Rightarrow> Inl (System_error e)
      | None \<Rightarrow> if map_of tab fd = None then Inl (System_error 2) else Inr (AList.delete fd tab))"

definition addMonitor :: "int option \<Rightarrow> ptr \<Rightarrow> monitor_server \<Rightarrow> unit result \<times> monitor_server" where
  "addMonitor failure p s =
     (if ms_monitorsLock s then (Inl Deadlock, s)
      else if p \<in> set (ms_monitors s) then (Inr (), s)
      else (let m = ms_store s p in
            case epoll_add failure (mon_fd m) p (mon_events m) (ms_epoll s) of
              Inl e \<Rightarrow> (Inl e, s)
            | Inr tab \<Rightarrow> (Inr (), s\<lparr>ms_epoll := tab, ms_store := (ms_store s)(p := m\<lparr>mon_server := True\<rparr>),
                ms_monitors := ms_monitors s @ [p]\<rparr>)))"

text \<open>The lock is not released when the descriptor cannot be taken off the interest list.\<close>

definition removeMonitor :: "int option \<Rightarrow> ptr \<Rightarrow> monitor_server \<Rightarrow> unit result \<times> monitor_server" where
  "removeMonitor failure p s =
     (if ms_monitorsLock s then (Inl Deadlock, s)
      else if p \<notin> set (ms_monitors s) then (Inr (), s)
      else (let s1 = s\<lparr>ms_monitorsWaitingToDie := ms_monitorsWaitingToDie s @ [p],
                      ms_monitors := remove1 p (ms_monitors s)\<rparr>
            in case epoll_del failure (mon_fd (ms_store s1 p)) (ms_epoll s1) of
                 Inl e \<Rightarrow> (Inl e, s1\<lparr>ms_monitorsLock := True\<rparr>)
               | Inr tab \<Rightarrow> (Inr (), s1\<lparr>ms_epoll := tab,
                   ms_store := (ms_store s1)(p := (ms_store s1 p)\<lparr>mon_server := False\<rparr>),
                   ms_wakeups := ms_wakeups s1 + 1\<rparr>)))"

definition Monitor_enable :: "int option \<Rightarrow> ptr \<Rightarrow> bool \<Rightarrow> bool \<Rightarrow> monitor_server \<Rightarrow> unit result \<times> monitor_server" where
  "Monitor_enable failure p edgeTriggered oneshot s =
     (let m = ms_store s p in
      if \<not> mon_server m then (Inr (), s)
      else (let ev0 = mon_userEvents m;
                ev1 = (if edgeTriggered then ev0 OR EPOLLET else ev0 AND NOT EPOLLET);
                ev2 = (if oneshot then ev1 OR EPOLLONESHOT else ev1 AND NOT EPOLLONESHOT);
                s1 = s\<lparr>ms_store := (ms_store s)(p := m\<lparr>mon_events := ev2\<rparr>)\<rparr>
            in case epoll_mod failure (mon_fd m) p ev2 (ms_epoll s1) of
                 Inl e \<Rightarrow> (Inl e, s1)
               | Inr tab \<Rightarrow> (Inr (), s1\<lparr>ms_epoll := tab\<rparr>)))"

definition Monitor_disable :: "int option \<Rightarrow> ptr \<Rightarrow> monitor_server \<Rightarrow> unit result \<times> monitor_server" where
  "Monitor_disable failure p s =
     (let m = ms_store s p in
      if \<not> mon_server m then (Inr (), s)
      else (let s1 = s\<lparr>ms_store := (ms_store s)(p := m\<lparr>mon_events := 0\<rparr>)\<rparr>
            in case epoll_mod failure (mon_fd m) p 0 (ms_epoll s1) of
                 Inl e \<Rightarrow> (Inl e, s1)
               | Inr tab \<Rightarrow> (Inr (), s1\<lparr>ms_epoll := tab\<rparr>)))"

text \<open>
  One event of a wake-up: the monitor to call, if its pointer is still in the list of monitors.
  At the end of the wake-up the references to removed monitors are dropped.
\<close>

definition dispatch_event :: "ptr \<Rightarrow> monitor_server \<Rightarrow> ptr option" where
  "dispatch_event p s = (if p \<in> set (ms_monitors s) then Some p else None)"

definition end_of_wakeup :: "monitor_server \<Rightarrow> monitor_server" where
  "end_of_wakeup s = s\<lparr>ms_monitorsWaitingToDie := [], ms_dispatching := False\<rparr>"

definition epoll_wakeup :: "ptr list \<Rightarrow> monitor_server \<Rightarrow> monitor_server" where
  "epoll_wakeup ps s = s\<lparr>ms_pending := map (\<lambda>p. (p, mon_identity (ms_store s p))) ps, ms_dispatching := True\<rparr>"

definition server_start :: "(ptr \<Rightarrow> monitor) \<Rightarrow> monitor_server" where
  "server_start st = \<lparr>ms_monitors = [], ms_monitorsWaitingToDie = [], ms_monitorsLock = False, ms_epoll = [],
     ms_store = st, ms_wakeups = 0, ms_pending = [], ms_dispatching = False, ms_nextIdentity = 0\<rparr>"

inductive monitor_step :: "monitor_server \<Rightarrow> monitor_server \<Rightarrow> bool" where
  step_new: "p \<notin> set (ms_monitors s) \<union> set (ms_monitorsWaitingToDie s) \<Longrightarrow>
    monitor_step s (s\<lparr>ms_store := (ms_store s)(p := Monitor_new fd ev et os (ms_nextIdentity s)),
      ms_nextIdentity := ms_nextIdentity s + 1\<rparr>)"
| step_add: "addMonitor f p s = (r, s') \<Longrightarrow> monitor_step s s'"
| step_remove: "removeMonitor f p s = (Inr (), s') \<Longrightarrow> monitor_step s s'"
| step_enable: "Monitor_enable None p et os s = (r, s') \<Longrightarrow> monitor_step s s'"
| step_disable: "Monitor_disable None p s = (r, s') \<Longrightarrow> monitor_step s s'"
| step_wakeup: "\<not> ms_dispatching s \<Longrightarrow> \<forall>p \<in> set ps. \<exists>fd ev. map_of (ms_epoll s) fd = Some (p, ev) \<Longrightarrow>
    monitor_step s (epoll_wakeup ps s)"
| step_dispatched: "ms_pending s = e # rest \<Longrightarrow> monitor_step s (s\<lparr>ms_pending := rest\<rparr>)"
| step_end: "ms_dispatching s \<Longrightarrow> ms_pending s = [] \<Longrightarrow> monitor_step s (end_of_wakeup s)"

section \<open>Invariant\<close>

definition interest_ok :: "monitor_server \<Rightarrow> bool" where
  "interest_ok s \<longleftrightarrow> distinct (ms_monitors s) \<and>
     (\<forall>fd p ev. map_of (ms_epoll s) fd = Some (p, ev) \<longleftrightarrow>
        p \<in> set (ms_monitors s) \<and> mon_fd (ms_store s p) = fd \<and> mon_events (ms_store s p) = ev) \<and>
     (\<forall>p. mon_server (ms_store s p) \<longleftrightarrow> p \<in> set (ms_monitors s))"

definition pending_ok :: "monitor_server \<Rightarrow> bool" where
  "pending_ok s \<longleftrightarrow> (\<not> ms_dispatching s \<longrightarrow> ms_pending s = []) \<and>
     (\<forall>(p, g) \<in> set (ms_pending s). mon_identity (ms_store s p) = g \<and>
        p \<in> set (ms_monitors s) \<union> set (ms_monitorsWaitingToDie s))"

definition monitors_ok :: "monitor_server \<Rightarrow> bool" where
  "monitors_ok s \<longleftrightarrow> interest_ok s \<and> pending_ok s \<and> \<not> ms_monitorsLock s"

lemma epoll_unique_fd:
  assumes "interest_ok s" "p \<in> set (ms_monitors s)" "q \<in> set (ms_monitors s)"
    and "mon_fd (ms_store s p) = mon_fd (ms_store s q)"
  shows "p = q"
  using assms unfolding interest_ok_def by (metis option.inject prod.inject)

lemma registered_interest:
  "interest_ok s \<Longrightarrow> p \<in> set (ms_monitors s) \<Longrightarrow>
   map_of (ms_epoll s) (mon_fd (ms_store s p)) = Some (p, mon_events (ms_store s p))"
  by (simp add: interest_ok_def)

lemma addMonitor_ok:
  assumes ok: "monitors_ok s" and add: "addMonitor f p s = (r, s')"
  shows "monitors_ok s'"
proof (cases "p \<in> set (ms_monitors s) \<or> map_of (ms_epoll s) (mon_fd (ms_store s p)) \<noteq> None \<or> f \<noteq> None")
  case True
  then have "s' = s"
    using add ok by (auto simp: addMonitor_def epoll_add_def monitors_ok_def Let_def split: if_splits option.splits)
  with ok show ?thesis by simp
next
  case False
  then have s': "s' = s\<lparr>ms_epoll := AList.update (mon_fd (ms_store s p)) (p, mon_events (ms_store s p)) (ms_epoll s),
      ms_store := (ms_store s)(p := (ms_store s p)\<lparr>mon_server := True\<rparr>), ms_monitors := ms_monitors s @ [p]\<rparr>"
    using add ok by (simp add: addMonitor_def epoll_add_def monitors_ok_def Let_def)
  have free: "\<And>q ev. map_of (ms_epoll s) (mon_fd (ms_store s p)) \<noteq> Some (q, ev)" using False by simp
  then have "\<And>q. q \<in> set (ms_monitors s) \<Longrightarrow> mon_fd (ms_store s q) \<noteq> mon_fd (ms_store s p)"
    using ok registered_interest by (metis monitors_ok_def)
  with ok False have "interest_ok s'"
    by (auto simp: s' interest_ok_def monitors_ok_def alist_simps)
  moreover have "pending_ok s'"
    using ok by (auto simp: s' pending_ok_def monitors_ok_def)
  ultimately show ?thesis using ok by (simp add: monitors_ok_def s')
qed

lemma removeMonitor_ok:
  assumes ok: "monitors_ok s" and rem: "removeMonitor f p s = (Inr (), s')"
  shows "monitors_ok s' \<and> (p \<in> set (ms_monitors s) \<longrightarrow> p \<in> set (ms_monitorsWaitingToDie s'))"
proof (cases "p \<in> set (ms_monitors s)")
  case False
  with ok rem show ?thesis by (simp add: removeMonitor_def monitors_ok_def)
next
  case True
  then have s': "s' = s\<lparr>ms_monitorsWaitingToDie := ms_monitorsWaitingToDie s @ [p],
      ms_monitors := remove1 p (ms_monitors s), ms_epoll := AList.delete (mon_fd (ms_store s p)) (ms_epoll s),
      ms_store := (ms_store s)(p := (ms_store s p)\<lparr>mon_server := False\<rparr>), ms_wakeups := ms_wakeups s + 1\<rparr>"
    using rem ok registered_interest [of s p]
    by (auto simp: removeMonitor_def epoll_del_def monitors_ok_def Let_def split: if_splits option.splits)
  have dist: "distinct (ms_monitors s)" using ok by (simp add: monitors_ok_def interest_ok_def)
  have "\<And>q. q \<in> set (ms_monitors s) \<Longrightarrow> mon_fd (ms_store s q) = mon_fd (ms_store s p) \<Longrightarrow> q = p"
    using ok True epoll_unique_fd by (metis monitors_ok_def)
  with ok True dist have "interest_ok s'"
    by (auto simp: s' interest_ok_def monitors_ok_def alist_simps)
  moreover have "pending_ok s'"
    using ok dist by (auto simp: s' pending_ok_def monitors_ok_def split: prod.splits)
  ultimately show ?thesis using ok by (simp add: monitors_ok_def s')
qed

text \<open>Changing the mask of a registered monitor changes it in the interest list as well.\<close>

lemma set_mask_ok:
  assumes ok: "monitors_ok s" and p: "p \<in> set (ms_monitors s)"
    and s': "s' = s\<lparr>ms_store := (ms_store s)(p := (ms_store s p)\<lparr>mon_events := ev\<rparr>),
      ms_epoll := AList.update (mon_fd (ms_store s p)) (p, ev) (ms_epoll s)\<rparr>"
  shows "monitors_ok s'"
proof -
  have "\<And>q. q \<in> set (ms_monitors s) \<Longrightarrow> mon_fd (ms_store s q) = mon_fd (ms_store s p) \<Longrightarrow> q = p"
    using ok p epoll_unique_fd by (metis monitors_ok_def)
  with ok p have "interest_ok s'"
    by (auto simp: s' interest_ok_def monitors_ok_def alist_simps)
  moreover have "pending_ok s'"
    using ok by (auto simp: s' pending_ok_def monitors_ok_def)
  ultimately show ?thesis using ok by (simp add: monitors_ok_def s')
qed

lemma enable_disable_ok:
  assumes ok: "monitors_ok s"
    and op: "Monitor_enable None p et os s = (r, s') \<or> Monitor_disable None p s = (r, s')"
  shows "monitors_ok s'"
proof (cases "p \<in> set (ms_monitors s)")
  case False
  then have "\<not> mon_server (ms_store s p)" using ok by (simp add: monitors_ok_def interest_ok_def)
  with op ok show ?thesis by (auto simp: Monitor_enable_def Monitor_disable_def Let_def)
next
  case True
  have "map_of (ms_epoll s) (mon_fd (ms_store s p)) \<noteq> None"
    using ok True registered_interest [of s p] by (auto simp: monitors_ok_def)
  moreover have "mon_server (ms_store s p)" using ok True by (simp add: monitors_ok_def interest_ok_def)
  ultimately obtain ev where "s' = s\<lparr>ms_store := (ms_store s)(p := (ms_store s p)\<lparr>mon_events := ev\<rparr>),
      ms_epoll := AList.update (mon_fd (ms_store s p)) (p, ev) (ms_epoll s)\<rparr>"
    using op unfolding Monitor_enable_def Monitor_disable_def Let_def epoll_mod_def by auto
  from set_mask_ok [OF ok True this] show ?thesis .
qed

lemma monitor_step_ok: "monitor_step s s' \<Longrightarrow> monitors_ok s \<Longrightarrow> monitors_ok s'"
proof (induction rule: monitor_step.induct)
  case (step_new p s fd ev et os)
  then show ?case
    by (auto simp: monitors_ok_def interest_ok_def pending_ok_def Monitor_new_def)
next
  case (step_add f p s r s')
  then show ?case using addMonitor_ok by blast
next
  case (step_remove f p s s')
  then show ?case using removeMonitor_ok by blast
next
  case (step_enable p et os s r s')
  then show ?case using enable_disable_ok by blast
next
  case (step_disable p s r s')
  then show ?case using enable_disable_ok by blast
next
  case (step_wakeup s ps)
  then show ?case
    by (auto simp: monitors_ok_def interest_ok_def pending_ok_def epoll_wakeup_def)
qed (auto simp: monitors_ok_def interest_ok_def pending_ok_def end_of_wakeup_def)

interpretation monitor_runs: inductive_invariant
  "\<lambda>s. \<exists>st. s = server_start st \<and> (\<forall>p. \<not> mon_server (st p))" monitor_step monitors_ok
proof
  show "\<exists>st. s = server_start st \<and> (\<forall>p. \<not> mon_server (st p)) \<Longrightarrow> monitors_ok s" for s
    by (auto simp: server_start_def monitors_ok_def interest_ok_def pending_ok_def)
qed (rule monitor_step_ok)

abbreviation monitors_reachable :: "monitor_server \<Rightarrow> bool" where
  "monitors_reachable \<equiv> reach (\<lambda>s. \<exists>st. s = server_start st \<and> (\<forall>p. \<not> mon_server (st p))) monitor_step"

section \<open>Properties\<close>

text \<open>C27: In every reachable state the kernel's interest list holds exactly the monitors of the
  server, each under its descriptor, with its own pointer and event mask. An event that is
  dispatched goes to the very monitor for which the kernel reported it, or is ignored because
  that monitor was removed: its address cannot have been given to another monitor in between.\<close>

theorem events_reach_their_monitor:
  assumes "monitors_reachable s"
  shows "(map_of (ms_epoll s) fd = Some (p, ev) \<longleftrightarrow>
      p \<in> set (ms_monitors s) \<and> mon_fd (ms_store s p) = fd \<and> mon_events (ms_store s p) = ev) \<and>
    ((q, identity) \<in> set (ms_pending s) \<longrightarrow> mon_identity (ms_store s q) = identity \<and>
      dispatch_event q s = (if q \<in> set (ms_monitors s) then Some q else None))"
proof -
  have "interest_ok s" "pending_ok s"
    using monitor_runs.holds_when_reached [OF assms] by (simp_all add: monitors_ok_def)
  then show ?thesis by (auto simp: interest_ok_def pending_ok_def dispatch_event_def)
qed

definition demo_start :: monitor_server where
  "demo_start = server_start (\<lambda>p. Monitor_new (int p) 1 False False 0)"

definition demo_added :: monitor_server where
  "demo_added = snd (addMonitor None 4 demo_start)"

theorem events_reach_their_monitor_witness:
  "map_of (ms_epoll demo_added) 4 = Some (4, 1)"
proof -
  have "monitor_step demo_start demo_added"
    unfolding demo_added_def by (rule step_add) (rule prod.collapse [symmetric])
  moreover have "monitors_reachable demo_start"
    by (rule reach_start) (auto simp: demo_start_def Monitor_new_def)
  ultimately have "monitors_reachable demo_added" by (rule reach_next [rotated])
  from events_reach_their_monitor [OF this, of 4 4 1 0 0] show ?thesis
    by (simp add: demo_added_def demo_start_def addMonitor_def epoll_add_def server_start_def Monitor_new_def Let_def)
qed

text \<open>Removing a monitor takes it out of the list and out of the kernel's interest list, keeps it
  alive until the end of the wake-up and wakes the event loop. If the kernel refuses, the
  operation throws with the monitors' lock still held, and every later addition or removal of a
  monitor blocks for ever.\<close>

lemma removeMonitor_outcome:
  assumes ok: "monitors_ok s" and p: "p \<in> set (ms_monitors s)"
  shows "removeMonitor failure p s = (r, s') \<Longrightarrow>
    (case failure of
       None \<Rightarrow> r = Inr () \<and> p \<notin> set (ms_monitors s') \<and> map_of (ms_epoll s') (mon_fd (ms_store s p)) = None \<and>
         p \<in> set (ms_monitorsWaitingToDie s') \<and> \<not> mon_server (ms_store s' p) \<and> ms_wakeups s' = ms_wakeups s + 1 \<and>
         monitors_ok s'
     | Some e \<Rightarrow> r = Inl (System_error e) \<and> addMonitor f q s' = (Inl Deadlock, s') \<and>
         removeMonitor f q s' = (Inl Deadlock, s'))"
proof -
  assume rem: "removeMonitor failure p s = (r, s')"
  have "map_of (ms_epoll s) (mon_fd (ms_store s p)) = Some (p, mon_events (ms_store s p))"
    "distinct (ms_monitors s)" "\<not> ms_monitorsLock s"
    using ok p registered_interest [of s p] by (auto simp: monitors_ok_def interest_ok_def)
  with rem p have "failure = None \<Longrightarrow> r = Inr () \<and> p \<notin> set (ms_monitors s') \<and>
      map_of (ms_epoll s') (mon_fd (ms_store s p)) = None \<and> p \<in> set (ms_monitorsWaitingToDie s') \<and>
      \<not> mon_server (ms_store s' p) \<and> ms_wakeups s' = ms_wakeups s + 1"
    and "failure = Some e \<Longrightarrow> r = Inl (System_error e) \<and> ms_monitorsLock s'" for e
    by (auto simp: removeMonitor_def epoll_del_def Let_def alist_simps split: option.splits)
  with rem removeMonitor_ok [OF ok, of failure p s'] show ?thesis
    by (auto simp: addMonitor_def [of f] removeMonitor_def [of f] split: option.splits)
qed

end
