(* ===== verification/EventLoop.thy ===== *)
theory EventLoop
  imports MessageQueue
begin

text \<open>
  The main loop of the server (\<open>src/server.cpp\<close>, \<open>Server::start\<close>) and the threads that send
  messages through it. The loop goes through its stages with the inbox, the outbox, the wake-up
  event descriptor and the two flags for the listener socket as shared state; other threads push
  replies into the outbox and then, as a separate action, write to the event descriptor. Turning
  a message into a call is the matter of other parts: the loop hands the messages on in order.
\<close>

section \<open>Model\<close>

datatype stage = Top | Reset | Send | Arm | Wait

record loop_state =
  lp_stage :: stage
  lp_canRead :: bool
  lp_canWrite :: bool
  lp_inbox :: message_queue
  lp_outbox :: message_queue
  lp_wakeupFD :: nat
  lp_wakeupArmed :: bool
  lp_notifying :: nat
  lp_handled :: "message list"

text \<open>The constructor: the outbox notifies through the event descriptor, which is armed.\<close>

definition Server_new :: loop_state where
  "Server_new = \<lparr>lp_stage = Top, lp_canRead = False, lp_canWrite = True,
     lp_inbox = \<lparr>mq_messages = [], mq_arrivalCallback = False\<rparr>,
     lp_outbox = setMessageArrivalNotificationCallback True \<lparr>mq_messages = [], mq_arrivalCallback = False\<rparr>,
     lp_wakeupFD = 0, lp_wakeupArmed = True, lp_notifying = 0, lp_handled = []\<rparr>"

primrec pop_all :: "nat \<Rightarrow> message_queue \<Rightarrow> message list \<times> message_queue" where
  "pop_all 0 q = ([], q)"
| "pop_all (Suc n) q = (case MessageQueue_pop q of None \<Rightarrow> ([], q)
     | Some (m, q') \<Rightarrow> (let (ms, q'') = pop_all n q' in (m # ms, q'')))"

definition receive_stage :: "os_env \<Rightarrow> recv_answer list \<Rightarrow> loop_state \<Rightarrow> loop_state option" where
  "receive_stage env script s =
     (if lp_canRead s
      then (case receiveMany env script (lp_inbox s) of
              Some (Inr canMore, q, _) \<Rightarrow>
                (let (ms, q') = pop_all (length (mq_messages q)) q
                 in Some (s\<lparr>lp_stage := Reset, lp_canRead := canMore, lp_inbox := q', lp_handled := lp_handled s @ ms\<rparr>))
            | _ \<Rightarrow> None)
      else Some (s\<lparr>lp_stage := Reset\<rparr>))"

definition reset_stage :: "loop_state \<Rightarrow> loop_state" where
  "reset_stage s = s\<lparr>lp_stage := Send, lp_wakeupFD := 0\<rparr>"

definition send_stage :: "send_answer list \<Rightarrow> loop_state \<Rightarrow> loop_state option" where
  "send_stage script s =
     (if lp_canWrite s
      then (case sendMany script (lp_outbox s) of
              Some (Inr canMore, q, _) \<Rightarrow> Some (s\<lparr>lp_stage := Arm, lp_canWrite := canMore, lp_outbox := q\<rparr>)
            | _ \<Rightarrow> None)
      else Some (s\<lparr>lp_stage := Arm\<rparr>))"

definition arm_stage :: "loop_state \<Rightarrow> loop_state" where
  "arm_stage s = s\<lparr>lp_stage := Wait, lp_wakeupArmed := lp_canWrite s\<rparr>"

text \<open>
  Returning from the wait: the listener socket reported readable or writable, the event
  descriptor (if armed, and it disarms when reported), or another descriptor.
\<close>

definition wait_stage :: "bool \<Rightarrow> bool \<Rightarrow> bool \<Rightarrow> loop_state \<Rightarrow> loop_state" where
  "wait_stage readable writable wakeup s =
     s\<lparr>lp_stage := Top, lp_canRead := lp_canRead s \<or> readable, lp_canWrite := lp_canWrite s \<or> writable,
       lp_wakeupArmed := lp_wakeupArmed s \<and> \<not> wakeup\<rparr>"

definition sendMessage :: "message \<Rightarrow> loop_state \<Rightarrow> loop_state" where
  "sendMessage m s =
     (let (called, q) = MessageQueue_push m (lp_outbox s)
      in s\<lparr>lp_outbox := q, lp_notifying := lp_notifying s + of_bool called\<rparr>)"

definition write_wakeup :: "loop_state \<Rightarrow> loop_state" where
  "write_wakeup s = s\<lparr>lp_wakeupFD := lp_wakeupFD s + 1, lp_notifying := lp_notifying s - 1\<rparr>"

text \<open>The event descriptor makes the wait return.\<close>

definition wakeup_ready :: "loop_state \<Rightarrow> bool" where
  "wakeup_ready s \<longleftrightarrow> lp_wakeupArmed s \<and> 0 < lp_wakeupFD s"

inductive loop_step :: "os_env \<Rightarrow> loop_state \<Rightarrow> loop_state \<Rightarrow> bool" for env where
  "lp_stage s = Top \<Longrightarrow> receive_stage env script s = Some s' \<Longrightarrow> loop_step env s s'"
| "lp_stage s = Reset \<Longrightarrow> loop_step env s (reset_stage s)"
| "lp_stage s = Send \<Longrightarrow> send_stage answers s = Some s' \<Longrightarrow> loop_step env s s'"
| "lp_stage s = Arm \<Longrightarrow> loop_step env s (arm_stage s)"
| "lp_stage s = Wait \<Longrightarrow> wakeup \<longrightarrow> wakeup_ready s \<Longrightarrow> loop_step env s (wait_stage readable writable wakeup s)"
| "loop_step env s (sendMessage m s)"
| "0 < lp_notifying s \<Longrightarrow> loop_step env s (write_wakeup s)"

section \<open>Invariant\<close>

definition loop_ok :: "loop_state \<Rightarrow> bool" where
  "loop_ok s \<longleftrightarrow> mq_arrivalCallback (lp_outbox s) \<and>
     (lp_stage s \<in> {Arm, Wait} \<and> lp_canWrite s \<and> \<not> MessageQueue_empty (lp_outbox s) \<longrightarrow>
        0 < lp_wakeupFD s \<or> 0 < lp_notifying s) \<and>
     (lp_stage s = Wait \<longrightarrow> lp_wakeupArmed s = lp_canWrite s) \<and>
     mq_messages (lp_inbox s) = []"

lemma sendMany_true_empty:
  "sendMany_loop script ms log = Some (Inr True, rest, log') \<Longrightarrow> rest = []"
  by (induction script ms log rule: sendMany_loop.induct) (auto split: if_splits)

lemma pop_all_is_pop_n: "pop_all n q = mq.pop_n n q"
  by (induction n arbitrary: q) (simp_all split: option.splits prod.splits)

lemma pop_all_empties: "mq_messages (snd (pop_all (length (mq_messages q)) q)) = []"
  using mq.pop_n_take [of "length (mq_messages q)" q] by (simp add: pop_all_is_pop_n)

lemma receive_stage_ok:
  assumes "receive_stage env script s = Some s'" and "loop_ok s"
  shows "loop_ok s'"
proof (cases "lp_canRead s")
  case True
  with assms(1) obtain canMore q called where
    "receiveMany env script (lp_inbox s) = Some (Inr canMore, q, called)"
    and s': "s' = s\<lparr>lp_stage := Reset, lp_canRead := canMore, lp_inbox := snd (pop_all (length (mq_messages q)) q),
      lp_handled := lp_handled s @ fst (pop_all (length (mq_messages q)) q)\<rparr>"
    by (auto simp: receive_stage_def Let_def split: option.splits sum.splits prod.splits)
  with assms(2) pop_all_empties [of q] show ?thesis by (simp add: loop_ok_def)
next
  case False
  with assms show ?thesis by (auto simp: receive_stage_def loop_ok_def)
qed

lemma send_stage_ok: "send_stage script s = Some s' \<Longrightarrow> loop_ok s \<Longrightarrow> loop_ok s'"
  by (auto simp: send_stage_def loop_ok_def sendMany_def MessageQueue_empty_def
      split: if_splits option.splits sum.splits prod.splits dest: sendMany_true_empty)

lemma loop_step_ok: "loop_step env s s' \<Longrightarrow> loop_ok s \<Longrightarrow> loop_ok s'"
proof (induction rule: loop_step.induct)
  case (1 s script s')
  then show ?case using receive_stage_ok by blast
next
  case (3 s answers s')
  then show ?case using send_stage_ok by blast
qed (auto simp: loop_ok_def reset_stage_def arm_stage_def wait_stage_def sendMessage_def write_wakeup_def
    MessageQueue_push_def Let_def)

interpretation loop_runs: inductive_invariant "\<lambda>s. s = Server_new" "loop_step env" loop_ok
proof
  show "s = Server_new \<Longrightarrow> loop_ok s" for s
    by (simp add: loop_ok_def Server_new_def setMessageArrivalNotificationCallback_def)
qed (rule loop_step_ok)

section \<open>Properties\<close>

text \<open>C16: The main loop never sleeps on a message it could send. In every reachable state in which it
  waits, has messages in the outbox and believes the socket writable, the event descriptor is
  armed and readable, so that the wait returns, or a sender that pushed a message is about to
  write to it. While the socket is not writable the event descriptor is not watched. Every message
  received has been handed on.\<close>

theorem no_message_left_asleep:
  assumes "reach (\<lambda>s. s = Server_new) (loop_step env) s" and "lp_stage s = Wait"
  shows "(lp_canWrite s \<and> \<not> MessageQueue_empty (lp_outbox s) \<longrightarrow> wakeup_ready s \<or> 0 < lp_notifying s) \<and>
    (\<not> lp_canWrite s \<longrightarrow> \<not> wakeup_ready s) \<and> MessageQueue_empty (lp_inbox s)"
  using loop_runs.holds_when_reached [OF assms(1)] assms(2) by (auto simp: loop_ok_def wakeup_ready_def MessageQueue_empty_def)

definition demo_wait :: loop_state where
  "demo_wait = write_wakeup (sendMessage demo_message (arm_stage (reset_stage (Server_new\<lparr>lp_stage := Reset\<rparr>)\<lparr>lp_stage := Arm\<rparr>)))"

lemma demo_wait_reachable: "reach (\<lambda>s. s = Server_new) (loop_step demo_env) demo_wait"
proof -
  let ?R = "reach (\<lambda>s. s = Server_new) (loop_step demo_env)"
  let ?s1 = "Server_new\<lparr>lp_stage := Reset\<rparr>"
  let ?s3 = "(reset_stage ?s1)\<lparr>lp_stage := Arm\<rparr>"
  have "?R ?s1"
    by (rule reach_next [OF reach_start], rule refl, rule loop_step.intros(1) [where script = "[]"])
      (simp_all add: receive_stage_def Server_new_def)
  then have "?R (reset_stage ?s1)" by (rule reach_next) (rule loop_step.intros(2), simp)
  then have "?R ?s3"
    by (rule reach_next, intro loop_step.intros(3) [where answers = "[]"])
      (simp_all add: reset_stage_def send_stage_def sendMany_def Server_new_def setMessageArrivalNotificationCallback_def)
  then have "?R (arm_stage ?s3)" by (rule reach_next) (rule loop_step.intros(4), simp)
  then have "?R (sendMessage demo_message (arm_stage ?s3))" by (rule reach_next) (rule loop_step.intros(6))
  then show ?thesis unfolding demo_wait_def
    by (rule reach_next, intro loop_step.intros(7))
      (simp add: sendMessage_def MessageQueue_push_def Let_def arm_stage_def reset_stage_def Server_new_def
        setMessageArrivalNotificationCallback_def)
qed

theorem no_message_left_asleep_witness: "wakeup_ready demo_wait"
proof -
  note eval = demo_wait_def write_wakeup_def sendMessage_def MessageQueue_push_def Let_def arm_stage_def
    reset_stage_def Server_new_def setMessageArrivalNotificationCallback_def MessageQueue_empty_def
  have "lp_stage demo_wait = Wait" by (simp add: eval)
  from no_message_left_asleep [OF demo_wait_reachable this] show ?thesis by (simp add: eval)
qed

end
