(* ===== verification/Locks.thy ===== *)
theory Locks
  imports Prelude
begin

text \<open>
  The microthread locks of the duct tape (\<open>duct-tape/src/locks.c\<close> and \<open>condvar.c\<close>). A mutex has
  an owner, a queue of suspended microthreads and a native lock that protects both; the native
  lock is held until a microthread that goes to sleep is fully suspended, so what happens under it
  is one step. Threads that are no microthreads take the native lock itself for as long as they
  hold the mutex. One mutex and one condition variable used with it form a transition system
  together with the place at which each microthread is.

  The second part has the sleep functions that release a lock around a wait.
\<close>

unbundle bit_operations_syntax

section \<open>Model of the mutex and the condition variable\<close>

text \<open>
  A microthread is outside, inside \<open>dtape_mutex_lock\<close> and about to look at the owner, suspended in
  the queue of the mutex, suspended in the queue of the condition variable, past the test of
  \<open>dtape_mutex_try_lock\<close>, or holding the mutex. Threads are numbered from 1: owner 0 is nobody.
\<close>

datatype mstate = Outside | Acquiring | Asleep | Cv_asleep | Try_passed | Holding

record mutex_sys =
  dtape_owner :: nat
  dtape_queue_head :: "nat list"
  dtape_queue_lock :: bool
  cv_queue_head :: "nat list"
  mx_state :: "nat \<Rightarrow> mstate"

definition dtape_mutex_init :: mutex_sys where
  "dtape_mutex_init = \<lparr>dtape_owner = 0, dtape_queue_head = [], dtape_queue_lock = False,
     cv_queue_head = [], mx_state = (\<lambda>_. Outside)\<rparr>"

definition dtape_mutex_assert :: "nat \<Rightarrow> bool \<Rightarrow> mutex_sys \<Rightarrow> unit result" where
  "dtape_mutex_assert current should_be_owned s =
     (let owned = (dtape_owner s = current)
      in if should_be_owned \<and> \<not> owned
         then Inl (Panic ''Lock assertion failed (not owned but expected to be owned)'')
         else if \<not> should_be_owned \<and> owned
         then Inl (Panic ''Lock assertion failed (owned but expected not to be owned)'')
         else Inr ())"

definition goto_state :: "nat \<Rightarrow> mstate \<Rightarrow> mutex_sys \<Rightarrow> mutex_sys" where
  "goto_state t st s = s\<lparr>mx_state := (mx_state s)(t := st)\<rparr>"

text \<open>Locking: the assertion at the entry, and one turn of the loop.\<close>

definition dtape_mutex_lock_enter :: "nat \<Rightarrow> mutex_sys \<Rightarrow> mutex_sys result" where
  "dtape_mutex_lock_enter t s =
     (case dtape_mutex_assert t False s of Inl e \<Rightarrow> Inl e | Inr _ \<Rightarrow> Inr (goto_state t Acquiring s))"

definition dtape_mutex_lock_turn :: "nat \<Rightarrow> mutex_sys \<Rightarrow> mutex_sys" where
  "dtape_mutex_lock_turn t s =
     (if dtape_owner s = 0 \<or> dtape_owner s = t
      then goto_state t Holding (s\<lparr>dtape_owner := t\<rparr>)
      else goto_state t Asleep (s\<lparr>dtape_queue_head := dtape_queue_head s @ [t]\<rparr>))"

text \<open>A thread that is no microthread holds the native lock while the owner is 0.\<close>

definition native_lock :: "mutex_sys \<Rightarrow> mutex_sys option" where
  "native_lock s = (if dtape_owner s = 0 then Some (s\<lparr>dtape_queue_lock := True\<rparr>) else None)"

definition native_unlock :: "mutex_sys \<Rightarrow> mutex_sys" where
  "native_unlock s = s\<lparr>dtape_queue_lock := False\<rparr>"

text \<open>
  Trying to lock: the test of the owner and its assignment are two accesses without the native
  lock, which is then released although this thread does not hold it.
\<close>

definition dtape_mutex_try_lock_test :: "nat \<Rightarrow> mutex_sys \<Rightarrow> mutex_sys result" where
  "dtape_mutex_try_lock_test t s =
     (case dtape_mutex_assert t False s of Inl e \<Rightarrow> Inl e
      | Inr _ \<Rightarrow> Inr (if dtape_owner s = 0 \<or> dtape_owner s = t then goto_state t Try_passed s else s))"

definition dtape_mutex_try_lock_set :: "nat \<Rightarrow> mutex_sys \<Rightarrow> mutex_sys" where
  "dtape_mutex_try_lock_set t s = goto_state t Holding (s\<lparr>dtape_owner := t, dtape_queue_lock := False\<rparr>)"

definition dtape_mutex_unlock :: "nat \<Rightarrow> mutex_sys \<Rightarrow> mutex_sys result" where
  "dtape_mutex_unlock t s =
     (case dtape_mutex_assert t True s of Inl e \<Rightarrow> Inl e
      | Inr _ \<Rightarrow>
          (let s1 = goto_state t Outside (s\<lparr>dtape_owner := 0\<rparr>)
           in case dtape_queue_head s1 of
                [] \<Rightarrow> Inr s1
              | w # rest \<Rightarrow> Inr (goto_state w Acquiring (s1\<lparr>dtape_queue_head := rest\<rparr>))))"

text \<open>Waiting on the condition variable: its lock is held until the thread is suspended.\<close>

definition dtape_condvar_wait :: "nat \<Rightarrow> mutex_sys \<Rightarrow> mutex_sys result" where
  "dtape_condvar_wait t s =
     (case dtape_mutex_unlock t s of Inl e \<Rightarrow> Inl e
      | Inr s1 \<Rightarrow> Inr (goto_state t Cv_asleep (s1\<lparr>cv_queue_head := cv_queue_head s1 @ [t]\<rparr>)))"

fun dtape_condvar_signal :: "nat \<Rightarrow> mutex_sys \<Rightarrow> mutex_sys" where
  "dtape_condvar_signal 0 s = s"
| "dtape_condvar_signal (Suc n) s =
     (case cv_queue_head s of
        [] \<Rightarrow> s
      | w # rest \<Rightarrow> dtape_condvar_signal n (goto_state w Acquiring (s\<lparr>cv_queue_head := rest\<rparr>)))"

inductive mutex_step :: "bool \<Rightarrow> mutex_sys \<Rightarrow> mutex_sys \<Rightarrow> bool" for with_try where
  step_enter: "mx_state s t = Outside \<Longrightarrow> 0 < t \<Longrightarrow> dtape_mutex_lock_enter t s = Inr s' \<Longrightarrow> mutex_step with_try s s'"
| step_turn: "mx_state s t = Acquiring \<Longrightarrow> \<not> dtape_queue_lock s \<Longrightarrow> mutex_step with_try s (dtape_mutex_lock_turn t s)"
| step_unlock: "mx_state s t = Holding \<Longrightarrow> \<not> dtape_queue_lock s \<Longrightarrow> dtape_mutex_unlock t s = Inr s' \<Longrightarrow>
    mutex_step with_try s s'"
| step_native_lock: "\<not> dtape_queue_lock s \<Longrightarrow> native_lock s = Some s' \<Longrightarrow> mutex_step with_try s s'"
| step_native_unlock: "dtape_queue_lock s \<Longrightarrow> mutex_step with_try s (native_unlock s)"
| step_wait: "mx_state s t = Holding \<Longrightarrow> \<not> dtape_queue_lock s \<Longrightarrow> dtape_condvar_wait t s = Inr s' \<Longrightarrow>
    mutex_step with_try s s'"
| step_signal: "mutex_step with_try s (dtape_condvar_signal n s)"
| step_try_test: "with_try \<Longrightarrow> mx_state s t = Outside \<Longrightarrow> 0 < t \<Longrightarrow> dtape_mutex_try_lock_test t s = Inr s' \<Longrightarrow>
    mutex_step with_try s s'"
| step_try_set: "with_try \<Longrightarrow> mx_state s t = Try_passed \<Longrightarrow> mutex_step with_try s (dtape_mutex_try_lock_set t s)"

section \<open>Invariant\<close>

definition mutex_ok :: "mutex_sys \<Rightarrow> bool" where
  "mutex_ok s \<longleftrightarrow>
     (\<forall>t. mx_state s t = Holding \<longleftrightarrow> dtape_owner s = t \<and> t \<noteq> 0) \<and>
     distinct (dtape_queue_head s) \<and> distinct (cv_queue_head s) \<and>
     (\<forall>t. t \<in> set (dtape_queue_head s) \<longleftrightarrow> mx_state s t = Asleep) \<and>
     (\<forall>t. t \<in> set (cv_queue_head s) \<longleftrightarrow> mx_state s t = Cv_asleep) \<and>
     (\<forall>t. mx_state s t \<noteq> Try_passed) \<and>
     (\<forall>t. mx_state s t \<noteq> Outside \<longrightarrow> t \<noteq> 0) \<and>
     (dtape_queue_lock s \<longrightarrow> dtape_owner s = 0) \<and>
     (dtape_owner s = 0 \<and> dtape_queue_head s \<noteq> [] \<longrightarrow> (\<exists>t. mx_state s t = Acquiring))"

lemma goto_state_simps [simp]:
  "dtape_owner (goto_state t st s) = dtape_owner s" "dtape_queue_head (goto_state t st s) = dtape_queue_head s"
  "dtape_queue_lock (goto_state t st s) = dtape_queue_lock s" "cv_queue_head (goto_state t st s) = cv_queue_head s"
  "mx_state (goto_state t st s) = (mx_state s)(t := st)"
  by (simp_all add: goto_state_def)

lemma mutex_ok_queues:
  assumes "mutex_ok s"
  shows "t \<in> set (dtape_queue_head s) \<longleftrightarrow> mx_state s t = Asleep"
    and "t \<in> set (cv_queue_head s) \<longleftrightarrow> mx_state s t = Cv_asleep"
  using assms by (simp_all add: mutex_ok_def)

lemma mutex_ok_thread: "mutex_ok s \<Longrightarrow> mx_state s t \<noteq> Outside \<Longrightarrow> t \<noteq> 0"
  by (auto simp: mutex_ok_def)

lemma lock_enter_ok:
  assumes ok: "mutex_ok s" and "mx_state s t = Outside" "0 < t" "dtape_mutex_lock_enter t s = Inr s'"
  shows "mutex_ok s'"
proof -
  have "s' = goto_state t Acquiring s" "dtape_owner s \<noteq> t"
    using assms(4) by (auto simp: dtape_mutex_lock_enter_def dtape_mutex_assert_def Let_def split: if_splits)
  with assms show ?thesis by (auto simp: mutex_ok_def)
qed

lemma lock_turn_ok:
  assumes ok: "mutex_ok s" and "mx_state s t = Acquiring" "\<not> dtape_queue_lock s"
  shows "mutex_ok (dtape_mutex_lock_turn t s)"
proof (cases "dtape_owner s = 0")
  case True
  then show ?thesis using assms by (auto simp: mutex_ok_def dtape_mutex_lock_turn_def)
next
  case False
  have "mx_state s t \<noteq> Holding" "t \<noteq> 0" using assms(1,2) by (auto simp: mutex_ok_def)
  then have "dtape_owner s \<noteq> t" using ok by (auto simp: mutex_ok_def)
  with False show ?thesis using assms by (auto simp: mutex_ok_def dtape_mutex_lock_turn_def)
qed

lemma unlock_ok:
  assumes ok: "mutex_ok s" and "mx_state s t = Holding" "\<not> dtape_queue_lock s"
    and unlock: "dtape_mutex_unlock t s = Inr s'"
  shows "mutex_ok s' \<and> mx_state s' t = Outside \<and> cv_queue_head s' = cv_queue_head s"
proof -
  have owner: "dtape_owner s = t" "t \<noteq> 0" using ok assms(2) by (auto simp: mutex_ok_def)
  have t: "t \<notin> set (dtape_queue_head s)" "t \<notin> set (cv_queue_head s)"
    using assms(2) by (simp_all add: mutex_ok_queues [OF ok])
  show ?thesis
  proof (cases "dtape_queue_head s")
    case Nil
    with unlock owner have "s' = goto_state t Outside (s\<lparr>dtape_owner := 0\<rparr>)"
      by (simp add: dtape_mutex_unlock_def dtape_mutex_assert_def Let_def)
    with Nil ok owner t show ?thesis by (auto simp: mutex_ok_def)
  next
    case (Cons w rest)
    with unlock owner have s': "s' = goto_state w Acquiring (goto_state t Outside (s\<lparr>dtape_owner := 0\<rparr>)\<lparr>dtape_queue_head := rest\<rparr>)"
      by (simp add: dtape_mutex_unlock_def dtape_mutex_assert_def Let_def)
    have w1: "mx_state s w = Asleep" using Cons mutex_ok_queues(1) [OF ok, of w] by simp
    have w: "w \<noteq> t" "w \<notin> set rest" "w \<noteq> 0" "w \<notin> set (cv_queue_head s)"
      using ok Cons t w1 mutex_ok_thread [OF ok, of w] mutex_ok_queues(2) [OF ok, of w]
      by (auto simp: mutex_ok_def)
    with Cons ok owner t w1 show ?thesis by (auto simp: s' mutex_ok_def)
  qed
qed

lemma condvar_wait_ok:
  assumes ok: "mutex_ok s" and t: "mx_state s t = Holding" "\<not> dtape_queue_lock s"
    and wait: "dtape_condvar_wait t s = Inr s'"
  shows "mutex_ok s'"
proof -
  obtain s1 where s1: "dtape_mutex_unlock t s = Inr s1"
    and s': "s' = goto_state t Cv_asleep (s1\<lparr>cv_queue_head := cv_queue_head s1 @ [t]\<rparr>)"
    using wait by (auto simp: dtape_condvar_wait_def split: sum.splits)
  have "t \<noteq> 0" using mutex_ok_thread [OF ok, of t] t(1) by simp
  from unlock_ok [OF ok t s1] have ok1: "mutex_ok s1" and out: "mx_state s1 t = Outside" by simp_all
  have "dtape_owner s' = 0 \<and> dtape_queue_head s' \<noteq> [] \<longrightarrow> (\<exists>u. mx_state s' u = Acquiring)"
  proof
    assume "dtape_owner s' = 0 \<and> dtape_queue_head s' \<noteq> []"
    with ok1 obtain u where "mx_state s1 u = Acquiring" by (auto simp: s' mutex_ok_def)
    with out have "mx_state s' u = Acquiring" by (auto simp: s')
    then show "\<exists>u. mx_state s' u = Acquiring" ..
  qed
  moreover have "mx_state s1 t \<noteq> Holding" using out by simp
  with ok1 \<open>t \<noteq> 0\<close> have "dtape_owner s1 \<noteq> t" by (auto simp: mutex_ok_def)
  ultimately show ?thesis using ok1 out \<open>t \<noteq> 0\<close>
    unfolding mutex_ok_def by (elim conjE, intro conjI) (auto simp: s')
qed

lemma condvar_signal_ok: "mutex_ok s \<Longrightarrow> mutex_ok (dtape_condvar_signal n s)"
proof (induction n s rule: dtape_condvar_signal.induct)
  case (2 n s)
  show ?case
  proof (cases "cv_queue_head s")
    case Nil
    with 2 show ?thesis by simp
  next
    case (Cons w rest)
    note ok = 2(2)
    have w: "mx_state s w = Cv_asleep" using Cons mutex_ok_queues(2) [OF ok, of w] by simp
    then have "w \<notin> set (dtape_queue_head s)" "w \<noteq> 0" "w \<notin> set rest" "distinct rest"
      using mutex_ok_queues(1) [OF ok, of w] mutex_ok_thread [OF ok, of w] ok Cons by (auto simp: mutex_ok_def)
    moreover have "dtape_owner s \<noteq> w"
      using ok w \<open>w \<noteq> 0\<close> unfolding mutex_ok_def by (metis mstate.distinct(27))
    ultimately have "mutex_ok (goto_state w Acquiring (s\<lparr>cv_queue_head := rest\<rparr>))"
      using w Cons ok by (auto simp: mutex_ok_def)
    with 2(1) [OF Cons] Cons show ?thesis by simp
  qed
qed simp

lemma mutex_step_ok: "mutex_step False s s' \<Longrightarrow> mutex_ok s \<Longrightarrow> mutex_ok s'"
proof (induction rule: mutex_step.induct)
  case (step_enter s t s')
  then show ?case using lock_enter_ok by blast
next
  case (step_turn s t)
  then show ?case using lock_turn_ok by blast
next
  case (step_unlock s t s')
  then show ?case using unlock_ok by blast
next
  case (step_wait s t s')
  then show ?case using condvar_wait_ok by blast
next
  case (step_signal s n)
  then show ?case using condvar_signal_ok by blast
next
  case (step_native_lock s s')
  then show ?case by (auto simp: mutex_ok_def native_lock_def split: if_splits)
next
  case (step_native_unlock s)
  then show ?case by (auto simp: mutex_ok_def native_unlock_def)
qed simp_all

interpretation mutex_runs: inductive_invariant "\<lambda>s. s = dtape_mutex_init" "mutex_step False" mutex_ok
proof
  show "s = dtape_mutex_init \<Longrightarrow> mutex_ok s" for s
    by (auto simp: dtape_mutex_init_def mutex_ok_def)
qed (rule mutex_step_ok)

abbreviation mutex_reachable :: "bool \<Rightarrow> mutex_sys \<Rightarrow> bool" where
  "mutex_reachable with_try \<equiv> reach (\<lambda>s. s = dtape_mutex_init) (mutex_step with_try)"

section \<open>Model of the sleep functions\<close>

abbreviation LCK_SLEEP_UNLOCK :: u32 where "LCK_SLEEP_UNLOCK \<equiv> 0x01"
abbreviation LCK_SLEEP_SPIN :: u32 where "LCK_SLEEP_SPIN \<equiv> 0x08"
abbreviation LCK_SLEEP_PROMOTED_PRI :: u32 where "LCK_SLEEP_PROMOTED_PRI \<equiv> 0x10"
abbreviation LCK_SLEEP_SPIN_ALWAYS :: u32 where "LCK_SLEEP_SPIN_ALWAYS \<equiv> 0x20"
abbreviation LCK_SLEEP_MASK :: u32 where "LCK_SLEEP_MASK \<equiv> 0x3f"
abbreviation THREAD_WAITING :: int where "THREAD_WAITING \<equiv> - 1"
abbreviation THREAD_TIMED_OUT :: int where "THREAD_TIMED_OUT \<equiv> 1"

text \<open>
  The calling thread's view: whether it holds the lock, its count of promotions, whether the
  scheduler has promoted it. The results of \<open>assert_wait\<close> and \<open>thread_block\<close> are inputs.
\<close>

record sleeper =
  sl_held :: bool
  sl_rwlock_count :: u32
  sl_promoted :: bool
  sl_cleared :: bool

definition sl_unlock :: "sleeper \<Rightarrow> sleeper result" where
  "sl_unlock s = (if sl_held s then Inr (s\<lparr>sl_held := False\<rparr>)
     else Inl (Panic ''Lock assertion failed (not owned but expected to be owned)''))"

definition sl_lock :: "sleeper \<Rightarrow> sleeper result" where
  "sl_lock s = (if sl_held s then Inl (Panic ''Lock assertion failed (owned but expected not to be owned)'')
     else Inr (s\<lparr>sl_held := True\<rparr>))"

definition flag :: "u32 \<Rightarrow> u32 \<Rightarrow> bool" where
  "flag action b \<longleftrightarrow> action AND b \<noteq> 0"

text \<open>Releasing the lock around the wait, the part that the functions share.\<close>

definition sleep_core :: "u32 \<Rightarrow> int \<Rightarrow> int \<Rightarrow> sleeper \<Rightarrow> (int \<times> sleeper) result" where
  "sleep_core action asserted blocked s =
     (if asserted = THREAD_WAITING
      then (case sl_unlock s of Inl e \<Rightarrow> Inl e
            | Inr s1 \<Rightarrow> (if \<not> flag action LCK_SLEEP_UNLOCK
                then (case sl_lock s1 of Inl e \<Rightarrow> Inl e | Inr s2 \<Rightarrow> Inr (blocked, s2))
                else Inr (blocked, s1)))
      else if flag action LCK_SLEEP_UNLOCK
      then (case sl_unlock s of Inl e \<Rightarrow> Inl e | Inr s1 \<Rightarrow> Inr (asserted, s1))
      else Inr (asserted, s))"

definition lck_spin_sleep_grp :: "u32 \<Rightarrow> int \<Rightarrow> int \<Rightarrow> sleeper \<Rightarrow> (int \<times> sleeper) result" where
  "lck_spin_sleep_grp action asserted blocked s =
     (if action AND NOT LCK_SLEEP_MASK \<noteq> 0 then Inl (Panic ''Invalid lock sleep action'')
      else sleep_core action asserted blocked s)"

definition lck_mtx_sleep :: "u32 \<Rightarrow> int \<Rightarrow> int \<Rightarrow> sleeper \<Rightarrow> (int \<times> sleeper) result" where
  "lck_mtx_sleep action asserted blocked s =
     (if action AND NOT LCK_SLEEP_MASK \<noteq> 0 then Inl (Panic ''Invalid lock sleep action'')
      else
        (let promote = flag action LCK_SLEEP_PROMOTED_PRI;
             s1 = (if promote then s\<lparr>sl_rwlock_count := sl_rwlock_count s + 1\<rparr> else s)
         in case sleep_core action asserted blocked s1 of
              Inl e \<Rightarrow> Inl e
            | Inr (res, s2) \<Rightarrow>
                (if promote
                 then (let last = (sl_rwlock_count s2 = 1);
                           s3 = s2\<lparr>sl_rwlock_count := sl_rwlock_count s2 - 1\<rparr>
                       in Inr (res, if last \<and> sl_promoted s3 then s3\<lparr>sl_cleared := True\<rparr> else s3))
                 else Inr (res, s2))))"

text \<open>The variant with a deadline differs only in how the wait is asserted.\<close>

definition lck_mtx_sleep_deadline :: "u32 \<Rightarrow> int \<Rightarrow> int \<Rightarrow> sleeper \<Rightarrow> (int \<times> sleeper) result" where
  "lck_mtx_sleep_deadline = lck_mtx_sleep"

definition collision_backoffs :: "u32 list" where
  "collision_backoffs = [10, 50, 100, 200, 400, 600, 800, 1000]"

text \<open>Backing off after collisions: the microseconds to wait, or a failed assertion.\<close>

definition mutex_pause :: "u32 \<Rightarrow> int \<Rightarrow> int \<Rightarrow> u32 list \<Rightarrow> (u32 \<times> u32 list) result" where
  "mutex_pause collisions asserted blocked max_collision_count =
     (let c1 = (if 32 \<le> collisions then 31 else collisions);
          counts = max_collision_count[unat c1 := max_collision_count ! unat c1 + 1];
          c2 = (if 8 \<le> c1 then 7 else c1);
          back_off = collision_backoffs ! unat c2
      in if asserted \<noteq> THREAD_WAITING then Inl (Assertion_failed ''wait_result == THREAD_WAITING'')
         else if blocked \<noteq> THREAD_TIMED_OUT then Inl (Assertion_failed ''wait_result == THREAD_TIMED_OUT'')
         else Inr (back_off, counts))"

section \<open>Properties\<close>


definition demo_held :: mutex_sys where
  "demo_held = dtape_mutex_lock_turn 1 (goto_state 1 Acquiring dtape_mutex_init)"

lemma demo_held_reachable: "mutex_reachable False demo_held"
proof -
  have "mutex_reachable False dtape_mutex_init" by (rule reach_start) simp
  then have "mutex_reachable False (goto_state 1 Acquiring dtape_mutex_init)"
    by (rule reach_next) (rule step_enter [of _ 1],
      simp_all add: dtape_mutex_init_def dtape_mutex_lock_enter_def dtape_mutex_assert_def Let_def)
  then show ?thesis unfolding demo_held_def
    by (rule reach_next) (rule step_turn, simp_all add: dtape_mutex_init_def)
qed




text \<open>C38: With \<open>dtape_mutex_try_lock\<close> there is a run after which two microthreads hold the mutex at
  the same time, and one that takes the native lock away from a native thread holding it: the
  owner is tested and set without the native lock, which is released without having been
  taken.\<close>

theorem try_lock_breaks_exclusion:
  "(\<exists>s. mutex_reachable True s \<and> mx_state s 1 = Holding \<and> mx_state s 2 = Holding) \<and>
   (\<exists>s s'. mutex_reachable True s \<and> dtape_queue_lock s \<and> mutex_step True s s' \<and>
     \<not> dtape_queue_lock s' \<and> mx_state s' 1 = Holding)"
proof
  let ?R = "mutex_reachable True"
  let ?s1 = "goto_state 1 Try_passed dtape_mutex_init"
  let ?s2 = "goto_state 2 Try_passed ?s1"
  note eval = dtape_mutex_init_def dtape_mutex_try_lock_test_def dtape_mutex_assert_def Let_def
  have "?R dtape_mutex_init" by (rule reach_start) simp
  then have s1: "?R ?s1" by (rule reach_next) (rule step_try_test [of _ _ 1], simp_all add: eval)
  then have "?R ?s2" by (rule reach_next) (rule step_try_test [of _ _ 2], simp_all add: eval)
  then have "?R (dtape_mutex_try_lock_set 1 ?s2)" by (rule reach_next) (rule step_try_set, simp_all)
  then have "?R (dtape_mutex_try_lock_set 2 (dtape_mutex_try_lock_set 1 ?s2))"
    by (rule reach_next) (rule step_try_set, simp_all add: dtape_mutex_try_lock_set_def)
  then show "\<exists>s. ?R s \<and> mx_state s 1 = Holding \<and> mx_state s 2 = Holding"
    by (intro exI [of _ "dtape_mutex_try_lock_set 2 (dtape_mutex_try_lock_set 1 ?s2)"])
      (simp add: dtape_mutex_try_lock_set_def)
  let ?n = "?s1\<lparr>dtape_queue_lock := True\<rparr>"
  from s1 have "?R ?n"
    by (rule reach_next) (rule step_native_lock, simp_all add: native_lock_def dtape_mutex_init_def)
  moreover have "mutex_step True ?n (dtape_mutex_try_lock_set 1 ?n)"
    by (rule step_try_set) simp_all
  ultimately show "\<exists>s s'. ?R s \<and> dtape_queue_lock s \<and> mutex_step True s s' \<and>
      \<not> dtape_queue_lock s' \<and> mx_state s' 1 = Holding"
    by (intro exI [of _ ?n] exI [of _ "dtape_mutex_try_lock_set 1 ?n"]) (simp add: dtape_mutex_try_lock_set_def)
qed

text \<open>A thread that calls one of the sleep functions holding the lock comes back holding it
  unless it asked for the lock to be released, whether it slept or the wait could not be asserted;
  its promotion count is what it was; and an action with undefined bits panics before anything
  is done. The back-off after collisions is one of the eight listed delays.\<close>

lemma sleep_restores_lock:
  assumes "sl_held s"
  shows "(case lck_mtx_sleep action asserted blocked s of
      Inl e \<Rightarrow> action AND NOT LCK_SLEEP_MASK \<noteq> 0 \<and> e = Panic ''Invalid lock sleep action''
    | Inr (res, s') \<Rightarrow> action AND NOT LCK_SLEEP_MASK = 0 \<and> sl_held s' = (\<not> flag action LCK_SLEEP_UNLOCK) \<and>
        sl_rwlock_count s' = sl_rwlock_count s \<and>
        res = (if asserted = THREAD_WAITING then blocked else asserted)) \<and>
    (case lck_spin_sleep_grp action asserted blocked s of
      Inl e \<Rightarrow> action AND NOT LCK_SLEEP_MASK \<noteq> 0 \<and> e = Panic ''Invalid lock sleep action''
    | Inr (res, s') \<Rightarrow> sl_held s' = (\<not> flag action LCK_SLEEP_UNLOCK)) \<and>
    (mutex_pause collisions asserted blocked counts = Inr (back_off, counts') \<longrightarrow>
      back_off \<in> set collision_backoffs \<and> length counts' = length counts)"
proof -
  have core: "\<exists>s2. sleep_core action asserted blocked s1 =
      Inr (if asserted = THREAD_WAITING then blocked else asserted, s2) \<and>
      sl_held s2 = (\<not> flag action LCK_SLEEP_UNLOCK) \<and> sl_rwlock_count s2 = sl_rwlock_count s1 \<and>
      sl_promoted s2 = sl_promoted s1" if "sl_held s1" for s1
    using that by (auto simp: sleep_core_def sl_unlock_def sl_lock_def)
  have "collision_backoffs ! unat (if (8::u32) \<le> c then 7 else c) \<in> set collision_backoffs" for c :: u32
    by (rule nth_mem) (auto simp: word_le_nat_alt collision_backoffs_def)
  note listed = this
  have "mutex_pause collisions asserted blocked counts = Inr (back_off, counts') \<Longrightarrow>
      back_off \<in> set collision_backoffs \<and> length counts' = length counts"
    using listed [of collisions] listed [of 31] unfolding mutex_pause_def Let_def by (auto split: if_split_asm)
  moreover obtain s2 where "sleep_core action asserted blocked s =
      Inr (if asserted = THREAD_WAITING then blocked else asserted, s2)"
      "sl_held s2 = (\<not> flag action LCK_SLEEP_UNLOCK)" "sl_rwlock_count s2 = sl_rwlock_count s"
    using core [OF assms] by auto
  moreover obtain s3 where "sleep_core action asserted blocked (s\<lparr>sl_rwlock_count := sl_rwlock_count s + 1\<rparr>) =
      Inr (if asserted = THREAD_WAITING then blocked else asserted, s3)"
      "sl_held s3 = (\<not> flag action LCK_SLEEP_UNLOCK)" "sl_rwlock_count s3 = sl_rwlock_count s + 1"
    using core [of "s\<lparr>sl_rwlock_count := sl_rwlock_count s + 1\<rparr>"] assms by auto
  ultimately show ?thesis
    by (auto simp: lck_mtx_sleep_def lck_spin_sleep_grp_def Let_def)
qed

end
