(* ===== verification/ProcMaps.thy ===== *)
theory ProcMaps
  imports Prelude
begin

text \<open>
  Memory regions of a managed process. \<open>Process::memoryRegionInfo\<close> and
  \<open>Process::getNextRegion\<close> (src/src/process.cpp) scan the text of
  \<open>/proc/<pid>/maps\<close> with two regular expressions; the hooks of src/src/server.cpp hand
  the result to the duct tape, and \<open>mach_vm_region\<close> and \<open>mach_vm_region_recurse\<close>
  (src/duct-tape/src/memory.c) turn it into the Mach answer. The text of the file is an
  argument, one for every time the code opens it. The lemmas show that the scanners agree
  with the regular expressions, and the property that the Mach calls answer with the first
  region of the file that ends above the address.
\<close>

unbundle bit_operations_syntax

section \<open>Scanning a line\<close>

text \<open>The character classes of the two regular expressions, in the C locale.\<close>

definition is_hex :: "char \<Rightarrow> bool" where
  "is_hex c \<longleftrightarrow> c \<in> set ''0123456789abcdefABCDEF''"

definition is_perm :: "char \<Rightarrow> bool" where
  "is_perm c \<longleftrightarrow> c \<in> set ''rwxps-''"

definition is_space :: "char \<Rightarrow> bool" where
  "is_space c \<longleftrightarrow> (of_char c :: nat) \<in> {9, 10, 11, 12, 13, 32}"

text \<open>
  A match at the start of the text. Neighbouring parts of each expression use disjoint
  character classes, so the greedy choice of every repetition is the only one that can
  succeed and the matcher needs no backtracking; \<open>match_range_iff\<close> and
  \<open>match_entry_iff\<close> below compare it with the expressions.
\<close>

definition match_range :: "string \<Rightarrow> (string \<times> string \<times> string) option" where
  "match_range s =
     (let a = takeWhile is_hex s in
      if a = [] then None
      else (case dropWhile is_hex s of
              [] \<Rightarrow> None
            | c # r \<Rightarrow>
                (let b = takeWhile is_hex r in
                 if c \<noteq> CHR ''-'' \<or> b = [] then None
                 else Some (a, b, dropWhile is_hex r))))"

definition match_entry :: "string \<Rightarrow> (string \<times> string \<times> string \<times> string) option" where
  "match_entry s =
     (case match_range s of
        None \<Rightarrow> None
      | Some (a, b, r) \<Rightarrow>
          (let r1 = dropWhile is_space r; p = takeWhile is_perm r1;
               r2 = dropWhile is_perm r1; r3 = dropWhile is_space r2;
               off = takeWhile is_hex r3 in
           if r1 = r \<or> p = [] \<or> r3 = r2 \<or> off = [] then None
           else Some (a, b, p, off)))"

text \<open>\<open>std::regex_search\<close>: the leftmost position at which the expression matches.\<close>

fun regex_search :: "(string \<Rightarrow> 'm option) \<Rightarrow> string \<Rightarrow> 'm option" where
  "regex_search m [] = m []"
| "regex_search m (c # s) = (case m (c # s) of Some x \<Rightarrow> Some x | None \<Rightarrow> regex_search m s)"

text \<open>\<open>std::stoul\<close> in base 16 on a string of hexadecimal digits.\<close>

definition hex_digit :: "char \<Rightarrow> nat" where
  "hex_digit c =
     (let n = of_char c :: nat in
      if n \<le> 57 then n - 48 else if n \<le> 70 then n - 55 else n - 87)"

definition hex_value :: "string \<Rightarrow> nat" where
  "hex_value s = foldl (\<lambda>v c. 16 * v + hex_digit c) 0 s"

definition stoul16 :: "string \<Rightarrow> u64 result" where
  "stoul16 s =
     (if hex_value s < 2 ^ 64 then Inr (of_nat (hex_value s)) else Inl (Out_of_range ''stoul''))"

text \<open>\<open>std::getline\<close> in a loop: the lines of the text, a final newline starting no line.\<close>

fun getlines :: "string \<Rightarrow> string \<Rightarrow> string list" where
  "getlines acc [] = (if acc = [] then [] else [acc])"
| "getlines acc (c # s) =
     (if c = CHR 0x0A then acc # getlines [] s else getlines (acc @ [c]) s)"

section \<open>Process::memoryRegionInfo and Process::getNextRegion\<close>

abbreviation PROT_READ :: u32 where "PROT_READ \<equiv> 1"
abbreviation PROT_WRITE :: u32 where "PROT_WRITE \<equiv> 2"
abbreviation PROT_EXEC :: u32 where "PROT_EXEC \<equiv> 4"

record MemoryRegionInfo =
  startAddress :: u64
  pageCount :: u64
  protection :: u32
  mapOffset :: u64
  shared :: bool

definition perms_protection :: "string \<Rightarrow> u32" where
  "perms_protection perms =
     (if CHR ''r'' \<in> set perms then PROT_READ else 0)
     OR (if CHR ''w'' \<in> set perms then PROT_WRITE else 0)
     OR (if CHR ''x'' \<in> set perms then PROT_EXEC else 0)"

fun region_scan :: "u64 \<Rightarrow> u64 \<Rightarrow> string list \<Rightarrow> MemoryRegionInfo result" where
  "region_scan pagesize address [] = Inl (System_error EFAULT)"
| "region_scan pagesize address (line # lines) =
     (case regex_search match_entry line of
        None \<Rightarrow> region_scan pagesize address lines
      | Some (m1, m2, perms, m4) \<Rightarrow>
          (case stoul16 m1 of
             Inl e \<Rightarrow> Inl e
           | Inr startAddr \<Rightarrow>
               (case stoul16 m2 of
                  Inl e \<Rightarrow> Inl e
                | Inr endAddr \<Rightarrow>
                    if endAddr \<le> address \<or> startAddr > address
                    then region_scan pagesize address lines
                    else (case stoul16 m4 of
                            Inl e \<Rightarrow> Inl e
                          | Inr off \<Rightarrow>
                              Inr \<lparr>startAddress = startAddr,
                                   pageCount = (endAddr - startAddr) div pagesize,
                                   protection = perms_protection perms,
                                   mapOffset = off,
                                   shared = (CHR ''s'' \<in> set perms)\<rparr>))))"

definition memoryRegionInfo ::
  "u64 \<Rightarrow> bool \<times> string \<Rightarrow> u64 \<Rightarrow> MemoryRegionInfo result" where
  "memoryRegionInfo pagesize view address =
     (if fst view then Inl (System_error ESRCH)
      else region_scan pagesize address (getlines [] (snd view)))"

fun next_region_scan :: "u64 \<Rightarrow> string list \<Rightarrow> u64 result" where
  "next_region_scan address [] = Inr 0"
| "next_region_scan address (line # lines) =
     (case regex_search match_range line of
        None \<Rightarrow> next_region_scan address lines
      | Some (m1, m2, _) \<Rightarrow>
          (case stoul16 m1 of
             Inl e \<Rightarrow> Inl e
           | Inr startAddr \<Rightarrow>
               (case stoul16 m2 of
                  Inl e \<Rightarrow> Inl e
                | Inr endAddr \<Rightarrow>
                    if startAddr \<le> address then next_region_scan address lines
                    else Inr startAddr)))"

definition getNextRegion :: "bool \<times> string \<Rightarrow> u64 \<Rightarrow> u64 result" where
  "getNextRegion view address =
     (if fst view then Inl (System_error ESRCH)
      else next_region_scan address (getlines [] (snd view)))"

section \<open>The hooks\<close>

record dtape_memory_region_info =
  start_address :: u64
  page_count :: u64
  map_offset :: u64
  region_protection :: u32
  region_shared :: bool

definition dtape_hook_task_get_memory_region_info ::
  "u64 \<Rightarrow> bool \<times> string \<Rightarrow> u64 \<Rightarrow> dtape_memory_region_info option" where
  "dtape_hook_task_get_memory_region_info pagesize view address =
     (case memoryRegionInfo pagesize view address of
        Inl _ \<Rightarrow> None
      | Inr info \<Rightarrow>
          Some \<lparr>start_address = startAddress info, page_count = pageCount info,
                map_offset = mapOffset info,
                region_protection =
                  (if protection info AND PROT_READ \<noteq> 0 then 1 else 0)
                  OR (if protection info AND PROT_WRITE \<noteq> 0 then 2 else 0)
                  OR (if protection info AND PROT_EXEC \<noteq> 0 then 4 else 0),
                region_shared = shared info\<rparr>)"

definition dtape_hook_task_get_next_region :: "bool \<times> string \<Rightarrow> u64 \<Rightarrow> u64 result" where
  "dtape_hook_task_get_next_region = getNextRegion"

section \<open>mach_vm_region and mach_vm_region_recurse\<close>

type_synonym kern_return = int

abbreviation KERN_SUCCESS :: kern_return where "KERN_SUCCESS \<equiv> 0"
abbreviation KERN_INVALID_ADDRESS :: kern_return where "KERN_INVALID_ADDRESS \<equiv> 1"
abbreviation KERN_PROTECTION_FAILURE :: kern_return where "KERN_PROTECTION_FAILURE \<equiv> 2"
abbreviation KERN_NO_SPACE :: kern_return where "KERN_NO_SPACE \<equiv> 3"
abbreviation KERN_INVALID_ARGUMENT :: kern_return where "KERN_INVALID_ARGUMENT \<equiv> 4"
abbreviation KERN_FAILURE :: kern_return where "KERN_FAILURE \<equiv> 5"
abbreviation KERN_RESOURCE_SHORTAGE :: kern_return where "KERN_RESOURCE_SHORTAGE \<equiv> 6"

abbreviation VM_PROT_READ :: u32 where "VM_PROT_READ \<equiv> 1"
abbreviation VM_PROT_WRITE :: u32 where "VM_PROT_WRITE \<equiv> 2"
abbreviation VM_PROT_EXECUTE :: u32 where "VM_PROT_EXECUTE \<equiv> 4"
abbreviation VM_PROT_ALL :: u32 where "VM_PROT_ALL \<equiv> 7"

abbreviation VM_REGION_BASIC_INFO_64 :: int where "VM_REGION_BASIC_INFO_64 \<equiv> 9"
abbreviation VM_REGION_BASIC_INFO :: int where "VM_REGION_BASIC_INFO \<equiv> 10"
abbreviation VM_REGION_BASIC_INFO_COUNT_64 :: u32 where "VM_REGION_BASIC_INFO_COUNT_64 \<equiv> 9"
abbreviation VM_REGION_BASIC_INFO_COUNT :: u32 where "VM_REGION_BASIC_INFO_COUNT \<equiv> 8"
abbreviation VM_REGION_SUBMAP_SHORT_INFO_COUNT_64 :: u32
  where "VM_REGION_SUBMAP_SHORT_INFO_COUNT_64 \<equiv> 12"
abbreviation SM_PRIVATE :: u8 where "SM_PRIVATE \<equiv> 2"
abbreviation SM_SHARED :: u8 where "SM_SHARED \<equiv> 4"

text \<open>
  The two info structures differ in the width of the offset only. The members that the
  calls set to constants are \<open>behavior\<close> (the default behaviour, 0),
  \<open>user_wired_count\<close>, \<open>inheritance\<close> and \<open>reserved\<close>.
\<close>

record 'offset vm_region_basic_info =
  bi_protection :: u32
  bi_max_protection :: u32
  bi_inheritance :: u32
  bi_shared :: bool
  bi_reserved :: bool
  bi_offset :: 'offset
  bi_behavior :: int
  bi_user_wired_count :: u16

datatype region_info_out =
    Info_untouched
  | Basic_info "u32 vm_region_basic_info"
  | Basic_info_64 "u64 vm_region_basic_info"

text \<open>
  The in-out parameters. \<open>io_object_name\<close> is None for a null pointer and Some of the
  contents otherwise (0 is \<open>IP_NULL\<close>).
\<close>

record region_io =
  io_address :: u64
  io_size :: u64
  io_count :: u32
  io_info :: region_info_out
  io_object_name :: "ptr option"

definition region_vm_prot :: "dtape_memory_region_info \<Rightarrow> u32" where
  "region_vm_prot ri =
     (let p = (if region_protection ri AND 1 \<noteq> 0 then VM_PROT_READ else 0);
          p = (if region_protection ri AND 2 \<noteq> 0 then p OR VM_PROT_WRITE else p) in
      if region_protection ri AND 4 \<noteq> 0 then VM_PROT_EXECUTE OR VM_PROT_READ else p)"

definition fill_basic_info ::
  "(u64 \<Rightarrow> 'offset) \<Rightarrow> dtape_memory_region_info \<Rightarrow> 'offset vm_region_basic_info" where
  "fill_basic_info narrow ri =
     \<lparr>bi_protection = region_vm_prot ri, bi_max_protection = VM_PROT_ALL,
      bi_inheritance = 0, bi_shared = region_shared ri, bi_reserved = False,
      bi_offset = narrow (map_offset ri), bi_behavior = 0, bi_user_wired_count = 0\<rparr>"

text \<open>The lookup both calls start with: the region at the address, or else the next one.\<close>

definition region_or_next ::
  "u64 \<Rightarrow> (bool \<times> string) \<times> (bool \<times> string) \<times> (bool \<times> string) \<Rightarrow> u64
   \<Rightarrow> (kern_return + dtape_memory_region_info) result" where
  "region_or_next pagesize views address =
     (case views of (v1, v2, v3) \<Rightarrow>
      (case dtape_hook_task_get_memory_region_info pagesize v1 address of
         Some ri \<Rightarrow> Inr (Inr ri)
       | None \<Rightarrow>
           (case dtape_hook_task_get_next_region v2 address of
              Inl e \<Rightarrow> Inl e
            | Inr a \<Rightarrow>
                if a = 0 then Inr (Inl KERN_NO_SPACE)
                else (case dtape_hook_task_get_memory_region_info pagesize v3 a of
                        None \<Rightarrow> Inr (Inl KERN_FAILURE)
                      | Some ri \<Rightarrow> Inr (Inr ri)))))"

definition mach_vm_region ::
  "u64 \<Rightarrow> (bool \<times> string) \<times> (bool \<times> string) \<times> (bool \<times> string) \<Rightarrow> int \<Rightarrow> region_io
   \<Rightarrow> (kern_return \<times> region_io) result" where
  "mach_vm_region pagesize views flavor io =
     (if flavor \<noteq> VM_REGION_BASIC_INFO \<and> flavor \<noteq> VM_REGION_BASIC_INFO_64
      then Inl (Undefined_behaviour ''Unimplemented flavor'')
      else
       (let out = (\<lambda>io. io\<lparr>io_object_name := map_option (\<lambda>_. 0) (io_object_name io)\<rparr>) in
        case region_or_next pagesize views (io_address io) of
          Inl e \<Rightarrow> Inl e
        | Inr (Inl kr) \<Rightarrow> Inr (kr, out io)
        | Inr (Inr ri) \<Rightarrow>
            (let io = io\<lparr>io_address := start_address ri, io_size := page_count ri * pagesize\<rparr> in
             if flavor = VM_REGION_BASIC_INFO_64 then
               (if io_count io < VM_REGION_BASIC_INFO_COUNT_64
                then Inr (KERN_INVALID_ARGUMENT, out io)
                else Inr (KERN_SUCCESS,
                          out (io\<lparr>io_count := VM_REGION_BASIC_INFO_COUNT_64,
                                  io_info := Basic_info_64 (fill_basic_info id ri)\<rparr>)))
             else
               (if io_count io < VM_REGION_BASIC_INFO_COUNT
                then Inr (KERN_INVALID_ARGUMENT, out io)
                else Inr (KERN_SUCCESS,
                          out (io\<lparr>io_count := VM_REGION_BASIC_INFO_COUNT,
                                  io_info := Basic_info (fill_basic_info ucast ri)\<rparr>))))))"

text \<open>
  The structure \<open>mach_vm_region_recurse\<close> fills: the members it sets, all others being zero.
\<close>

record vm_region_submap_info_64 =
  si_protection :: u32
  si_max_protection :: u32
  si_offset :: u64
  si_share_mode :: u8

record recurse_io =
  rec_address :: u64
  rec_size :: u64
  rec_depth :: "u32 option"
  rec_infoCnt :: u32
  rec_info :: "vm_region_submap_info_64 option"

definition mach_vm_region_recurse ::
  "u64 \<Rightarrow> (bool \<times> string) \<times> (bool \<times> string) \<times> (bool \<times> string) \<Rightarrow> recurse_io
   \<Rightarrow> (kern_return \<times> recurse_io) result" where
  "mach_vm_region_recurse pagesize views io =
     (let io = io\<lparr>rec_depth := map_option (\<lambda>_. 0) (rec_depth io)\<rparr> in
      case region_or_next pagesize views (rec_address io) of
        Inl e \<Rightarrow> Inl e
      | Inr (Inl kr) \<Rightarrow> Inr (kr, io)
      | Inr (Inr ri) \<Rightarrow>
          (let io = io\<lparr>rec_address := start_address ri, rec_size := page_count ri * pagesize\<rparr>;
               (kr, io) =
                 (if rec_infoCnt io = VM_REGION_SUBMAP_SHORT_INFO_COUNT_64
                  then (KERN_FAILURE,
                        io\<lparr>rec_info :=
                          Some \<lparr>si_protection =
                                  (if region_protection ri AND 1 \<noteq> 0 then VM_PROT_READ else 0)
                                  OR (if region_protection ri AND 2 \<noteq> 0 then VM_PROT_WRITE else 0)
                                  OR (if region_protection ri AND 4 \<noteq> 0
                                      then VM_PROT_EXECUTE else 0),
                                si_max_protection = VM_PROT_ALL,
                                si_offset = map_offset ri,
                                si_share_mode =
                                  (if region_shared ri then SM_SHARED else SM_PRIVATE)\<rparr>\<rparr>)
                  else (KERN_INVALID_ARGUMENT, io));
               kr = KERN_SUCCESS in
           Inr (kr, io)))"

section \<open>The scanners and the regular expressions\<close>

lemma takeWhile_stop [simp]:
  "list_all P xs \<Longrightarrow> \<not> P y \<Longrightarrow> takeWhile P (xs @ y # ys) = xs"
  by (induction xs) auto

lemma dropWhile_stop [simp]:
  "list_all P xs \<Longrightarrow> \<not> P y \<Longrightarrow> dropWhile P (xs @ y # ys) = y # ys"
  by (induction xs) auto

lemma takeWhile_all_hex: "list_all P (takeWhile P xs)"
  by (induction xs) auto

lemma dropWhile_stops: "dropWhile P xs = [] \<or> \<not> P (hd (dropWhile P xs))"
  by (induction xs) auto

lemma takeWhile_maximal:
  "list_all P xs \<Longrightarrow> ys = [] \<or> \<not> P (hd ys) \<Longrightarrow> takeWhile P (xs @ ys) = xs"
  by (induction xs) (cases ys, auto)

lemma dropWhile_maximal:
  "list_all P xs \<Longrightarrow> ys = [] \<or> \<not> P (hd ys) \<Longrightarrow> dropWhile P (xs @ ys) = ys"
  by (induction xs) (cases ys, auto)

lemma char_classes [simp]:
  "\<not> is_hex CHR ''-''" "\<not> is_hex CHR '' ''" "\<not> is_perm CHR '' ''" "is_space CHR '' ''"
  by (simp_all add: is_hex_def is_perm_def is_space_def)

lemma space_not_hex: "is_space c \<Longrightarrow> \<not> is_hex c"
  by (auto simp: is_hex_def is_space_def)

lemma space_not_perm: "is_space c \<Longrightarrow> \<not> is_perm c"
  by (auto simp: is_perm_def is_space_def)

lemma list_all_hd: "list_all P xs \<Longrightarrow> xs \<noteq> [] \<Longrightarrow> P (hd xs)"
  by (cases xs) simp_all

lemma match_range_iff:
  "match_range s = Some (a, b, r) \<longleftrightarrow>
     s = a @ CHR ''-'' # b @ r \<and> a \<noteq> [] \<and> b \<noteq> [] \<and> list_all is_hex a \<and> list_all is_hex b
     \<and> (r = [] \<or> \<not> is_hex (hd r))" (is "?L \<longleftrightarrow> ?R")
proof
  assume ?L
  then obtain t where t: "dropWhile is_hex s = CHR ''-'' # t" "takeWhile is_hex s = a"
    "a \<noteq> []" "takeWhile is_hex t = b" "b \<noteq> []" "dropWhile is_hex t = r"
    by (auto simp: match_range_def Let_def split: if_splits list.splits)
  have "s = a @ CHR ''-'' # t" "t = b @ r"
    using takeWhile_dropWhile_id [of is_hex s] takeWhile_dropWhile_id [of is_hex t] t by simp_all
  then show ?R
    using t takeWhile_all_hex [of is_hex s] takeWhile_all_hex [of is_hex t]
      dropWhile_stops [of is_hex t] by auto
next
  assume ?R
  then show ?L
    by (auto simp: match_range_def Let_def takeWhile_maximal dropWhile_maximal)
qed

lemma dropWhile_unchanged: "dropWhile P xs = xs \<longleftrightarrow> xs = [] \<or> \<not> P (hd xs)"
  by (metis dropWhile_eq_self_iff)

lemma match_entry_iff:
  "match_entry s = Some (a, b, p, off) \<longleftrightarrow>
     (\<exists>w w' r. s = a @ CHR ''-'' # b @ w @ p @ w' @ off @ r
        \<and> a \<noteq> [] \<and> b \<noteq> [] \<and> w \<noteq> [] \<and> p \<noteq> [] \<and> w' \<noteq> [] \<and> off \<noteq> []
        \<and> list_all is_hex a \<and> list_all is_hex b \<and> list_all is_space w \<and> list_all is_perm p
        \<and> list_all is_space w' \<and> list_all is_hex off \<and> (r = [] \<or> \<not> is_hex (hd r)))"
  (is "?L \<longleftrightarrow> ?R")
proof
  assume ?L
  then obtain r where r: "match_range s = Some (a, b, r)"
    and p: "takeWhile is_perm (dropWhile is_space r) = p" "p \<noteq> []"
    and sp: "dropWhile is_space r \<noteq> r"
      "dropWhile is_space (dropWhile is_perm (dropWhile is_space r))
       \<noteq> dropWhile is_perm (dropWhile is_space r)"
    and off: "takeWhile is_hex (dropWhile is_space (dropWhile is_perm (dropWhile is_space r)))
      = off" "off \<noteq> []"
    by (auto simp: match_entry_def Let_def split: option.splits if_splits)
  define r1 where "r1 = dropWhile is_space r"
  define r2 where "r2 = dropWhile is_perm r1"
  define r3 where "r3 = dropWhile is_space r2"
  have "r = takeWhile is_space r @ r1"
    by (simp add: r1_def)
  also have "r1 = p @ r2"
    using p(1) [symmetric] by (simp add: r1_def r2_def)
  also have "r2 = takeWhile is_space r2 @ r3"
    by (simp add: r3_def)
  also have "r3 = off @ dropWhile is_hex r3"
    using off(1) [symmetric] by (simp add: r1_def r2_def r3_def)
  finally have "r = takeWhile is_space r @ p @ takeWhile is_space r2 @ off @ dropWhile is_hex r3" .
  moreover have "takeWhile is_space r \<noteq> []" "takeWhile is_space r2 \<noteq> []"
    using sp by (simp_all add: r2_def r1_def takeWhile_eq_Nil_iff dropWhile_unchanged)
  ultimately show ?R
    using r p off dropWhile_stops [of is_hex r3]
    by (intro exI [of _ "takeWhile is_space r"] exI [of _ "takeWhile is_space r2"]
          exI [of _ "dropWhile is_hex r3"])
       (auto simp: match_range_iff takeWhile_all_hex)
next
  assume ?R
  then obtain w w' r where s: "s = a @ CHR ''-'' # b @ w @ p @ w' @ off @ r"
    and ne: "a \<noteq> []" "b \<noteq> []" "w \<noteq> []" "p \<noteq> []" "w' \<noteq> []" "off \<noteq> []"
    and cls: "list_all is_hex a" "list_all is_hex b" "list_all is_space w" "list_all is_perm p"
      "list_all is_space w'" "list_all is_hex off" "r = [] \<or> \<not> is_hex (hd r)"
    by blast
  have stop: "\<not> is_hex (hd w)" "\<not> is_space (hd p)" "\<not> is_perm (hd w')" "\<not> is_space (hd off)"
    using list_all_hd [OF cls(3) ne(3)] list_all_hd [OF cls(4) ne(4)]
      list_all_hd [OF cls(5) ne(5)] list_all_hd [OF cls(6) ne(6)] space_not_hex space_not_perm
    by blast+
  have "match_range s = Some (a, b, w @ p @ w' @ off @ r)"
    using s ne cls stop by (simp add: match_range_iff)
  moreover have "dropWhile is_space (w @ p @ w' @ off @ r) = p @ w' @ off @ r"
    and "takeWhile is_perm (p @ w' @ off @ r) = p"
    and "dropWhile is_perm (p @ w' @ off @ r) = w' @ off @ r"
    and "dropWhile is_space (w' @ off @ r) = off @ r" and "takeWhile is_hex (off @ r) = off"
    using ne cls stop by (simp_all add: takeWhile_maximal dropWhile_maximal)
  ultimately show ?L
    using ne by (simp add: match_entry_def)
qed

section \<open>The lines of /proc/pid/maps\<close>

text \<open>
  The documented form of a line: the two addresses, the permissions and the offset, followed
  by the device, the inode and the path. A line stands for the region between its addresses.
\<close>

record maps_line =
  ml_start :: string
  ml_end :: string
  ml_perms :: string
  ml_offset :: string
  ml_rest :: string

definition render_line :: "maps_line \<Rightarrow> string" where
  "render_line l = ml_start l @ ''-'' @ ml_end l @ '' '' @ ml_perms l @ '' '' @ ml_offset l
     @ '' '' @ ml_rest l"

definition render_maps :: "maps_line list \<Rightarrow> string" where
  "render_maps ls = concat (map (\<lambda>l. render_line l @ [CHR 0x0A]) ls)"

definition hex_u64 :: "string \<Rightarrow> bool" where
  "hex_u64 s \<longleftrightarrow> s \<noteq> [] \<and> list_all is_hex s \<and> hex_value s < 2 ^ 64"

abbreviation line_start :: "maps_line \<Rightarrow> u64" where
  "line_start l \<equiv> of_nat (hex_value (ml_start l))"

abbreviation line_end :: "maps_line \<Rightarrow> u64" where
  "line_end l \<equiv> of_nat (hex_value (ml_end l))"

definition wf_line :: "u64 \<Rightarrow> maps_line \<Rightarrow> bool" where
  "wf_line pagesize l \<longleftrightarrow>
     hex_u64 (ml_start l) \<and> hex_u64 (ml_end l) \<and> hex_u64 (ml_offset l)
     \<and> ml_perms l \<noteq> [] \<and> list_all is_perm (ml_perms l) \<and> CHR 0x0A \<notin> set (ml_rest l)
     \<and> line_start l < line_end l \<and> (line_end l - line_start l) mod pagesize = 0"

definition line_region :: "u64 \<Rightarrow> maps_line \<Rightarrow> MemoryRegionInfo" where
  "line_region pagesize l =
     \<lparr>startAddress = line_start l, pageCount = (line_end l - line_start l) div pagesize,
      protection = perms_protection (ml_perms l),
      mapOffset = of_nat (hex_value (ml_offset l)), shared = (CHR ''s'' \<in> set (ml_perms l))\<rparr>"

text \<open>The regions of a file are listed in ascending order and do not overlap.\<close>

definition regions_ascending :: "maps_line list \<Rightarrow> bool" where
  "regions_ascending ls \<longleftrightarrow> sorted_wrt (\<lambda>l l'. line_end l \<le> line_start l') ls"

lemma stoul16_hex [simp]: "hex_u64 s \<Longrightarrow> stoul16 s = Inr (of_nat (hex_value s))"
  by (simp add: stoul16_def hex_u64_def)

lemma no_newline:
  "list_all is_hex s \<Longrightarrow> CHR 0x0A \<notin> set s" "list_all is_perm s \<Longrightarrow> CHR 0x0A \<notin> set s"
proof -
  have "\<not> is_hex CHR 0x0A" "\<not> is_perm CHR 0x0A"
    by (simp_all add: is_hex_def is_perm_def)
  then show "list_all is_hex s \<Longrightarrow> CHR 0x0A \<notin> set s" "list_all is_perm s \<Longrightarrow> CHR 0x0A \<notin> set s"
    by (metis list_all_iff)+
qed

lemma regex_search_here: "m s = Some x \<Longrightarrow> regex_search m s = Some x"
  by (cases s) simp_all

lemma search_rendered_entry:
  assumes "wf_line ps l"
  shows "regex_search match_entry (render_line l)
    = Some (ml_start l, ml_end l, ml_perms l, ml_offset l)"
proof -
  have "match_entry (render_line l) = Some (ml_start l, ml_end l, ml_perms l, ml_offset l)"
    using assms unfolding match_entry_iff
    by (intro exI [of _ "'' ''"] exI [of _ "'' '' @ ml_rest l"])
       (simp add: render_line_def wf_line_def hex_u64_def)
  then show ?thesis
    by (rule regex_search_here)
qed

lemma search_rendered_range:
  assumes "wf_line ps l"
  shows "\<exists>r. regex_search match_range (render_line l) = Some (ml_start l, ml_end l, r)"
proof -
  have "match_range (render_line l) = Some (ml_start l, ml_end l,
      '' '' @ ml_perms l @ '' '' @ ml_offset l @ '' '' @ ml_rest l)"
    using assms unfolding match_range_iff by (simp add: render_line_def wf_line_def hex_u64_def)
  then show ?thesis
    by (blast intro: regex_search_here)
qed

lemma getlines_line:
  "CHR 0x0A \<notin> set s \<Longrightarrow> getlines acc (s @ CHR 0x0A # t) = (acc @ s) # getlines [] t"
  by (induction s arbitrary: acc) auto

lemma getlines_render:
  "list_all (wf_line ps) ls \<Longrightarrow> getlines [] (render_maps ls) = map render_line ls"
proof (induction ls)
  case (Cons l ls)
  then have "CHR 0x0A \<notin> set (render_line l)"
    by (auto simp: render_line_def wf_line_def hex_u64_def dest: no_newline)
  then show ?case
    using Cons getlines_line [of "render_line l" "[]" "render_maps ls"]
    by (simp add: render_maps_def)
qed (simp add: render_maps_def)

lemma region_scan_render:
  "list_all (wf_line ps) ls \<Longrightarrow>
   region_scan ps address (map render_line ls)
   = (case find (\<lambda>l. line_start l \<le> address \<and> address < line_end l) ls of
        None \<Rightarrow> Inl (System_error EFAULT) | Some l \<Rightarrow> Inr (line_region ps l))"
proof (induction ls)
  case (Cons l ls)
  then have l: "wf_line ps l"
    by simp
  then have "hex_u64 (ml_start l)" "hex_u64 (ml_end l)" "hex_u64 (ml_offset l)"
    by (simp_all add: wf_line_def)
  then show ?case
    using Cons search_rendered_entry [OF l] by (auto simp: line_region_def)
qed simp

lemma next_region_scan_render:
  "list_all (wf_line ps) ls \<Longrightarrow>
   next_region_scan address (map render_line ls)
   = Inr (case find (\<lambda>l. address < line_start l) ls of None \<Rightarrow> 0 | Some l \<Rightarrow> line_start l)"
proof (induction ls)
  case (Cons l ls)
  then obtain r where "regex_search match_range (render_line l) = Some (ml_start l, ml_end l, r)"
    using search_rendered_range [of ps l] by auto
  then show ?case
    using Cons by (auto simp: wf_line_def)
qed simp

section \<open>The answer of the Mach calls\<close>

lemma perms_protection_bits [simp]:
  "perms_protection p AND PROT_READ \<noteq> 0 \<longleftrightarrow> CHR ''r'' \<in> set p"
  "perms_protection p AND PROT_WRITE \<noteq> 0 \<longleftrightarrow> CHR ''w'' \<in> set p"
  "perms_protection p AND PROT_EXEC \<noteq> 0 \<longleftrightarrow> CHR ''x'' \<in> set p"
  by (simp_all add: perms_protection_def)

definition line_info :: "u64 \<Rightarrow> maps_line \<Rightarrow> dtape_memory_region_info" where
  "line_info pagesize l =
     \<lparr>start_address = line_start l, page_count = (line_end l - line_start l) div pagesize,
      map_offset = of_nat (hex_value (ml_offset l)),
      region_protection =
        (if CHR ''r'' \<in> set (ml_perms l) then 1 else 0)
        OR (if CHR ''w'' \<in> set (ml_perms l) then 2 else 0)
        OR (if CHR ''x'' \<in> set (ml_perms l) then 4 else 0),
      region_shared = (CHR ''s'' \<in> set (ml_perms l))\<rparr>"

lemma line_info_size:
  "wf_line ps l \<Longrightarrow> page_count (line_info ps l) * ps = line_end l - line_start l"
  using div_mult_mod_eq [of "line_end l - line_start l" ps]
  by (simp add: wf_line_def line_info_def)

lemma line_info_protection [simp]:
  "region_protection (line_info ps l) AND 1 \<noteq> 0 \<longleftrightarrow> CHR ''r'' \<in> set (ml_perms l)"
  "region_protection (line_info ps l) AND 2 \<noteq> 0 \<longleftrightarrow> CHR ''w'' \<in> set (ml_perms l)"
  "region_protection (line_info ps l) AND 4 \<noteq> 0 \<longleftrightarrow> CHR ''x'' \<in> set (ml_perms l)"
  by (simp_all add: line_info_def)

lemma hook_region_info_render:
  "list_all (wf_line ps) ls \<Longrightarrow>
   dtape_hook_task_get_memory_region_info ps (False, render_maps ls) address
   = map_option (line_info ps) (find (\<lambda>l. line_start l \<le> address \<and> address < line_end l) ls)"
  by (auto simp: dtape_hook_task_get_memory_region_info_def memoryRegionInfo_def getlines_render
        region_scan_render line_info_def line_region_def split: option.splits)

lemma hook_next_region_render:
  "list_all (wf_line ps) ls \<Longrightarrow>
   dtape_hook_task_get_next_region (False, render_maps ls) address
   = Inr (case find (\<lambda>l. address < line_start l) ls of None \<Rightarrow> 0 | Some l \<Rightarrow> line_start l)"
  by (simp add: dtape_hook_task_get_next_region_def getNextRegion_def getlines_render
        next_region_scan_render)

lemma find_containing:
  "regions_ascending ls \<Longrightarrow>
   find (\<lambda>l. line_start l \<le> address \<and> address < line_end l) ls
   = (case find (\<lambda>l. address < line_end l) ls of
        None \<Rightarrow> None | Some l \<Rightarrow> if line_start l \<le> address then Some l else None)"
proof (induction ls)
  case (Cons l ls)
  from Cons.prems have "\<forall>k \<in> set ls. line_end l \<le> line_start k"
    by (simp add: regions_ascending_def)
  then have "address < line_end l \<Longrightarrow>
    find (\<lambda>l. line_start l \<le> address \<and> address < line_end l) ls = None"
    unfolding find_None_iff by (meson le_less_trans less_le_trans not_le)
  then show ?case
    using Cons by (auto simp: regions_ascending_def split: option.splits)
qed simp

lemma find_above:
  "list_all (wf_line ps) ls \<Longrightarrow> find (\<lambda>l. address < line_end l) ls = Some l \<Longrightarrow>
   \<not> line_start l \<le> address \<Longrightarrow> find (\<lambda>l. address < line_start l) ls = Some l"
  by (induction ls) (auto simp: wf_line_def split: if_splits dest: less_trans)

lemma find_above_none:
  "list_all (wf_line ps) ls \<Longrightarrow> find (\<lambda>l. address < line_end l) ls = None \<Longrightarrow>
   find (\<lambda>l. address < line_start l) ls = None"
  by (auto simp: find_None_iff list_all_iff wf_line_def dest: less_trans)

lemma find_own_start:
  "regions_ascending ls \<Longrightarrow> list_all (wf_line ps) ls \<Longrightarrow>
   find (\<lambda>l. address < line_end l) ls = Some l \<Longrightarrow>
   find (\<lambda>l'. line_start l < line_end l') ls = Some l"
proof (induction ls)
  case (Cons k ls)
  show ?case
  proof (cases "address < line_end k")
    case True
    then show ?thesis using Cons.prems by (auto simp: wf_line_def)
  next
    case False
    then have "l \<in> set ls" using Cons.prems by (auto simp: find_Some_iff)
    then show ?thesis using Cons False by (auto simp: regions_ascending_def)
  qed
qed simp

lemma region_or_next_render:
  assumes wf: "list_all (wf_line ps) ls" and asc: "regions_ascending ls"
    and v: "v = (False, render_maps ls)"
  shows "region_or_next ps (v, v, v) address
    = Inr (case find (\<lambda>l. address < line_end l) ls of
             None \<Rightarrow> Inl KERN_NO_SPACE | Some l \<Rightarrow> Inr (line_info ps l))"
proof (cases "find (\<lambda>l. address < line_end l) ls")
  case None
  then show ?thesis
    using wf asc v by (simp add: region_or_next_def hook_region_info_render find_containing
        hook_next_region_render find_above_none)
next
  case (Some l)
  have "find (\<lambda>l'. line_start l < line_end l') ls = Some l"
    by (rule find_own_start [OF asc wf Some])
  moreover have "\<not> line_start l \<le> address \<Longrightarrow> line_start l \<noteq> 0"
    by auto
  ultimately show ?thesis
    using wf asc v Some find_above [OF wf Some]
    by (auto simp: region_or_next_def hook_region_info_render find_containing
        hook_next_region_render)
qed

text \<open>The protection \<open>mach_vm_region\<close> reports: an executable region is never shown writable.\<close>

definition line_vm_prot :: "maps_line \<Rightarrow> u32" where
  "line_vm_prot l =
     (if CHR ''x'' \<in> set (ml_perms l) then 5
      else (if CHR ''r'' \<in> set (ml_perms l) then 1 else 0)
           + (if CHR ''w'' \<in> set (ml_perms l) then 2 else 0))"

lemma region_vm_prot_line: "region_vm_prot (line_info ps l) = line_vm_prot l"
  by (simp add: region_vm_prot_def line_vm_prot_def Let_def)

lemma mach_vm_region_render:
  assumes "list_all (wf_line ps) ls" and "regions_ascending ls" and "v = (False, render_maps ls)"
    and "flavor \<in> {VM_REGION_BASIC_INFO, VM_REGION_BASIC_INFO_64}"
  shows "mach_vm_region ps (v, v, v) flavor io =
    Inr (case find (\<lambda>l. io_address io < line_end l) ls of
           None \<Rightarrow> (KERN_NO_SPACE, io\<lparr>io_object_name := map_option (\<lambda>_. 0) (io_object_name io)\<rparr>)
         | Some l \<Rightarrow>
             (let io' = io\<lparr>io_address := line_start l, io_size := line_end l - line_start l,
                           io_object_name := map_option (\<lambda>_. 0) (io_object_name io)\<rparr> in
              if flavor = VM_REGION_BASIC_INFO_64 then
                if io_count io < 9 then (KERN_INVALID_ARGUMENT, io')
                else (KERN_SUCCESS, io'\<lparr>io_count := 9,
                        io_info := Basic_info_64 (fill_basic_info id (line_info ps l))\<rparr>)
              else
                if io_count io < 8 then (KERN_INVALID_ARGUMENT, io')
                else (KERN_SUCCESS, io'\<lparr>io_count := 8,
                        io_info := Basic_info (fill_basic_info ucast (line_info ps l))\<rparr>)))"
proof (cases "find (\<lambda>l. io_address io < line_end l) ls")
  case None
  then show ?thesis
    using assms by (auto simp: mach_vm_region_def region_or_next_render)
next
  case (Some l)
  then have "l \<in> set ls"
    by (auto simp: find_Some_iff)
  then have "wf_line ps l"
    using assms(1) by (auto simp: list_all_iff)
  then show ?thesis
    using assms Some line_info_size [of ps l]
    by (auto simp: mach_vm_region_def region_or_next_render Let_def line_info_def)
qed

lemma line_info_fields [simp]:
  "start_address (line_info ps l) = line_start l"
  "map_offset (line_info ps l) = of_nat (hex_value (ml_offset l))"
  "region_shared (line_info ps l) = (CHR ''s'' \<in> set (ml_perms l))"
  by (simp_all add: line_info_def)

lemma mach_vm_region_recurse_render:
  assumes "list_all (wf_line ps) ls" and "regions_ascending ls" and "v = (False, render_maps ls)"
    and "find (\<lambda>l. rec_address rio < line_end l) ls = Some l"
  shows "\<exists>rio'. mach_vm_region_recurse ps (v, v, v) rio = Inr (KERN_SUCCESS, rio')
    \<and> rec_address rio' = line_start l \<and> rec_size rio' = line_end l - line_start l
    \<and> (rec_infoCnt rio \<noteq> 12 \<longrightarrow> rec_info rio' = rec_info rio)
    \<and> (rec_infoCnt rio = 12 \<longrightarrow> (\<exists>i. rec_info rio' = Some i
         \<and> si_offset i = of_nat (hex_value (ml_offset l))
         \<and> si_share_mode i = (if CHR ''s'' \<in> set (ml_perms l) then SM_SHARED else SM_PRIVATE)))"
proof -
  have "wf_line ps l"
    using assms(1,4) by (auto simp: find_Some_iff list_all_iff)
  then show ?thesis
    using assms by (simp add: mach_vm_region_recurse_def region_or_next_render Let_def
        line_info_size)
qed

lemma mach_vm_region_hit:
  assumes "list_all (wf_line ps) ls" and "regions_ascending ls" and "9 \<le> io_count io"
    and "v = (False, render_maps ls)" and "find (\<lambda>l. io_address io < line_end l) ls = Some l"
  shows "\<exists>io' info. mach_vm_region ps (v, v, v) VM_REGION_BASIC_INFO_64 io = Inr (KERN_SUCCESS, io')
    \<and> io_address io' = line_start l \<and> io_size io' = line_end l - line_start l
    \<and> io_info io' = Basic_info_64 info \<and> bi_protection info = line_vm_prot l
    \<and> bi_max_protection info = VM_PROT_ALL
    \<and> bi_offset info = of_nat (hex_value (ml_offset l))
    \<and> bi_shared info = (CHR ''s'' \<in> set (ml_perms l))"
  using assms(3,5) mach_vm_region_render [OF assms(1,2,4), of VM_REGION_BASIC_INFO_64 io]
  by (simp add: Let_def not_less fill_basic_info_def region_vm_prot_line)

lemma mach_vm_region_miss:
  assumes "list_all (wf_line ps) ls" and "regions_ascending ls"
    and "v = (False, render_maps ls)" and "find (\<lambda>l. io_address io < line_end l) ls = None"
  shows "\<exists>io'. mach_vm_region ps (v, v, v) VM_REGION_BASIC_INFO_64 io
    = Inr (KERN_NO_SPACE, io') \<and> io_info io' = io_info io"
  using assms(4) mach_vm_region_render [OF assms(1,2,3), of VM_REGION_BASIC_INFO_64 io] by simp


definition sample_maps :: "maps_line list" where
  "sample_maps =
     [\<lparr>ml_start = ''1000'', ml_end = ''3000'', ml_perms = ''r-xp'', ml_offset = ''00'',
       ml_rest = ''00:00 0''\<rparr>,
      \<lparr>ml_start = ''8000'', ml_end = ''9000'', ml_perms = ''rw-s'', ml_offset = ''2000'',
       ml_rest = ''08:01 77 /bin''\<rparr>]"

lemma sample_maps_ok: "list_all (wf_line 0x1000) sample_maps" "regions_ascending sample_maps"
  by (simp_all add: sample_maps_def wf_line_def hex_u64_def hex_value_def hex_digit_def is_hex_def
      is_perm_def regions_ascending_def)


end
