(* ===== verification/S2C.thy ===== *)
theory S2C
  imports Prelude
begin

text \<open>
  Server-to-client calls. Memory of a managed process can only be mapped by the process itself,
  so the server sends one of its threads a message and waits for the reply:
  \<open>Thread::_s2cPerform\<close> (src/src/thread.cpp), the reply branch of \<open>Call::callFromMessage\<close>
  and \<open>Call::S2CPerform::processCall\<close> (src/src/call.cpp). The state is that of one target
  thread, with every microthread that performs a call on it at a program point of its own; a
  step is one section of the code between two points at which another thread can run. The
  duct-taped semaphores (src/duct-tape/src/semaphore.c) are their counts.
\<close>

section \<open>State\<close>

datatype s2c_msgnum = S2C_mmap | S2C_munmap | S2C_mprotect | S2C_msync

text \<open>
  A call as \<open>_s2cPerform\<close> sees it: the reply number and size it expects, whether the caller is
  the target thread itself, and whether the caller is a microthread at all.
\<close>

record s2c_call =
  expectedReplyNumber :: s2c_msgnum
  expectedReplySize :: nat
  by_self :: bool
  in_microthread :: bool

text \<open>A reply message; \<open>answers\<close> records, for the proofs, whose call the client answered.\<close>

record s2c_reply =
  s2c_number :: s2c_msgnum
  reply_size :: nat
  answers :: nat

datatype s2c_outcome = Reply s2c_reply | Interrupted | Threw exn

text \<open>The program points of \<open>_s2cPerform\<close>; the flag is the local \<open>usingInterrupt\<close>.\<close>

datatype s2c_pc =
    At_entry s2c_call
  | Performing s2c_call
  | Wait_enter s2c_call
  | Sending s2c_call bool
  | Wait_reply s2c_call bool
  | Extracting s2c_call bool
  | Finishing s2c_call bool s2c_reply
  | Returned s2c_call s2c_outcome

record s2c_thread =
  s2cPerformSempahore :: nat
  s2cReplySempahore :: nat
  s2cInterruptEnterSemaphore :: nat
  s2cInterruptExitSemaphore :: nat
  s2cReply :: "s2c_reply option"
  deferReplyForS2C :: bool
  deferredReply :: "nat option"
  performers :: "nat \<Rightarrow> s2c_pc"
  signals :: nat
  in_handler :: nat
  requests :: "(nat \<times> s2c_call) list"
  call_replies :: "nat list"

text \<open>
  \<open>signals\<close> counts the S2C signals the client has not handled yet, \<open>in_handler\<close> the
  \<open>s2c_perform\<close> calls that wait to be let go, \<open>requests\<close> the S2C messages the client has
  not answered, and \<open>call_replies\<close> the ordinary replies sent to it.
\<close>

definition Thread_s2c_init :: "(nat \<Rightarrow> s2c_call) \<Rightarrow> s2c_thread" where
  "Thread_s2c_init calls =
     \<lparr>s2cPerformSempahore = 1, s2cReplySempahore = 0, s2cInterruptEnterSemaphore = 0,
      s2cInterruptExitSemaphore = 0, s2cReply = None, deferReplyForS2C = False,
      deferredReply = None, performers = (\<lambda>p. At_entry (calls p)), signals = 0,
      in_handler = 0, requests = [], call_replies = []\<rparr>"

definition goto :: "nat \<Rightarrow> s2c_pc \<Rightarrow> s2c_thread \<Rightarrow> s2c_thread" where
  "goto p pc s = s\<lparr>performers := (performers s)(p := pc)\<rparr>"

section \<open>Thread::\_s2cPerform\<close>

text \<open>
  Taking the perform semaphore. A wait on a semaphore ends with a decrement, or, when the
  waiting microthread is interrupted, without one.
\<close>

definition s2c_enter :: "nat \<Rightarrow> s2c_thread \<Rightarrow> s2c_thread option" where
  "s2c_enter p s =
     (case performers s p of
        At_entry c \<Rightarrow>
          if s2cPerformSempahore s = 0 then None
          else Some (goto p (Performing c) (s\<lparr>s2cPerformSempahore := s2cPerformSempahore s - 1\<rparr>))
      | _ \<Rightarrow> None)"

definition s2c_enter_interrupted :: "nat \<Rightarrow> s2c_thread \<Rightarrow> s2c_thread option" where
  "s2c_enter_interrupted p s =
     (case performers s p of
        At_entry c \<Rightarrow> Some (goto p (Returned c Interrupted) s)
      | _ \<Rightarrow> None)"

text \<open>
  \<open>Thread::sendSignal\<close>: whether a signal went out. The arguments are the state of the target
  and the error of the \<open>tgkill\<close> system call, if it failed.
\<close>

definition sendSignal :: "bool \<Rightarrow> bool \<Rightarrow> int option \<Rightarrow> bool result" where
  "sendSignal dead has_process tgkill_error =
     (if dead then Inr False
      else if has_process
      then (case tgkill_error of Some code \<Rightarrow> Inl (System_error code) | None \<Rightarrow> Inr True)
      else Inl (System_error ESRCH))"

text \<open>
  The first locked section. \<open>activeCall\<close> is whether the target has an active call at this
  moment, which other threads decide; without one the S2C signal is sent.
\<close>

definition s2c_prepare :: "bool \<Rightarrow> bool result \<Rightarrow> nat \<Rightarrow> s2c_thread \<Rightarrow> s2c_thread option" where
  "s2c_prepare activeCall sig p s =
     (case performers s p of
        Performing c \<Rightarrow>
          if \<not> activeCall then
            (case sig of
               Inl e \<Rightarrow> Some (goto p (Returned c (Threw e)) s)
             | Inr sent \<Rightarrow>
                 Some (goto p (Wait_enter c) (s\<lparr>signals := signals s + of_bool sent\<rparr>)))
          else if \<not> by_self c then Some (goto p (Sending c False) (s\<lparr>deferReplyForS2C := True\<rparr>))
          else Some (goto p (Sending c False) s)
      | _ \<Rightarrow> None)"

definition s2c_green_light :: "nat \<Rightarrow> s2c_thread \<Rightarrow> s2c_thread option" where
  "s2c_green_light p s =
     (case performers s p of
        Wait_enter c \<Rightarrow>
          if s2cInterruptEnterSemaphore s = 0 then None
          else Some (goto p (Sending c True)
                 (s\<lparr>s2cInterruptEnterSemaphore := s2cInterruptEnterSemaphore s - 1\<rparr>))
      | _ \<Rightarrow> None)"

definition s2c_green_light_interrupted :: "nat \<Rightarrow> s2c_thread \<Rightarrow> s2c_thread option" where
  "s2c_green_light_interrupted p s =
     (case performers s p of
        Wait_enter c \<Rightarrow>
          Some (goto p (Returned c Interrupted) (s\<lparr>s2cPerformSempahore := s2cPerformSempahore s + 1\<rparr>))
      | _ \<Rightarrow> None)"

definition s2c_send :: "nat \<Rightarrow> s2c_thread \<Rightarrow> s2c_thread option" where
  "s2c_send p s =
     (case performers s p of
        Sending c ui \<Rightarrow>
          if \<not> in_microthread c
          then Some (goto p (Returned c (Threw (Runtime_error ''Must be in a microthread'')))
                 (s\<lparr>s2cPerformSempahore := s2cPerformSempahore s + 1\<rparr>))
          else Some (goto p (Wait_reply c ui) (s\<lparr>requests := requests s @ [(p, c)]\<rparr>))
      | _ \<Rightarrow> None)"

definition s2c_reply_ready :: "nat \<Rightarrow> s2c_thread \<Rightarrow> s2c_thread option" where
  "s2c_reply_ready p s =
     (case performers s p of
        Wait_reply c ui \<Rightarrow>
          if s2cReplySempahore s = 0 then None
          else Some (goto p (Extracting c ui) (s\<lparr>s2cReplySempahore := s2cReplySempahore s - 1\<rparr>))
      | _ \<Rightarrow> None)"

definition s2c_reply_interrupted :: "nat \<Rightarrow> s2c_thread \<Rightarrow> s2c_thread option" where
  "s2c_reply_interrupted p s =
     (case performers s p of
        Wait_reply c ui \<Rightarrow>
          Some (goto p (Returned c Interrupted) (s\<lparr>s2cPerformSempahore := s2cPerformSempahore s + 1\<rparr>))
      | _ \<Rightarrow> None)"

text \<open>The second locked section: take the reply and send a reply that was deferred.\<close>

definition s2c_extract :: "nat \<Rightarrow> s2c_thread \<Rightarrow> s2c_thread option" where
  "s2c_extract p s =
     (case performers s p of
        Extracting c ui \<Rightarrow>
          (case s2cReply s of
             None \<Rightarrow>
               Some (goto p (Returned c (Threw (Runtime_error ''no reply present'')))
                 (s\<lparr>s2cPerformSempahore := s2cPerformSempahore s + 1\<rparr>))
           | Some r \<Rightarrow>
               (let s = s\<lparr>s2cReply := None\<rparr>;
                    s = (if deferReplyForS2C s
                         then (case deferredReply s of
                                 None \<Rightarrow> s\<lparr>deferReplyForS2C := False\<rparr>
                               | Some m \<Rightarrow> s\<lparr>deferReplyForS2C := False,
                                             call_replies := call_replies s @ [m],
                                             deferredReply := None\<rparr>)
                         else s) in
                Some (goto p (Finishing c ui r) s)))
      | _ \<Rightarrow> None)"

definition validate_reply :: "s2c_call \<Rightarrow> s2c_reply \<Rightarrow> s2c_outcome" where
  "validate_reply c r =
     (if reply_size r \<noteq> expectedReplySize c
      then Threw (Runtime_error ''Invalid S2C reply: unxpected size'')
      else if s2c_number r \<noteq> expectedReplyNumber c
      then Threw (Runtime_error ''Invalid S2C reply: unexpected S2C reply number'')
      else Reply r)"

definition s2c_finish :: "nat \<Rightarrow> s2c_thread \<Rightarrow> s2c_thread option" where
  "s2c_finish p s =
     (case performers s p of
        Finishing c ui r \<Rightarrow>
          (let s = s\<lparr>s2cPerformSempahore := s2cPerformSempahore s + 1\<rparr>;
               s = (if ui then s\<lparr>s2cInterruptExitSemaphore := s2cInterruptExitSemaphore s + 1\<rparr>
                    else s) in
           Some (goto p (Returned c (validate_reply c r)) s))
      | _ \<Rightarrow> None)"

section \<open>The other side\<close>

text \<open>
  \<open>Call::S2CPerform::processCall\<close>, which the client calls from its handler of the S2C signal:
  it gives the green light and waits to be let go.
\<close>

definition S2CPerform_begin :: "s2c_thread \<Rightarrow> s2c_thread option" where
  "S2CPerform_begin s =
     (if signals s = 0 then None
      else Some (s\<lparr>signals := signals s - 1, in_handler := in_handler s + 1,
                   s2cInterruptEnterSemaphore := s2cInterruptEnterSemaphore s + 1\<rparr>))"

definition S2CPerform_end :: "s2c_thread \<Rightarrow> s2c_thread option" where
  "S2CPerform_end s =
     (if in_handler s = 0 \<or> s2cInterruptExitSemaphore s = 0 then None
      else Some (s\<lparr>in_handler := in_handler s - 1,
                   s2cInterruptExitSemaphore := s2cInterruptExitSemaphore s - 1\<rparr>))"

text \<open>
  The S2C branch of \<open>Call::callFromMessage\<close>, which refuses a reply while another one is waiting.
\<close>

definition receive_s2c_reply :: "s2c_reply \<Rightarrow> s2c_thread \<Rightarrow> s2c_thread result" where
  "receive_s2c_reply r s =
     (case s2cReply s of
        Some _ \<Rightarrow> Inl (Runtime_error ''Received S2C reply but thread already had one pending'')
      | None \<Rightarrow> Inr (s\<lparr>s2cReply := Some r, s2cReplySempahore := s2cReplySempahore s + 1\<rparr>))"

text \<open>The client answers the oldest request with a reply of the number and size that go with it.\<close>

definition client_answer :: "s2c_thread \<Rightarrow> s2c_thread option" where
  "client_answer s =
     (case requests s of
        [] \<Rightarrow> None
      | (p, c) # rs \<Rightarrow>
          (let s = s\<lparr>requests := rs\<rparr> in
           case receive_s2c_reply \<lparr>s2c_number = expectedReplyNumber c,
                                   reply_size = expectedReplySize c, answers = p\<rparr> s of
             Inl _ \<Rightarrow> Some s
           | Inr s' \<Rightarrow> Some s'))"

text \<open>
  The part of \<open>Thread::pushCallReply\<close> that concerns S2C calls: the reply of an ordinary call is
  kept back while a call of another thread is being performed.
\<close>

definition pushCallReply_s2c :: "nat \<Rightarrow> s2c_thread \<Rightarrow> s2c_thread option" where
  "pushCallReply_s2c m s =
     Some (if deferReplyForS2C s then s\<lparr>deferredReply := Some m\<rparr>
           else s\<lparr>call_replies := call_replies s @ [m]\<rparr>)"

inductive s2c_step :: "s2c_thread \<Rightarrow> s2c_thread \<Rightarrow> bool" where
  step_enter: "s2c_enter p s = Some s' \<Longrightarrow> s2c_step s s'"
| step_enter_interrupted: "s2c_enter_interrupted p s = Some s' \<Longrightarrow> s2c_step s s'"
| step_prepare: "s2c_prepare active (sendSignal False True None) p s = Some s' \<Longrightarrow> s2c_step s s'"
| step_green_light: "s2c_green_light p s = Some s' \<Longrightarrow> s2c_step s s'"
| step_send: "s2c_send p s = Some s' \<Longrightarrow> s2c_step s s'"
| step_reply_ready: "s2c_reply_ready p s = Some s' \<Longrightarrow> s2c_step s s'"
| step_extract: "s2c_extract p s = Some s' \<Longrightarrow> s2c_step s s'"
| step_finish: "s2c_finish p s = Some s' \<Longrightarrow> s2c_step s s'"
| step_S2CPerform_begin: "S2CPerform_begin s = Some s' \<Longrightarrow> s2c_step s s'"
| step_S2CPerform_end: "S2CPerform_end s = Some s' \<Longrightarrow> s2c_step s s'"
| step_client_answer: "client_answer s = Some s' \<Longrightarrow> s2c_step s s'"
| step_pushCallReply: "pushCallReply_s2c m s = Some s' \<Longrightarrow> s2c_step s s'"

text \<open>
  The steps with the failures that happen while a call is being performed: a signal that
  cannot be sent, and an interruption of the wait for the green light or for the reply.
\<close>

inductive s2c_step_intr :: "s2c_thread \<Rightarrow> s2c_thread \<Rightarrow> bool" where
  intr_normal: "s2c_step s s' \<Longrightarrow> s2c_step_intr s s'"
| intr_signal: "s2c_prepare active (sendSignal dead has err) p s = Some s' \<Longrightarrow> s2c_step_intr s s'"
| intr_green_light: "s2c_green_light_interrupted p s = Some s' \<Longrightarrow> s2c_step_intr s s'"
| intr_reply: "s2c_reply_interrupted p s = Some s' \<Longrightarrow> s2c_step_intr s s'"

section \<open>Invariant of runs without interruption\<close>

fun idle :: "s2c_pc \<Rightarrow> bool" where
  "idle (At_entry _) = True"
| "idle (Returned _ _) = True"
| "idle _ = False"

fun pc_call :: "s2c_pc \<Rightarrow> s2c_call" where
  "pc_call (At_entry c) = c"
| "pc_call (Performing c) = c"
| "pc_call (Wait_enter c) = c"
| "pc_call (Sending c _) = c"
| "pc_call (Wait_reply c _) = c"
| "pc_call (Extracting c _) = c"
| "pc_call (Finishing c _ _) = c"
| "pc_call (Returned c _) = c"

definition own_reply :: "nat \<Rightarrow> s2c_call \<Rightarrow> s2c_reply \<Rightarrow> bool" where
  "own_reply p c r \<longleftrightarrow> answers r = p \<and> s2c_number r = expectedReplyNumber c
     \<and> reply_size r = expectedReplySize c"

definition no_reply :: "s2c_thread \<Rightarrow> bool" where
  "no_reply s \<longleftrightarrow> requests s = [] \<and> s2cReplySempahore s = 0 \<and> s2cReply s = None"

definition handlers :: "nat \<Rightarrow> nat \<Rightarrow> s2c_thread \<Rightarrow> bool" where
  "handlers sigs held s \<longleftrightarrow>
     signals s + s2cInterruptEnterSemaphore s = sigs
     \<and> in_handler s = s2cInterruptExitSemaphore s + s2cInterruptEnterSemaphore s + held"

text \<open>What holds while performer \<open>p\<close> is inside, by its program point.\<close>

fun inside_ok :: "nat \<Rightarrow> s2c_thread \<Rightarrow> s2c_pc \<Rightarrow> bool" where
  "inside_ok p s (Performing c) \<longleftrightarrow> no_reply s \<and> handlers 0 0 s \<and> \<not> deferReplyForS2C s"
| "inside_ok p s (Wait_enter c) \<longleftrightarrow> no_reply s \<and> handlers 1 0 s \<and> \<not> deferReplyForS2C s"
| "inside_ok p s (Sending c ui) \<longleftrightarrow> no_reply s \<and> handlers 0 (of_bool ui) s"
| "inside_ok p s (Wait_reply c ui) \<longleftrightarrow> handlers 0 (of_bool ui) s \<and>
     (requests s = [(p, c)] \<and> s2cReplySempahore s = 0 \<and> s2cReply s = None
      \<or> requests s = [] \<and> s2cReplySempahore s = 1
        \<and> (\<exists>r. s2cReply s = Some r \<and> own_reply p c r))"
| "inside_ok p s (Extracting c ui) \<longleftrightarrow> handlers 0 (of_bool ui) s \<and> requests s = []
     \<and> s2cReplySempahore s = 0 \<and> (\<exists>r. s2cReply s = Some r \<and> own_reply p c r)"
| "inside_ok p s (Finishing c ui r) \<longleftrightarrow> no_reply s \<and> handlers 0 (of_bool ui) s
     \<and> \<not> deferReplyForS2C s \<and> own_reply p c r"
| "inside_ok p s _ \<longleftrightarrow> False"

definition quiet :: "s2c_thread \<Rightarrow> bool" where
  "quiet s \<longleftrightarrow> s2cPerformSempahore s = 1 \<and> (\<forall>p. idle (performers s p)) \<and> no_reply s
     \<and> handlers 0 0 s \<and> \<not> deferReplyForS2C s"

definition busy :: "nat \<Rightarrow> s2c_thread \<Rightarrow> bool" where
  "busy p s \<longleftrightarrow> s2cPerformSempahore s = 0 \<and> (\<forall>q. q \<noteq> p \<longrightarrow> idle (performers s q))
     \<and> inside_ok p s (performers s p)"

definition outcome_ok :: "nat \<Rightarrow> s2c_pc \<Rightarrow> bool" where
  "outcome_ok p pc \<longleftrightarrow>
     (\<forall>c out. pc = Returned c out \<longrightarrow> out = Interrupted \<or> (\<exists>r. out = Reply r \<and> own_reply p c r))"

definition s2c_ok :: "(nat \<Rightarrow> s2c_call) \<Rightarrow> s2c_thread \<Rightarrow> bool" where
  "s2c_ok calls s \<longleftrightarrow>
     (\<forall>p. pc_call (performers s p) = calls p \<and> outcome_ok p (performers s p))
     \<and> (deferredReply s \<noteq> None \<longrightarrow> deferReplyForS2C s)
     \<and> (quiet s \<or> (\<exists>p. busy p s))"

lemma s2c_okI:
  assumes "\<And>p. pc_call (performers s p) = calls p" and "\<And>p. outcome_ok p (performers s p)"
    and "deferredReply s \<noteq> None \<Longrightarrow> deferReplyForS2C s" and "quiet s \<or> (\<exists>p. busy p s)"
  shows "s2c_ok calls s"
  using assms by (simp add: s2c_ok_def)

lemma own_reply_validates: "own_reply p c r \<Longrightarrow> validate_reply c r = Reply r"
  by (simp add: own_reply_def validate_reply_def)

text \<open>A step of a performer that is inside is a step of the only one that is.\<close>

lemma busy_of_inside:
  assumes "s2c_ok calls s" and "\<not> idle (performers s p)"
  shows "busy p s"
proof -
  from assms obtain q where q: "busy q s"
    by (auto simp: s2c_ok_def quiet_def)
  with assms(2) have "q = p"
    by (auto simp: busy_def)
  with q show ?thesis by simp
qed

lemma s2c_ok_goto:
  assumes "s2c_ok calls s" and "pc_call pc = calls p" and "outcome_ok p pc"
    and "performers s' = (performers s)(p := pc)"
    and "deferredReply s' \<noteq> None \<Longrightarrow> deferReplyForS2C s'" and "quiet s' \<or> (\<exists>q. busy q s')"
  shows "s2c_ok calls s'"
  using assms by (intro s2c_okI) (auto simp: s2c_ok_def)

lemmas s2c_state_defs = no_reply_def handlers_def goto_def outcome_ok_def

lemma s2c_ok_call: "s2c_ok calls s \<Longrightarrow> pc_call (performers s p) = calls p"
  by (simp add: s2c_ok_def)

lemma s2c_ok_deferred: "s2c_ok calls s \<Longrightarrow> deferredReply s \<noteq> None \<Longrightarrow> deferReplyForS2C s"
  by (simp add: s2c_ok_def)

lemma s2c_ok_inside:
  assumes "s2c_ok calls s" and "\<not> idle (performers s p)"
  shows "s2cPerformSempahore s = 0" "inside_ok p s (performers s p)"
  using busy_of_inside [OF assms] by (simp_all add: busy_def)

text \<open>
  The step of the performer inside: it stays inside, in a state that fits its next program
  point, or leaves and everything is quiet again.
\<close>

lemma s2c_ok_inside_step:
  assumes ok: "s2c_ok calls s" and inside: "\<not> idle (performers s p)"
    and s': "performers s' = (performers s)(p := pc)"
    and c: "pc_call pc = pc_call (performers s p)" and out: "outcome_ok p pc"
    and dfr: "deferredReply s' \<noteq> None \<Longrightarrow> deferReplyForS2C s'"
    and stay: "\<not> idle pc \<Longrightarrow> s2cPerformSempahore s' = 0 \<and> inside_ok p s' pc"
    and leave: "idle pc \<Longrightarrow> s2cPerformSempahore s' = 1 \<and> no_reply s' \<and> handlers 0 0 s'
      \<and> \<not> deferReplyForS2C s'"
  shows "s2c_ok calls s'"
proof (rule s2c_ok_goto [OF ok _ out s' dfr])
  show "pc_call pc = calls p"
    using c s2c_ok_call [OF ok] by simp
  have "\<forall>q. q \<noteq> p \<longrightarrow> idle (performers s q)"
    using busy_of_inside [OF ok inside] by (simp add: busy_def)
  then show "quiet s' \<or> (\<exists>q. busy q s')"
    using s' stay leave by (cases "idle pc") (auto simp: quiet_def busy_def)
qed

lemma s2c_enter_ok:
  assumes ok: "s2c_ok calls s" and step: "s2c_enter p s = Some s'"
  shows "s2c_ok calls s'"
proof -
  obtain c where pc: "performers s p = At_entry c" and sem: "s2cPerformSempahore s \<noteq> 0"
    and s': "s' = goto p (Performing c) (s\<lparr>s2cPerformSempahore := s2cPerformSempahore s - 1\<rparr>)"
    using step by (auto simp: s2c_enter_def split: s2c_pc.splits if_splits)
  from ok sem have "quiet s" by (auto simp: s2c_ok_def busy_def)
  then have "busy p s'"
    by (simp add: s' quiet_def busy_def s2c_state_defs)
  then show ?thesis
    using s2c_ok_call [OF ok, of p] s2c_ok_deferred [OF ok] pc
    by (intro s2c_ok_goto [OF ok, of "Performing c" p]) (auto simp: s' s2c_state_defs)
qed

lemma s2c_enter_interrupted_ok:
  assumes ok: "s2c_ok calls s" and step: "s2c_enter_interrupted p s = Some s'"
  shows "s2c_ok calls s'"
proof -
  obtain c where pc: "performers s p = At_entry c" and s': "s' = goto p (Returned c Interrupted) s"
    using step by (auto simp: s2c_enter_interrupted_def split: s2c_pc.splits if_splits)
  from ok consider "quiet s" | q where "busy q s" by (auto simp: s2c_ok_def)
  then have "quiet s' \<or> (\<exists>q. busy q s')"
  proof cases
    case 1
    then show ?thesis by (auto simp: s' quiet_def s2c_state_defs)
  next
    case 2
    then have "q \<noteq> p" using pc by (auto simp: busy_def)
    then have "inside_ok q s' (performers s q) = inside_ok q s (performers s q)"
      by (cases "performers s q") (simp_all add: s' s2c_state_defs)
    then have "busy q s'" using 2 \<open>q \<noteq> p\<close> by (simp add: busy_def s' goto_def)
    then show ?thesis by blast
  qed
  then show ?thesis
    using s2c_ok_call [OF ok, of p] s2c_ok_deferred [OF ok] pc
    by (intro s2c_ok_goto [OF ok, of "Returned c Interrupted" p]) (auto simp: s' s2c_state_defs)
qed

lemma s2c_prepare_ok:
  assumes ok: "s2c_ok calls s" and step: "s2c_prepare a (sendSignal False True None) p s = Some s'"
  shows "s2c_ok calls s'"
proof -
  obtain c where pc: "performers s p = Performing c"
    using step by (auto simp: s2c_prepare_def split: s2c_pc.splits)
  note inside = s2c_ok_inside [OF ok, of p] s2c_ok_deferred [OF ok]
  show ?thesis
    using step pc inside
    by (intro s2c_ok_inside_step [OF ok, of p _ "performers s' p"])
       (auto simp: s2c_prepare_def sendSignal_def s2c_state_defs split: if_splits)
qed

lemma s2c_green_light_ok:
  assumes ok: "s2c_ok calls s" and step: "s2c_green_light p s = Some s'"
  shows "s2c_ok calls s'"
proof -
  obtain c where pc: "performers s p = Wait_enter c"
    using step by (auto simp: s2c_green_light_def split: s2c_pc.splits)
  show ?thesis
    using step pc s2c_ok_inside [OF ok, of p] s2c_ok_deferred [OF ok]
    by (intro s2c_ok_inside_step [OF ok, of p _ "performers s' p"])
       (auto simp: s2c_green_light_def s2c_state_defs split: if_splits)
qed

lemma s2c_send_ok:
  assumes ok: "s2c_ok calls s" and micro: "in_microthread (calls p)"
    and step: "s2c_send p s = Some s'"
  shows "s2c_ok calls s'"
proof -
  obtain c ui where pc: "performers s p = Sending c ui"
    using step by (auto simp: s2c_send_def split: s2c_pc.splits)
  show ?thesis
    using step pc s2c_ok_inside [OF ok, of p] s2c_ok_deferred [OF ok] s2c_ok_call [OF ok, of p] micro
    by (intro s2c_ok_inside_step [OF ok, of p _ "performers s' p"])
       (auto simp: s2c_send_def s2c_state_defs split: if_splits)
qed

lemma s2c_reply_ready_ok:
  assumes ok: "s2c_ok calls s" and step: "s2c_reply_ready p s = Some s'"
  shows "s2c_ok calls s'"
proof -
  obtain c ui where pc: "performers s p = Wait_reply c ui"
    using step by (auto simp: s2c_reply_ready_def split: s2c_pc.splits)
  show ?thesis
    using step pc s2c_ok_inside [OF ok, of p] s2c_ok_deferred [OF ok]
    by (intro s2c_ok_inside_step [OF ok, of p _ "performers s' p"])
       (auto simp: s2c_reply_ready_def s2c_state_defs split: if_splits)
qed

lemma s2c_extract_ok:
  assumes ok: "s2c_ok calls s" and step: "s2c_extract p s = Some s'"
  shows "s2c_ok calls s'"
proof -
  obtain c ui where pc: "performers s p = Extracting c ui"
    using step by (auto simp: s2c_extract_def split: s2c_pc.splits)
  show ?thesis
    using step pc s2c_ok_inside [OF ok, of p] s2c_ok_deferred [OF ok]
    by (intro s2c_ok_inside_step [OF ok, of p _ "performers s' p"])
       (auto simp: s2c_extract_def s2c_state_defs Let_def split: if_splits option.splits)
qed

lemma s2c_finish_ok:
  assumes ok: "s2c_ok calls s" and step: "s2c_finish p s = Some s'"
  shows "s2c_ok calls s'"
proof -
  obtain c ui r where pc: "performers s p = Finishing c ui r"
    using step by (auto simp: s2c_finish_def split: s2c_pc.splits)
  show ?thesis
    using step pc s2c_ok_inside [OF ok, of p] s2c_ok_deferred [OF ok]
    by (intro s2c_ok_inside_step [OF ok, of p _ "performers s' p"])
       (auto simp: s2c_finish_def s2c_state_defs Let_def own_reply_validates split: if_splits)
qed

text \<open>Steps that leave the program points alone only have to keep the counts right.\<close>

lemma s2c_ok_other_step:
  assumes ok: "s2c_ok calls s" and same: "performers s' = performers s"
      "s2cPerformSempahore s' = s2cPerformSempahore s"
    and dfr: "deferredReply s' \<noteq> None \<Longrightarrow> deferReplyForS2C s'"
    and quiet: "quiet s \<Longrightarrow> no_reply s' \<and> handlers 0 0 s' \<and> \<not> deferReplyForS2C s'"
    and inside: "\<And>p. inside_ok p s (performers s p) \<Longrightarrow> inside_ok p s' (performers s p)"
  shows "s2c_ok calls s'"
proof (rule s2c_okI)
  from ok consider "quiet s" | p where "busy p s" by (auto simp: s2c_ok_def)
  then show "quiet s' \<or> (\<exists>p. busy p s')"
    by cases (use same quiet inside in \<open>auto simp: quiet_def busy_def\<close>)
qed (use ok same dfr in \<open>auto simp: s2c_ok_def\<close>)

lemma S2CPerform_begin_ok:
  assumes ok: "s2c_ok calls s" and step: "S2CPerform_begin s = Some s'"
  shows "s2c_ok calls s'"
proof -
  have s': "signals s \<noteq> 0" "s' = s\<lparr>signals := signals s - 1, in_handler := in_handler s + 1,
      s2cInterruptEnterSemaphore := s2cInterruptEnterSemaphore s + 1\<rparr>"
    using step by (auto simp: S2CPerform_begin_def split: if_splits)
  show ?thesis
  proof (rule s2c_ok_other_step [OF ok])
    show "inside_ok p s' (performers s p)" if "inside_ok p s (performers s p)" for p
      using that s' by (cases "performers s p") (auto simp: s2c_state_defs)
  qed (use s' s2c_ok_deferred [OF ok] in \<open>auto simp: quiet_def s2c_state_defs\<close>)
qed

lemma S2CPerform_end_ok:
  assumes ok: "s2c_ok calls s" and step: "S2CPerform_end s = Some s'"
  shows "s2c_ok calls s'"
proof -
  have s': "s2cInterruptExitSemaphore s \<noteq> 0" "s' = s\<lparr>in_handler := in_handler s - 1,
      s2cInterruptExitSemaphore := s2cInterruptExitSemaphore s - 1\<rparr>"
    using step by (auto simp: S2CPerform_end_def split: if_splits)
  show ?thesis
  proof (rule s2c_ok_other_step [OF ok])
    show "inside_ok p s' (performers s p)" if "inside_ok p s (performers s p)" for p
      using that s' by (cases "performers s p") (auto simp: s2c_state_defs)
  qed (use s' s2c_ok_deferred [OF ok] in \<open>auto simp: quiet_def s2c_state_defs\<close>)
qed

lemma client_answer_ok:
  assumes ok: "s2c_ok calls s" and step: "client_answer s = Some s'"
  shows "s2c_ok calls s'"
proof -
  obtain p c rs where rs: "requests s = (p, c) # rs"
    using step by (auto simp: client_answer_def split: list.splits)
  let ?r = "\<lparr>s2c_number = expectedReplyNumber c, reply_size = expectedReplySize c, answers = p\<rparr>"
  show ?thesis
  proof (rule s2c_ok_other_step [OF ok])
    show "inside_ok q s' (performers s q)" if "inside_ok q s (performers s q)" for q
      using that step rs
      by (cases "performers s q")
         (auto simp: client_answer_def receive_s2c_reply_def Let_def s2c_state_defs own_reply_def)
  qed (use step rs s2c_ok_deferred [OF ok] in \<open>auto simp: quiet_def client_answer_def
      receive_s2c_reply_def Let_def s2c_state_defs split: option.splits\<close>)
qed

lemma pushCallReply_ok:
  assumes ok: "s2c_ok calls s" and step: "pushCallReply_s2c m s = Some s'"
  shows "s2c_ok calls s'"
proof (rule s2c_ok_other_step [OF ok])
  show "inside_ok p s' (performers s p)" if "inside_ok p s (performers s p)" for p
    using that step
    by (cases "performers s p") (auto simp: pushCallReply_s2c_def s2c_state_defs split: if_splits)
qed (use step s2c_ok_deferred [OF ok] in \<open>auto simp: quiet_def pushCallReply_s2c_def s2c_state_defs
    split: if_splits\<close>)

lemmas s2c_steps_ok = s2c_enter_ok s2c_enter_interrupted_ok s2c_prepare_ok s2c_green_light_ok
  s2c_reply_ready_ok s2c_extract_ok s2c_finish_ok S2CPerform_begin_ok S2CPerform_end_ok
  client_answer_ok pushCallReply_ok

lemma s2c_step_ok:
  assumes "\<And>p. in_microthread (calls p)" and "s2c_ok calls s" and "s2c_step s s'"
  shows "s2c_ok calls s'"
  using assms(3)
  by cases (erule s2c_steps_ok [OF assms(2)] s2c_send_ok [OF assms(2) assms(1)])+

definition s2c_start :: "s2c_thread \<Rightarrow> bool" where
  "s2c_start s \<longleftrightarrow> (\<exists>calls. (\<forall>p. in_microthread (calls p)) \<and> s = Thread_s2c_init calls)"

definition s2c_inv :: "s2c_thread \<Rightarrow> bool" where
  "s2c_inv s \<longleftrightarrow> (\<exists>calls. (\<forall>p. in_microthread (calls p)) \<and> s2c_ok calls s)"

lemma s2c_init_ok: "s2c_ok calls (Thread_s2c_init calls)"
  by (intro s2c_okI) (simp_all add: Thread_s2c_init_def quiet_def s2c_state_defs)

interpretation s2c: inductive_invariant s2c_start s2c_step s2c_inv
proof
  show "s2c_start s \<Longrightarrow> s2c_inv s" for s
    using s2c_init_ok by (auto simp: s2c_start_def s2c_inv_def)
  show "s2c_step s t \<Longrightarrow> s2c_inv s \<Longrightarrow> s2c_inv t" for s t
    using s2c_step_ok unfolding s2c_inv_def by blast
qed

lemma s2c_inv_busy:
  assumes "s2c_inv s" and "\<not> idle (performers s p)"
  shows "busy p s"
  using assms busy_of_inside by (auto simp: s2c_inv_def)

lemma s2c_inv_outcome:
  assumes "s2c_inv s" and "performers s p = Returned c out"
  shows "out = Interrupted \<or> (\<exists>r. out = Reply r \<and> own_reply p c r)"
proof -
  from assms(1) have "outcome_ok p (performers s p)"
    by (auto simp: s2c_inv_def s2c_ok_def)
  then show ?thesis
    by (simp add: outcome_ok_def assms(2))
qed

lemma inside_ok_not_idle: "inside_ok p s pc \<Longrightarrow> \<not> idle pc"
  by (cases pc) simp_all

lemma s2c_inv_quiet:
  assumes "s2c_inv s" and "\<forall>p. idle (performers s p)"
  shows "quiet s \<and> deferredReply s = None"
proof -
  have "\<not> busy p s" for p
    using assms(2) inside_ok_not_idle by (auto simp: busy_def)
  then show ?thesis
    using assms(1) by (auto simp: s2c_inv_def s2c_ok_def quiet_def)
qed

lemma s2c_inv_slot:
  assumes "s2c_inv s" and "requests s \<noteq> []"
  shows "s2cReply s = None"
proof -
  from assms(1) consider "quiet s" | p where "busy p s" by (auto simp: s2c_inv_def s2c_ok_def)
  then show ?thesis
  proof cases
    case 1
    then show ?thesis by (simp add: quiet_def no_reply_def)
  next
    case 2
    then show ?thesis
      using assms(2) by (cases "performers s p") (auto simp: busy_def no_reply_def)
  qed
qed

text \<open>C2: In every interleaving in which no wait for the green light or for the reply is
  interrupted, S2C calls on a thread exclude each other, and each caller that returns was
  either interrupted before it started or gets the reply of the client to its own call, with
  the number and size it expects. A reply of the client always finds the slot free. When no
  call is being performed, every \<open>s2c_perform\<close> call of the client has been let go, and no
  ordinary reply is held back.
\<close>

theorem s2c_replies_match:
  assumes "reach s2c_start s2c_step s"
  shows "(\<forall>p c out. performers s p = Returned c out \<longrightarrow> out = Interrupted
           \<or> (\<exists>r. out = Reply r \<and> answers r = p \<and> s2c_number r = expectedReplyNumber c
                \<and> reply_size r = expectedReplySize c))
    \<and> (\<forall>p q. \<not> idle (performers s p) \<and> \<not> idle (performers s q) \<longrightarrow> p = q)
    \<and> (requests s \<noteq> [] \<longrightarrow> s2cReply s = None)
    \<and> ((\<forall>p. idle (performers s p)) \<longrightarrow>
         s2cPerformSempahore s = 1 \<and> in_handler s = s2cInterruptExitSemaphore s
         \<and> signals s = 0 \<and> deferredReply s = None)"
proof -
  have inv: "s2c_inv s"
    using assms by (rule s2c.holds_when_reached)
  have one: "p = q" if "\<not> idle (performers s p)" "\<not> idle (performers s q)" for p q
    using s2c_inv_busy [OF inv that(1)] that(2) by (auto simp: busy_def)
  have out: "out = Interrupted \<or> (\<exists>r. out = Reply r \<and> answers r = p
      \<and> s2c_number r = expectedReplyNumber c \<and> reply_size r = expectedReplySize c)"
    if "performers s p = Returned c out" for p c out
    using s2c_inv_outcome [OF inv that] by (simp add: own_reply_def)
  have free: "s2cPerformSempahore s = 1 \<and> in_handler s = s2cInterruptExitSemaphore s
      \<and> signals s = 0 \<and> deferredReply s = None" if "\<forall>p. idle (performers s p)"
    using s2c_inv_quiet [OF inv that] by (simp add: quiet_def handlers_def)
  show ?thesis
    using out one free s2c_inv_slot [OF inv] by (intro conjI) (rule allI impI; blast)+
qed

section \<open>Runs as lists of operations\<close>

fun run_ops :: "(s2c_thread \<Rightarrow> s2c_thread option) list \<Rightarrow> s2c_thread \<Rightarrow> s2c_thread option" where
  "run_ops [] s = Some s"
| "run_ops (f # fs) s = (case f s of None \<Rightarrow> None | Some s' \<Rightarrow> run_ops fs s')"

lemma run_ops_reach:
  assumes "run_ops fs s = Some t" and "reach init step s"
    and "\<forall>f \<in> set fs. \<forall>s s'. f s = Some s' \<longrightarrow> step s s'"
  shows "reach init step t"
  using assms
proof (induction fs arbitrary: s)
  case (Cons f fs)
  then obtain s' where s': "f s = Some s'" "run_ops fs s' = Some t"
    by (auto split: option.splits)
  then have "reach init step s'"
    using Cons.prems(2,3) reach_next [of init step s s'] by simp
  then show ?case
    using Cons.IH [OF s'(2)] Cons.prems(3) by simp
qed simp

definition sample_call :: s2c_call where
  "sample_call = \<lparr>expectedReplyNumber = S2C_mmap, expectedReplySize = 40, by_self = False,
     in_microthread = True\<rparr>"

definition sample_start :: s2c_thread where
  "sample_start = Thread_s2c_init (\<lambda>_. sample_call)"

lemma sample_start_reached: "reach s2c_start step sample_start"
proof (rule reach_start)
  have "in_microthread sample_call"
    by (simp add: sample_call_def)
  then show "s2c_start sample_start"
    unfolding s2c_start_def sample_start_def by (intro exI [of _ "\<lambda>_. sample_call"]) simp
qed

lemmas s2c_eval = sample_start_def sample_call_def Thread_s2c_init_def goto_def s2c_enter_def
  s2c_prepare_def sendSignal_def s2c_green_light_def s2c_send_def s2c_reply_ready_def s2c_extract_def
  s2c_finish_def S2CPerform_begin_def S2CPerform_end_def client_answer_def receive_s2c_reply_def
  s2c_reply_interrupted_def validate_reply_def Let_def

definition undisturbed_run :: "(s2c_thread \<Rightarrow> s2c_thread option) list" where
  "undisturbed_run = [s2c_enter 0, s2c_prepare False (sendSignal False True None) 0,
     S2CPerform_begin, s2c_green_light 0, s2c_send 0, client_answer, s2c_reply_ready 0, s2c_extract 0, s2c_finish 0]"

theorem s2c_replies_match_witness:
  "\<exists>s out. reach s2c_start s2c_step s \<and> performers s 0 = Returned sample_call out
     \<and> (\<exists>r. out = Reply r \<and> answers r = 0)"
proof -
  obtain s where s: "run_ops undisturbed_run sample_start = Some s"
    and out: "\<exists>r. performers s 0 = Returned sample_call (Reply r)"
    by (simp add: undisturbed_run_def s2c_eval)
  have "reach s2c_start s2c_step s"
    using s by (rule run_ops_reach [OF _ sample_start_reached])
      (auto simp: undisturbed_run_def intro: s2c_step.intros)
  with out s2c_replies_match [OF this] show ?thesis
    by blast
qed

text \<open>C40: Failures while a call is being performed break this. A run of two \<open>mmap\<close> calls on
  one thread, the first of which used the S2C signal and was interrupted while it waited for
  the reply, reaches a state in which the second caller has returned the client's reply to the
  first call as its own, while its own request is still unanswered, and the client's
  \<open>s2c_perform\<close> call waits for a permit that nobody will give. When the signal cannot be sent,
  the caller returns without giving the perform semaphore back, and no later call can start.
\<close>

theorem s2c_failures_break_matching:
  "(\<exists>s r. reach s2c_start s2c_step_intr s
     \<and> performers s 0 = Returned sample_call Interrupted
     \<and> performers s 1 = Returned sample_call (Reply r) \<and> answers r = 0
     \<and> requests s = [(1, sample_call)]
     \<and> (\<forall>p. idle (performers s p)) \<and> in_handler s = 1 \<and> s2cInterruptExitSemaphore s = 0
     \<and> signals s = 0)
   \<and> (\<exists>s. reach s2c_start s2c_step_intr s \<and> (\<forall>p. idle (performers s p))
        \<and> (\<forall>p. s2c_enter p s = None))"
proof (rule conjI)
  let ?run = "[s2c_enter 0, s2c_prepare False (sendSignal False True None) 0, S2CPerform_begin,
     s2c_green_light 0, s2c_send 0, s2c_reply_interrupted 0, s2c_enter 1,
     s2c_prepare True (sendSignal False True None) 1, s2c_send 1, client_answer,
     s2c_reply_ready 1, s2c_extract 1, s2c_finish 1]"
  obtain s where s: "run_ops ?run sample_start = Some s"
    and end_state: "performers s 0 = Returned sample_call Interrupted"
      "\<exists>r. performers s 1 = Returned sample_call (Reply r) \<and> answers r = 0"
      "requests s = [(1, sample_call)]" "\<forall>p. idle (performers s p)"
      "in_handler s = 1" "s2cInterruptExitSemaphore s = 0" "signals s = 0"
    by (simp add: s2c_eval)
  have "reach s2c_start s2c_step_intr s"
    using s by (rule run_ops_reach [OF _ sample_start_reached])
      (auto intro: s2c_step_intr.intros s2c_step.intros)
  with end_state show "\<exists>s r. reach s2c_start s2c_step_intr s
     \<and> performers s 0 = Returned sample_call Interrupted
     \<and> performers s 1 = Returned sample_call (Reply r) \<and> answers r = 0
     \<and> requests s = [(1, sample_call)]
     \<and> (\<forall>p. idle (performers s p)) \<and> in_handler s = 1 \<and> s2cInterruptExitSemaphore s = 0
     \<and> signals s = 0"
    by blast
next
  let ?run = "[s2c_enter 0, s2c_prepare False (sendSignal False True (Some ESRCH)) 0]"
  obtain s where s: "run_ops ?run sample_start = Some s" and "\<forall>p. idle (performers s p)"
    and stuck: "\<forall>p. s2c_enter p s = None"
    by (simp add: s2c_eval)
  moreover have "reach s2c_start s2c_step_intr s"
    using s by (rule run_ops_reach [OF _ sample_start_reached])
      (auto intro: s2c_step_intr.intros s2c_step.intros)
  ultimately show "\<exists>s. reach s2c_start s2c_step_intr s \<and> (\<forall>p. idle (performers s p))
        \<and> (\<forall>p. s2c_enter p s = None)"
    by blast
qed

end
