(* ===== verification/TaskMemory.thy ===== *)
theory TaskMemory
  imports ProcMaps
begin

text \<open>
  Access to the memory of a managed process. \<open>Thread::_mmap\<close> and its siblings
  (src/src/thread.cpp) turn a request into a server-to-client call, \<open>Process\<close>
  (src/src/process.cpp) picks the thread that performs it and reads or writes memory directly
  with \<open>process_vm_readv\<close> and \<open>process_vm_writev\<close>, and the hooks of src/src/server.cpp turn
  exceptions into the error values the duct tape expects. What Linux and the client do is a
  record of functions over an abstract state of the machine; the page size is one of its
  members. Malformed replies make \<open>_s2cPerform\<close> throw, which is the subject of the theory of
  server-to-client calls and not repeated here.
\<close>

unbundle bit_operations_syntax

section \<open>The machine\<close>

abbreviation MAP_SHARED :: u32 where "MAP_SHARED \<equiv> 0x01"
abbreviation MAP_PRIVATE :: u32 where "MAP_PRIVATE \<equiv> 0x02"
abbreviation MAP_FIXED :: u32 where "MAP_FIXED \<equiv> 0x10"
abbreviation MAP_ANONYMOUS :: u32 where "MAP_ANONYMOUS \<equiv> 0x20"
abbreviation MAP_FIXED_NOREPLACE :: u32 where "MAP_FIXED_NOREPLACE \<equiv> 0x100000"
abbreviation MAP_FAILED :: u64 where "MAP_FAILED \<equiv> - 1"

text \<open>
  The body of an S2C call. The file of an \<open>mmap\<close> request travels as a descriptor of the
  message; the body holds its index, or -1.
\<close>

datatype s2c_request =
    Req_mmap (rq_address: u64) (rq_length: u64) (rq_protection: u32) (rq_flags: u32) (rq_fd: int)
      (rq_offset: u64) (rq_descriptors: "int list")
  | Req_munmap u64 u64
  | Req_mprotect u64 u64 u32
  | Req_msync u64 u64 u32

record s2c_answer =
  ans_address :: u64
  ans_return :: int
  ans_errno :: int

text \<open>
  \<open>client t rq\<close> performs the request on thread \<open>t\<close>; None is an interrupted call.
  \<open>vm_readv\<close> and \<open>vm_writev\<close> are the system calls on one remote area, with the error number on
  failure. \<open>self_read\<close> and \<open>self_write\<close> copy within the server. \<open>anon_mmap\<close> and
  \<open>self_munmap\<close> map and unmap pages of the server, \<open>malloc_ok\<close> is whether an allocation
  succeeds.
\<close>

record 'k host =
  page_size :: u64
  client :: "nat \<Rightarrow> s2c_request \<Rightarrow> 'k \<Rightarrow> s2c_answer option \<times> 'k"
  dup_fd :: "int \<Rightarrow> 'k \<Rightarrow> (int + int) \<times> 'k"
  vm_readv :: "nat \<Rightarrow> u64 \<Rightarrow> u64 \<Rightarrow> 'k \<Rightarrow> int + u8 list"
  vm_writev :: "nat \<Rightarrow> u64 \<Rightarrow> u8 list \<Rightarrow> 'k \<Rightarrow> int + 'k"
  self_read :: "u64 \<Rightarrow> u64 \<Rightarrow> 'k \<Rightarrow> u8 list"
  self_write :: "u64 \<Rightarrow> u8 list \<Rightarrow> 'k \<Rightarrow> 'k"
  anon_mmap :: "u64 \<Rightarrow> 'k \<Rightarrow> u64 \<times> 'k"
  self_munmap :: "u64 \<Rightarrow> u64 \<Rightarrow> 'k \<Rightarrow> bool \<times> 'k"
  malloc_ok :: "u64 \<Rightarrow> 'k \<Rightarrow> bool \<times> 'k"
  maps_file :: "nat \<Rightarrow> 'k \<Rightarrow> string"

section \<open>Thread: the S2C wrappers\<close>

definition Thread_mmap ::
  "'k host \<Rightarrow> nat \<Rightarrow> u64 \<Rightarrow> u64 \<Rightarrow> u32 \<Rightarrow> u32 \<Rightarrow> int \<Rightarrow> u64 \<Rightarrow> 'k \<Rightarrow> (u64 \<times> int) \<times> 'k" where
  "Thread_mmap h t addr len prot flags fd off k =
     (let (dupped, k) = (if fd \<ge> 0 then dup_fd h fd k else (Inr (-1), k)) in
      case dupped of
        Inl err \<Rightarrow> ((MAP_FAILED, err), k)
      | Inr dupfd \<Rightarrow>
          (case client h t (Req_mmap addr len prot flags (if fd < 0 then - 1 else 0) off
                              (if fd \<ge> 0 then [dupfd] else [])) k of
             (None, k) \<Rightarrow> ((MAP_FAILED, EINTR), k)
           | (Some reply, k) \<Rightarrow> ((ans_address reply, ans_errno reply), k)))"

definition Thread_munmap :: "'k host \<Rightarrow> nat \<Rightarrow> u64 \<Rightarrow> u64 \<Rightarrow> 'k \<Rightarrow> (int \<times> int) \<times> 'k" where
  "Thread_munmap h t addr len k =
     (case client h t (Req_munmap addr len) k of
        (None, k) \<Rightarrow> ((- 1, EINTR), k)
      | (Some reply, k) \<Rightarrow> ((ans_return reply, ans_errno reply), k))"

definition Thread_mprotect ::
  "'k host \<Rightarrow> nat \<Rightarrow> u64 \<Rightarrow> u64 \<Rightarrow> u32 \<Rightarrow> 'k \<Rightarrow> (int \<times> int) \<times> 'k" where
  "Thread_mprotect h t addr len prot k =
     (case client h t (Req_mprotect addr len prot) k of
        (None, k) \<Rightarrow> ((- 1, EINTR), k)
      | (Some reply, k) \<Rightarrow> ((ans_return reply, ans_errno reply), k))"

definition Thread_msync ::
  "'k host \<Rightarrow> nat \<Rightarrow> u64 \<Rightarrow> u64 \<Rightarrow> u32 \<Rightarrow> 'k \<Rightarrow> (int \<times> int) \<times> 'k" where
  "Thread_msync h t addr sz sync_flags k =
     (case client h t (Req_msync addr sz sync_flags) k of
        (None, k) \<Rightarrow> ((- 1, EINTR), k)
      | (Some reply, k) \<Rightarrow> ((ans_return reply, ans_errno reply), k))"

definition fixed_flags :: "bool \<Rightarrow> bool \<Rightarrow> u32" where
  "fixed_flags fixed overwrite =
     (if fixed \<and> overwrite then MAP_FIXED else if fixed then MAP_FIXED_NOREPLACE else 0)"

definition Thread_allocatePages ::
  "'k host \<Rightarrow> nat \<Rightarrow> u64 \<Rightarrow> u32 \<Rightarrow> u64 \<Rightarrow> bool \<Rightarrow> bool \<Rightarrow> 'k \<Rightarrow> u64 result \<times> 'k" where
  "Thread_allocatePages h t pages prot hint fixed overwrite k =
     (let flags = MAP_PRIVATE OR MAP_ANONYMOUS OR fixed_flags fixed overwrite;
          ((r, err), k) = Thread_mmap h t hint (pages * page_size h) prot flags (- 1) 0 k in
      if r = MAP_FAILED then (Inl (System_error err), k) else (Inr r, k))"

definition Thread_freePages :: "'k host \<Rightarrow> nat \<Rightarrow> u64 \<Rightarrow> u64 \<Rightarrow> 'k \<Rightarrow> unit result \<times> 'k" where
  "Thread_freePages h t addr pages k =
     (let ((r, err), k) = Thread_munmap h t addr (pages * page_size h) k in
      if r < 0 then (Inl (System_error err), k) else (Inr (), k))"

definition Thread_mapFile ::
  "'k host \<Rightarrow> nat \<Rightarrow> int \<Rightarrow> u64 \<Rightarrow> u32 \<Rightarrow> u64 \<Rightarrow> u64 \<Rightarrow> bool \<Rightarrow> bool \<Rightarrow> 'k \<Rightarrow> u64 result \<times> 'k" where
  "Thread_mapFile h t fd pages prot hint page_off fixed overwrite k =
     (let flags = MAP_SHARED OR fixed_flags fixed overwrite;
          ((r, err), k) = Thread_mmap h t hint (pages * page_size h) prot flags fd
             (page_off * page_size h) k in
      if r = MAP_FAILED then (Inl (System_error err), k) else (Inr r, k))"

definition Thread_changeProtection ::
  "'k host \<Rightarrow> nat \<Rightarrow> u64 \<Rightarrow> u64 \<Rightarrow> u32 \<Rightarrow> 'k \<Rightarrow> unit result \<times> 'k" where
  "Thread_changeProtection h t addr pages prot k =
     (let ((r, err), k) = Thread_mprotect h t addr (pages * page_size h) prot k in
      if r < 0 then (Inl (System_error err), k) else (Inr (), k))"

definition Thread_syncMemory ::
  "'k host \<Rightarrow> nat \<Rightarrow> u64 \<Rightarrow> u64 \<Rightarrow> u32 \<Rightarrow> 'k \<Rightarrow> unit result \<times> 'k" where
  "Thread_syncMemory h t addr sz sync_flags k =
     (let ((r, err), k) = Thread_msync h t addr sz sync_flags k in
      if r < 0 then (Inl (System_error err), k) else (Inr (), k))"

section \<open>Process\<close>

text \<open>
  The members of \<open>Process\<close> these operations read: whether it is dead, its identifier, the
  current thread if this is the current process, and its threads in the order of the map, an
  expired weak pointer being None.
\<close>

record process =
  proc_id :: nat
  proc_dead :: bool
  proc_current :: "nat option"
  proc_threads :: "nat option list"

fun first_live :: "nat option list \<Rightarrow> nat option" where
  "first_live [] = None"
| "first_live (None # ts) = first_live ts"
| "first_live (Some t # ts) = Some t"

definition pickS2CThread :: "process \<Rightarrow> nat option" where
  "pickS2CThread p =
     (if proc_dead p then None
      else case proc_current p of Some t \<Rightarrow> Some t | None \<Rightarrow> first_live (proc_threads p))"

definition with_thread ::
  "process \<Rightarrow> (nat \<Rightarrow> 'k \<Rightarrow> 'a result \<times> 'k) \<Rightarrow> 'k \<Rightarrow> 'a result \<times> 'k" where
  "with_thread p f k =
     (case pickS2CThread p of None \<Rightarrow> (Inl (System_error ESRCH), k) | Some t \<Rightarrow> f t k)"

definition Process_allocatePages ::
  "'k host \<Rightarrow> process \<Rightarrow> u64 \<Rightarrow> u32 \<Rightarrow> u64 \<Rightarrow> bool \<Rightarrow> bool \<Rightarrow> 'k \<Rightarrow> u64 result \<times> 'k" where
  "Process_allocatePages h p pages prot hint fixed overwrite =
     with_thread p (\<lambda>t. Thread_allocatePages h t pages prot hint fixed overwrite)"

definition Process_freePages ::
  "'k host \<Rightarrow> process \<Rightarrow> u64 \<Rightarrow> u64 \<Rightarrow> 'k \<Rightarrow> unit result \<times> 'k" where
  "Process_freePages h p addr pages = with_thread p (\<lambda>t. Thread_freePages h t addr pages)"

definition Process_mapFile ::
  "'k host \<Rightarrow> process \<Rightarrow> int \<Rightarrow> u64 \<Rightarrow> u32 \<Rightarrow> u64 \<Rightarrow> u64 \<Rightarrow> bool \<Rightarrow> bool \<Rightarrow> 'k
   \<Rightarrow> u64 result \<times> 'k" where
  "Process_mapFile h p fd pages prot hint page_off fixed overwrite =
     with_thread p (\<lambda>t. Thread_mapFile h t fd pages prot hint page_off fixed overwrite)"

definition Process_changeProtection ::
  "'k host \<Rightarrow> process \<Rightarrow> u64 \<Rightarrow> u64 \<Rightarrow> u32 \<Rightarrow> 'k \<Rightarrow> unit result \<times> 'k" where
  "Process_changeProtection h p addr pages prot =
     with_thread p (\<lambda>t. Thread_changeProtection h t addr pages prot)"

definition Process_syncMemory ::
  "'k host \<Rightarrow> process \<Rightarrow> u64 \<Rightarrow> u64 \<Rightarrow> u32 \<Rightarrow> 'k \<Rightarrow> unit result \<times> 'k" where
  "Process_syncMemory h p addr sz sync_flags =
     with_thread p (\<lambda>t. Thread_syncMemory h t addr sz sync_flags)"

text \<open>
  \<open>Process::_readOrWriteMemory\<close> with its two callers. The result is the bytes read, or the new
  state of the machine after a write, or the error code the caller can ask for.
\<close>

definition Process_readMemory ::
  "'k host \<Rightarrow> process \<Rightarrow> u64 \<Rightarrow> u64 \<Rightarrow> 'k \<Rightarrow> int + u8 list" where
  "Process_readMemory h p remote len k =
     (if proc_dead p then Inl ESRCH else vm_readv h (proc_id p) remote len k)"

definition Process_writeMemory ::
  "'k host \<Rightarrow> process \<Rightarrow> u64 \<Rightarrow> u8 list \<Rightarrow> 'k \<Rightarrow> int + 'k" where
  "Process_writeMemory h p remote bytes k =
     (if proc_dead p then Inl ESRCH else vm_writev h (proc_id p) remote bytes k)"

section \<open>The hooks\<close>

definition dtape_hook_task_read_memory ::
  "'k host \<Rightarrow> process \<Rightarrow> u64 \<Rightarrow> u64 \<Rightarrow> 'k \<Rightarrow> u8 list option" where
  "dtape_hook_task_read_memory h p remote len k =
     (case Process_readMemory h p remote len k of Inl _ \<Rightarrow> None | Inr bytes \<Rightarrow> Some bytes)"

definition dtape_hook_task_write_memory ::
  "'k host \<Rightarrow> process \<Rightarrow> u64 \<Rightarrow> u8 list \<Rightarrow> 'k \<Rightarrow> bool \<times> 'k" where
  "dtape_hook_task_write_memory h p remote bytes k =
     (case Process_writeMemory h p remote bytes k of Inl _ \<Rightarrow> (False, k) | Inr k' \<Rightarrow> (True, k'))"

abbreviation dtape_memory_flag_fixed :: u32 where "dtape_memory_flag_fixed \<equiv> 1"
abbreviation dtape_memory_flag_overwrite :: u32 where "dtape_memory_flag_overwrite \<equiv> 2"

definition dtape_hook_task_allocate_pages ::
  "'k host \<Rightarrow> process \<Rightarrow> u64 \<Rightarrow> u32 \<Rightarrow> u64 \<Rightarrow> u32 \<Rightarrow> 'k \<Rightarrow> u64 \<times> 'k" where
  "dtape_hook_task_allocate_pages h p pages prot hint flags k =
     (case Process_allocatePages h p pages prot hint (flags AND dtape_memory_flag_fixed \<noteq> 0)
             (flags AND dtape_memory_flag_overwrite \<noteq> 0) k of
        (Inl _, k) \<Rightarrow> (0, k)
      | (Inr a, k) \<Rightarrow> (a, k))"

definition dtape_hook_task_free_pages ::
  "'k host \<Rightarrow> process \<Rightarrow> u64 \<Rightarrow> u64 \<Rightarrow> 'k \<Rightarrow> int \<times> 'k" where
  "dtape_hook_task_free_pages h p addr pages k =
     (case Process_freePages h p addr pages k of (Inl _, k) \<Rightarrow> (- 1, k) | (Inr _, k) \<Rightarrow> (0, k))"

definition dtape_hook_task_map_file ::
  "'k host \<Rightarrow> process \<Rightarrow> int \<Rightarrow> u64 \<Rightarrow> u32 \<Rightarrow> u64 \<Rightarrow> u64 \<Rightarrow> u32 \<Rightarrow> 'k \<Rightarrow> u64 \<times> 'k" where
  "dtape_hook_task_map_file h p fd pages prot hint page_off flags k =
     (case Process_mapFile h p fd pages prot hint page_off (flags AND dtape_memory_flag_fixed \<noteq> 0)
             (flags AND dtape_memory_flag_overwrite \<noteq> 0) k of
        (Inl _, k) \<Rightarrow> (0, k)
      | (Inr a, k) \<Rightarrow> (a, k))"

definition dtape_hook_task_change_protection ::
  "'k host \<Rightarrow> process \<Rightarrow> u64 \<Rightarrow> u64 \<Rightarrow> u32 \<Rightarrow> 'k \<Rightarrow> bool \<times> 'k" where
  "dtape_hook_task_change_protection h p addr pages prot k =
     (case Process_changeProtection h p addr pages prot k of
        (Inl _, k) \<Rightarrow> (False, k) | (Inr _, k) \<Rightarrow> (True, k))"

definition dtape_hook_task_sync_memory ::
  "'k host \<Rightarrow> process \<Rightarrow> u64 \<Rightarrow> u64 \<Rightarrow> u32 \<Rightarrow> 'k \<Rightarrow> bool \<times> 'k" where
  "dtape_hook_task_sync_memory h p addr sz sync_flags k =
     (case Process_syncMemory h p addr sz sync_flags k of
        (Inl _, k) \<Rightarrow> (False, k) | (Inr _, k) \<Rightarrow> (True, k))"

end
