(* ===== verification/VmCopy.thy ===== *)
theory VmCopy
  imports TaskMemory
begin

text \<open>
  Copying memory between address spaces (src/duct-tape/src/memory.c): the copy objects of
  \<open>vm_map_copyin_common\<close> and \<open>vm_map_copyout_kernel_buffer\<close>, allocation and removal of pages in
  the server and in a managed process, protection changes and synchronisation. The state is the
  machine together with the copy objects that have been allocated and not freed. The property
  follows the bytes from one process to another and accounts for the copy object and the pages
  on every path.
\<close>

unbundle bit_operations_syntax

section \<open>State\<close>

text \<open>
  An address space is that of the server itself (\<open>kernel_map\<close>) or that of a task; the code asks
  a task map only for its process.
\<close>

datatype vm_map = Kernel_map | Task_map process

record 'k vm_world =
  machine :: 'k
  copies :: "(nat \<times> u8 list) list"
  next_copy :: nat

abbreviation page_mask :: "'k host \<Rightarrow> u64" where
  "page_mask h \<equiv> page_size h - 1"

definition trunc_page :: "'k host \<Rightarrow> u64 \<Rightarrow> u64" where
  "trunc_page h x = x AND NOT (page_mask h)"

definition round_page :: "'k host \<Rightarrow> u64 \<Rightarrow> u64" where
  "round_page h x = (x + page_mask h) AND NOT (page_mask h)"

definition dtape_byte_count_to_page_count_round_up :: "'k host \<Rightarrow> u64 \<Rightarrow> u64" where
  "dtape_byte_count_to_page_count_round_up h byte_count =
     (byte_count + (page_size h - 1)) div page_size h"

definition dtape_byte_count_to_page_count_round_down :: "'k host \<Rightarrow> u64 \<Rightarrow> u64" where
  "dtape_byte_count_to_page_count_round_down h byte_count = byte_count div page_size h"

section \<open>Allocation and removal\<close>

text \<open>Each operation returns its status and, on success, the address it stores.\<close>

definition kernel_memory_allocate :: "'k host \<Rightarrow> u64 \<Rightarrow> 'k \<Rightarrow> (kern_return \<times> u64 option) \<times> 'k" where
  "kernel_memory_allocate h sz k =
     (let (p, k) = anon_mmap h sz k in
      if p = MAP_FAILED then ((KERN_FAILURE, None), k) else ((KERN_SUCCESS, Some p), k))"

definition kmem_alloc :: "'k host \<Rightarrow> u64 \<Rightarrow> 'k \<Rightarrow> (kern_return \<times> u64 option) \<times> 'k" where
  "kmem_alloc = kernel_memory_allocate"

definition vm_deallocate :: "'k host \<Rightarrow> u64 \<Rightarrow> u64 \<Rightarrow> 'k \<Rightarrow> kern_return \<times> 'k" where
  "vm_deallocate h addr sz k =
     (let (unmapped, k) = self_munmap h addr sz k in (of_bool unmapped, k))"

definition kmem_free :: "'k host \<Rightarrow> u64 \<Rightarrow> u64 \<Rightarrow> 'k \<Rightarrow> 'k" where
  "kmem_free h addr sz k = snd (vm_deallocate h addr sz k)"

definition mach_vm_allocate_kernel ::
  "'k host \<Rightarrow> vm_map \<Rightarrow> u64 \<Rightarrow> 'k \<Rightarrow> (kern_return \<times> u64 option) \<times> 'k" where
  "mach_vm_allocate_kernel h mp sz k =
     (case mp of
        Kernel_map \<Rightarrow>
          (let ((kr, tmp), k) = kernel_memory_allocate h sz k in
           ((kr, if kr = KERN_SUCCESS then tmp else None), k))
      | Task_map p \<Rightarrow>
          (let (tmp, k) = dtape_hook_task_allocate_pages h p
                            (dtape_byte_count_to_page_count_round_up h sz)
                            (PROT_READ OR PROT_WRITE) 0 0 k in
           if tmp = 0 then ((KERN_RESOURCE_SHORTAGE, None), k)
           else ((KERN_SUCCESS, Some tmp), k)))"

definition vm_allocate_kernel ::
  "'k host \<Rightarrow> vm_map \<Rightarrow> u64 \<Rightarrow> 'k \<Rightarrow> (kern_return \<times> u64 option) \<times> 'k" where
  "vm_allocate_kernel h mp sz k =
     (let ((kr, tmp), k) = mach_vm_allocate_kernel h mp sz k in
      ((kr, if kr = KERN_SUCCESS then tmp else None), k))"

definition vm_map_remove :: "'k host \<Rightarrow> vm_map \<Rightarrow> u64 \<Rightarrow> u64 \<Rightarrow> 'k \<Rightarrow> kern_return \<times> 'k" where
  "vm_map_remove h mp start_addr end_addr k =
     (case mp of
        Kernel_map \<Rightarrow>
          (let (unmapped, k) = self_munmap h start_addr (end_addr - start_addr) k in
           (if unmapped then KERN_SUCCESS else KERN_FAILURE, k))
      | Task_map p \<Rightarrow>
          (let (r, k) = dtape_hook_task_free_pages h p start_addr
                          (dtape_byte_count_to_page_count_round_down h (end_addr - start_addr)) k in
           (if r < 0 then KERN_FAILURE else KERN_SUCCESS, k)))"

section \<open>Copying bytes\<close>

definition copyinmap :: "'k host \<Rightarrow> vm_map \<Rightarrow> u64 \<Rightarrow> u64 \<Rightarrow> 'k \<Rightarrow> kern_return \<times> u8 list option" where
  "copyinmap h mp fromaddr len k =
     (case mp of
        Kernel_map \<Rightarrow> (KERN_SUCCESS, Some (self_read h fromaddr len k))
      | Task_map p \<Rightarrow>
          (case dtape_hook_task_read_memory h p fromaddr len k of
             Some bytes \<Rightarrow> (KERN_SUCCESS, Some bytes)
           | None \<Rightarrow> (KERN_FAILURE, None)))"

definition copyoutmap :: "'k host \<Rightarrow> vm_map \<Rightarrow> u8 list \<Rightarrow> u64 \<Rightarrow> 'k \<Rightarrow> kern_return \<times> 'k" where
  "copyoutmap h mp bytes toaddr k =
     (case mp of
        Kernel_map \<Rightarrow> (KERN_SUCCESS, self_write h toaddr bytes k)
      | Task_map p \<Rightarrow>
          (let (ok, k) = dtape_hook_task_write_memory h p toaddr bytes k in
           (if ok then KERN_SUCCESS else KERN_FAILURE, k)))"

text \<open>\<open>copyin\<close> and \<open>copyout\<close> on the current map, and the message variants.\<close>

definition copyin :: "'k host \<Rightarrow> vm_map \<Rightarrow> u64 \<Rightarrow> u64 \<Rightarrow> 'k \<Rightarrow> int \<times> u8 list option" where
  "copyin h current_map user_addr nbytes k =
     (let (kr, bytes) = copyinmap h current_map user_addr nbytes k in
      (if kr = KERN_SUCCESS then 0 else 1, bytes))"

definition copyout :: "'k host \<Rightarrow> vm_map \<Rightarrow> u8 list \<Rightarrow> u64 \<Rightarrow> 'k \<Rightarrow> int \<times> 'k" where
  "copyout h current_map bytes user_addr k =
     (let (kr, k) = copyoutmap h current_map bytes user_addr k in
      (if kr = KERN_SUCCESS then 0 else 1, k))"

definition copyinmsg :: "'k host \<Rightarrow> vm_map \<Rightarrow> u64 \<Rightarrow> u32 \<Rightarrow> 'k \<Rightarrow> int \<times> u8 list option" where
  "copyinmsg h current_map user_addr nbytes = copyin h current_map user_addr (ucast nbytes)"

definition copyoutmsg :: "'k host \<Rightarrow> vm_map \<Rightarrow> u8 list \<Rightarrow> u64 \<Rightarrow> 'k \<Rightarrow> int \<times> 'k" where
  "copyoutmsg = copyout"

section \<open>Copy objects\<close>

text \<open>
  A copy object is its number; its size is the length of its data. The header of the structure
  takes 32 bytes.
\<close>

definition free_copy :: "nat \<Rightarrow> ('k, 'z) vm_world_scheme \<Rightarrow> ('k, 'z) vm_world_scheme" where
  "free_copy c w = w\<lparr>copies := AList.delete c (copies w)\<rparr>"

definition copy_data :: "('k, 'z) vm_world_scheme \<Rightarrow> nat \<Rightarrow> u8 list" where
  "copy_data w c = (case map_of (copies w) c of None \<Rightarrow> [] | Some bytes \<Rightarrow> bytes)"

definition vm_map_copy_discard ::
  "nat option \<Rightarrow> ('k, 'z) vm_world_scheme \<Rightarrow> ('k, 'z) vm_world_scheme" where
  "vm_map_copy_discard copy w = (case copy of None \<Rightarrow> w | Some c \<Rightarrow> free_copy c w)"

definition vm_map_copyin_common ::
  "'k host \<Rightarrow> vm_map \<Rightarrow> u64 \<Rightarrow> u64 \<Rightarrow> bool \<Rightarrow> ('k, 'z) vm_world_scheme
   \<Rightarrow> (kern_return \<times> nat option) \<times> ('k, 'z) vm_world_scheme" where
  "vm_map_copyin_common h src_map src_addr len src_destroy w =
     (let (ok, k) = malloc_ok h (32 + len) (machine w); w = w\<lparr>machine := k\<rparr> in
      if \<not> ok then ((KERN_RESOURCE_SHORTAGE, None), w)
      else
       (case copyinmap h src_map src_addr len (machine w) of
          (kr, None) \<Rightarrow> ((kr, None), w)
        | (kr, Some bytes) \<Rightarrow>
            (let c = next_copy w;
                 w = w\<lparr>copies := (c, bytes) # copies w, next_copy := Suc c\<rparr>;
                 w = (if src_destroy
                      then w\<lparr>machine := snd (vm_map_remove h src_map (trunc_page h src_addr)
                              (round_page h (src_addr + len)) (machine w))\<rparr>
                      else w) in
             ((KERN_SUCCESS, Some c), w))))"

definition vm_map_copyout_kernel_buffer ::
  "'k host \<Rightarrow> vm_map \<Rightarrow> u64 \<Rightarrow> nat \<Rightarrow> u64 \<Rightarrow> bool \<Rightarrow> bool \<Rightarrow> ('k, 'z) vm_world_scheme
   \<Rightarrow> (kern_return \<times> u64) \<times> ('k, 'z) vm_world_scheme" where
  "vm_map_copyout_kernel_buffer h mp addr copy copy_size overwrite consume_on_success w =
     (let alloc =
        (if overwrite then (Some addr, machine w)
         else case mp of
           Kernel_map \<Rightarrow>
             (let (a, k) = anon_mmap h copy_size (machine w) in
              (if a = MAP_FAILED then None else Some a, k))
         | Task_map p \<Rightarrow>
             (let (a, k) = dtape_hook_task_allocate_pages h p
                             (dtape_byte_count_to_page_count_round_up h copy_size)
                             (PROT_READ OR PROT_WRITE) 0 0 (machine w) in
              (if a = 0 then None else Some a, k)))
      in case alloc of
        (None, k) \<Rightarrow>
          ((KERN_RESOURCE_SHORTAGE, if mp = Kernel_map then MAP_FAILED else 0), w\<lparr>machine := k\<rparr>)
      | (Some addr, k) \<Rightarrow>
          (let (kr, k) = copyoutmap h mp (take (unat copy_size) (copy_data w copy)) addr k;
               w = w\<lparr>machine := k\<rparr> in
           if kr \<noteq> KERN_SUCCESS then
             (if \<not> overwrite
              then ((KERN_INVALID_ADDRESS, 0),
                    w\<lparr>machine := snd (vm_map_remove h mp (trunc_page h addr)
                        (round_page h (addr + round_page h copy_size)) (machine w))\<rparr>)
              else ((KERN_INVALID_ADDRESS, addr), w))
           else ((KERN_SUCCESS, addr), if consume_on_success then free_copy copy w else w)))"

definition vm_map_copy_overwrite ::
  "'k host \<Rightarrow> vm_map \<Rightarrow> u64 \<Rightarrow> nat option \<Rightarrow> ('k, 'z) vm_world_scheme
   \<Rightarrow> kern_return \<times> ('k, 'z) vm_world_scheme" where
  "vm_map_copy_overwrite h dst_map dst_addr copy w =
     (case copy of
        None \<Rightarrow> (KERN_SUCCESS, w)
      | Some c \<Rightarrow>
          (let ((kr, _), w) = vm_map_copyout_kernel_buffer h dst_map dst_addr c
                                (of_nat (length (copy_data w c))) True True w in (kr, w)))"

definition vm_map_copyout_size ::
  "'k host \<Rightarrow> vm_map \<Rightarrow> u64 \<Rightarrow> nat option \<Rightarrow> u64 \<Rightarrow> ('k, 'z) vm_world_scheme
   \<Rightarrow> (kern_return \<times> u64) \<times> ('k, 'z) vm_world_scheme" where
  "vm_map_copyout_size h dst_map dst_addr copy copy_size w =
     (case copy of
        None \<Rightarrow> ((KERN_SUCCESS, 0), w)
      | Some c \<Rightarrow>
          if of_nat (length (copy_data w c)) \<noteq> copy_size then ((KERN_FAILURE, 0), w)
          else vm_map_copyout_kernel_buffer h dst_map dst_addr c copy_size False True w)"

definition vm_map_copyout ::
  "'k host \<Rightarrow> vm_map \<Rightarrow> u64 \<Rightarrow> nat option \<Rightarrow> ('k, 'z) vm_world_scheme
   \<Rightarrow> (kern_return \<times> u64) \<times> ('k, 'z) vm_world_scheme" where
  "vm_map_copyout h dst_map dst_addr copy w =
     vm_map_copyout_size h dst_map dst_addr copy
       (case copy of None \<Rightarrow> 0 | Some c \<Rightarrow> of_nat (length (copy_data w c))) w"

definition vm_map_copy_validate_size :: "nat option \<Rightarrow> u64 \<Rightarrow> ('k, 'z) vm_world_scheme \<Rightarrow> bool" where
  "vm_map_copy_validate_size copy sz w =
     (case copy of None \<Rightarrow> False | Some c \<Rightarrow> sz = of_nat (length (copy_data w c)))"

section \<open>Synchronisation and protection\<close>

definition mach_vm_msync :: "'k host \<Rightarrow> process \<Rightarrow> u64 \<Rightarrow> u64 \<Rightarrow> u32 \<Rightarrow> 'k \<Rightarrow> kern_return \<times> 'k" where
  "mach_vm_msync h p addr sz sync_flags k =
     (let linux_flags = (if sync_flags AND 1 \<noteq> 0 then 1 else 0)
                        OR (if sync_flags AND 2 \<noteq> 0 then 4 else 0)
                        OR (if sync_flags AND 4 \<noteq> 0 then 2 else 0);
          (ok, k) = dtape_hook_task_sync_memory h p addr sz linux_flags k in
      (if ok then KERN_SUCCESS else KERN_FAILURE, k))"

definition mach_vm_protect :: "'k host \<Rightarrow> process \<Rightarrow> u64 \<Rightarrow> u64 \<Rightarrow> u32 \<Rightarrow> 'k \<Rightarrow> kern_return \<times> 'k" where
  "mach_vm_protect h p start_addr sz new_protection k =
     (let end_memaddr = round_page h (start_addr + sz);
          start_memaddr = trunc_page h start_addr;
          protect_size = end_memaddr - start_memaddr;
          prot = (if new_protection AND VM_PROT_READ \<noteq> 0 then PROT_READ else 0)
                 OR (if new_protection AND VM_PROT_WRITE \<noteq> 0 then PROT_WRITE else 0)
                 OR (if new_protection AND VM_PROT_EXECUTE \<noteq> 0 then PROT_EXEC else 0);
          (ok, k) = dtape_hook_task_change_protection h p start_memaddr
                      (dtape_byte_count_to_page_count_round_up h protect_size) prot k in
      (if ok then KERN_SUCCESS else KERN_FAILURE, k))"

section \<open>Page arithmetic\<close>

text \<open>The page size is a power of two.\<close>

definition pages_of :: "'k host \<Rightarrow> nat \<Rightarrow> bool" where
  "pages_of h n \<longleftrightarrow> n < 64 \<and> page_size h = 2 ^ n"

lemma page_mask_eq: "pages_of h n \<Longrightarrow> page_mask h = mask n"
  by (simp add: pages_of_def mask_eq_decr_exp)

lemma unat_page_size:
  assumes "pages_of h n"
  shows "unat (page_size h) = 2 ^ n"
proof -
  have "(2 :: nat) ^ n < 2 ^ 64"
    using assms by (intro power_strict_increasing) (simp_all add: pages_of_def)
  then have "unat (of_nat (2 ^ n) :: u64) = 2 ^ n"
    by (simp only: unat_of_nat) simp
  then show ?thesis
    using assms by (simp add: pages_of_def)
qed

lemma unat_page_mask:
  assumes "pages_of h n"
  shows "unat (page_mask h) = 2 ^ n - 1"
proof -
  have "page_size h \<noteq> 0"
    using unat_page_size [OF assms] by auto
  then show ?thesis
    using unat_page_size [OF assms] by (simp add: unat_minus_one)
qed

lemma unat_trunc_page:
  "pages_of h n \<Longrightarrow> unat (trunc_page h x) = unat x div 2 ^ n * 2 ^ n"
  by (simp add: trunc_page_def page_mask_eq unat_clear_low)

lemma unat_round_page:
  assumes "pages_of h n" and "unat x + 2 ^ n \<le> 2 ^ 64"
  shows "unat (round_page h x) = (unat x + (2 ^ n - 1)) div 2 ^ n * 2 ^ n"
proof -
  have "unat (x + page_mask h) = unat x + (2 ^ n - 1)"
    using assms by (simp add: unat_plus_if' unat_page_mask)
  then show ?thesis
    using assms(1) by (simp add: round_page_def page_mask_eq unat_clear_low)
qed

lemma unat_pages_up:
  assumes "pages_of h n" and "unat x + 2 ^ n \<le> 2 ^ 64"
  shows "unat (dtape_byte_count_to_page_count_round_up h x) = (unat x + (2 ^ n - 1)) div 2 ^ n"
proof -
  have "unat (x + page_mask h) = unat x + (2 ^ n - 1)"
    using assms by (simp add: unat_plus_if' unat_page_mask)
  then show ?thesis
    using assms(1)
    by (simp add: dtape_byte_count_to_page_count_round_up_def unat_div unat_page_size)
qed

text \<open>Removing what \<open>vm_map_copyout_kernel_buffer\<close> allocated covers exactly the pages allocated.\<close>

lemma cleanup_page_count:
  assumes ps: "pages_of h n" and a: "2 ^ n dvd unat a"
    and room: "unat a + unat sz + 2 * 2 ^ n \<le> 2 ^ 64"
  shows "trunc_page h a = a"
    and "dtape_byte_count_to_page_count_round_down h
           (round_page h (a + round_page h sz) - trunc_page h a)
         = dtape_byte_count_to_page_count_round_up h sz"
proof -
  define P :: nat where "P = 2 ^ n"
  have P: "P > 0" by (simp add: P_def)
  from a obtain A where A: "unat a = A * P" by (auto simp: P_def dvd_def mult.commute)
  define R where "R = (unat sz + (P - 1)) div P"
  have R: "R * P \<le> unat sz + (P - 1)"
    by (simp add: R_def)
  show tr: "trunc_page h a = a"
    using A P by (simp add: word_unat_eq_iff unat_trunc_page [OF ps] flip: P_def)
  have rs: "unat (round_page h sz) = R * P"
    using room by (simp add: unat_round_page [OF ps] R_def P_def)
  have room': "A * P + unat sz + 2 * P \<le> 2 ^ 64"
    using room A by (simp only: P_def)
  then have lt: "A * P + R * P + P \<le> 2 ^ 64"
    using R P by linarith
  then have "unat a + unat (round_page h sz) < 2 ^ LENGTH(64)"
    using A rs P by simp
  then have sum: "unat (a + round_page h sz) = (A + R) * P"
    using A rs by (simp add: unat_add_lem [THEN iffD1] add_mult_distrib)
  have "unat (round_page h (a + round_page h sz)) = ((A + R) * P + (P - 1)) div P * P"
    using sum lt unat_round_page [OF ps, of "a + round_page h sz"]
    by (simp add: P_def [symmetric] add_mult_distrib)
  also have "((A + R) * P + (P - 1)) div P = A + R"
    using P by (intro div_nat_eqI) (simp_all add: mult.commute)
  finally have rr: "unat (round_page h (a + round_page h sz)) = (A + R) * P" .
  have "unat (round_page h (a + round_page h sz) - trunc_page h a) = R * P"
    using rr tr A by (simp add: unat_sub word_le_nat_alt add_mult_distrib)
  then have "unat (dtape_byte_count_to_page_count_round_down h
      (round_page h (a + round_page h sz) - trunc_page h a)) = R"
    using P unat_page_size [OF ps]
    by (simp add: dtape_byte_count_to_page_count_round_down_def unat_div P_def [symmetric])
  moreover have "unat (dtape_byte_count_to_page_count_round_up h sz) = R"
    using room by (simp add: unat_pages_up [OF ps] R_def P_def)
  ultimately show "dtape_byte_count_to_page_count_round_down h
           (round_page h (a + round_page h sz) - trunc_page h a)
         = dtape_byte_count_to_page_count_round_up h sz"
    by (simp add: word_unat_eq_iff)
qed

section \<open>A copy from one process to another\<close>

text \<open>
  The documented behaviour of \<open>process_vm_readv\<close> and \<open>process_vm_writev\<close> on one remote area: a
  successful read returns the whole area, and the area reads back as it was written.
\<close>

definition whole_transfers :: "'k host \<Rightarrow> bool" where
  "whole_transfers h \<longleftrightarrow>
     (\<forall>pid a n k bytes. vm_readv h pid a n k = Inr bytes \<longrightarrow> length bytes = unat n)
     \<and> (\<forall>pid a bytes k k'. vm_writev h pid a bytes k = Inr k' \<longrightarrow> length bytes < 2 ^ 64 \<longrightarrow>
          vm_readv h pid a (of_nat (length bytes)) k' = Inr bytes)"

definition copies_ok :: "('k, 'z) vm_world_scheme \<Rightarrow> bool" where
  "copies_ok w \<longleftrightarrow> (\<forall>c \<in> fst ` set (copies w). c < next_copy w)"

lemma whole_read:
  "whole_transfers h \<Longrightarrow> vm_readv h q a n k = Inr bytes \<Longrightarrow>
   length bytes = unat n \<and> of_nat (length bytes) = n"
  by (auto simp: whole_transfers_def)

lemma copyin_outcome:
  assumes "vm_map_copyin_common h (Task_map p) sa len False w = ((kr, c), w1)"
    and "whole_transfers h"
  shows "(kr \<noteq> KERN_SUCCESS \<and> c = None \<and> copies w1 = copies w \<and> next_copy w1 = next_copy w)
    \<or> (\<exists>bytes. kr = KERN_SUCCESS \<and> c = Some (next_copy w)
         \<and> vm_readv h (proc_id p) sa len (machine w1) = Inr bytes
         \<and> machine w1 = snd (malloc_ok h (32 + len) (machine w))
         \<and> copies w1 = (next_copy w, bytes) # copies w \<and> next_copy w1 = Suc (next_copy w))"
  using assms(1)
  by (auto simp: vm_map_copyin_common_def copyinmap_def dtape_hook_task_read_memory_def
      Process_readMemory_def Let_def split: prod.splits if_splits sum.splits option.splits)

lemma delete_new_copy:
  assumes "copies_ok w"
  shows "AList.delete (next_copy w) ((next_copy w, b) # copies w) = copies w"
proof -
  have "next_copy w \<notin> fst ` set (copies w)"
    using assms by (auto simp: copies_ok_def)
  then show ?thesis
    by (simp add: delete_idem)
qed

lemma copyout_outcome:
  assumes out: "vm_map_copyout_kernel_buffer h (Task_map q) da c len False True w1 = ((kr, a), w2)"
    and doc: "whole_transfers h" and c: "copy_data w1 c = bytes" "length bytes = unat len"
  shows "(kr = KERN_SUCCESS \<and> copies w2 = AList.delete c (copies w1)
          \<and> vm_readv h (proc_id q) a len (machine w2) = Inr bytes)
    \<or> (kr = KERN_RESOURCE_SHORTAGE \<and> a = 0 \<and> copies w2 = copies w1)
    \<or> (kr = KERN_INVALID_ADDRESS \<and> a = 0 \<and> copies w2 = copies w1
       \<and> (\<exists>a0 k1. dtape_hook_task_allocate_pages h q
             (dtape_byte_count_to_page_count_round_up h len) 3 0 0 (machine w1) = (a0, k1)
           \<and> machine w2 = snd (vm_map_remove h (Task_map q) (trunc_page h a0)
                (round_page h (a0 + round_page h len)) k1)))"
proof -
  obtain a0 k1 where alloc: "dtape_hook_task_allocate_pages h q
      (dtape_byte_count_to_page_count_round_up h len) 3 0 0 (machine w1) = (a0, k1)"
    by (cases "dtape_hook_task_allocate_pages h q
      (dtape_byte_count_to_page_count_round_up h len) 3 0 0 (machine w1)")
  have readback: "vm_readv h (proc_id q) a0 len k' = Inr bytes"
    if "vm_writev h (proc_id q) a0 bytes k1 = Inr k'" for k'
  proof -
    have "length bytes < 2 ^ 64"
      using unsigned_less [of len] by (simp add: c(2))
    then have "vm_readv h (proc_id q) a0 (of_nat (length bytes)) k' = Inr bytes"
      using doc that unfolding whole_transfers_def by blast
    then show ?thesis
      by (simp add: c(2))
  qed
  show ?thesis
    using out c alloc readback
    by (auto simp: vm_map_copyout_kernel_buffer_def copyoutmap_def dtape_hook_task_write_memory_def
        Process_writeMemory_def free_copy_def Let_def split: if_splits sum.splits prod.splits)
qed

lemma remove_allocated_pages:
  assumes "pages_of h n" and "2 ^ n dvd unat a" and "unat a + unat len + 2 * 2 ^ n \<le> 2 ^ 64"
  shows "snd (vm_map_remove h (Task_map q) (trunc_page h a) (round_page h (a + round_page h len)) k)
    = snd (dtape_hook_task_free_pages h q a (dtape_byte_count_to_page_count_round_up h len) k)"
  using cleanup_page_count [OF assms] by (simp add: vm_map_remove_def split: prod.splits)

text \<open>C17: A copy of \<open>len\<close> bytes out of process \<open>p\<close> into process \<open>q\<close>. Either the copy-in fails and
  leaves no copy object behind, or the copy object holds the bytes of the source area, and the
  copy-out then either succeeds, frees the copy object, and the area at the returned address of
  \<open>q\<close> reads as those bytes; or it fails, reports address 0 and leaves the copy object to its
  owner, whose discard restores the copy objects of before. When the write fails after pages
  were allocated in \<open>q\<close>, exactly those pages are freed again.
\<close>

theorem vm_copy_delivers:
  assumes "whole_transfers h" and "pages_of h n" and "copies_ok w"
    and "vm_map_copyin_common h (Task_map p) sa len False w = ((kr, c), w1)"
    and "vm_map_copyout h (Task_map q) da c w1 = ((kr', a), w2)"
  shows "(kr \<noteq> KERN_SUCCESS \<and> c = None \<and> copies w1 = copies w)
    \<or> (\<exists>bytes. kr = KERN_SUCCESS \<and> vm_readv h (proc_id p) sa len (machine w1) = Inr bytes
        \<and> length bytes = unat len
        \<and> (kr' = KERN_SUCCESS \<and> copies w2 = copies w
            \<and> vm_readv h (proc_id q) a len (machine w2) = Inr bytes
           \<or> kr' \<noteq> KERN_SUCCESS \<and> a = 0 \<and> copies (vm_map_copy_discard c w2) = copies w
            \<and> (kr' = KERN_INVALID_ADDRESS \<longrightarrow>
                (\<exists>a0 k1. dtape_hook_task_allocate_pages h q
                     (dtape_byte_count_to_page_count_round_up h len) 3 0 0 (machine w1) = (a0, k1)
                   \<and> (2 ^ n dvd unat a0 \<and> unat a0 + unat len + 2 * 2 ^ n \<le> 2 ^ 64 \<longrightarrow>
                       machine w2 = snd (dtape_hook_task_free_pages h q a0
                         (dtape_byte_count_to_page_count_round_up h len) k1))))))"
  using copyin_outcome [OF assms(4,1)]
proof
  assume "\<exists>bytes. kr = KERN_SUCCESS \<and> c = Some (next_copy w)
    \<and> vm_readv h (proc_id p) sa len (machine w1) = Inr bytes
    \<and> machine w1 = snd (malloc_ok h (32 + len) (machine w))
    \<and> copies w1 = (next_copy w, bytes) # copies w \<and> next_copy w1 = Suc (next_copy w)"
  then obtain bytes where src: "kr = KERN_SUCCESS" "c = Some (next_copy w)"
    "vm_readv h (proc_id p) sa len (machine w1) = Inr bytes"
    and w1: "copies w1 = (next_copy w, bytes) # copies w"
    by blast
  from whole_read [OF assms(1) src(3)]
  have len: "length bytes = unat len" "of_nat (length bytes) = len" by simp_all
  have data: "copy_data w1 (next_copy w) = bytes"
    by (simp add: copy_data_def w1)
  have "vm_map_copyout_kernel_buffer h (Task_map q) da (next_copy w) len False True w1
      = ((kr', a), w2)"
    using assms(5) src(2) len data by (simp add: vm_map_copyout_def vm_map_copyout_size_def)
  from copyout_outcome [OF this assms(1) data len(1)] show ?thesis
    using src len w1 delete_new_copy [OF assms(3), of bytes]
      remove_allocated_pages [OF assms(2)]
    by (fastforce simp: vm_map_copy_discard_def free_copy_def)
qed blast

text \<open>
  A machine with flat memories on which the hypotheses hold: every request of the client
  succeeds, and new pages are at a fixed address.
\<close>

definition flat_host :: "(nat \<Rightarrow> u64 \<Rightarrow> u8) host" where
  "flat_host =
     \<lparr>page_size = 0x1000,
      client = (\<lambda>t rq k. (Some \<lparr>ans_address = 0x8000, ans_return = 0, ans_errno = 0\<rparr>, k)),
      dup_fd = (\<lambda>fd k. (Inr (fd + 1), k)),
      vm_readv = (\<lambda>q a n k. Inr (map (\<lambda>i. k q (a + of_nat i)) [0..<unat n])),
      vm_writev = (\<lambda>q a bytes k. Inr (k(q := (\<lambda>x. if unat (x - a) < length bytes
                      then bytes ! unat (x - a) else k q x)))),
      self_read = (\<lambda>a n k. map (\<lambda>i. k 0 (a + of_nat i)) [0..<unat n]),
      self_write = (\<lambda>a bytes k. k),
      anon_mmap = (\<lambda>n k. (0x4000, k)),
      self_munmap = (\<lambda>a n k. (True, k)),
      malloc_ok = (\<lambda>n k. (True, k)),
      maps_file = (\<lambda>q k. [])\<rparr>"

lemma unat_small: "i < 2 ^ 64 \<Longrightarrow> unat (of_nat i :: u64) = i"
  by (simp add: unat_of_nat)

lemma flat_host_documented: "whole_transfers flat_host" "pages_of flat_host 12"
proof -
  have "map (\<lambda>i. (\<lambda>x. if unat (x - a) < length bytes then bytes ! unat (x - a) else f x)
        (a + of_nat i)) [0..<unat (of_nat (length bytes) :: u64)] = bytes"
    if "length bytes < 2 ^ 64" for a :: u64 and bytes :: "u8 list" and f
    using that by (intro nth_equalityI) (auto simp: unat_small)
  then show "whole_transfers flat_host"
    by (simp add: whole_transfers_def flat_host_def)
  show "pages_of flat_host 12"
    by (simp add: pages_of_def flat_host_def)
qed

abbreviation live_process :: "nat \<Rightarrow> process" where
  "live_process q \<equiv> \<lparr>proc_id = q, proc_dead = False, proc_current = None, proc_threads = [Some q]\<rparr>"

theorem vm_copy_delivers_witness:
  "\<exists>c w1 a w2. vm_map_copyin_common flat_host (Task_map (live_process 1)) 0x100 3 False
      \<lparr>machine = (\<lambda>q x. if q = 1 then ucast x else 0), copies = [], next_copy = 0\<rparr>
      = ((KERN_SUCCESS, c), w1)
    \<and> vm_map_copyout flat_host (Task_map (live_process 2)) 0 c w1 = ((KERN_SUCCESS, a), w2)
    \<and> (\<exists>bytes. vm_readv flat_host 1 0x100 3 (machine w1) = Inr bytes
        \<and> vm_readv flat_host 2 a 3 (machine w2) = Inr bytes)"
proof -
  let ?w = "\<lparr>machine = (\<lambda>q x. if q = 1 then ucast x else 0), copies = [], next_copy = 0\<rparr>
    :: (nat \<Rightarrow> u64 \<Rightarrow> u8) vm_world"
  let ?in = "vm_map_copyin_common flat_host (Task_map (live_process 1)) 0x100 3 False ?w"
  let ?out = "vm_map_copyout flat_host (Task_map (live_process 2)) 0 (snd (fst ?in)) (snd ?in)"
  note eval = vm_map_copyin_common_def flat_host_def copyinmap_def Process_readMemory_def
    dtape_hook_task_read_memory_def vm_map_copyout_def vm_map_copyout_size_def copy_data_def
    vm_map_copyout_kernel_buffer_def dtape_hook_task_allocate_pages_def Process_allocatePages_def
    with_thread_def pickS2CThread_def Thread_allocatePages_def Thread_mmap_def copyoutmap_def
    dtape_hook_task_write_memory_def Process_writeMemory_def
  have kr: "fst (fst ?in) = KERN_SUCCESS" "fst (fst ?out) = KERN_SUCCESS"
    by (simp_all add: eval Let_def)
  have pair: "?in = ((fst (fst ?in), snd (fst ?in)), snd ?in)"
    "?out = ((fst (fst ?out), snd (fst ?out)), snd ?out)" by simp_all
  have "copies_ok ?w" by (simp add: copies_ok_def)
  from vm_copy_delivers [OF flat_host_documented this pair] kr show ?thesis
    by (intro exI [of _ "snd (fst ?in)"] exI [of _ "snd ?in"] exI [of _ "snd (fst ?out)"]
          exI [of _ "snd ?out"]) (auto simp: prod_eq_iff)
qed

section \<open>Requests to the client\<close>

lemma page_hull:
  fixes P st sz :: nat
  assumes "0 < P"
  defines "base \<equiv> st div P * P" and "hi \<equiv> (st + sz + (P - 1)) div P * P"
  shows "base \<le> st" "st < base + P" "st + sz \<le> hi" "hi < st + sz + P" "base \<le> hi"
    "P dvd base" "P dvd hi"
proof -
  show "base \<le> st" "P dvd base" "P dvd hi"
    by (simp_all add: base_def hi_def)
  have "base + st mod P = st"
    by (simp add: base_def)
  with mod_less_divisor [of P st] assms(1) show "st < base + P" by linarith
  have m: "hi + (st + sz + (P - 1)) mod P = st + sz + (P - 1)"
    by (simp add: hi_def)
  with mod_less_divisor [of P "st + sz + (P - 1)"] assms(1)
  show "st + sz \<le> hi" "hi < st + sz + P" by linarith+
  with \<open>base \<le> st\<close> show "base \<le> hi" by linarith
qed

lemma protect_range:
  assumes ps: "pages_of h n" and room: "unat st + unat sz + 2 ^ n \<le> 2 ^ 64"
  defines "base \<equiv> trunc_page h st"
    and "len \<equiv> dtape_byte_count_to_page_count_round_up h
           (round_page h (st + sz) - trunc_page h st) * page_size h"
  shows "unat base = unat st div 2 ^ n * 2 ^ n"
    "unat base + unat len = (unat st + unat sz + (2 ^ n - 1)) div 2 ^ n * 2 ^ n"
proof -
  define P :: nat where "P = 2 ^ n"
  define hi where "hi = (unat st + unat sz + (P - 1)) div P * P"
  have P: "0 < P" by (simp add: P_def)
  note hull = page_hull(4,5,7) [OF P, of "unat st" "unat sz", folded hi_def]
    page_hull(6) [OF P, of "unat st"]
  show base: "unat base = unat st div 2 ^ n * 2 ^ n"
    by (simp add: base_def unat_trunc_page [OF ps])
  have lt: "unat st + unat sz < 2 ^ 64"
    using room P by (simp add: P_def [symmetric])
  then have "unat (st + sz) = unat st + unat sz"
    by (simp add: unat_add_lem [THEN iffD1])
  then have top: "unat (round_page h (st + sz)) = hi"
    using room by (simp add: unat_round_page [OF ps] hi_def P_def)
  have le: "unat base \<le> hi"
    using hull(2) base by (simp add: P_def)
  have diff: "unat (round_page h (st + sz) - trunc_page h st) = hi - unat base"
    using le top by (simp add: unat_sub word_le_nat_alt flip: base_def)
  obtain m where m: "hi - unat base = m * P"
    using hull(3,4) base by (metis P_def dvd_diff_nat dvd_def mult.commute)
  have "m * P + P \<le> 2 ^ 64"
  proof (cases "m = 0")
    case True
    then show ?thesis using room by (simp add: P_def)
  next
    case False
    have "2 ^ n dvd (2 :: nat) ^ 64"
      using ps by (intro le_imp_power_dvd) (simp add: pages_of_def)
    then obtain M where M: "(2 :: nat) ^ 64 = M * P" by (metis P_def dvd_def mult.commute)
    have "m * P < 2 ^ 64"
      using m hull(1) room unfolding P_def [symmetric] by linarith
    then have "m * P < M * P" by (simp only: M)
    then have "Suc m \<le> M" by simp
    then have "Suc m * P \<le> M * P" by (rule mult_le_mono1)
    then show ?thesis unfolding M by simp
  qed
  then have "unat (dtape_byte_count_to_page_count_round_up h
      (round_page h (st + sz) - trunc_page h st)) = (m * P + (P - 1)) div P"
    using m diff by (simp add: unat_pages_up [OF ps] P_def)
  also have "(m * P + (P - 1)) div P = m"
    using P by (intro div_nat_eqI) (simp_all add: mult.commute)
  finally have "unat len = m * P"
    using unat_page_size [OF ps] \<open>m * P + P \<le> 2 ^ 64\<close> P
    by (simp add: len_def unat_mult_lem [THEN iffD1] P_def [symmetric])
  then show "unat base + unat len = (unat st + unat sz + (2 ^ n - 1)) div 2 ^ n * 2 ^ n"
    using m le by (simp add: hi_def P_def)
qed

text \<open>What the hook makes of the client's answer to a request for pages.\<close>

definition pages_answer :: "s2c_answer option \<times> 'k \<Rightarrow> u64 \<times> 'k" where
  "pages_answer r =
     (case r of
        (None, k) \<Rightarrow> (0, k)
      | (Some a, k) \<Rightarrow> (if ans_address a = MAP_FAILED then 0 else ans_address a, k))"

definition status_answer :: "s2c_answer option \<times> 'k \<Rightarrow> kern_return \<times> 'k" where
  "status_answer r =
     (case r of
        (None, k) \<Rightarrow> (KERN_FAILURE, k)
      | (Some a, k) \<Rightarrow> (if ans_return a < 0 then KERN_FAILURE else KERN_SUCCESS, k))"

lemma allocate_pages_request:
  "pickS2CThread p = Some t \<Longrightarrow>
   dtape_hook_task_allocate_pages h p pages prot hint flags k
   = pages_answer (client h t
       (Req_mmap hint (pages * page_size h) prot
         (if flags AND 1 = 0 then 0x22 else if flags AND 2 = 0 then 0x100022 else 0x32) (- 1) 0 []) k)"
  by (auto simp: dtape_hook_task_allocate_pages_def Process_allocatePages_def with_thread_def
      Thread_allocatePages_def Thread_mmap_def fixed_flags_def pages_answer_def Let_def
      split: prod.splits option.splits)

lemma map_file_request:
  "pickS2CThread p = Some t \<Longrightarrow> fd \<ge> 0 \<Longrightarrow> dup_fd h fd k = (Inr fd', k') \<Longrightarrow>
   dtape_hook_task_map_file h p fd pages prot hint off flags k
   = pages_answer (client h t
       (Req_mmap hint (pages * page_size h) prot
         (if flags AND 1 = 0 then 0x01 else if flags AND 2 = 0 then 0x100001 else 0x11) 0
         (off * page_size h) [fd']) k')"
  by (auto simp: dtape_hook_task_map_file_def Process_mapFile_def with_thread_def
      Thread_mapFile_def Thread_mmap_def fixed_flags_def pages_answer_def Let_def
      split: prod.splits option.splits)

lemma free_pages_request:
  "pickS2CThread p = Some t \<Longrightarrow>
   dtape_hook_task_free_pages h p a pages k
   = (case status_answer (client h t (Req_munmap a (pages * page_size h)) k) of
        (kr, k') \<Rightarrow> (if kr = KERN_SUCCESS then 0 else - 1, k'))"
  by (auto simp: dtape_hook_task_free_pages_def Process_freePages_def with_thread_def
      Thread_freePages_def Thread_munmap_def status_answer_def Let_def
      split: prod.splits option.splits)

lemma sync_memory_request:
  "pickS2CThread p = Some t \<Longrightarrow>
   dtape_hook_task_sync_memory h p a sz flags k
   = (case status_answer (client h t (Req_msync a sz flags) k) of (kr, k') \<Rightarrow> (kr = KERN_SUCCESS, k'))"
  by (auto simp: dtape_hook_task_sync_memory_def Process_syncMemory_def
      with_thread_def Thread_syncMemory_def Thread_msync_def status_answer_def Let_def
      split: prod.splits option.splits)

lemma change_protection_request:
  "pickS2CThread p = Some t \<Longrightarrow>
   dtape_hook_task_change_protection h p a pages prot k
   = (case status_answer (client h t (Req_mprotect a (pages * page_size h) prot) k) of
        (kr, k') \<Rightarrow> (kr = KERN_SUCCESS, k'))"
  by (auto simp: dtape_hook_task_change_protection_def Process_changeProtection_def
      with_thread_def Thread_changeProtection_def Thread_mprotect_def status_answer_def Let_def
      split: prod.splits option.splits)

lemma status_answer_cases: "fst (status_answer r) = KERN_SUCCESS \<or> fst (status_answer r) = KERN_FAILURE"
  by (simp add: status_answer_def split: prod.splits option.splits)

lemma status_of_answer:
  "(case (case status_answer r of (kr, k') \<Rightarrow> (kr = KERN_SUCCESS, k')) of
      (ok, k') \<Rightarrow> (if ok then KERN_SUCCESS else KERN_FAILURE, k')) = status_answer r"
  using status_answer_cases [of r] by (cases "status_answer r") auto

lemma msync_request:
  "pickS2CThread p = Some t \<Longrightarrow>
   mach_vm_msync h p a sz flags k
   = status_answer (client h t (Req_msync a sz
       ((if flags AND 1 \<noteq> 0 then 1 else 0) OR (if flags AND 2 \<noteq> 0 then 4 else 0)
        OR (if flags AND 4 \<noteq> 0 then 2 else 0))) k)"
  unfolding mach_vm_msync_def Let_def by (simp only: sync_memory_request status_of_answer)

lemma protect_request:
  "pickS2CThread p = Some t \<Longrightarrow>
   mach_vm_protect h p st sz vp k
   = status_answer (client h t
       (Req_mprotect (trunc_page h st)
         (dtape_byte_count_to_page_count_round_up h (round_page h (st + sz) - trunc_page h st)
            * page_size h)
         ((if vp AND 1 \<noteq> 0 then 1 else 0) OR (if vp AND 2 \<noteq> 0 then 2 else 0)
          OR (if vp AND 4 \<noteq> 0 then 4 else 0))) k)"
  unfolding mach_vm_protect_def Let_def by (simp only: change_protection_request status_of_answer)

lemma no_thread_no_request:
  assumes "pickS2CThread p = None"
  shows "dtape_hook_task_allocate_pages h p pages prot hint flags k = (0, k)"
    and "dtape_hook_task_map_file h p fd pages prot hint off flags k = (0, k)"
    and "dtape_hook_task_change_protection h p a pages prot k = (False, k)"
    and "mach_vm_protect h p st sz vp k = (KERN_FAILURE, k)"
proof -
  show "dtape_hook_task_allocate_pages h p pages prot hint flags k = (0, k)"
    and "dtape_hook_task_map_file h p fd pages prot hint off flags k = (0, k)"
    using assms
    by (simp_all add: dtape_hook_task_allocate_pages_def Process_allocatePages_def with_thread_def
        dtape_hook_task_map_file_def Process_mapFile_def)
  show change: "dtape_hook_task_change_protection h p a pages prot k = (False, k)" for a pages prot
    using assms
    by (simp add: dtape_hook_task_change_protection_def Process_changeProtection_def with_thread_def)
  show "mach_vm_protect h p st sz vp k = (KERN_FAILURE, k)"
    unfolding mach_vm_protect_def Let_def change by simp
qed

text \<open>C34: What a process is asked to do. With a thread to perform calls on, \<open>mach_vm_protect\<close> asks
  for the smallest range of whole pages that contains the requested range, with the requested
  protection bits; allocating pages asks for a private anonymous mapping, and mapping a file for
  a shared mapping of a duplicate of the descriptor, at an address that is a hint, a fixed free
  place or a place to overwrite as the flags say; \<open>mach_vm_msync\<close> translates each of its
  three flags to the bit of \<open>msync\<close>. An interrupted call, a failed mapping and
  a process without a live thread are errors; in the last case nothing is asked.
  \<open>vm_deallocate\<close>, in contrast, returns the success code exactly when unmapping failed.
\<close>

theorem memory_requests_exact:
  assumes "pages_of h n" and "pickS2CThread p = Some t" and "unat st + unat sz + 2 ^ n \<le> 2 ^ 64"
    and "fd \<ge> 0" and "dup_fd h fd k = (Inr fd', k')" and "pickS2CThread dead = None"
  shows "(\<exists>base len prot. mach_vm_protect h p st sz vp k
            = status_answer (client h t (Req_mprotect base len prot) k)
          \<and> 2 ^ n dvd unat base \<and> 2 ^ n dvd unat base + unat len
          \<and> unat base \<le> unat st \<and> unat st < unat base + 2 ^ n
          \<and> unat st + unat sz \<le> unat base + unat len
          \<and> unat base + unat len < unat st + unat sz + 2 ^ n
          \<and> (\<forall>b \<in> {1, 2, 4}. (prot AND b \<noteq> 0) = (vp AND b \<noteq> 0)))
    \<and> dtape_hook_task_allocate_pages h p pages prot hint flags k
      = pages_answer (client h t
          (Req_mmap hint (pages * page_size h) prot
            (if flags AND 1 = 0 then 0x22 else if flags AND 2 = 0 then 0x100022 else 0x32)
            (- 1) 0 []) k)
    \<and> dtape_hook_task_map_file h p fd pages prot hint off flags k
      = pages_answer (client h t
          (Req_mmap hint (pages * page_size h) prot
            (if flags AND 1 = 0 then 0x01 else if flags AND 2 = 0 then 0x100001 else 0x11)
            0 (off * page_size h) [fd']) k')
    \<and> dtape_hook_task_allocate_pages h dead pages prot hint flags k = (0, k)
    \<and> dtape_hook_task_map_file h dead fd pages prot hint off flags k = (0, k)
    \<and> mach_vm_protect h dead st sz vp k = (KERN_FAILURE, k)
    \<and> (\<exists>lf. mach_vm_msync h p st sz sf k = status_answer (client h t (Req_msync st sz lf) k)
          \<and> (lf AND 1 \<noteq> 0) = (sf AND 1 \<noteq> 0) \<and> (lf AND 4 \<noteq> 0) = (sf AND 2 \<noteq> 0)
          \<and> (lf AND 2 \<noteq> 0) = (sf AND 4 \<noteq> 0))
    \<and> (fst (vm_deallocate h a len k) = KERN_SUCCESS \<longleftrightarrow> \<not> fst (self_munmap h a len k))"
proof (intro conjI)
  let ?len = "dtape_byte_count_to_page_count_round_up h (round_page h (st + sz) - trunc_page h st)
            * page_size h"
  let ?prot = "(if vp AND 1 \<noteq> 0 then 1 else 0) OR (if vp AND 2 \<noteq> 0 then 2 else 0)
          OR (if vp AND 4 \<noteq> 0 then 4 else 0)"
  note range = protect_range [OF assms(1,3)]
  have P: "0 < (2 :: nat) ^ n" by simp
  note hull = page_hull(3,4,7) [OF P, of "unat st" "unat sz"] page_hull(1,2,6) [OF P, of "unat st"]
  show "\<exists>base len prot. mach_vm_protect h p st sz vp k
            = status_answer (client h t (Req_mprotect base len prot) k)
          \<and> 2 ^ n dvd unat base \<and> 2 ^ n dvd unat base + unat len
          \<and> unat base \<le> unat st \<and> unat st < unat base + 2 ^ n
          \<and> unat st + unat sz \<le> unat base + unat len
          \<and> unat base + unat len < unat st + unat sz + 2 ^ n
          \<and> (\<forall>b \<in> {1, 2, 4}. (prot AND b \<noteq> 0) = (vp AND b \<noteq> 0))"
    using hull range
    by - (rule exI [of _ "trunc_page h st"], rule exI [of _ ?len], rule exI [of _ ?prot],
        intro conjI, rule protect_request [OF assms(2)], simp_all)
  show "\<exists>lf. mach_vm_msync h p st sz sf k = status_answer (client h t (Req_msync st sz lf) k)
          \<and> (lf AND 1 \<noteq> 0) = (sf AND 1 \<noteq> 0) \<and> (lf AND 4 \<noteq> 0) = (sf AND 2 \<noteq> 0)
          \<and> (lf AND 2 \<noteq> 0) = (sf AND 4 \<noteq> 0)"
    by (rule exI, intro conjI, rule msync_request [OF assms(2)]) simp_all
  show "(fst (vm_deallocate h a len k) = KERN_SUCCESS) \<longleftrightarrow> \<not> fst (self_munmap h a len k)"
    by (simp add: vm_deallocate_def split: prod.splits)
  show "dtape_hook_task_allocate_pages h dead pages prot hint flags k = (0, k)"
    "dtape_hook_task_map_file h dead fd pages prot hint off flags k = (0, k)"
    "mach_vm_protect h dead st sz vp k = (KERN_FAILURE, k)"
    using assms(6) by (simp_all add: no_thread_no_request)
qed (rule allocate_pages_request [OF assms(2)], rule map_file_request [OF assms(2,4,5)])

theorem memory_requests_exact_witness:
  "\<exists>base len prot. mach_vm_protect flat_host (live_process 1) 0x1800 0x1000 3 (\<lambda>_ _. 0)
        = status_answer (client flat_host 1 (Req_mprotect base len prot) (\<lambda>_ _. 0))
      \<and> unat base \<le> 0x1800 \<and> 0x1800 + 0x1000 \<le> unat base + unat len"
proof -
  have p: "pickS2CThread (live_process 1) = Some 1"
    by (simp add: pickS2CThread_def)
  have dead: "pickS2CThread (live_process 1\<lparr>proc_dead := True\<rparr>) = None"
    by (simp add: pickS2CThread_def)
  have d: "dup_fd flat_host 5 (\<lambda>_ _. 0) = (Inr 6, \<lambda>_ _. 0)"
    by (simp add: flat_host_def)
  have room: "unat (0x1800 :: u64) + unat (0x1000 :: u64) + 2 ^ 12 \<le> 2 ^ 64"
    by simp
  have nums: "unat (0x1800 :: u64) = 0x1800" "unat (0x1000 :: u64) = 0x1000"
    by simp_all
  have fd: "(5 :: int) \<ge> 0" by simp
  from memory_requests_exact [OF flat_host_documented(2) p room fd d dead, where vp = 3,
      THEN conjunct1]
  show ?thesis
    unfolding nums by fast
qed

end
