(* ===== verification/SharedMap.thy ===== *)
theory SharedMap
  imports VmCopy
begin

text \<open>
  Sharing memory between tasks (src/duct-tape/src/memory.c): reference-counted descriptors that
  own a memory file, the shared entries every map keeps in a search tree ordered by address, and
  \<open>mach_vm_remap_external\<close> with its shared and its copying variant. The lemmas account for
  every reference and every memory file on every path of the code, including the \<open>goto out\<close>
  paths; the properties state the accounting for all runs and show two defects.
\<close>

unbundle bit_operations_syntax

section \<open>State\<close>

record shared_descriptor =
  refcount :: nat
  memfd :: nat
  desc_size :: u64

record shared_entry =
  se_address :: u64
  se_size :: u64
  se_page_offset :: u64
  se_descriptor :: nat

text \<open>
  Descriptors and maps live in association lists under their address. A map holds its entries in
  the order of the tree. \<open>memfds\<close> are the open memory files with their contents. \<open>lost\<close> collects
  entries that were created and that no map holds; the code keeps no record of them.
\<close>

record 'k sm_world = "'k vm_world" +
  descs :: "(nat \<times> shared_descriptor) list"
  maps :: "(nat \<times> shared_entry list) list"
  memfds :: "(nat \<times> u8 list) list"
  next_obj :: nat
  lost :: "shared_entry list"

text \<open>The remaining system calls: they succeed or not, and a mapping has an address.\<close>

record 'k memfd_host =
  memfd_create_ok :: "'k \<Rightarrow> bool \<times> 'k"
  ftruncate_ok :: "u64 \<Rightarrow> 'k \<Rightarrow> bool \<times> 'k"
  mmap_memfd :: "u64 \<Rightarrow> 'k \<Rightarrow> u64 \<times> 'k"

record dtape_map =
  map_id :: nat
  map_process :: process

section \<open>Descriptors and entries\<close>

definition dtape_map_shared_descriptor_create ::
  "'k host \<Rightarrow> nat \<Rightarrow> u64 \<Rightarrow> 'k sm_world \<Rightarrow> nat option \<times> 'k sm_world" where
  "dtape_map_shared_descriptor_create h fd sz w =
     (let (ok, k) = malloc_ok h 16 (machine w); w = w\<lparr>machine := k\<rparr> in
      if \<not> ok then (None, w)
      else (Some (next_obj w),
            w\<lparr>descs := (next_obj w, \<lparr>refcount = 1, memfd = fd, desc_size = sz\<rparr>) # descs w,
              next_obj := Suc (next_obj w)\<rparr>))"

definition dtape_map_shared_descriptor_retain :: "nat \<Rightarrow> 'k sm_world \<Rightarrow> 'k sm_world" where
  "dtape_map_shared_descriptor_retain d w =
     (case map_of (descs w) d of
        None \<Rightarrow> w
      | Some sd \<Rightarrow> w\<lparr>descs := AList.update d (sd\<lparr>refcount := refcount sd + 1\<rparr>) (descs w)\<rparr>)"

definition dtape_map_shared_descriptor_release :: "nat \<Rightarrow> 'k sm_world \<Rightarrow> 'k sm_world" where
  "dtape_map_shared_descriptor_release d w =
     (case map_of (descs w) d of
        None \<Rightarrow> w
      | Some sd \<Rightarrow>
          if refcount sd - 1 \<noteq> 0
          then w\<lparr>descs := AList.update d (sd\<lparr>refcount := refcount sd - 1\<rparr>) (descs w)\<rparr>
          else w\<lparr>memfds := AList.delete (memfd sd) (memfds w), descs := AList.delete d (descs w)\<rparr>)"

definition dtape_map_shared_entry_create ::
  "'k host \<Rightarrow> u64 \<Rightarrow> u64 \<Rightarrow> u64 \<Rightarrow> nat \<Rightarrow> 'k sm_world \<Rightarrow> shared_entry option \<times> 'k sm_world" where
  "dtape_map_shared_entry_create h addr sz page_off d w =
     (let (ok, k) = malloc_ok h 56 (machine w); w = w\<lparr>machine := k\<rparr> in
      if \<not> ok then (None, w)
      else (Some \<lparr>se_address = addr, se_size = sz, se_page_offset = page_off, se_descriptor = d\<rparr>,
            dtape_map_shared_descriptor_retain d w))"

definition dtape_map_shared_entry_destroy :: "shared_entry \<Rightarrow> 'k sm_world \<Rightarrow> 'k sm_world" where
  "dtape_map_shared_entry_destroy e w = dtape_map_shared_descriptor_release (se_descriptor e) w"

text \<open>
  \<open>RB_INSERT\<close> with the comparison by address: an element that compares equal to one in the tree
  is not inserted.
\<close>

fun rb_insert :: "shared_entry \<Rightarrow> shared_entry list \<Rightarrow> shared_entry list option" where
  "rb_insert e [] = Some [e]"
| "rb_insert e (x # xs) =
     (if se_address e < se_address x then Some (e # x # xs)
      else if se_address e > se_address x then map_option ((#) x) (rb_insert e xs)
      else None)"

definition tree_of :: "nat \<Rightarrow> 'k sm_world \<Rightarrow> shared_entry list" where
  "tree_of m w = (case map_of (maps w) m of None \<Rightarrow> [] | Some t \<Rightarrow> t)"

definition dtape_map_insert_shared_entry ::
  "nat \<Rightarrow> shared_entry \<Rightarrow> 'k sm_world \<Rightarrow> 'k sm_world" where
  "dtape_map_insert_shared_entry m e w =
     (case rb_insert e (tree_of m w) of
        Some t \<Rightarrow> w\<lparr>maps := AList.update m t (maps w)\<rparr>
      | None \<Rightarrow> w\<lparr>lost := e # lost w\<rparr>)"

definition dtape_map_find_shared_entries_locked ::
  "nat \<Rightarrow> u64 \<Rightarrow> u64 \<Rightarrow> nat \<Rightarrow> 'k sm_world \<Rightarrow> shared_entry list" where
  "dtape_map_find_shared_entries_locked m addr sz entry_count w =
     take entry_count
       (filter (\<lambda>e. \<not> (se_address e + se_size e < addr \<or> se_address e > addr + sz)) (tree_of m w))"

section \<open>Maps\<close>

definition dtape_vm_map_create :: "'k host \<Rightarrow> 'k sm_world \<Rightarrow> nat option \<times> 'k sm_world" where
  "dtape_vm_map_create h w =
     (let (ok, k) = malloc_ok h 64 (machine w); w = w\<lparr>machine := k\<rparr> in
      if \<not> ok then (None, w)
      else (Some (next_obj w),
            w\<lparr>maps := (next_obj w, []) # maps w, next_obj := Suc (next_obj w)\<rparr>))"

definition dtape_vm_map_destroy :: "nat \<Rightarrow> 'k sm_world \<Rightarrow> 'k sm_world" where
  "dtape_vm_map_destroy m w =
     (let w' = fold dtape_map_shared_entry_destroy (tree_of m w) w in
      w'\<lparr>maps := AList.delete m (maps w')\<rparr>)"

section \<open>mach\_vm\_remap\_external\_shared\<close>

text \<open>The locals that the exit path of the function looks at.\<close>

record remap_locals =
  l_memfd :: "nat option"
  l_mapped_addr :: "u64 option"
  l_descriptor :: "nat option"
  l_src_entry :: "shared_entry option"
  l_target_entry :: "shared_entry option"

definition no_locals :: remap_locals where
  "no_locals = \<lparr>l_memfd = None, l_mapped_addr = None, l_descriptor = None, l_src_entry = None,
     l_target_entry = None\<rparr>"

definition close_memfd :: "nat \<Rightarrow> 'k sm_world \<Rightarrow> 'k sm_world" where
  "close_memfd fd w = w\<lparr>memfds := AList.delete fd (memfds w)\<rparr>"

definition remap_out :: "'k host \<Rightarrow> u64 \<Rightarrow> remap_locals \<Rightarrow> 'k sm_world \<Rightarrow> 'k sm_world" where
  "remap_out h map_size L w =
     (let w = (case l_mapped_addr L of None \<Rightarrow> w
               | Some a \<Rightarrow> w\<lparr>machine := snd (self_munmap h a map_size (machine w))\<rparr>);
          w = (case l_descriptor L of None \<Rightarrow> w
               | Some d \<Rightarrow> dtape_map_shared_descriptor_release d w);
          w = (case l_src_entry L of None \<Rightarrow> w | Some e \<Rightarrow> dtape_map_shared_entry_destroy e w);
          w = (case l_target_entry L of None \<Rightarrow> w | Some e \<Rightarrow> dtape_map_shared_entry_destroy e w);
          w = (case l_memfd L of None \<Rightarrow> w | Some fd \<Rightarrow> close_memfd fd w) in
      w)"

text \<open>The part of the source setup after the descriptor has taken over the memory file.\<close>

definition remap_fill_source ::
  "'k host \<Rightarrow> dtape_map \<Rightarrow> u64 \<Rightarrow> u64 \<Rightarrow> u32 \<Rightarrow> nat \<Rightarrow> nat \<Rightarrow> remap_locals \<Rightarrow> 'k sm_world
   \<Rightarrow> (kern_return + unit) \<times> remap_locals \<times> 'k sm_world" where
  "remap_fill_source h src start_memaddr map_size prot fd d L w =
     (case copyinmap h (Task_map (map_process src)) start_memaddr map_size (machine w) of
        (kr, None) \<Rightarrow> (Inl kr, L, w)
      | (_, Some bytes) \<Rightarrow>
          (let w = w\<lparr>memfds := AList.update fd bytes (memfds w)\<rparr>;
               (r, k) = dtape_hook_task_map_file h (map_process src) (int fd)
                  (dtape_byte_count_to_page_count_round_up h map_size) prot start_memaddr 0
                  (dtape_memory_flag_fixed OR dtape_memory_flag_overwrite) (machine w);
               w = w\<lparr>machine := k\<rparr> in
           if r \<noteq> start_memaddr then (Inl KERN_FAILURE, L, w)
           else
           let (e, w) = dtape_map_shared_entry_create h start_memaddr map_size 0 d w in
           case e of
             None \<Rightarrow> (Inl KERN_RESOURCE_SHORTAGE, L, w)
           | Some e \<Rightarrow> (Inr (), L, dtape_map_insert_shared_entry (map_id src) e w)))"

text \<open>
  From the creation of the memory file to \<open>src_setup_done\<close>. Left is a jump to the exit with
  the status; Right continues.
\<close>

definition remap_new_source ::
  "'k host \<Rightarrow> 'k memfd_host \<Rightarrow> dtape_map \<Rightarrow> u64 \<Rightarrow> u64 \<Rightarrow> u32 \<Rightarrow> 'k sm_world
   \<Rightarrow> (kern_return + unit) \<times> remap_locals \<times> 'k sm_world" where
  "remap_new_source h m src start_memaddr map_size prot w =
     (let L = no_locals; (ok, k) = memfd_create_ok m (machine w); w = w\<lparr>machine := k\<rparr> in
      if \<not> ok then (Inl KERN_RESOURCE_SHORTAGE, L, w)
      else
      let fd = next_obj w;
          w = w\<lparr>memfds := (fd, []) # memfds w, next_obj := Suc fd\<rparr>;
          L = L\<lparr>l_memfd := Some fd\<rparr>;
          (ok, k) = ftruncate_ok m map_size (machine w); w = w\<lparr>machine := k\<rparr> in
      if \<not> ok then (Inl KERN_RESOURCE_SHORTAGE, L, w)
      else
      let (a, k) = mmap_memfd m map_size (machine w); w = w\<lparr>machine := k\<rparr> in
      if a = MAP_FAILED then (Inl KERN_RESOURCE_SHORTAGE, L, w)
      else
      let L = L\<lparr>l_mapped_addr := Some a\<rparr>;
          (d, w) = dtape_map_shared_descriptor_create h fd map_size w in
      case d of
        None \<Rightarrow> (Inl KERN_RESOURCE_SHORTAGE, L, w)
      | Some d \<Rightarrow>
          remap_fill_source h src start_memaddr map_size prot fd d
            (L\<lparr>l_descriptor := Some d, l_memfd := None\<rparr>) w)"

text \<open>The choice between an existing and a new shared source.\<close>

definition remap_setup ::
  "'k host \<Rightarrow> 'k memfd_host \<Rightarrow> dtape_map \<Rightarrow> u64 \<Rightarrow> u64 \<Rightarrow> u32 \<Rightarrow> 'k sm_world
   \<Rightarrow> ((kern_return + unit) \<times> remap_locals \<times> 'k sm_world) option" where
  "remap_setup h m src start_memaddr map_size prot w =
     (let found = dtape_map_find_shared_entries_locked (map_id src) start_memaddr map_size 8 w in
      if length found = 1 \<and> se_address (hd found) = start_memaddr \<and> se_size (hd found) \<ge> map_size
      then Some (Inr (), no_locals\<lparr>l_descriptor := Some (se_descriptor (hd found))\<rparr>,
                 dtape_map_shared_descriptor_retain (se_descriptor (hd found)) w)
      else if found \<noteq> [] then None
      else Some (remap_new_source h m src start_memaddr map_size prot w))"

definition remap_target ::
  "'k host \<Rightarrow> dtape_map \<Rightarrow> u64 \<Rightarrow> u32 \<Rightarrow> nat \<Rightarrow> remap_locals \<Rightarrow> 'k sm_world
   \<Rightarrow> (kern_return + u64) \<times> remap_locals \<times> 'k sm_world" where
  "remap_target h target map_size prot d L w =
     (let fd = (case map_of (descs w) d of None \<Rightarrow> 0 | Some sd \<Rightarrow> memfd sd);
          (target_addr, k) = dtape_hook_task_map_file h (map_process target) (int fd)
             (dtape_byte_count_to_page_count_round_up h map_size) prot 0 0 0 (machine w);
          w = w\<lparr>machine := k\<rparr> in
      if target_addr = 0 then (Inl KERN_FAILURE, L, w)
      else
      let (e, w) = dtape_map_shared_entry_create h target_addr map_size 0 d w in
      case e of
        None \<Rightarrow> (Inl KERN_RESOURCE_SHORTAGE, L, w)
      | Some e \<Rightarrow> (Inr target_addr, L, dtape_map_insert_shared_entry (map_id target) e w))"

abbreviation VM_FLAGS_ANYWHERE :: u32 where "VM_FLAGS_ANYWHERE \<equiv> 0x0001"
abbreviation VM_FLAGS_OVERWRITE :: u32 where "VM_FLAGS_OVERWRITE \<equiv> 0x4000"
abbreviation VM_FLAGS_RETURN_DATA_ADDR :: u32 where "VM_FLAGS_RETURN_DATA_ADDR \<equiv> 0x100000"
abbreviation VM_FLAGS_USER_REMAP :: u32 where "VM_FLAGS_USER_REMAP \<equiv> 0x104069"

text \<open>The results stored through the pointers: address, current and maximal protection.\<close>

record remap_result =
  rr_address :: u64
  rr_cur_protection :: u32
  rr_max_protection :: u32

definition region_prot_bits :: "dtape_memory_region_info \<Rightarrow> u32" where
  "region_prot_bits ri =
     (if region_protection ri AND 1 \<noteq> 0 then 1 else 0)
     OR (if region_protection ri AND 2 \<noteq> 0 then 2 else 0)
     OR (if region_protection ri AND 4 \<noteq> 0 then 4 else 0)"

definition mach_vm_remap_external_shared ::
  "'k host \<Rightarrow> 'k memfd_host \<Rightarrow> dtape_map \<Rightarrow> u64 \<Rightarrow> u32 \<Rightarrow> dtape_map \<Rightarrow> u64 \<Rightarrow> 'k sm_world
   \<Rightarrow> (kern_return \<times> remap_result option \<times> 'k sm_world) result" where
  "mach_vm_remap_external_shared h m target sz flags src memory_address w =
     (let end_memaddr = round_page h (memory_address + sz);
          start_memaddr = trunc_page h memory_address;
          map_size = end_memaddr - start_memaddr;
          finish = (\<lambda>kr L w. Inr (kr, None, remap_out h map_size L w)) in
      case dtape_hook_task_get_memory_region_info (page_size h)
             (proc_dead (map_process src), maps_file h (proc_id (map_process src)) (machine w))
             memory_address of
        None \<Rightarrow> finish KERN_FAILURE no_locals w
      | Some ri \<Rightarrow>
          (let prot = region_prot_bits ri in
           case remap_setup h m src start_memaddr map_size prot w of
             None \<Rightarrow> Inl (Undefined_behaviour ''Cannot complexly remap existing shared regions yet'')
           | Some (Inl kr, L, w) \<Rightarrow> finish kr L w
           | Some (Inr _, L, w) \<Rightarrow>
               (case remap_target h target map_size prot (the (l_descriptor L)) L w of
                  (Inl kr, L, w) \<Rightarrow> finish kr L w
                | (Inr target_addr, L, w) \<Rightarrow>
                    Inr (KERN_SUCCESS,
                         Some \<lparr>rr_address = (if flags AND VM_FLAGS_RETURN_DATA_ADDR \<noteq> 0
                                              then target_addr + (memory_address - start_memaddr)
                                              else target_addr),
                               rr_cur_protection = prot, rr_max_protection = VM_PROT_ALL\<rparr>,
                         remap_out h map_size L w))))"

section \<open>mach\_vm\_remap\_external and mach\_vm\_remap\_new\_external\<close>

definition mach_vm_remap_external ::
  "'k host \<Rightarrow> 'k memfd_host \<Rightarrow> dtape_map \<Rightarrow> u64 \<Rightarrow> u64 \<Rightarrow> u32 \<Rightarrow> dtape_map \<Rightarrow> u64 \<Rightarrow> bool
   \<Rightarrow> 'k sm_world \<Rightarrow> (kern_return \<times> remap_result option \<times> 'k sm_world) result" where
  "mach_vm_remap_external h m target addr sz flags src memory_address copy w =
     (if \<not> copy then mach_vm_remap_external_shared h m target sz flags src memory_address w
      else
      let ((kr, mem_copy), w) =
            vm_map_copyin_common h (Task_map (map_process src)) memory_address sz False w in
      if kr \<noteq> KERN_SUCCESS then Inr (kr, None, vm_map_copy_discard mem_copy w)
      else
      let memflags = (if flags AND VM_FLAGS_ANYWHERE = 0 then dtape_memory_flag_fixed else 0)
                     OR (if flags AND VM_FLAGS_OVERWRITE \<noteq> 0 then dtape_memory_flag_overwrite else 0);
          (a, k) = dtape_hook_task_allocate_pages h (map_process target)
             (dtape_byte_count_to_page_count_round_up h sz) (PROT_READ OR PROT_WRITE OR PROT_EXEC)
             (if flags AND VM_FLAGS_ANYWHERE \<noteq> 0 then 0 else addr) memflags (machine w);
          w = w\<lparr>machine := k\<rparr> in
      if a = 0 then Inr (KERN_RESOURCE_SHORTAGE, None, vm_map_copy_discard mem_copy w)
      else
      let (kr, w) = vm_map_copy_overwrite h (Task_map (map_process target)) a mem_copy w in
      if kr \<noteq> KERN_SUCCESS then
        (let w = vm_map_copy_discard mem_copy w in
         Inr (kr, None,
              w\<lparr>machine := snd (dtape_hook_task_free_pages h (map_process target) a
                  (dtape_byte_count_to_page_count_round_up h sz) (machine w))\<rparr>))
      else Inr (KERN_SUCCESS,
                Some \<lparr>rr_address = a, rr_cur_protection = VM_PROT_READ OR VM_PROT_WRITE,
                      rr_max_protection = VM_PROT_ALL\<rparr>, w))"

text \<open>
  The new call checks its arguments and resolves the source port. \<open>read_map\<close> and
  \<open>full_map\<close> are what the port converts to for reading and for full access. Besides the
  status and the values behind the pointers the result says whether the map reference was
  dropped and whether the send right was consumed.
\<close>

record 'k remap_new_outcome =
  rn_kr :: kern_return
  rn_values :: remap_result
  rn_world :: "'k sm_world"
  rn_map_released :: "nat option"
  rn_right_consumed :: bool

definition mach_vm_remap_new_external ::
  "'k host \<Rightarrow> 'k memfd_host \<Rightarrow> dtape_map option \<Rightarrow> remap_result \<Rightarrow> u64 \<Rightarrow> u32
   \<Rightarrow> dtape_map option \<Rightarrow> dtape_map option \<Rightarrow> u64 \<Rightarrow> bool \<Rightarrow> 'k sm_world
   \<Rightarrow> 'k remap_new_outcome result" where
  "mach_vm_remap_new_external h m target io sz flags read_map full_map memory_address copy w =
     (let flags = flags OR VM_FLAGS_RETURN_DATA_ADDR;
          cur = rr_cur_protection io; mx = rr_max_protection io;
          reject = (\<lambda>kr. Inr \<lparr>rn_kr = kr, rn_values = io, rn_world = w, rn_map_released = None,
                             rn_right_consumed = False\<rparr>) in
      if flags AND NOT VM_FLAGS_USER_REMAP \<noteq> 0 then reject KERN_INVALID_ARGUMENT
      else
      case target of
        None \<Rightarrow> reject KERN_INVALID_ARGUMENT
      | Some target \<Rightarrow>
          if cur AND NOT VM_PROT_ALL \<noteq> 0 \<or> mx AND NOT VM_PROT_ALL \<noteq> 0 \<or> cur AND mx \<noteq> cur
          then reject KERN_INVALID_ARGUMENT
          else if mx AND (VM_PROT_WRITE OR VM_PROT_EXECUTE) = VM_PROT_WRITE OR VM_PROT_EXECUTE
          then reject KERN_PROTECTION_FAILURE
          else
          case (if copy \<or> mx = VM_PROT_READ \<or> mx = 0 then read_map else full_map) of
            None \<Rightarrow> reject KERN_INVALID_ARGUMENT
          | Some src \<Rightarrow>
              (case mach_vm_remap_external h m target (rr_address io) sz flags src memory_address
                      copy w of
                 Inl e \<Rightarrow> Inl e
               | Inr (kr, res, w) \<Rightarrow>
                   Inr \<lparr>rn_kr = kr, rn_values = (case res of None \<Rightarrow> io | Some r \<Rightarrow> r), rn_world = w,
                        rn_map_released = Some (map_id src), rn_right_consumed = (kr = KERN_SUCCESS)\<rparr>))"

section \<open>Accounting\<close>

lemma mset_delete:
  "distinct (map fst al) \<Longrightarrow> map_of al k = Some v \<Longrightarrow>
   mset (map f al) = add_mset (f (k, v)) (mset (map f (AList.delete k al)))"
proof (induction al)
  case (Cons x al)
  show ?case
  proof (cases "fst x = k")
    case True
    with Cons.prems have "k \<notin> fst ` set al"
      by auto
    then have "AList.delete k al = al"
      by (simp add: delete_idem)
    with True Cons.prems show ?thesis by (cases x) auto
  next
    case False
    with Cons show ?thesis by (cases x) auto
  qed
qed simp

lemma map_fst_update: "map_of al k = Some v \<Longrightarrow> map fst (AList.update k v' al) = map fst al"
  by (induction al) auto

lemma map_snd_update:
  "map_of al k = Some v \<Longrightarrow> f v' = f v \<Longrightarrow>
   map (f \<circ> snd) (AList.update k v' al) = map (f \<circ> snd) al"
  by (induction al) auto

lemma map_fst_delete: "distinct (map fst al) \<Longrightarrow> distinct (map fst (AList.delete k al))"
  by (rule distinct_delete)

text \<open>The references held by the entries of all maps and by the lost ones.\<close>

definition entry_refs :: "'k sm_world \<Rightarrow> nat multiset" where
  "entry_refs w = mset (map se_descriptor (concat (map snd (maps w))))
     + mset (map se_descriptor (lost w))"

definition refs_of :: "'k sm_world \<Rightarrow> nat \<Rightarrow> nat" where
  "refs_of w d = (case map_of (descs w) d of None \<Rightarrow> 0 | Some sd \<Rightarrow> refcount sd)"

text \<open>
  \<open>accounted w ds fds\<close>: every descriptor counts the entries that refer to it and the local
  references \<open>ds\<close>, none of them is at zero, and the open memory files are those of the
  descriptors and the local \<open>fds\<close>, each once.
\<close>

definition accounted :: "'k sm_world \<Rightarrow> nat multiset \<Rightarrow> nat multiset \<Rightarrow> bool" where
  "accounted w ds fds \<longleftrightarrow>
     distinct (map fst (descs w)) \<and> distinct (map fst (maps w)) \<and> distinct (map fst (memfds w))
     \<and> (\<forall>d. refs_of w d = count (entry_refs w + ds) d)
     \<and> (\<forall>sd \<in> snd ` set (descs w). 0 < refcount sd)
     \<and> mset (map fst (memfds w)) = mset (map (memfd \<circ> snd) (descs w)) + fds
     \<and> (\<forall>x \<in> fst ` set (descs w) \<union> fst ` set (maps w) \<union> fst ` set (memfds w). x < next_obj w)"

lemma accounted_machine [simp]: "accounted (w\<lparr>machine := k\<rparr>) ds fds = accounted w ds fds"
  by (simp add: accounted_def refs_of_def entry_refs_def)

lemma accounted_refs: "accounted w ds fds \<Longrightarrow> refs_of w d = count (entry_refs w + ds) d"
  by (simp add: accounted_def)

lemma accounted_distinct:
  "accounted w ds fds \<Longrightarrow> distinct (map fst (descs w))"
  "accounted w ds fds \<Longrightarrow> distinct (map fst (maps w))"
  "accounted w ds fds \<Longrightarrow> distinct (map fst (memfds w))"
  by (simp_all add: accounted_def)

lemma accounted_files:
  "accounted w ds fds \<Longrightarrow> mset (map fst (memfds w)) = mset (map (memfd \<circ> snd) (descs w)) + fds"
  by (simp add: accounted_def)

lemma accounted_fresh:
  "accounted w ds fds \<Longrightarrow>
   \<forall>x \<in> fst ` set (descs w) \<union> fst ` set (maps w) \<union> fst ` set (memfds w). x < next_obj w"
  by (simp add: accounted_def)

lemma accounted_positive: "accounted w ds fds \<Longrightarrow> \<forall>sd \<in> snd ` set (descs w). 0 < refcount sd"
  by (simp add: accounted_def)

lemma accountedI:
  assumes "distinct (map fst (descs w))" and "distinct (map fst (maps w))"
    and "distinct (map fst (memfds w))" and "\<And>d. refs_of w d = count (entry_refs w + ds) d"
    and "\<forall>sd \<in> snd ` set (descs w). 0 < refcount sd"
    and "mset (map fst (memfds w)) = mset (map (memfd \<circ> snd) (descs w)) + fds"
    and "\<forall>x \<in> fst ` set (descs w) \<union> fst ` set (maps w) \<union> fst ` set (memfds w). x < next_obj w"
  shows "accounted w ds fds"
  using assms by (simp add: accounted_def)

lemma accounted_descriptor:
  assumes "accounted w ds fds" and "d \<in># entry_refs w + ds"
  obtains sd where "map_of (descs w) d = Some sd" "0 < refcount sd"
proof -
  have "refs_of w d > 0"
    using assms by (simp add: accounted_refs [OF assms(1)] count_greater_zero_iff [symmetric]
        del: count_greater_zero_iff)
  then obtain sd where "map_of (descs w) d = Some sd" "0 < refcount sd"
    by (auto simp: refs_of_def split: option.splits)
  then show ?thesis by (rule that)
qed

lemma set_update_alist:
  "set (AList.update k v al) \<subseteq> insert (k, v) (set al)"
  by (induction al) auto

text \<open>A change of the count of one descriptor.\<close>

lemma accounted_recount:
  assumes acc: "accounted w ds fds" and sd: "map_of (descs w) d = Some sd" and pos: "0 < n"
    and count: "\<And>d'. count (entry_refs w + ds') d'
      = (if d' = d then n else count (entry_refs w + ds) d')"
  shows "accounted (w\<lparr>descs := AList.update d (sd\<lparr>refcount := n\<rparr>) (descs w)\<rparr>) ds' fds"
proof -
  let ?al = "AList.update d (sd\<lparr>refcount := n\<rparr>) (descs w)"
  have keys: "map fst ?al = map fst (descs w)"
    by (rule map_fst_update [OF sd])
  then have "fst ` set ?al = fst ` set (descs w)"
    by (metis set_map)
  moreover have "map (memfd \<circ> snd) ?al = map (memfd \<circ> snd) (descs w)"
    by (rule map_snd_update [OF sd]) simp
  moreover have "\<forall>sd \<in> snd ` set ?al. 0 < refcount sd"
    using acc pos set_update_alist [of d "sd\<lparr>refcount := n\<rparr>" "descs w"]
    by (fastforce simp: accounted_def)
  moreover have "refs_of (w\<lparr>descs := ?al\<rparr>) d' = count (entry_refs w + ds') d'" for d'
    using accounted_refs [OF acc, of d'] count [of d']
    by (simp add: refs_of_def alist_simps)
  moreover have "entry_refs (w\<lparr>descs := ?al\<rparr>) = entry_refs w"
    by (simp add: entry_refs_def)
  ultimately show ?thesis
    using acc keys unfolding accounted_def by simp
qed

lemma retain_accounted:
  assumes acc: "accounted w ds fds" and d: "d \<in># entry_refs w + ds"
  shows "accounted (dtape_map_shared_descriptor_retain d w) (add_mset d ds) fds"
proof -
  from accounted_descriptor [OF acc d] obtain sd where sd: "map_of (descs w) d = Some sd" .
  then have "refcount sd = count (entry_refs w + ds) d"
    using accounted_refs [OF acc, of d] by (simp add: refs_of_def)
  then show ?thesis
    unfolding dtape_map_shared_descriptor_retain_def sd option.case
    by (intro accounted_recount [OF acc sd]) simp_all
qed

lemma release_accounted:
  assumes acc: "accounted w (add_mset d ds) fds"
  shows "accounted (dtape_map_shared_descriptor_release d w) ds fds"
proof -
  have "d \<in># entry_refs w + add_mset d ds" by simp
  from accounted_descriptor [OF acc this] obtain sd where sd: "map_of (descs w) d = Some sd" .
  then have rc: "refcount sd = Suc (count (entry_refs w + ds) d)"
    using accounted_refs [OF acc, of d] by (simp add: refs_of_def)
  show ?thesis
  proof (cases "refcount sd - 1 = 0")
    case False
    then show ?thesis
      unfolding dtape_map_shared_descriptor_release_def sd option.case
      using rc by (simp, intro accounted_recount [OF acc sd]) simp_all
  next
    case True
    let ?w = "w\<lparr>memfds := AList.delete (memfd sd) (memfds w), descs := AList.delete d (descs w)\<rparr>"
    have release: "dtape_map_shared_descriptor_release d w = ?w"
      using True by (simp add: dtape_map_shared_descriptor_release_def sd)
    have gone: "count (entry_refs w + ds) d = 0" using True rc by simp
    have "memfd sd \<in># mset (map (memfd \<circ> snd) (descs w))"
      using map_of_SomeD [OF sd] by force
    then have "memfd sd \<in> fst ` set (memfds w)"
      using accounted_files [OF acc] by (metis in_multiset_in_set set_map union_iff)
    then obtain bs where bs: "map_of (memfds w) (memfd sd) = Some bs"
      by (metis map_of_eq_None_iff not_None_eq)
    have files: "mset (map fst (memfds w))
        = add_mset (memfd sd) (mset (map fst (AList.delete (memfd sd) (memfds w))))"
      using mset_delete [OF accounted_distinct(3) [OF acc] bs, of fst] by simp
    have owners: "mset (map (memfd \<circ> snd) (descs w))
        = add_mset (memfd sd) (mset (map (memfd \<circ> snd) (AList.delete d (descs w))))"
      using mset_delete [OF accounted_distinct(1) [OF acc] sd, of "memfd \<circ> snd"] by simp
    have sub: "set (AList.delete d (descs w)) \<subseteq> set (descs w)"
      "set (AList.delete (memfd sd) (memfds w)) \<subseteq> set (memfds w)"
      by (auto simp: AList.delete_eq)
    have fresh: "\<forall>x \<in> fst ` set (AList.delete d (descs w)) \<union> fst ` set (maps w)
        \<union> fst ` set (AList.delete (memfd sd) (memfds w)). x < next_obj w"
      using accounted_fresh [OF acc] sub by blast
    have "accounted ?w ds fds"
    proof (rule accountedI)
      show "refs_of ?w d' = count (entry_refs ?w + ds) d'" for d'
        using accounted_refs [OF acc, of d'] gone
        by (auto simp: refs_of_def alist_simps entry_refs_def)
      show "mset (map fst (memfds ?w)) = mset (map (memfd \<circ> snd) (descs ?w)) + fds"
        using accounted_files [OF acc] unfolding files owners by simp
      show "\<forall>sd \<in> snd ` set (descs ?w). 0 < refcount sd"
        using accounted_positive [OF acc] sub(1) by auto
      show "\<forall>x \<in> fst ` set (descs ?w) \<union> fst ` set (maps ?w) \<union> fst ` set (memfds ?w).
          x < next_obj ?w"
        using fresh by simp
    qed (use accounted_distinct [OF acc] in \<open>simp_all add: alist_simps\<close>)
    then show ?thesis by (simp only: release)
  qed
qed

text \<open>Creation of a descriptor takes over a memory file; closing gives one up.\<close>

lemma refs_of_fresh: "accounted w ds fds \<Longrightarrow> count (entry_refs w + ds) (next_obj w) = 0"
proof -
  assume acc: "accounted w ds fds"
  then have "next_obj w \<notin> fst ` set (descs w)"
    using accounted_fresh [OF acc] by blast
  then have "map_of (descs w) (next_obj w) = None"
    by (simp add: map_of_eq_None_iff)
  then show ?thesis
    using accounted_refs [OF acc, of "next_obj w"] by (simp add: refs_of_def)
qed

lemma add_descriptor_accounted:
  assumes acc: "accounted w ds (add_mset fd fds)"
  shows "accounted (w\<lparr>descs := (next_obj w, \<lparr>refcount = 1, memfd = fd, desc_size = sz\<rparr>) # descs w,
      next_obj := Suc (next_obj w)\<rparr>) (add_mset (next_obj w) ds) fds" (is "accounted ?w _ _")
proof (rule accountedI)
  have new: "next_obj w \<notin> fst ` set (descs w)"
    using accounted_fresh [OF acc] by blast
  then show "distinct (map fst (descs ?w))"
    using accounted_distinct(1) [OF acc] by simp
  show "refs_of ?w d = count (entry_refs ?w + add_mset (next_obj w) ds) d" for d
    using accounted_refs [OF acc, of d] refs_of_fresh [OF acc]
    by (auto simp: refs_of_def entry_refs_def)
  show "\<forall>sd \<in> snd ` set (descs ?w). 0 < refcount sd"
    using accounted_positive [OF acc] by simp
  show "\<forall>x \<in> fst ` set (descs ?w) \<union> fst ` set (maps ?w) \<union> fst ` set (memfds ?w). x < next_obj ?w"
    using accounted_fresh [OF acc] by (auto intro: less_SucI)
qed (use accounted_distinct [OF acc] accounted_files [OF acc] in simp_all)

lemma descriptor_create_accounted:
  assumes "accounted w ds (add_mset fd fds)"
    and "dtape_map_shared_descriptor_create h fd sz w = (r, w')"
  shows "case r of None \<Rightarrow> accounted w' ds (add_mset fd fds) | Some d \<Rightarrow> accounted w' (add_mset d ds) fds"
    and "maps w' = maps w"
  using assms add_descriptor_accounted [of "w\<lparr>machine := snd (malloc_ok h 16 (machine w))\<rparr>"]
  by (auto simp: dtape_map_shared_descriptor_create_def Let_def split: prod.splits if_splits)

lemma open_memfd_accounted:
  assumes acc: "accounted w ds fds"
  shows "accounted (w\<lparr>memfds := (next_obj w, b) # memfds w, next_obj := Suc (next_obj w)\<rparr>) ds
    (add_mset (next_obj w) fds)" (is "accounted ?w _ _")
proof (rule accountedI)
  show "distinct (map fst (memfds ?w))"
    using accounted_distinct(3) [OF acc] accounted_fresh [OF acc] by auto
  show "refs_of ?w d = count (entry_refs ?w + ds) d" for d
    using accounted_refs [OF acc, of d] by (simp add: refs_of_def entry_refs_def)
  show "\<forall>x \<in> fst ` set (descs ?w) \<union> fst ` set (maps ?w) \<union> fst ` set (memfds ?w). x < next_obj ?w"
    using accounted_fresh [OF acc] by (auto intro: less_SucI)
qed (use accounted_distinct [OF acc] accounted_files [OF acc] accounted_positive [OF acc] in simp_all)

lemma fill_memfd_accounted:
  assumes acc: "accounted w ds fds" and "fd \<in> fst ` set (memfds w)"
  shows "accounted (w\<lparr>memfds := AList.update fd b (memfds w)\<rparr>) ds fds" (is "accounted ?w _ _")
proof -
  obtain b0 where "map_of (memfds w) fd = Some b0"
    using assms(2) by (metis map_of_eq_None_iff not_None_eq)
  from map_fst_update [OF this] have keys: "map fst (memfds ?w) = map fst (memfds w)" by simp
  then have "fst ` set (memfds ?w) = fst ` set (memfds w)" by (metis set_map)
  with keys acc show ?thesis
    by (simp add: accounted_def refs_of_def entry_refs_def)
qed

lemma close_memfd_accounted:
  assumes acc: "accounted w ds (add_mset fd fds)"
  shows "accounted (close_memfd fd w) ds fds"
proof (rule accountedI)
  have "fd \<in> fst ` set (memfds w)"
    using accounted_files [OF acc] by (metis in_multiset_in_set set_map union_single_eq_member union_iff)
  then obtain b where b: "map_of (memfds w) fd = Some b"
    by (metis map_of_eq_None_iff not_None_eq)
  show "mset (map fst (memfds (close_memfd fd w)))
      = mset (map (memfd \<circ> snd) (descs (close_memfd fd w))) + fds"
    using mset_delete [OF accounted_distinct(3) [OF acc] b, of fst] accounted_files [OF acc]
    by (simp add: close_memfd_def)
  show "refs_of (close_memfd fd w) d = count (entry_refs (close_memfd fd w) + ds) d" for d
    using accounted_refs [OF acc, of d] by (simp add: refs_of_def entry_refs_def close_memfd_def)
  show "\<forall>x \<in> fst ` set (descs (close_memfd fd w)) \<union> fst ` set (maps (close_memfd fd w))
      \<union> fst ` set (memfds (close_memfd fd w)). x < next_obj (close_memfd fd w)"
    using accounted_fresh [OF acc] by (auto simp: close_memfd_def AList.delete_eq)
qed (use accounted_distinct [OF acc] accounted_positive [OF acc] in
      \<open>simp_all add: close_memfd_def alist_simps\<close>)

text \<open>An entry takes a reference when it is created and hands it to the map it is inserted into.\<close>

lemma retain_maps [simp]: "maps (dtape_map_shared_descriptor_retain d w) = maps w"
  by (simp add: dtape_map_shared_descriptor_retain_def split: option.splits)

lemma release_maps [simp]: "maps (dtape_map_shared_descriptor_release d w) = maps w"
  by (simp add: dtape_map_shared_descriptor_release_def split: option.splits)

lemma entry_refs_machine [simp]: "entry_refs (w\<lparr>machine := k\<rparr>) = entry_refs w"
  by (simp add: entry_refs_def)

lemma entry_create_accounted:
  assumes "accounted w ds fds" and "d \<in># ds"
    and "dtape_map_shared_entry_create h a sz off d w = (r, w')"
  shows "case r of None \<Rightarrow> accounted w' ds fds
      | Some e \<Rightarrow> accounted w' (add_mset (se_descriptor e) ds) fds \<and> se_address e = a
          \<and> se_size e = sz \<and> se_descriptor e = d"
    and "maps w' = maps w"
  using assms retain_accounted [of "w\<lparr>machine := snd (malloc_ok h 56 (machine w))\<rparr>" ds fds d]
  by (auto simp: dtape_map_shared_entry_create_def Let_def split: prod.splits if_splits)

lemma rb_insert_mset: "rb_insert e t = Some t' \<Longrightarrow> mset t' = add_mset e (mset t)"
  by (induction t arbitrary: t') (auto split: if_splits)

lemma mset_concat_update:
  "distinct (map fst al) \<Longrightarrow> map_of al m = Some t \<Longrightarrow> mset t' = add_mset e (mset t) \<Longrightarrow>
   mset (concat (map snd (AList.update m t' al))) = add_mset e (mset (concat (map snd al)))"
  by (induction al) auto

lemma insert_entry_accounted:
  assumes acc: "accounted w (add_mset (se_descriptor e) ds) fds" and m: "m \<in> fst ` set (maps w)"
  shows "accounted (dtape_map_insert_shared_entry m e w) ds fds" (is "accounted ?w _ _")
    and "map fst (maps (dtape_map_insert_shared_entry m e w)) = map fst (maps w)"
proof -
  obtain t where t: "map_of (maps w) m = Some t"
    using m by (metis map_of_eq_None_iff not_None_eq)
  then have tree: "tree_of m w = t" by (simp add: tree_of_def)
  show keys: "map fst (maps ?w) = map fst (maps w)"
    using map_fst_update [OF t] by (simp add: dtape_map_insert_shared_entry_def split: option.splits)
  then have keyset: "fst ` set (maps ?w) = fst ` set (maps w)" by (metis set_map)
  have refs: "entry_refs ?w = add_mset (se_descriptor e) (entry_refs w)"
  proof (cases "rb_insert e t")
    case None
    then show ?thesis by (simp add: dtape_map_insert_shared_entry_def tree entry_refs_def)
  next
    case (Some t')
    from mset_concat_update [OF accounted_distinct(2) [OF acc] t rb_insert_mset [OF Some]]
    have "mset (map se_descriptor (concat (map snd (AList.update m t' (maps w)))))
        = add_mset (se_descriptor e) (mset (map se_descriptor (concat (map snd (maps w)))))"
      by (metis image_mset_add_mset mset_map)
    then show ?thesis
      by (simp add: dtape_map_insert_shared_entry_def tree Some entry_refs_def)
  qed
  have same: "descs ?w = descs w" "memfds ?w = memfds w" "next_obj ?w = next_obj w"
    by (simp_all add: dtape_map_insert_shared_entry_def split: option.splits)
  show "accounted ?w ds fds"
    using acc keys keyset refs same by (simp add: accounted_def refs_of_def)
qed

section \<open>Accounting of the remap paths\<close>

definition held_refs :: "remap_locals \<Rightarrow> nat multiset" where
  "held_refs L = (case l_descriptor L of None \<Rightarrow> {#} | Some d \<Rightarrow> {#d#})
     + (case l_src_entry L of None \<Rightarrow> {#} | Some e \<Rightarrow> {#se_descriptor e#})
     + (case l_target_entry L of None \<Rightarrow> {#} | Some e \<Rightarrow> {#se_descriptor e#})"

definition held_fds :: "remap_locals \<Rightarrow> nat multiset" where
  "held_fds L = (case l_memfd L of None \<Rightarrow> {#} | Some fd \<Rightarrow> {#fd#})"

definition release_opt :: "nat option \<Rightarrow> 'k sm_world \<Rightarrow> 'k sm_world" where
  "release_opt d w = (case d of None \<Rightarrow> w | Some d \<Rightarrow> dtape_map_shared_descriptor_release d w)"

definition opt_ref :: "nat option \<Rightarrow> nat multiset" where
  "opt_ref d = (case d of None \<Rightarrow> {#} | Some d \<Rightarrow> {#d#})"

lemma release_opt_accounted:
  "accounted w (opt_ref d + ds) fds \<Longrightarrow> accounted (release_opt d w) ds fds"
  by (cases d) (simp_all add: release_opt_def opt_ref_def release_accounted)

lemma remap_out_eq:
  "remap_out h n L w =
     (let w = w\<lparr>machine := (case l_mapped_addr L of None \<Rightarrow> machine w
                | Some a \<Rightarrow> snd (self_munmap h a n (machine w)))\<rparr>;
          w = release_opt (map_option se_descriptor (l_target_entry L))
                (release_opt (map_option se_descriptor (l_src_entry L))
                  (release_opt (l_descriptor L) w)) in
      case l_memfd L of None \<Rightarrow> w | Some fd \<Rightarrow> close_memfd fd w)"
  by (simp add: remap_out_def release_opt_def dtape_map_shared_entry_destroy_def Let_def
      split: option.splits)

lemma release_opt_maps [simp]: "maps (release_opt d w) = maps w"
  by (cases d) (simp_all add: release_opt_def)

lemma remap_out_maps [simp]: "maps (remap_out h n L w) = maps w"
  by (simp add: remap_out_eq Let_def close_memfd_def split: option.splits)

lemma held_refs_eq:
  "held_refs L = opt_ref (l_descriptor L) + (opt_ref (map_option se_descriptor (l_src_entry L))
     + opt_ref (map_option se_descriptor (l_target_entry L)))"
  by (simp add: held_refs_def opt_ref_def split: option.splits)

lemma remap_out_accounted:
  assumes "accounted w (held_refs L) (held_fds L)"
  shows "accounted (remap_out h n L w) {#} {#}"
proof -
  let ?k = "case l_mapped_addr L of None \<Rightarrow> machine w | Some a \<Rightarrow> snd (self_munmap h a n (machine w))"
  let ?w = "release_opt (map_option se_descriptor (l_target_entry L))
    (release_opt (map_option se_descriptor (l_src_entry L))
      (release_opt (l_descriptor L) (w\<lparr>machine := ?k\<rparr>)))"
  from assms have "accounted (w\<lparr>machine := ?k\<rparr>) (held_refs L) (held_fds L)" by simp
  then have "accounted ?w {#} (held_fds L)"
    unfolding held_refs_eq by (intro release_opt_accounted) simp
  then show ?thesis
    by (cases "l_memfd L") (simp_all add: remap_out_eq Let_def held_fds_def close_memfd_accounted)
qed

text \<open>
  A stage of the function is right when the locals it ends with hold exactly the references and
  files that are open on their account, and no map has come or gone.
\<close>

definition stage_ok :: "'k sm_world \<Rightarrow> remap_locals \<Rightarrow> 'k sm_world \<Rightarrow> bool" where
  "stage_ok w L w' \<longleftrightarrow> accounted w' (held_refs L) (held_fds L) \<and> map fst (maps w') = map fst (maps w)"

lemma stage_ok_refl: "accounted w {#} {#} \<Longrightarrow> stage_ok w no_locals w"
  by (simp add: stage_ok_def no_locals_def held_refs_def held_fds_def)

lemma entry_stage:
  assumes acc: "accounted w {#d#} {#}" and m: "m \<in> fst ` set (maps w)"
    and e: "dtape_map_shared_entry_create h a sz off d w = (r, w')"
  shows "case r of None \<Rightarrow> accounted w' {#d#} {#} \<and> map fst (maps w') = map fst (maps w)
    | Some e \<Rightarrow> accounted (dtape_map_insert_shared_entry m e w') {#d#} {#}
        \<and> map fst (maps (dtape_map_insert_shared_entry m e w')) = map fst (maps w)"
proof (cases r)
  case None
  then show ?thesis using entry_create_accounted [OF acc _ e] by simp
next
  case (Some e')
  with entry_create_accounted [OF acc _ e]
  have "accounted w' (add_mset (se_descriptor e') {#d#}) {#}" "maps w' = maps w"
    by auto
  with insert_entry_accounted [of w' e' "{#d#}" "{#}" m] m Some show ?thesis
    by simp
qed

lemma remap_fill_source_ok:
  assumes acc: "accounted w {#d#} {#}" and src: "map_id src \<in> fst ` set (maps w)"
    and fd: "fd \<in> fst ` set (memfds w)"
    and run: "remap_fill_source h src a n prot fd d L w = (r, L', w')"
  shows "accounted w' {#d#} {#} \<and> map fst (maps w') = map fst (maps w) \<and> L' = L"
proof (cases "copyinmap h (Task_map (map_process src)) a n (machine w)")
  case (Pair kr bytes)
  show ?thesis
  proof (cases bytes)
    case None
    then show ?thesis using run Pair acc by (simp add: remap_fill_source_def)
  next
    case (Some b)
    let ?w1 = "w\<lparr>memfds := AList.update fd b (memfds w)\<rparr>"
    obtain r1 k1 where mf: "dtape_hook_task_map_file h (map_process src) (int fd)
       (dtape_byte_count_to_page_count_round_up h n) prot a 0 3 (machine w) = (r1, k1)"
      by (cases "dtape_hook_task_map_file h (map_process src) (int fd)
       (dtape_byte_count_to_page_count_round_up h n) prot a 0 3 (machine w)")
    let ?w2 = "?w1\<lparr>machine := k1\<rparr>"
    have acc2: "accounted ?w2 {#d#} {#}"
      using fill_memfd_accounted [OF acc fd] by simp
    obtain e w3 where e: "dtape_map_shared_entry_create h a n 0 d ?w2 = (e, w3)"
      by (cases "dtape_map_shared_entry_create h a n 0 d ?w2")
    have src2: "map_id src \<in> fst ` set (maps ?w2)"
      using src by simp
    have "accounted ?w2 {#d#} {#} \<and> map fst (maps ?w2) = map fst (maps w)"
      using acc2 by simp
    moreover have "case e of None \<Rightarrow> accounted w3 {#d#} {#} \<and> map fst (maps w3) = map fst (maps w)
      | Some e \<Rightarrow> accounted (dtape_map_insert_shared_entry (map_id src) e w3) {#d#} {#}
          \<and> map fst (maps (dtape_map_insert_shared_entry (map_id src) e w3)) = map fst (maps w)"
      using entry_stage [OF acc2 src2 e] by (cases e) auto
    ultimately show ?thesis
      using run Pair Some mf e
      by (auto simp: remap_fill_source_def Let_def split: if_splits option.splits)
  qed
qed

lemma remap_new_source_ok:
  assumes acc: "accounted w {#} {#}" and src: "map_id src \<in> fst ` set (maps w)"
    and run: "remap_new_source h m src a n prot w = (r, L, w')"
  shows "stage_ok w L w' \<and> l_src_entry L = None \<and> l_target_entry L = None
    \<and> (r = Inr () \<longrightarrow> (\<exists>d. l_descriptor L = Some d \<and> l_memfd L = None))"
proof -
  obtain ok1 k1 where c1: "memfd_create_ok m (machine w) = (ok1, k1)" by (cases "memfd_create_ok m (machine w)")
  obtain ok2 k2 where c2: "ftruncate_ok m n k1 = (ok2, k2)" by (cases "ftruncate_ok m n k1")
  obtain ad k3 where c3: "mmap_memfd m n k2 = (ad, k3)" by (cases "mmap_memfd m n k2")
  let ?fd = "next_obj w"
  let ?w1 = "w\<lparr>memfds := (?fd, []) # memfds w, next_obj := Suc ?fd\<rparr>"
  have acc1: "accounted (?w1\<lparr>machine := k\<rparr>) {#} {#?fd#}" for k
    using open_memfd_accounted [OF acc, of "[]"] by simp
  obtain d w2 where c4: "dtape_map_shared_descriptor_create h ?fd n (?w1\<lparr>machine := k3\<rparr>) = (d, w2)"
    by (cases "dtape_map_shared_descriptor_create h ?fd n (?w1\<lparr>machine := k3\<rparr>)")
  note acc2 = descriptor_create_accounted [OF acc1 c4]
  show ?thesis
  proof (cases "\<not> ok1 \<or> \<not> ok2 \<or> ad = MAP_FAILED \<or> d = None")
    case True
    then show ?thesis
      using run acc acc1 acc2 c1 c2 c3 c4
      by (auto simp: remap_new_source_def Let_def stage_ok_def held_refs_def held_fds_def
          no_locals_def split: if_splits)
  next
    case False
    then obtain d' where d': "d = Some d'" by auto
    have w2: "accounted w2 {#d'#} {#}" "maps w2 = maps w" using acc2 d' by simp_all
    have "memfds w2 = memfds ?w1"
      using c4 d' by (auto simp: dtape_map_shared_descriptor_create_def Let_def
          split: prod.splits if_splits)
    then have fd: "?fd \<in> fst ` set (memfds w2)" by simp
    have "remap_fill_source h src a n prot ?fd d' (no_locals\<lparr>l_memfd := Some ?fd,
        l_mapped_addr := Some ad, l_descriptor := Some d', l_memfd := None\<rparr>) w2 = (r, L, w')"
      using run False c1 c2 c3 c4 d' by (simp add: remap_new_source_def Let_def)
    from remap_fill_source_ok [OF w2(1) _ fd this] src w2(2) show ?thesis
      by (auto simp: stage_ok_def held_refs_def held_fds_def no_locals_def)
  qed
qed

lemma remap_target_ok:
  assumes acc: "accounted w {#d#} {#}" and target: "map_id target \<in> fst ` set (maps w)"
    and L: "l_descriptor L = Some d" "l_memfd L = None" "l_src_entry L = None" "l_target_entry L = None"
    and run: "remap_target h target n prot d L w = (r, L', w')"
  shows "stage_ok w L' w'"
proof -
  let ?fd = "case map_of (descs w) d of None \<Rightarrow> 0 | Some sd \<Rightarrow> memfd sd"
  obtain ta k where c: "dtape_hook_task_map_file h (map_process target) (int ?fd)
     (dtape_byte_count_to_page_count_round_up h n) prot 0 0 0 (machine w) = (ta, k)"
    by (cases "dtape_hook_task_map_file h (map_process target) (int ?fd)
     (dtape_byte_count_to_page_count_round_up h n) prot 0 0 0 (machine w)")
  let ?w = "w\<lparr>machine := k\<rparr>"
  have acc': "accounted ?w {#d#} {#}" using acc by simp
  have target': "map_id target \<in> fst ` set (maps ?w)" using target by simp
  obtain e w1 where e: "dtape_map_shared_entry_create h ta n 0 d ?w = (e, w1)"
    by (cases "dtape_map_shared_entry_create h ta n 0 d ?w")
  have "case e of None \<Rightarrow> accounted w1 {#d#} {#} \<and> map fst (maps w1) = map fst (maps w)
    | Some e \<Rightarrow> accounted (dtape_map_insert_shared_entry (map_id target) e w1) {#d#} {#}
        \<and> map fst (maps (dtape_map_insert_shared_entry (map_id target) e w1)) = map fst (maps w)"
    using entry_stage [OF acc' target' e] by (cases e) auto
  then have "accounted w' {#d#} {#} \<and> map fst (maps w') = map fst (maps w) \<and> L' = L"
    using run c e acc'
    by (auto simp: remap_target_def Let_def split: if_splits option.splits)
  then show ?thesis
    using L by (simp add: stage_ok_def held_refs_def held_fds_def)
qed

lemma tree_entry_ref: "e \<in> set (tree_of m w) \<Longrightarrow> se_descriptor e \<in># entry_refs w"
proof -
  assume "e \<in> set (tree_of m w)"
  then obtain t where t: "map_of (maps w) m = Some t" "e \<in> set t"
    by (cases "map_of (maps w) m") (simp_all add: tree_of_def)
  then have "t \<in> set (map snd (maps w))"
    using map_of_SomeD [OF t(1)] image_iff by fastforce
  with t(2) have "e \<in> set (concat (map snd (maps w)))"
    unfolding set_concat by blast
  then have "se_descriptor e \<in> set (map se_descriptor (concat (map snd (maps w))))"
    unfolding set_map by (rule imageI)
  then show ?thesis
    unfolding entry_refs_def by (metis in_multiset_in_set union_iff)
qed

lemma found_entry_ref:
  assumes "dtape_map_find_shared_entries_locked m a n c w \<noteq> []"
  shows "se_descriptor (hd (dtape_map_find_shared_entries_locked m a n c w)) \<in># entry_refs w"
proof (rule tree_entry_ref)
  have "hd (dtape_map_find_shared_entries_locked m a n c w)
      \<in> set (dtape_map_find_shared_entries_locked m a n c w)"
    using assms by (rule hd_in_set)
  then show "hd (dtape_map_find_shared_entries_locked m a n c w) \<in> set (tree_of m w)"
    unfolding dtape_map_find_shared_entries_locked_def
    by (meson filter_is_subset in_set_takeD subset_iff)
qed

lemma remap_setup_ok:
  assumes acc: "accounted w {#} {#}" and src: "map_id src \<in> fst ` set (maps w)"
    and run: "remap_setup h m src a n prot w = Some (r, L, w')"
  shows "stage_ok w L w' \<and> l_src_entry L = None \<and> l_target_entry L = None
    \<and> (r = Inr () \<longrightarrow> (\<exists>d. l_descriptor L = Some d \<and> l_memfd L = None))"
proof (cases "dtape_map_find_shared_entries_locked (map_id src) a n 8 w")
  case Nil
  then show ?thesis
    using remap_new_source_ok [OF acc src, of h m a n prot r L w'] run
    by (simp add: remap_setup_def)
next
  case (Cons e es)
  then have "accounted (dtape_map_shared_descriptor_retain (se_descriptor e) w)
      {#se_descriptor e#} {#}"
    using retain_accounted [OF acc, of "se_descriptor e"] found_entry_ref [of "map_id src" a n 8 w]
    by simp
  with run Cons show ?thesis
    by (auto simp: remap_setup_def Let_def stage_ok_def held_refs_def held_fds_def no_locals_def
        split: if_splits)
qed

lemma remap_shared_accounted:
  assumes acc: "accounted w {#} {#}" and src: "map_id src \<in> fst ` set (maps w)"
    and target: "map_id target \<in> fst ` set (maps w)"
    and run: "mach_vm_remap_external_shared h m target sz flags src a w = Inr (kr, res, w')"
  shows "accounted w' {#} {#} \<and> map fst (maps w') = map fst (maps w)"
proof -
  let ?start = "trunc_page h a"
  let ?n = "round_page h (a + sz) - ?start"
  have out: "accounted (remap_out h ?n L w1) {#} {#}
      \<and> map fst (maps (remap_out h ?n L w1)) = map fst (maps w)" if "stage_ok w L w1" for L w1
    using that remap_out_accounted [of w1 L] by (auto simp: stage_ok_def)
  show ?thesis
  proof (cases "dtape_hook_task_get_memory_region_info (page_size h)
      (proc_dead (map_process src), maps_file h (proc_id (map_process src)) (machine w)) a")
    case None
    then show ?thesis
      using run out [OF stage_ok_refl [OF acc]]
      by (auto simp: mach_vm_remap_external_shared_def Let_def)
  next
    case (Some ri)
    let ?prot = "region_prot_bits ri"
    obtain r L w1 where stp: "remap_setup h m src ?start ?n ?prot w = Some (r, L, w1)"
    proof (cases "remap_setup h m src ?start ?n ?prot w")
      case None
      with run Some show ?thesis by (simp add: mach_vm_remap_external_shared_def Let_def)
    next
      case (Some x)
      then show ?thesis by (cases x) (use that in blast)
    qed
    note ok = remap_setup_ok [OF acc src stp]
    show ?thesis
    proof (cases r)
      case (Inl kr')
      with run Some stp out ok show ?thesis
        by (auto simp: mach_vm_remap_external_shared_def Let_def)
    next
      case (Inr u)
      with ok obtain d where d: "l_descriptor L = Some d" "l_memfd L = None"
        "l_src_entry L = None" "l_target_entry L = None" by auto
      have w1: "accounted w1 {#d#} {#}" "map fst (maps w1) = map fst (maps w)"
        using ok d by (simp_all add: stage_ok_def held_refs_def held_fds_def)
      then have t1: "map_id target \<in> fst ` set (maps w1)"
        using target by (metis set_map)
      obtain r2 L2 w2 where tg: "remap_target h target ?n ?prot d L w1 = (r2, L2, w2)"
        by (cases "remap_target h target ?n ?prot d L w1") auto
      have "stage_ok w L2 w2"
        using remap_target_ok [OF w1(1) t1 d tg] w1(2) by (simp add: stage_ok_def)
      from out [OF this] run Some stp Inr d tg show ?thesis
        by (cases r2) (auto simp: mach_vm_remap_external_shared_def Let_def)
    qed
  qed
qed

section \<open>Maps come and go\<close>

lemma create_map_accounted:
  assumes acc: "accounted w {#} {#}" and run: "dtape_vm_map_create h w = (r, w')"
  shows "accounted w' {#} {#}"
proof -
  have "accounted (w\<lparr>machine := k, maps := (next_obj w, []) # maps w, next_obj := Suc (next_obj w)\<rparr>)
      {#} {#}" (is "accounted ?w _ _") for k
  proof (rule accountedI)
    show "distinct (map fst (maps ?w))"
      using accounted_distinct(2) [OF acc] accounted_fresh [OF acc] by auto
    show "\<forall>x \<in> fst ` set (descs ?w) \<union> fst ` set (maps ?w) \<union> fst ` set (memfds ?w). x < next_obj ?w"
      using accounted_fresh [OF acc] by (auto intro: less_SucI)
    show "refs_of ?w d = count (entry_refs ?w + {#}) d" for d
      using accounted_refs [OF acc, of d] by (simp add: refs_of_def entry_refs_def)
  qed (use accounted_distinct [OF acc] accounted_files [OF acc] accounted_positive [OF acc]
        in simp_all)
  then show ?thesis
    using run acc by (auto simp: dtape_vm_map_create_def Let_def split: prod.splits if_splits)
qed

lemma release_set_maps:
  "dtape_map_shared_descriptor_release d (w\<lparr>maps := ms\<rparr>)
   = (dtape_map_shared_descriptor_release d w)\<lparr>maps := ms\<rparr>"
  by (simp add: dtape_map_shared_descriptor_release_def split: option.splits)

lemma fold_destroy_set_maps:
  "fold dtape_map_shared_entry_destroy es (w\<lparr>maps := ms\<rparr>)
   = (fold dtape_map_shared_entry_destroy es w)\<lparr>maps := ms\<rparr>"
  by (induction es arbitrary: w)
     (simp_all add: dtape_map_shared_entry_destroy_def release_set_maps)

lemma fold_destroy_maps [simp]: "maps (fold dtape_map_shared_entry_destroy es w) = maps w"
  by (induction es arbitrary: w) (simp_all add: dtape_map_shared_entry_destroy_def)

lemma fold_destroy_accounted:
  "accounted w (mset (map se_descriptor es)) {#} \<Longrightarrow>
   accounted (fold dtape_map_shared_entry_destroy es w) {#} {#}"
  by (induction es arbitrary: w)
     (simp_all add: dtape_map_shared_entry_destroy_def release_accounted)

lemma mset_concat_delete:
  "distinct (map fst al) \<Longrightarrow> map_of al m = Some t \<Longrightarrow>
   mset (concat (map snd al)) = mset t + mset (concat (map snd (AList.delete m al)))"
proof (induction al)
  case (Cons x al)
  show ?case
  proof (cases "fst x = m")
    case True
    with Cons.prems have "m \<notin> fst ` set al" by auto
    then have "AList.delete m al = al" by (simp add: delete_idem)
    with True Cons.prems show ?thesis by (cases x) auto
  next
    case False
    with Cons show ?thesis by (cases x) auto
  qed
qed simp

lemma destroy_map_accounted:
  assumes acc: "accounted w {#} {#}" and m: "m \<in> fst ` set (maps w)"
  shows "accounted (dtape_vm_map_destroy m w) {#} {#}"
    and "map fst (maps (dtape_vm_map_destroy m w)) = map fst (AList.delete m (maps w))"
proof -
  obtain t where t: "map_of (maps w) m = Some t"
    using m by (metis map_of_eq_None_iff not_None_eq)
  let ?w = "w\<lparr>maps := AList.delete m (maps w)\<rparr>"
  have refs: "entry_refs w = mset (map se_descriptor t) + entry_refs ?w"
    using mset_concat_delete [OF accounted_distinct(2) [OF acc] t]
    by (simp add: entry_refs_def mset_map)
  have fresh: "\<forall>x \<in> fst ` set (descs w) \<union> fst ` set (AList.delete m (maps w))
      \<union> fst ` set (memfds w). x < next_obj w"
    using accounted_fresh [OF acc] by (auto simp: AList.delete_eq)
  have "accounted ?w (mset (map se_descriptor t)) {#}"
  proof (rule accountedI)
    show "refs_of ?w d = count (entry_refs ?w + mset (map se_descriptor t)) d" for d
      using accounted_refs [OF acc, of d] refs by (simp add: refs_of_def)
    show "\<forall>x \<in> fst ` set (descs ?w) \<union> fst ` set (maps ?w) \<union> fst ` set (memfds ?w). x < next_obj ?w"
      using fresh by simp
  qed (use accounted_distinct [OF acc] accounted_files [OF acc] accounted_positive [OF acc]
        in \<open>simp_all add: alist_simps\<close>)
  from fold_destroy_accounted [OF this]
  show "accounted (dtape_vm_map_destroy m w) {#} {#}"
    using t by (simp add: dtape_vm_map_destroy_def Let_def tree_of_def fold_destroy_set_maps)
  show "map fst (maps (dtape_vm_map_destroy m w)) = map fst (AList.delete m (maps w))"
    by (simp add: dtape_vm_map_destroy_def Let_def)
qed

text \<open>Runs: maps are created and destroyed, live maps are remapped, and the machine moves on.\<close>

inductive sm_step :: "'k host \<Rightarrow> 'k memfd_host \<Rightarrow> 'k sm_world \<Rightarrow> 'k sm_world \<Rightarrow> bool"
  for h m where
  sm_create: "dtape_vm_map_create h w = (r, w') \<Longrightarrow> sm_step h m w w'"
| sm_remap: "map_id src \<in> fst ` set (maps w) \<Longrightarrow> map_id target \<in> fst ` set (maps w) \<Longrightarrow>
    mach_vm_remap_external_shared h m target sz flags src a w = Inr (kr, res, w') \<Longrightarrow>
    sm_step h m w w'"
| sm_destroy: "i \<in> fst ` set (maps w) \<Longrightarrow> sm_step h m w (dtape_vm_map_destroy i w)"
| sm_machine: "sm_step h m w (w\<lparr>machine := k\<rparr>)"

definition sm_start :: "'k sm_world \<Rightarrow> bool" where
  "sm_start w \<longleftrightarrow> descs w = [] \<and> maps w = [] \<and> memfds w = [] \<and> lost w = []"

lemma sm_step_accounted: "sm_step h m w w' \<Longrightarrow> accounted w {#} {#} \<Longrightarrow> accounted w' {#} {#}"
proof (induction rule: sm_step.induct)
  case (sm_remap src w target sz flags a kr res w')
  from remap_shared_accounted [OF sm_remap(4,1,2,3)] show ?case by simp
qed (simp_all add: create_map_accounted destroy_map_accounted(1))

interpretation shared_memory: inductive_invariant sm_start "sm_step h m" "\<lambda>w. accounted w {#} {#}"
  for h :: "'k host" and m
proof
  show "sm_start w \<Longrightarrow> accounted w {#} {#}" for w :: "'k sm_world"
    by (simp add: sm_start_def accounted_def refs_of_def entry_refs_def)
qed (rule sm_step_accounted)

lemma accounted_empty:
  assumes acc: "accounted w {#} {#}" and "maps w = []" and "lost w = []"
  shows "descs w = [] \<and> memfds w = []"
proof -
  have zero: "refs_of w d = 0" for d
    using accounted_refs [OF acc, of d] assms(2,3) by (simp add: entry_refs_def)
  have "descs w = []"
  proof (rule ccontr)
    assume "descs w \<noteq> []"
    then obtain d sd where "(d, sd) \<in> set (descs w)"
      by (metis last_in_set surj_pair)
    then have "map_of (descs w) d = Some sd" "0 < refcount sd"
      using accounted_distinct(1) [OF acc] accounted_positive [OF acc] by force+
    with zero [of d] show False by (simp add: refs_of_def)
  qed
  then show ?thesis using accounted_files [OF acc] by simp
qed

text \<open>C8: In every run of creating, remapping and destroying maps, whatever the machine and
  the clients answer, the count of a shared descriptor is the number of entries that refer to
  it and is positive, every entry refers to a live descriptor, and the open memory files are
  exactly those of the live descriptors, each owned once. When the last map is gone and no entry
  was lost on the way, no descriptor and no memory file remains.
\<close>

theorem shared_memory_accounted:
  assumes "reach sm_start (sm_step h m) w"
  shows "(\<forall>d sd. map_of (descs w) d = Some sd \<longrightarrow> 0 < refcount sd
        \<and> refcount sd = count_list (map se_descriptor (concat (map snd (maps w)) @ lost w)) d)
    \<and> (\<forall>e \<in> set (concat (map snd (maps w)) @ lost w). se_descriptor e \<in> fst ` set (descs w))
    \<and> distinct (map fst (memfds w))
    \<and> mset (map fst (memfds w)) = mset (map (memfd \<circ> snd) (descs w))
    \<and> (maps w = [] \<and> lost w = [] \<longrightarrow> descs w = [] \<and> memfds w = [])"
proof (intro conjI allI impI)
  let ?es = "concat (map snd (maps w)) @ lost w"
  have acc: "accounted w {#} {#}"
    using assms by (rule shared_memory.holds_when_reached)
  have "entry_refs w + {#} = mset (map se_descriptor ?es)"
    by (simp add: entry_refs_def)
  then have refs: "refs_of w d = count_list (map se_descriptor ?es) d" for d
    using accounted_refs [OF acc, of d] by (simp only: count_mset)
  show "0 < refcount sd" "refcount sd = count_list (map se_descriptor ?es) d"
    if "map_of (descs w) d = Some sd" for d sd
    using refs [of d] accounted_positive [OF acc] map_of_SomeD [OF that] that
    by (force simp: refs_of_def)+
  show "\<forall>e \<in> set ?es. se_descriptor e \<in> fst ` set (descs w)"
  proof
    fix e assume "e \<in> set ?es"
    then have "se_descriptor e \<in> set (map se_descriptor ?es)"
      unfolding set_map by (rule imageI)
    then have "refs_of w (se_descriptor e) \<noteq> 0"
      unfolding refs by (simp add: count_list_0_iff del: map_append)
    then show "se_descriptor e \<in> fst ` set (descs w)"
      unfolding refs_of_def by (metis map_of_eq_None_iff option.simps(4))
  qed
  show "distinct (map fst (memfds w))"
    "mset (map fst (memfds w)) = mset (map (memfd \<circ> snd) (descs w))"
    using accounted_distinct(3) [OF acc] accounted_files [OF acc] by simp_all
  show "descs w = []" "memfds w = []" if "maps w = [] \<and> lost w = []"
    using accounted_empty [OF acc] that by simp_all
qed

section \<open>Concrete runs\<close>

text \<open>A machine that grants everything and always maps at the same address.\<close>

definition zero_bytes :: "u64 \<Rightarrow> u8 list" where
  "zero_bytes n = replicate (unat n) 0"

definition steady_maps :: "maps_line list" where
  "steady_maps = [\<lparr>ml_start = ''8000'', ml_end = ''a000'', ml_perms = ''rw-p'', ml_offset = ''0'',
     ml_rest = ''00:00 0''\<rparr>]"

definition steady_host :: "unit host" where
  "steady_host =
     \<lparr>page_size = 0x1000,
      client = (\<lambda>t rq k. (Some \<lparr>ans_address = 0x8000, ans_return = 0, ans_errno = 0\<rparr>, k)),
      dup_fd = (\<lambda>fd k. (Inr (fd + 1), k)),
      vm_readv = (\<lambda>q a n k. Inr (zero_bytes n)),
      vm_writev = (\<lambda>q a bytes k. Inr k),
      self_read = (\<lambda>a n k. zero_bytes n),
      self_write = (\<lambda>a bytes k. k),
      anon_mmap = (\<lambda>n k. (0x4000, k)),
      self_munmap = (\<lambda>a n k. (True, k)),
      malloc_ok = (\<lambda>n k. (True, k)),
      maps_file = (\<lambda>q k. render_maps steady_maps)\<rparr>"

definition steady_memfd :: "unit memfd_host" where
  "steady_memfd = \<lparr>memfd_create_ok = (\<lambda>k. (True, k)), ftruncate_ok = (\<lambda>n k. (True, k)),
     mmap_memfd = (\<lambda>n k. (0x2000, k))\<rparr>"

definition empty_world :: "unit sm_world" where
  "empty_world = \<lparr>machine = (), copies = [], next_copy = 0, descs = [], maps = [], memfds = [],
     next_obj = 0, lost = []\<rparr>"

definition two_maps :: "unit sm_world" where
  "two_maps = snd (dtape_vm_map_create steady_host (snd (dtape_vm_map_create steady_host empty_world)))"

abbreviation steady_map :: "nat \<Rightarrow> dtape_map" where
  "steady_map i \<equiv> \<lparr>map_id = i, map_process = live_process i\<rparr>"

abbreviation share :: "u64 \<Rightarrow> unit sm_world \<Rightarrow> (kern_return \<times> remap_result option \<times> unit sm_world) result"
  where "share a \<equiv> mach_vm_remap_external_shared steady_host steady_memfd (steady_map 1) 0x1000 0
    (steady_map 0) a"

lemma steady_region:
  assumes "a = 0x8000 \<or> a = 0x9000"
  shows "dtape_hook_task_get_memory_region_info 0x1000 (False, render_maps steady_maps) a
    = Some (line_info 0x1000 (hd steady_maps))"
proof -
  have wf: "list_all (wf_line 0x1000) steady_maps"
    by (simp add: steady_maps_def wf_line_def hex_u64_def hex_value_def hex_digit_def is_hex_def
        is_perm_def)
  show ?thesis
    unfolding hook_region_info_render [OF wf]
    using assms by (auto simp: steady_maps_def hex_value_def hex_digit_def)
qed

lemma steady_pages: "trunc_page steady_host 0x8000 = 0x8000" "round_page steady_host 0x9000 = 0x9000"
  "trunc_page steady_host 0x9000 = 0x9000" "round_page steady_host 0xa000 = 0xa000"
  by (simp_all add: trunc_page_def round_page_def steady_host_def)

lemmas steady_eval = two_maps_def empty_world_def dtape_vm_map_create_def
  mach_vm_remap_external_shared_def remap_setup_def remap_new_source_def remap_fill_source_def
  remap_target_def remap_out_def no_locals_def dtape_map_find_shared_entries_locked_def tree_of_def
  dtape_map_shared_descriptor_create_def dtape_map_shared_entry_create_def
  dtape_map_shared_descriptor_retain_def dtape_map_shared_descriptor_release_def
  dtape_map_insert_shared_entry_def copyinmap_def dtape_hook_task_read_memory_def
  Process_readMemory_def dtape_hook_task_map_file_def Process_mapFile_def with_thread_def
  pickS2CThread_def Thread_mapFile_def Thread_mmap_def Let_def

definition shared_once :: "unit sm_world" where
  "shared_once = two_maps\<lparr>
     descs := [(3, \<lparr>refcount = 2, memfd = 2, desc_size = 0x1000\<rparr>)],
     maps := [(1, [\<lparr>se_address = 0x8000, se_size = 0x1000, se_page_offset = 0, se_descriptor = 3\<rparr>]),
              (0, [\<lparr>se_address = 0x8000, se_size = 0x1000, se_page_offset = 0, se_descriptor = 3\<rparr>])],
     memfds := [(2, zero_bytes 0x1000)], next_obj := 4\<rparr>"

lemma share_once:
  "share 0x8000 two_maps = Inr (KERN_SUCCESS, Some \<lparr>rr_address = 0x8000,
     rr_cur_protection = region_prot_bits (line_info 0x1000 (hd steady_maps)),
     rr_max_protection = VM_PROT_ALL\<rparr>, shared_once)"
  by (simp add: shared_once_def steady_eval steady_region steady_pages)
     (simp add: steady_host_def steady_memfd_def steady_region steady_eval)

lemma two_maps_reached: "reach sm_start (sm_step steady_host m) two_maps"
proof -
  have "reach sm_start (sm_step steady_host m) empty_world"
    by (rule reach_start) (simp add: sm_start_def empty_world_def)
  then have "reach sm_start (sm_step steady_host m) (snd (dtape_vm_map_create steady_host empty_world))"
    by (rule reach_next) (rule sm_create [OF prod.collapse [symmetric]])
  then show ?thesis
    unfolding two_maps_def by (rule reach_next) (rule sm_create [OF prod.collapse [symmetric]])
qed

lemma shared_once_reached: "reach sm_start (sm_step steady_host steady_memfd) shared_once"
  using two_maps_reached
proof (rule reach_next)
  show "sm_step steady_host steady_memfd two_maps shared_once"
    by (rule sm_remap [OF _ _ share_once])
       (simp_all add: two_maps_def empty_world_def dtape_vm_map_create_def steady_host_def)
qed

lemma destroy_both_reached:
  assumes "reach sm_start (sm_step h m) w" and "map fst (maps w) = [1, 0]"
  shows "reach sm_start (sm_step h m) (dtape_vm_map_destroy 0 (dtape_vm_map_destroy 1 w))"
proof -
  obtain t1 t0 where "maps w = [(1, t1), (0, t0)]"
    using assms(2) by (auto simp: map_eq_Cons_conv)
  then have "1 \<in> fst ` set (maps w)" "0 \<in> fst ` set (maps (dtape_vm_map_destroy 1 w))"
    by (simp_all add: dtape_vm_map_destroy_def Let_def)
  then show ?thesis
    using assms(1) by (meson reach_next sm_destroy)
qed

theorem shared_memory_accounted_witness:
  "memfds shared_once = [(2, zero_bytes 0x1000)]
   \<and> memfds (dtape_vm_map_destroy 0 (dtape_vm_map_destroy 1 shared_once)) = []"
proof -
  let ?w = "dtape_vm_map_destroy 0 (dtape_vm_map_destroy 1 shared_once)"
  have "reach sm_start (sm_step steady_host steady_memfd) ?w"
    by (rule destroy_both_reached [OF shared_once_reached]) (simp add: shared_once_def)
  from shared_memory_accounted [OF this] have "maps ?w = [] \<and> lost ?w = [] \<longrightarrow> memfds ?w = []"
    by blast
  moreover have "maps ?w = []" "lost ?w = []"
    by (simp_all add: shared_once_def two_maps_def empty_world_def dtape_vm_map_create_def
        steady_host_def dtape_vm_map_destroy_def tree_of_def dtape_map_shared_entry_destroy_def
        dtape_map_shared_descriptor_release_def Let_def)
  ultimately show ?thesis
    by (simp add: shared_once_def)
qed

definition shared_twice :: "unit sm_world" where
  "shared_twice = shared_once\<lparr>
     descs := [(3, \<lparr>refcount = 3, memfd = 2, desc_size = 0x1000\<rparr>)],
     lost := [\<lparr>se_address = 0x8000, se_size = 0x1000, se_page_offset = 0, se_descriptor = 3\<rparr>]\<rparr>"

lemma share_twice:
  "share 0x8000 shared_once = Inr (KERN_SUCCESS, Some \<lparr>rr_address = 0x8000,
     rr_cur_protection = region_prot_bits (line_info 0x1000 (hd steady_maps)),
     rr_max_protection = VM_PROT_ALL\<rparr>, shared_twice)"
  by (simp add: shared_twice_def shared_once_def steady_eval steady_region steady_pages)
     (simp add: steady_host_def steady_memfd_def steady_region steady_eval)

lemma share_adjacent:
  "share 0x9000 shared_once
   = Inl (Undefined_behaviour ''Cannot complexly remap existing shared regions yet'')"
  by (simp add: shared_once_def steady_eval steady_region steady_pages)
     (simp add: steady_host_def steady_memfd_def steady_region steady_eval)

text \<open>Two defects of the shared remap. When a map is given memory at an address under which
  its tree still holds an older entry (entries are not removed when the process unmaps them), the
  new entry is not inserted and is lost, and its memory file stays open after every map has been
  destroyed. And remapping the pages that directly follow an already shared region, which do not
  overlap it, takes the path of unsupported overlaps, whose behaviour is undefined.
\<close>

lemma shared_remap_defects:
  "(\<exists>w. reach sm_start (sm_step steady_host steady_memfd) w \<and> maps w = [] \<and> memfds w \<noteq> [])
   \<and> (\<exists>w. reach sm_start (sm_step steady_host steady_memfd) w
        \<and> map (\<lambda>e. se_address e + se_size e) (tree_of 0 w) = [0x9000]
        \<and> (\<exists>msg. share 0x9000 w = Inl (Undefined_behaviour msg)))"
proof (rule conjI)
  let ?w = "dtape_vm_map_destroy 0 (dtape_vm_map_destroy 1 shared_twice)"
  have step: "sm_step steady_host steady_memfd shared_once shared_twice"
    by (rule sm_remap [OF _ _ share_twice]) (simp_all add: shared_once_def)
  have "reach sm_start (sm_step steady_host steady_memfd) shared_twice"
    using shared_once_reached step by (rule reach_next)
  then have "reach sm_start (sm_step steady_host steady_memfd) ?w"
    by (rule destroy_both_reached) (simp add: shared_twice_def shared_once_def)
  moreover have "maps ?w = []" "memfds ?w \<noteq> []"
    by (simp_all add: shared_twice_def shared_once_def two_maps_def empty_world_def
        dtape_vm_map_create_def steady_host_def dtape_vm_map_destroy_def tree_of_def
        dtape_map_shared_entry_destroy_def dtape_map_shared_descriptor_release_def Let_def)
  ultimately show "\<exists>w. reach sm_start (sm_step steady_host steady_memfd) w \<and> maps w = []
      \<and> memfds w \<noteq> []"
    by blast
  have "map (\<lambda>e. se_address e + se_size e) (tree_of 0 shared_once) = [0x9000]"
    by (simp add: shared_once_def tree_of_def)
  with shared_once_reached share_adjacent
  show "\<exists>w. reach sm_start (sm_step steady_host steady_memfd) w
        \<and> map (\<lambda>e. se_address e + se_size e) (tree_of 0 w) = [0x9000]
        \<and> (\<exists>msg. share 0x9000 w = Inl (Undefined_behaviour msg))"
    by (intro exI [of _ shared_once] conjI exI)
qed

section \<open>The copying remap\<close>

lemma copy_overwrite_outcome:
  assumes doc: "whole_transfers h" and c: "map_of (copies w) c = Some bytes"
    and len: "length bytes < 2 ^ 64"
    and run: "vm_map_copy_overwrite h (Task_map q) a (Some c) w = (kr, w')"
  shows "(kr = KERN_SUCCESS \<and> copies w' = AList.delete c (copies w)
      \<and> vm_readv h (proc_id q) a (of_nat (length bytes)) (machine w') = Inr bytes)
    \<or> (kr = KERN_INVALID_ADDRESS \<and> w' = w)"
proof -
  have "vm_readv h (proc_id q) a (of_nat (length bytes)) k' = Inr bytes"
    if "vm_writev h (proc_id q) a bytes (machine w) = Inr k'" for k'
    using doc that len unfolding whole_transfers_def by blast
  moreover have "unat (of_nat (length bytes) :: u64) = length bytes"
    using len by (rule unat_small)
  ultimately show ?thesis
    using run c
    by (auto simp: vm_map_copy_overwrite_def vm_map_copyout_kernel_buffer_def copyoutmap_def
        dtape_hook_task_write_memory_def Process_writeMemory_def free_copy_def copy_data_def Let_def
        split: if_splits sum.splits prod.splits)
qed

lemma remap_copy_outcome:
  assumes doc: "whole_transfers h" and ok: "copies_ok w"
    and run: "mach_vm_remap_external h m target addr sz flags src ma True w = Inr (kr, res, w')"
  shows "copies w' = copies w
    \<and> (case res of
         None \<Rightarrow> kr \<noteq> KERN_SUCCESS
       | Some r \<Rightarrow> kr = KERN_SUCCESS \<and> (\<exists>bytes. length bytes = unat sz
           \<and> vm_readv h (proc_id (map_process src)) ma sz
               (snd (malloc_ok h (32 + sz) (machine w))) = Inr bytes
           \<and> vm_readv h (proc_id (map_process target)) (rr_address r) sz (machine w') = Inr bytes))"
proof -
  obtain kr1 c w1 where cin: "vm_map_copyin_common h (Task_map (map_process src)) ma sz False w
      = ((kr1, c), w1)"
    by (cases "vm_map_copyin_common h (Task_map (map_process src)) ma sz False w") auto
  from copyin_outcome [OF cin doc] show ?thesis
  proof
    assume "kr1 \<noteq> KERN_SUCCESS \<and> c = None \<and> copies w1 = copies w \<and> next_copy w1 = next_copy w"
    then show ?thesis
      using run cin by (auto simp: mach_vm_remap_external_def vm_map_copy_discard_def)
  next
    assume "\<exists>bytes. kr1 = KERN_SUCCESS \<and> c = Some (next_copy w)
         \<and> vm_readv h (proc_id (map_process src)) ma sz (machine w1) = Inr bytes
         \<and> machine w1 = snd (malloc_ok h (32 + sz) (machine w))
         \<and> copies w1 = (next_copy w, bytes) # copies w \<and> next_copy w1 = Suc (next_copy w)"
    then obtain bytes where kr1: "kr1 = KERN_SUCCESS" "c = Some (next_copy w)"
      and src: "vm_readv h (proc_id (map_process src)) ma sz (machine w1) = Inr bytes"
        "machine w1 = snd (malloc_ok h (32 + sz) (machine w))"
      and w1: "copies w1 = (next_copy w, bytes) # copies w" by blast
    from whole_read [OF doc src(1)] have len: "length bytes = unat sz" "of_nat (length bytes) = sz"
      by simp_all
    then have lt: "length bytes < 2 ^ 64" using unsigned_less [of sz] by simp
    note del = delete_new_copy [OF ok, of bytes]
    let ?fl = "(if flags AND VM_FLAGS_ANYWHERE = 0 then dtape_memory_flag_fixed else 0)
                     OR (if flags AND VM_FLAGS_OVERWRITE \<noteq> 0 then dtape_memory_flag_overwrite else 0)"
    let ?hint = "if flags AND VM_FLAGS_ANYWHERE \<noteq> 0 then 0 else addr"
    obtain a k where al: "dtape_hook_task_allocate_pages h (map_process target)
        (dtape_byte_count_to_page_count_round_up h sz) 7 ?hint ?fl (machine w1) = (a, k)"
      by (cases "dtape_hook_task_allocate_pages h (map_process target)
        (dtape_byte_count_to_page_count_round_up h sz) 7 ?hint ?fl (machine w1)")
    obtain kr2 w2 where ow: "vm_map_copy_overwrite h (Task_map (map_process target)) a
        (Some (next_copy w)) (w1\<lparr>machine := k\<rparr>) = (kr2, w2)"
      by (cases "vm_map_copy_overwrite h (Task_map (map_process target)) a
        (Some (next_copy w)) (w1\<lparr>machine := k\<rparr>)")
    have c1: "map_of (copies (w1\<lparr>machine := k\<rparr>)) (next_copy w) = Some bytes"
      using w1 by simp
    note res = copy_overwrite_outcome [OF doc c1 lt ow]
    show ?thesis
      using run cin kr1 al ow res w1 del len src
      by (auto simp: mach_vm_remap_external_def Let_def vm_map_copy_discard_def free_copy_def
          simp del: AList.delete_simps split: if_splits)
  qed
qed

text \<open>C33: \<open>mach_vm_remap_new_external\<close> touches nothing unless its checks pass: the current protection
  is within the maximal one, which is not both writable and executable, and the source port gives
  a map, one for full access unless the memory is copied or the remap is read-only. A successful
  copying remap leaves at the returned address of the target the bytes the source had when they
  were read; whatever the outcome, no copy object is left over. The send right is consumed exactly
  on success, and the reference to the source map is dropped once it was taken.
\<close>

theorem remap_copy_delivers:
  assumes "whole_transfers h" and "copies_ok w"
    and "mach_vm_remap_new_external h m tgt io sz flags rd full ma copy w = Inr out"
  shows "(rn_map_released out = None \<longrightarrow> rn_kr out \<noteq> KERN_SUCCESS \<and> rn_world out = w)
    \<and> (rn_right_consumed out \<longleftrightarrow> rn_kr out = KERN_SUCCESS)
    \<and> (\<forall>i. rn_map_released out = Some i \<longrightarrow>
        rr_cur_protection io AND rr_max_protection io = rr_cur_protection io
        \<and> rr_max_protection io AND 6 \<noteq> 6
        \<and> (\<exists>src. map_id src = i
            \<and> (if copy \<or> rr_max_protection io = 1 \<or> rr_max_protection io = 0
               then rd = Some src else full = Some src)))
    \<and> (copy \<longrightarrow> copies (rn_world out) = copies w
        \<and> (rn_kr out = KERN_SUCCESS \<longrightarrow>
            (\<exists>src target bytes. rd = Some src \<and> tgt = Some target \<and> length bytes = unat sz
              \<and> vm_readv h (proc_id (map_process src)) ma sz
                  (snd (malloc_ok h (32 + sz) (machine w))) = Inr bytes
              \<and> vm_readv h (proc_id (map_process target)) (rr_address (rn_values out)) sz
                  (machine (rn_world out)) = Inr bytes)))"
proof (cases "rn_map_released out")
  case None
  then show ?thesis
    using assms(3) by (auto simp: mach_vm_remap_new_external_def Let_def
        split: if_splits option.splits sum.splits)
next
  case (Some i)
  let ?fl = "flags OR VM_FLAGS_RETURN_DATA_ADDR"
  obtain target src kr res w' where run: "tgt = Some target"
    "(if copy \<or> rr_max_protection io = 1 \<or> rr_max_protection io = 0 then rd else full) = Some src"
    "map_id src = i"
    "mach_vm_remap_external h m target (rr_address io) sz ?fl src ma copy w = Inr (kr, res, w')"
    and out: "rn_kr out = kr" "rn_world out = w'" "rn_right_consumed out = (kr = KERN_SUCCESS)"
      "rn_values out = (case res of None \<Rightarrow> io | Some r \<Rightarrow> r)"
    and prot: "rr_cur_protection io AND rr_max_protection io = rr_cur_protection io"
      "rr_max_protection io AND 6 \<noteq> 6"
    using assms(3) Some by (auto simp: mach_vm_remap_new_external_def Let_def
        split: if_splits option.splits sum.splits)
  have "copy \<Longrightarrow> copies w' = copies w
    \<and> (case res of
         None \<Rightarrow> kr \<noteq> KERN_SUCCESS
       | Some r \<Rightarrow> kr = KERN_SUCCESS \<and> (\<exists>bytes. length bytes = unat sz
           \<and> vm_readv h (proc_id (map_process src)) ma sz
               (snd (malloc_ok h (32 + sz) (machine w))) = Inr bytes
           \<and> vm_readv h (proc_id (map_process target)) (rr_address r) sz (machine w') = Inr bytes))"
    using remap_copy_outcome [OF assms(1,2), of m target "rr_address io" sz ?fl src ma kr res w'] run(4)
    by simp
  with run out prot Some show ?thesis
    by (cases res) auto
qed

definition flat_world :: "(nat \<Rightarrow> u64 \<Rightarrow> u8) sm_world" where
  "flat_world = \<lparr>machine = (\<lambda>q x. if q = 1 then ucast x else 0), copies = [], next_copy = 0,
     descs = [], maps = [], memfds = [], next_obj = 0, lost = []\<rparr>"

definition flat_memfd :: "(nat \<Rightarrow> u64 \<Rightarrow> u8) memfd_host" where
  "flat_memfd = \<lparr>memfd_create_ok = (\<lambda>k. (True, k)), ftruncate_ok = (\<lambda>n k. (True, k)),
     mmap_memfd = (\<lambda>n k. (0x2000, k))\<rparr>"

definition flat_remap :: "(nat \<Rightarrow> u64 \<Rightarrow> u8) remap_new_outcome result" where
  "flat_remap = mach_vm_remap_new_external flat_host flat_memfd
     (Some \<lparr>map_id = 7, map_process = live_process 2\<rparr>)
     \<lparr>rr_address = 0, rr_cur_protection = 1, rr_max_protection = 1\<rparr> 3 VM_FLAGS_ANYWHERE
     (Some \<lparr>map_id = 8, map_process = live_process 1\<rparr>) None 0x100 True flat_world"

theorem remap_copy_delivers_witness:
  "\<exists>out bytes. flat_remap = Inr out \<and> rn_kr out = KERN_SUCCESS \<and> rn_map_released out = Some 8
     \<and> length bytes = 3
     \<and> vm_readv flat_host 1 0x100 3 (machine flat_world) = Inr bytes
     \<and> vm_readv flat_host 2 (rr_address (rn_values out)) 3 (machine (rn_world out)) = Inr bytes"
proof -
  obtain out where out: "flat_remap = Inr out" "rn_kr out = KERN_SUCCESS"
    "rn_map_released out = Some 8"
    by (simp add: flat_remap_def mach_vm_remap_new_external_def mach_vm_remap_external_def Let_def
        flat_world_def vm_map_copyin_common_def flat_host_def copyinmap_def Process_readMemory_def
        dtape_hook_task_read_memory_def copy_data_def vm_map_copyout_kernel_buffer_def
        dtape_hook_task_allocate_pages_def Process_allocatePages_def with_thread_def
        pickS2CThread_def Thread_allocatePages_def Thread_mmap_def copyoutmap_def
        vm_map_copy_overwrite_def dtape_hook_task_write_memory_def Process_writeMemory_def)
  have "copies_ok flat_world"
    by (simp add: copies_ok_def flat_world_def)
  from remap_copy_delivers [OF flat_host_documented(1) this out(1) [unfolded flat_remap_def]] out
  have "\<exists>bytes. length bytes = unat (3 :: u64)
      \<and> vm_readv flat_host 1 0x100 3 (snd (malloc_ok flat_host (32 + 3) (machine flat_world))) = Inr bytes
      \<and> vm_readv flat_host 2 (rr_address (rn_values out)) 3 (machine (rn_world out)) = Inr bytes"
    by auto
  moreover have "malloc_ok flat_host (32 + 3) (machine flat_world) = (True, machine flat_world)"
    by (simp add: flat_host_def)
  ultimately show ?thesis
    using out by auto
qed

end
