(* ===== verification/Knotes.thy ===== *)
theory Knotes
  imports Prelude
begin

text \<open>
  The duct-taped side of the Mach port channels (\<open>duct-tape/src/kqchan.c\<close>): the channel object
  around a knote, the lists of knotes with their notifications, and filling an event from a
  knote. The Mach port filter and the message queues of XNU are met through their answers,
  which are arguments.
\<close>

unbundle bit_operations_syntax

section \<open>Knotes and events\<close>

abbreviation EV_ONESHOT :: u16 where "EV_ONESHOT \<equiv> 0x10"
abbreviation EV_CLEAR :: u16 where "EV_CLEAR \<equiv> 0x20"
abbreviation EV_DISPATCH2 :: u16 where "EV_DISPATCH2 \<equiv> 0x180"
abbreviation EV_VANISHED :: u16 where "EV_VANISHED \<equiv> 0x200"
abbreviation EV_ERROR :: u16 where "EV_ERROR \<equiv> 0x4000"

text \<open>\<open>EVFILT_MACHPORT\<close> is \<open>-8\<close>, in eight bits.\<close>

abbreviation EVFILT_MACHPORT :: u8 where "EVFILT_MACHPORT \<equiv> 0xf8"

record kevent =
  ke_ident :: u64
  ke_filter :: u16
  ke_flags :: u16
  ke_qos :: u32
  ke_udata :: u64
  ke_fflags :: u32
  ke_xflags :: u32
  ke_data :: u64
  ke_ext :: "u64 list"

record knote =
  kn_id :: u64
  kn_filter :: u8
  kn_filtid :: u8
  kn_flags :: u16
  kn_qos :: u32
  kn_udata :: u64
  kn_fflags :: u32
  kn_sfflags :: u32
  kn_sdata :: u64
  kn_ext :: "u64 list"
  kn_vanished :: bool

definition zero_kevent :: kevent where
  "zero_kevent = \<lparr>ke_ident = 0, ke_filter = 0, ke_flags = 0, ke_qos = 0, ke_udata = 0,
     ke_fflags = 0, ke_xflags = 0, ke_data = 0, ke_ext = [0, 0, 0, 0]\<rparr>"

definition zero_knote :: knote where
  "zero_knote = \<lparr>kn_id = 0, kn_filter = 0, kn_filtid = 0, kn_flags = 0, kn_qos = 0, kn_udata = 0,
     kn_fflags = 0, kn_sfflags = 0, kn_sdata = 0, kn_ext = [0, 0, 0, 0], kn_vanished = False\<rparr>"

text \<open>
  The event shares its layout with the knote: the filter and its index are the low and the high
  byte of the event's filter, the saved flags lie where the extra flags are.
\<close>

definition kevent_of_knote :: "knote \<Rightarrow> kevent" where
  "kevent_of_knote kn =
     \<lparr>ke_ident = kn_id kn, ke_filter = ucast (kn_filter kn) OR push_bit 8 (ucast (kn_filtid kn)),
      ke_flags = kn_flags kn, ke_qos = kn_qos kn, ke_udata = kn_udata kn,
      ke_fflags = kn_fflags kn, ke_xflags = kn_sfflags kn, ke_data = kn_sdata kn,
      ke_ext = kn_ext kn\<rparr>"

definition knote_fill_kevent_with_sdata :: "knote \<Rightarrow> kevent \<times> knote" where
  "knote_fill_kevent_with_sdata kn =
     (let kev = kevent_of_knote kn;
          kev = kev\<lparr>ke_xflags := 0, ke_filter := ke_filter kev OR 0xff00\<rparr> in
      (kev, if kn_flags kn AND EV_CLEAR \<noteq> 0 then kn\<lparr>kn_fflags := 0\<rparr> else kn))"

definition knote_fill_kevent :: "u64 \<Rightarrow> knote \<Rightarrow> kevent \<times> knote" where
  "knote_fill_kevent dat kn =
     (let (kev, kn) = knote_fill_kevent_with_sdata kn in
      (kev\<lparr>ke_filter := scast (kn_filter kn), ke_data := dat\<rparr>, kn))"

definition knote_set_error :: "u64 \<Rightarrow> knote \<Rightarrow> knote" where
  "knote_set_error code kn = kn\<lparr>kn_flags := kn_flags kn OR EV_ERROR, kn_sdata := code\<rparr>"

section \<open>The channel object\<close>

record dtape_kqchan =
  dk_refcount :: nat
  dk_callback :: bool
  dk_knote :: knote
  dk_waiter_read_semaphore :: "nat option"

text \<open>
  Creating a channel. The arguments are whether memory was available and what the filter's
  attachment makes of the knote. The second result is the number of task references taken and
  not released.
\<close>

definition dtape_kqchan_mach_port_create ::
  "bool \<Rightarrow> (knote \<Rightarrow> knote) \<Rightarrow> u32 \<Rightarrow> u64 \<Rightarrow> u64 \<Rightarrow> u64 \<Rightarrow> dtape_kqchan option \<times> nat" where
  "dtape_kqchan_mach_port_create memory filt_machportattach port receive_buffer receive_buffer_size
       saved_filter_flags =
     (if \<not> memory then (None, 0)
      else (let kn = zero_knote\<lparr>kn_id := ucast port,
                       kn_ext := [receive_buffer, receive_buffer_size, 0, 0],
                       kn_sfflags := ucast saved_filter_flags, kn_filter := EVFILT_MACHPORT\<rparr>;
                kn = filt_machportattach kn in
            if kn_flags kn AND EV_ERROR \<noteq> 0 then (None, 1)
            else (Some \<lparr>dk_refcount = 1, dk_callback = True, dk_knote = kn,
                        dk_waiter_read_semaphore = None\<rparr>, 1)))"

definition dtape_kqchan_mach_port_destroy :: "dtape_kqchan \<Rightarrow> nat result" where
  "dtape_kqchan_mach_port_destroy k =
     (if dk_refcount k - 1 \<noteq> 0
      then Inl (Panic ''Duct-taped Mach port kqchan over-retained or still in-use at destruction'')
      else Inr 1)"

text \<open>The result of \<open>dtape_kqchan_mach_port_destroy\<close> is the number of task references released.\<close>

definition dtape_kqchan_mach_port_modify ::
  "(knote \<Rightarrow> kevent \<Rightarrow> knote) \<Rightarrow> u64 \<Rightarrow> u64 \<Rightarrow> u64 \<Rightarrow> dtape_kqchan \<Rightarrow> dtape_kqchan" where
  "dtape_kqchan_mach_port_modify filt_machporttouch receive_buffer receive_buffer_size
       saved_filter_flags k =
     k\<lparr>dk_knote := filt_machporttouch (dk_knote k)
         (zero_kevent\<lparr>ke_fflags := ucast saved_filter_flags,
            ke_ext := [receive_buffer, receive_buffer_size, 0, 0]\<rparr>)\<rparr>"

definition dtape_kqchan_mach_port_disable_notifications :: "dtape_kqchan \<Rightarrow> dtape_kqchan" where
  "dtape_kqchan_mach_port_disable_notifications k = k\<lparr>dk_callback := False\<rparr>"

text \<open>
  Filling the reply to a read. The reading thread's context says where the filter may put the
  message. \<open>process\<close> is what the filter makes of the context and the knote: whether an event was
  active, the event, and the knote afterwards.
\<close>

record kevent_ctx =
  kec_data_out :: u64
  kec_data_avail :: u64
  kec_data_size :: u64
  kec_data_resid :: u64
  kec_process_flags :: u32

definition fill_context :: "u64 \<Rightarrow> u64 \<Rightarrow> kevent_ctx" where
  "fill_context default_buffer default_buffer_size =
     \<lparr>kec_data_out = default_buffer, kec_data_avail = default_buffer,
      kec_data_size = default_buffer_size, kec_data_resid = default_buffer_size,
      kec_process_flags = 0\<rparr>"

definition dtape_kqchan_mach_port_fill ::
  "(kevent_ctx \<Rightarrow> knote \<Rightarrow> bool \<times> kevent \<times> knote) \<Rightarrow> u64 \<Rightarrow> u64 \<Rightarrow> dtape_kqchan
   \<Rightarrow> (bool \<times> kevent) \<times> dtape_kqchan" where
  "dtape_kqchan_mach_port_fill process default_buffer default_buffer_size k =
     (if kn_vanished (dk_knote k)
      then ((True, zero_kevent\<lparr>ke_filter := scast (kn_filter (dk_knote k)),
               ke_ident := kn_id (dk_knote k),
               ke_flags := EV_DISPATCH2 OR EV_ONESHOT OR EV_VANISHED,
               ke_udata := kn_udata (dk_knote k)\<rparr>), k)
      else (case process (fill_context default_buffer default_buffer_size) (dk_knote k) of
              (active, kev, kn) \<Rightarrow>
                ((active, kev),
                 k\<lparr>dk_knote := kn,
                   dk_waiter_read_semaphore := map_option Suc (dk_waiter_read_semaphore k)\<rparr>)))"

section \<open>Lists of knotes\<close>

text \<open>
  A list of knotes is linked through the knotes; the channels are found by the knote. The store
  maps a knote's address to its channel. Posting calls the notification callback of a channel
  unless it was disabled; the calls made are collected in their order.
\<close>

type_synonym kq_store = "ptr \<Rightarrow> dtape_kqchan"

definition knote_post :: "kq_store \<Rightarrow> ptr \<Rightarrow> ptr list" where
  "knote_post st p = (if dk_callback (st p) then [p] else [])"

fun knote_all :: "kq_store \<Rightarrow> ptr list \<Rightarrow> ptr list" where
  "knote_all st [] = []"
| "knote_all st (p # ps) = knote_post st p @ knote_all st ps"

fun knote_vanish :: "kq_store \<Rightarrow> ptr list \<Rightarrow> ptr list \<times> kq_store" where
  "knote_vanish st [] = ([], st)"
| "knote_vanish st (p # ps) =
     (let st = st(p := (st p)\<lparr>dk_knote := (dk_knote (st p))\<lparr>kn_vanished := True\<rparr>\<rparr>);
          called = knote_post st p;
          (rest, st) = knote_vanish st ps in
      (called @ rest, st))"

definition klist_init :: "ptr list" where
  "klist_init = []"

definition knote_attach :: "ptr \<Rightarrow> ptr list \<Rightarrow> bool \<times> ptr list" where
  "knote_attach p ps = (ps = [], p # ps)"

text \<open>Removing a knote walks the list to it; one that is not there is a null dereference.\<close>

definition knote_detach :: "ptr \<Rightarrow> ptr list \<Rightarrow> (bool \<times> ptr list) result" where
  "knote_detach p ps =
     (if p \<in> set ps then Inr (remove1 p ps = [], remove1 p ps)
      else Inl (Undefined_behaviour ''SLIST_REMOVE''))"

section \<open>Facts\<close>

lemma knote_all_filter: "knote_all st ps = filter (\<lambda>p. dk_callback (st p)) ps"
  by (induction ps) (auto simp: knote_post_def)

abbreviation vanish :: "ptr \<Rightarrow> kq_store \<Rightarrow> kq_store" where
  "vanish p st \<equiv> st(p := (st p)\<lparr>dk_knote := (dk_knote (st p))\<lparr>kn_vanished := True\<rparr>\<rparr>)"

lemma knote_vanish_Cons:
  "fst (knote_vanish st (p # ps)) = knote_post st p @ fst (knote_vanish (vanish p st) ps)"
  "snd (knote_vanish st (p # ps)) = snd (knote_vanish (vanish p st) ps)"
  by (simp_all add: knote_post_def Let_def split: prod.splits)

lemma knote_vanish_calls: "fst (knote_vanish st ps) = filter (\<lambda>p. dk_callback (st p)) ps"
proof (induction ps arbitrary: st)
  case (Cons p ps)
  have "fst (knote_vanish (vanish p st) ps) = filter (\<lambda>q. dk_callback (vanish p st q)) ps"
    by (rule Cons.IH)
  also have "\<dots> = filter (\<lambda>q. dk_callback (st q)) ps"
    by (rule filter_cong) auto
  finally show ?case by (simp only: knote_vanish_Cons) (simp add: knote_post_def)
qed simp

lemma knote_vanish_store:
  "snd (knote_vanish st ps) p = (if p \<in> set ps then vanish p st p else st p)"
proof (induction ps arbitrary: st)
  case (Cons q ps)
  show ?case by (simp only: knote_vanish_Cons Cons.IH) auto
qed simp

text \<open>
  The two ways of filling an event agree on the filter when the filter's number is negative, as
  all filter numbers are.
\<close>

lemma bit_ff00: "n < 16 \<Longrightarrow> bit (0xff00 :: u16) n \<longleftrightarrow> 8 \<le> n"
proof -
  have "(0xff00 :: u16) = push_bit 8 (mask 8)"
    by (simp add: mask_eq_exp_minus_1 push_bit_eq_mult)
  moreover have "n < 16 \<Longrightarrow> bit (push_bit 8 (mask 8) :: u16) n \<longleftrightarrow> 8 \<le> n"
    by (simp only: bit_push_bit_iff bit_mask_iff possible_bit_word) auto
  ultimately show "n < 16 \<Longrightarrow> bit (0xff00 :: u16) n \<longleftrightarrow> 8 \<le> n"
    by metis
qed

lemma fill_filter_sign:
  assumes "bit (kn_filter kn) 7"
  shows "ke_filter (fst (knote_fill_kevent_with_sdata kn)) = scast (kn_filter kn)"
proof (rule bit_word_eqI)
  fix n :: nat
  assume n: "n < LENGTH(16)"
  have low: "bit (kn_filter kn) n \<Longrightarrow> n < 8"
    using bit_imp_le_length [of "kn_filter kn" n] by simp
  show "bit (ke_filter (fst (knote_fill_kevent_with_sdata kn))) n \<longleftrightarrow> bit (scast (kn_filter kn) :: u16) n"
    using assms n low bit_ff00 [of n]
    by (cases "n = 7"; cases "n < 8")
      (auto simp: knote_fill_kevent_with_sdata_def kevent_of_knote_def Let_def bit_simps min_def le_less_Suc_eq)
qed

section \<open>Properties\<close>

text \<open>When a port goes away, every channel on its list of knotes whose notifications are
  enabled is called once, in the order of the list, exactly the channels on the list are
  marked, and the next read on such a channel gets the event that says so, for its own port,
  without asking the filter. The other channels are untouched, and detaching a knote undoes its
  attachment.
\<close>

lemma vanish_reaches_readers:
  assumes "distinct (p # ps)"
  shows "snd (knote_attach p ps) = p # ps \<and>
    knote_detach p (p # ps) = Inr (fst (knote_attach p ps), ps) \<and>
    fst (knote_vanish st (p # ps)) = knote_all st (p # ps) \<and>
    fst (knote_vanish st (p # ps)) = filter (\<lambda>q. dk_callback (st q)) (p # ps) \<and>
    (q \<in> set (p # ps) \<longrightarrow>
       dtape_kqchan_mach_port_fill process buf sz (snd (knote_vanish st (p # ps)) q) =
         ((True, zero_kevent\<lparr>ke_filter := scast (kn_filter (dk_knote (st q))),
             ke_ident := kn_id (dk_knote (st q)), ke_flags := 0x390,
             ke_udata := kn_udata (dk_knote (st q))\<rparr>), vanish q st q)) \<and>
    (q \<notin> set (p # ps) \<longrightarrow> snd (knote_vanish st (p # ps)) q = st q)"
proof (intro conjI impI)
  show "dtape_kqchan_mach_port_fill process buf sz (snd (knote_vanish st (p # ps)) q) =
         ((True, zero_kevent\<lparr>ke_filter := scast (kn_filter (dk_knote (st q))),
             ke_ident := kn_id (dk_knote (st q)), ke_flags := 0x390,
             ke_udata := kn_udata (dk_knote (st q))\<rparr>), vanish q st q)" if "q \<in> set (p # ps)"
    unfolding knote_vanish_store if_P [OF that] by (simp add: dtape_kqchan_mach_port_fill_def)
  show "snd (knote_vanish st (p # ps)) q = st q" if "q \<notin> set (p # ps)"
    unfolding knote_vanish_store if_not_P [OF that] by simp
qed (use assms in \<open>simp_all add: knote_attach_def knote_detach_def knote_vanish_calls knote_all_filter
       del: knote_vanish.simps knote_all.simps\<close>)

end
