(* ===== verification/Kqchan.thy ===== *)
theory Kqchan
  imports Knotes
begin

text \<open>
  Kqueue channels (\<open>kqchan.cpp\<close>, \<open>kqchan.hpp\<close>, and the duct-taped side in
  \<open>duct-tape/src/kqchan.c\<close>). A channel is a socket over which the server tells a client that
  events of a process or of a Mach port are waiting. The server sends a notification; the client
  answers with a read request; the server replies with an event. The channel remembers whether a
  notification is outstanding, and holds new ones back while a read is being answered.

  The locked sections of the code are functions on the channel. The handlers are their
  compositions; the interleavings of the main thread, the notifying threads, the scheduled
  checks and the client are a step relation over the same functions.
\<close>

unbundle bit_operations_syntax

section \<open>Messages of a channel\<close>

abbreviation NOTE_TRACK :: u32 where "NOTE_TRACK \<equiv> 1"
abbreviation NOTE_TRACKERR :: u32 where "NOTE_TRACKERR \<equiv> 2"
abbreviation NOTE_CHILD :: u32 where "NOTE_CHILD \<equiv> 4"
abbreviation NOTE_PDATAMASK :: u64 where "NOTE_PDATAMASK \<equiv> 0xfffff"

text \<open>What the server sends: a notification, or a reply whose contents depend on the kind of channel.\<close>

datatype 'k kq_message = Notification | Modify_reply | Read_reply 'k

text \<open>What the client asks for, with the arguments of the two requests.\<close>

datatype ('m, 'r) kq_call = Modify 'm | Read 'r

definition le32 :: "u8 list \<Rightarrow> nat \<Rightarrow> u32" where
  "le32 bs i = ucast (bs ! i) OR push_bit 8 (ucast (bs ! (i + 1)))
     OR push_bit 16 (ucast (bs ! (i + 2))) OR push_bit 24 (ucast (bs ! (i + 3)))"

definition le64 :: "u8 list \<Rightarrow> nat \<Rightarrow> u64" where
  "le64 bs i = ucast (le32 bs i) OR push_bit 32 (ucast (le32 bs (i + 4)))"

section \<open>The base class\<close>

record ('q, 'k) kqchan =
  kq_socket :: bool
  kq_outbox :: "'k kq_message list"
  kq_inbox :: "u8 list list"
  canSendNotification :: bool
  deferNotification :: bool
  deferredNotification :: "'k kq_message option"
  notificationCount :: u64
  kq_source :: 'q

text \<open>\<open>kq_source\<close> stands for the members of the derived class.\<close>

definition Kqchan_new :: "'q \<Rightarrow> ('q, 'k) kqchan" where
  "Kqchan_new q =
     \<lparr>kq_socket = False, kq_outbox = [], kq_inbox = [], canSendNotification = True,
      deferNotification = False, deferredNotification = None, notificationCount = 0,
      kq_source = q\<rparr>"

text \<open>
  Creating the socket pair. The arguments are the answers of the system calls: the pair or an
  error, and the errors of reading and of writing the flags of the server's end. The results are
  the client's end or the exception, and the descriptors nobody owns afterwards.
\<close>

definition Kqchan_setup ::
  "int + (int \<times> int) \<Rightarrow> int option \<Rightarrow> int option \<Rightarrow> ('q, 'k) kqchan
   \<Rightarrow> int result \<times> int list \<times> ('q, 'k) kqchan" where
  "Kqchan_setup pair getfl setfl k =
     (case pair of
        Inl e \<Rightarrow> (Inl (System_error e), [], k)
      | Inr (fd0, fd1) \<Rightarrow>
          (let k = k\<lparr>kq_socket := True\<rparr> in
           case getfl of
             Some e \<Rightarrow> (Inl (System_error e), [fd1], k)
           | None \<Rightarrow>
               (case setfl of
                  Some e \<Rightarrow> (Inl (System_error e), [fd1], k)
                | None \<Rightarrow> (Inr fd1, [], k))))"

definition push_outbox :: "'k kq_message \<Rightarrow> ('q, 'k) kqchan \<Rightarrow> ('q, 'k) kqchan" where
  "push_outbox m k = k\<lparr>kq_outbox := kq_outbox k @ [m]\<rparr>"

text \<open>The locked section of \<open>_sendNotification\<close>, and whether the notification is pushed after it.\<close>

definition sendNotification_locked :: "('q, 'k) kqchan \<Rightarrow> bool \<times> ('q, 'k) kqchan" where
  "sendNotification_locked k =
     (if \<not> canSendNotification k then (False, k)
      else (let k = k\<lparr>canSendNotification := False\<rparr> in
            if deferNotification k then (False, k\<lparr>deferredNotification := Some Notification\<rparr>)
            else (True, k)))"

definition sendNotification :: "('q, 'k) kqchan \<Rightarrow> ('q, 'k) kqchan" where
  "sendNotification k =
     (let (now, k) = sendNotification_locked k in if now then push_outbox Notification k else k)"

definition sendDeferredNotification_locked ::
  "('q, 'k) kqchan \<Rightarrow> 'k kq_message option \<times> ('q, 'k) kqchan" where
  "sendDeferredNotification_locked k =
     (let k = k\<lparr>deferNotification := False\<rparr> in
      case deferredNotification k of
        None \<Rightarrow> (None, k)
      | Some m \<Rightarrow> (Some m, k\<lparr>deferredNotification := None\<rparr>))"

definition sendDeferredNotification :: "('q, 'k) kqchan \<Rightarrow> ('q, 'k) kqchan" where
  "sendDeferredNotification k =
     (case sendDeferredNotification_locked k of
        (None, k) \<Rightarrow> k
      | (Some m, k) \<Rightarrow> push_outbox m k)"

text \<open>A read request acknowledges the notification and defers new ones.\<close>

definition acknowledge :: "('q, 'k) kqchan \<Rightarrow> ('q, 'k) kqchan" where
  "acknowledge k =
     k\<lparr>notificationCount := notificationCount k + 1, canSendNotification := True,
       deferNotification := True\<rparr>"

text \<open>
  The events of the monitor on the socket: a hang-up stops everything else. The results are
  whether the channel is unregistered, whether the pending messages are received and processed,
  and whether pending messages are sent.
\<close>

definition Kqchan_event :: "bool \<Rightarrow> bool \<Rightarrow> bool \<Rightarrow> bool \<times> bool \<times> bool" where
  "Kqchan_event hangUp readable writable =
     (if hangUp then (True, False, False) else (False, readable, writable))"

section \<open>Channels on a process\<close>

record proc_event =
  ev_events :: u32
  ev_data :: u64
  ev_newKqchan :: "nat option"

record proc_reply =
  pr_code :: u32
  pr_fflags :: u32
  pr_data :: u64
  pr_descriptors :: "int list"

record proc_source =
  ps_nspid :: int
  ps_flags :: u32
  ps_events :: "proc_event list"
  ps_targetProcess :: "nat option"
  ps_attached :: bool

type_synonym proc_kqchan = "(proc_source, proc_reply) kqchan"

definition Process_kqchan_new :: "int \<Rightarrow> u32 \<Rightarrow> proc_kqchan" where
  "Process_kqchan_new nspid flags =
     Kqchan_new \<lparr>ps_nspid = nspid, ps_flags = flags, ps_events = [], ps_targetProcess = None,
       ps_attached = False\<rparr>"

text \<open>
  Decoding a request: the header is three 32-bit numbers, and the modification carries the flags
  after it.
\<close>

definition Process_decode :: "u8 list \<Rightarrow> (u32, unit) kq_call result" where
  "Process_decode bs =
     (if length bs < 12
      then Inl (Invalid_argument ''Message buffer was too small for kqchan call header'')
      else if le32 bs 0 = 4 then
        (if length bs < 16
         then Inl (Invalid_argument ''Message buffer was too small for dserver_kqchan_call_proc_modify_'')
         else Inr (Modify (le32 bs 12)))
      else if le32 bs 0 = 5 then
        (if length bs < 12
         then Inl (Invalid_argument ''Message buffer was too small for dserver_kqchan_call_proc_read'')
         else Inr (Read ()))
      else Inl (Invalid_argument ''Unknown/invalid kqchan msgnum''))"

text \<open>
  What a read does with the channel of a forked child that comes with the event: \<open>child\<close> is the
  result of setting that channel up.
\<close>

definition track_child :: "int result \<Rightarrow> u32 \<Rightarrow> proc_event \<Rightarrow> proc_reply \<Rightarrow> proc_reply" where
  "track_child child savedFlags e r =
     (if savedFlags AND NOTE_TRACK \<noteq> 0 then
        (case ev_newKqchan e of
           Some _ \<Rightarrow>
             (case child of
                Inr fd \<Rightarrow> r\<lparr>pr_descriptors := pr_descriptors r @ [fd]\<rparr>
              | Inl _ \<Rightarrow> r\<lparr>pr_fflags := pr_fflags r OR NOTE_TRACKERR\<rparr>)
         | None \<Rightarrow>
             if ev_events e AND NOTE_FORK \<noteq> 0
             then r\<lparr>pr_fflags := pr_fflags r OR NOTE_TRACKERR\<rparr> else r)
      else r)"

text \<open>One turn of the loop of \<open>Process::_read\<close>: the reply so far, or the finished reply.\<close>

definition Process_fill ::
  "int result \<Rightarrow> proc_reply \<Rightarrow> proc_source \<Rightarrow> (proc_reply + proc_reply) \<times> proc_source" where
  "Process_fill child r q =
     (case ps_events q of
        [] \<Rightarrow> (Inr (r\<lparr>pr_code := 0xdead\<rparr>), q)
      | e # es \<Rightarrow>
          (let q = q\<lparr>ps_events := es\<rparr>;
               savedFlags = ps_flags q;
               r = r\<lparr>pr_data := ev_data e, pr_fflags := ev_events e AND savedFlags\<rparr> in
           if pr_fflags r = 0 then (Inl r, q)
           else (Inr (track_child child savedFlags e r), q)))"

definition empty_reply :: proc_reply where
  "empty_reply = \<lparr>pr_code = 0, pr_fflags = 0, pr_data = 0, pr_descriptors = []\<rparr>"

function Process_fill_loop ::
  "int result \<Rightarrow> proc_reply \<Rightarrow> proc_source \<Rightarrow> proc_reply \<times> proc_source" where
  "Process_fill_loop child r q =
     (case Process_fill child r q of
        (Inl r', q') \<Rightarrow> Process_fill_loop child r' q'
      | (Inr r', q') \<Rightarrow> (r', q'))"
  by auto
termination
  by (relation "measure (\<lambda>(child, r, q). length (ps_events q))")
    (auto simp: Process_fill_def Let_def split: list.splits if_splits)

declare Process_fill_loop.simps [simp del]

text \<open>\<open>Process::_read\<close>; a request that comes after the listening process died is ignored.\<close>

definition Process_read :: "bool \<Rightarrow> int result \<Rightarrow> proc_kqchan \<Rightarrow> proc_kqchan" where
  "Process_read listening child k =
     (if \<not> listening then k
      else (let k = acknowledge k;
                (r, q) = Process_fill_loop child empty_reply (kq_source k);
                k = push_outbox (Read_reply r) (k\<lparr>kq_source := q\<rparr>) in
            sendDeferredNotification k))"

definition Process_modify :: "u32 \<Rightarrow> proc_kqchan \<Rightarrow> proc_kqchan" where
  "Process_modify flags k =
     push_outbox Modify_reply (k\<lparr>kq_source := (kq_source k)\<lparr>ps_flags := flags\<rparr>\<rparr>)"

text \<open>
  \<open>Process::_processMessages\<close>: an exception leaves the rest of the inbox. \<open>children\<close> gives the
  outcome of the channel set up by each request.
\<close>

fun Process_processMessages ::
  "bool \<Rightarrow> int result list \<Rightarrow> u8 list list \<Rightarrow> proc_kqchan \<Rightarrow> unit result \<times> proc_kqchan" where
  "Process_processMessages listening children [] k = (Inr (), k\<lparr>kq_inbox := []\<rparr>)"
| "Process_processMessages listening children (bs # inbox) k =
     (case Process_decode bs of
        Inl e \<Rightarrow> (Inl e, k\<lparr>kq_inbox := inbox\<rparr>)
      | Inr (Modify flags) \<Rightarrow>
          Process_processMessages listening (drop 1 children) inbox (Process_modify flags k)
      | Inr (Read _) \<Rightarrow>
          Process_processMessages listening (drop 1 children) inbox
            (Process_read listening (case children of [] \<Rightarrow> Inl Bad_alloc | c # _ \<Rightarrow> c) k))"

text \<open>
  \<open>Process::_notify\<close>. For a fork, a channel on the child is made, registered with it and told
  whose child it is; the registry's answer gives the child and the namespace ID of its parent.
\<close>

definition notify_locked :: "proc_event \<Rightarrow> proc_kqchan \<Rightarrow> bool \<times> proc_kqchan" where
  "notify_locked e k =
     (let k = k\<lparr>kq_source := (kq_source k)\<lparr>ps_events := ps_events (kq_source k) @ [e]\<rparr>\<rparr> in
      if kq_socket k then sendNotification_locked k else (False, k))"

definition notify_event :: "proc_event \<Rightarrow> proc_kqchan \<Rightarrow> proc_kqchan" where
  "notify_event e k =
     (let (now, k) = notify_locked e k in if now then push_outbox Notification k else k)"

definition fork_child :: "u64 \<Rightarrow> u32 \<Rightarrow> nat \<Rightarrow> u64 option \<Rightarrow> proc_kqchan" where
  "fork_child nspid flags child parent =
     (let k = Process_kqchan_new (uint nspid) flags;
          k = k\<lparr>kq_source := (kq_source k)\<lparr>ps_targetProcess := Some child, ps_attached := True\<rparr>\<rparr> in
      notify_event \<lparr>ev_events = NOTE_CHILD,
        ev_data = (case parent of Some p \<Rightarrow> p | None \<Rightarrow> 0) AND NOTE_PDATAMASK,
        ev_newKqchan = None\<rparr> k)"

definition Process_notify ::
  "bool \<Rightarrow> (u64 \<Rightarrow> (nat \<times> u64 option) option) \<Rightarrow> nat \<Rightarrow> u32 \<Rightarrow> u64 \<Rightarrow> proc_kqchan
   \<Rightarrow> proc_kqchan option \<times> proc_kqchan" where
  "Process_notify listening lookup new ev dat k =
     (let e = \<lparr>ev_events = ev, ev_data = dat, ev_newKqchan = None\<rparr> in
      if ev = NOTE_FORK then
        (if \<not> listening then (None, k)
         else (case lookup (dat AND NOTE_PDATAMASK) of
                 None \<Rightarrow> (None, notify_event e k)
               | Some (child, parent) \<Rightarrow>
                   (Some (fork_child (dat AND NOTE_PDATAMASK) (ps_flags (kq_source k)) child parent),
                    notify_event (e\<lparr>ev_newKqchan := Some new\<rparr>) k)))
      else (None, notify_event e k))"

text \<open>
  The end of \<open>Process::setup\<close>, under the mutex of the channel. The results are whether the channel
  is registered with its target, whether a notification is pushed, and the channel.
\<close>

definition setup_attach :: "proc_kqchan \<Rightarrow> bool \<times> bool \<times> proc_kqchan" where
  "setup_attach k =
     (let first = \<not> ps_attached (kq_source k);
          k = k\<lparr>kq_source := (kq_source k)\<lparr>ps_attached := True\<rparr>\<rparr>;
          (now, k) = (if ps_events (kq_source k) \<noteq> [] then sendNotification_locked k else (False, k)) in
      (first, now, k))"

definition Process_setup ::
  "(int \<Rightarrow> nat option) \<Rightarrow> int + (int \<times> int) \<Rightarrow> int option \<Rightarrow> int option \<Rightarrow> proc_kqchan
   \<Rightarrow> int result \<times> int list \<times> proc_kqchan" where
  "Process_setup lookup pair getfl setfl k =
     (case lookup (ps_nspid (kq_source k)) of
        None \<Rightarrow> (Inl (System_error ESRCH), [], k)
      | Some target \<Rightarrow>
          (let k = k\<lparr>kq_source := (kq_source k)\<lparr>ps_targetProcess := Some target\<rparr>\<rparr> in
           case Kqchan_setup pair getfl setfl k of
             (Inl e, leaked, k) \<Rightarrow> (Inl e, leaked, k)
           | (Inr fd, leaked, k) \<Rightarrow>
               (let (first, now, k) = setup_attach k in
                (Inr fd, leaked, if now then push_outbox Notification k else k))))"

text \<open>The check scheduled after a reply was sent.\<close>

definition Process_checkForEvents :: "proc_kqchan \<Rightarrow> proc_kqchan" where
  "Process_checkForEvents k = (if ps_events (kq_source k) \<noteq> [] then sendNotification k else k)"

section \<open>Channels on a Mach port\<close>

record mach_reply =
  mr_code :: u32
  mr_kev :: kevent

record mach_source =
  mp_port :: u32
  mp_dtapeKqchan :: dtape_kqchan

type_synonym mach_kqchan = "(mach_source, mach_reply) kqchan"

text \<open>The requests carry three and two 64-bit numbers, aligned, after the header; its third number
  is the thread that asks.\<close>

definition MachPort_decode :: "u8 list \<Rightarrow> (u64 \<times> u64 \<times> u64 \<times> u32, u64 \<times> u64 \<times> u32) kq_call result" where
  "MachPort_decode bs =
     (if length bs < 12
      then Inl (Invalid_argument ''Message buffer was too small for kqchan call header'')
      else if le32 bs 0 = 2 then
        (if length bs < 40
         then Inl (Invalid_argument
                ''Message buffer was too small for dserver_kqchan_msgnum_mach_port_modify'')
         else Inr (Modify (le64 bs 16, le64 bs 24, le64 bs 32, le32 bs 8)))
      else if le32 bs 0 = 3 then
        (if length bs < 32
         then Inl (Invalid_argument
                ''Message buffer was too small for dserver_kqchan_call_mach_port_read'')
         else Inr (Read (le64 bs 16, le64 bs 24, le32 bs 8)))
      else Inl (Invalid_argument ''Unknown/invalid kqchan msgnum''))"

definition MachPort_setup ::
  "bool \<Rightarrow> bool \<Rightarrow> (knote \<Rightarrow> knote) \<Rightarrow> int + (int \<times> int) \<Rightarrow> int option \<Rightarrow> int option \<Rightarrow> bool
   \<Rightarrow> u32 \<Rightarrow> u64 \<Rightarrow> u64 \<Rightarrow> u64 \<Rightarrow> (int \<times> mach_kqchan) result" where
  "MachPort_setup listening memory attach pair getfl setfl has_events port receiveBuffer
       receiveBufferSize savedFilterFlags =
     (if \<not> listening then Inl (System_error ESRCH)
      else (case dtape_kqchan_mach_port_create memory attach port receiveBuffer receiveBufferSize
                   savedFilterFlags of
              (None, _) \<Rightarrow> Inl (System_error ESRCH)
            | (Some d, _) \<Rightarrow>
                (case Kqchan_setup pair getfl setfl
                        (Kqchan_new \<lparr>mp_port = port, mp_dtapeKqchan = d\<rparr>) of
                   (Inl e, _) \<Rightarrow> Inl e
                 | (Inr fd, _, k) \<Rightarrow> Inr (fd, if has_events then sendNotification k else k))))"

text \<open>The parts of \<open>_modify\<close> and \<open>_read\<close> that run in a kernel microthread.\<close>

definition MachPort_touch ::
  "(knote \<Rightarrow> kevent \<Rightarrow> knote) \<Rightarrow> u64 \<times> u64 \<times> u64 \<times> u32 \<Rightarrow> mach_source \<Rightarrow> mach_source" where
  "MachPort_touch touch m q =
     (case m of (receiveBuffer, receiveBufferSize, savedFilterFlags, _) \<Rightarrow>
        q\<lparr>mp_dtapeKqchan := dtape_kqchan_mach_port_modify touch receiveBuffer receiveBufferSize
            savedFilterFlags (mp_dtapeKqchan q)\<rparr>)"

definition MachPort_modify ::
  "(u32 \<Rightarrow> bool) \<Rightarrow> (knote \<Rightarrow> kevent \<Rightarrow> knote) \<Rightarrow> u64 \<times> u64 \<times> u64 \<times> u32 \<Rightarrow> mach_kqchan
   \<Rightarrow> unit result \<times> mach_kqchan" where
  "MachPort_modify known touch m k =
     (if \<not> known (snd (snd (snd m)))
      then (Inl (Runtime_error ''No thread for Mach port kqchan modification?''), k)
      else (Inr (), push_outbox Modify_reply (k\<lparr>kq_source := MachPort_touch touch m (kq_source k)\<rparr>)))"

definition MachPort_fill ::
  "(kevent_ctx \<Rightarrow> knote \<Rightarrow> bool \<times> kevent \<times> knote) \<Rightarrow> u64 \<times> u64 \<times> u32 \<Rightarrow> mach_source
   \<Rightarrow> mach_reply \<times> mach_source" where
  "MachPort_fill process r q =
     (case dtape_kqchan_mach_port_fill process (fst r) (fst (snd r)) (mp_dtapeKqchan q) of
        ((filled, kev), d) \<Rightarrow>
          (\<lparr>mr_code = (if filled then 0 else 0xdead), mr_kev = kev\<rparr>, q\<lparr>mp_dtapeKqchan := d\<rparr>))"

definition MachPort_read ::
  "(u32 \<Rightarrow> bool) \<Rightarrow> (kevent_ctx \<Rightarrow> knote \<Rightarrow> bool \<times> kevent \<times> knote) \<Rightarrow> u64 \<times> u64 \<times> u32 \<Rightarrow> mach_kqchan
   \<Rightarrow> unit result \<times> mach_kqchan" where
  "MachPort_read known process r k =
     (let k = acknowledge k in
      if \<not> known (snd (snd r))
      then (Inl (Runtime_error ''No thread for Mach port kqchan read?''), k)
      else (let (reply, q) = MachPort_fill process r (kq_source k);
                k = push_outbox (Read_reply reply) (k\<lparr>kq_source := q\<rparr>) in
            (Inr (), sendDeferredNotification k)))"

text \<open>The destructor: no notification may come any more when the duct-taped channel goes.\<close>

definition MachPort_dtor :: "mach_kqchan \<Rightarrow> nat result" where
  "MachPort_dtor k =
     dtape_kqchan_mach_port_destroy
       (dtape_kqchan_mach_port_disable_notifications (mp_dtapeKqchan (kq_source k)))"

section \<open>The channel under interleaving\<close>

text \<open>
  The methods in which the derived classes differ. \<open>kc_fill\<close> is one turn of answering a read;
  \<open>kc_pending\<close> is whether events are waiting; \<open>kc_arrive\<close> is the arrival of an event; a process
  channel only notifies once it has a socket. The argument of type \<open>'o\<close> is what other parts of
  the system answer.
\<close>

record ('q, 'k, 'm, 'r, 'o, 'e) kq_class =
  kc_decode :: "u8 list \<Rightarrow> ('m, 'r) kq_call result"
  kc_modify :: "'o \<Rightarrow> 'm \<Rightarrow> 'q \<Rightarrow> 'q"
  kc_fill :: "'o \<Rightarrow> 'r \<Rightarrow> 'q \<Rightarrow> ('r + 'k) \<times> 'q"
  kc_pending :: "'o \<Rightarrow> 'q \<Rightarrow> bool"
  kc_arrive :: "'e \<Rightarrow> 'q \<Rightarrow> 'q"
  kc_attach :: "'q \<Rightarrow> 'q"
  kc_needs_socket :: bool

definition proc_class :: "(proc_source, proc_reply, u32, proc_reply, int result, proc_event) kq_class" where
  "proc_class =
     \<lparr>kc_decode = (\<lambda>bs. map_sum id (map_kq_call id (\<lambda>_. empty_reply)) (Process_decode bs)),
      kc_modify = (\<lambda>_ flags q. q\<lparr>ps_flags := flags\<rparr>),
      kc_fill = Process_fill,
      kc_pending = (\<lambda>_ q. ps_events q \<noteq> []),
      kc_arrive = (\<lambda>e q. q\<lparr>ps_events := ps_events q @ [e]\<rparr>),
      kc_attach = (\<lambda>q. q\<lparr>ps_attached := True\<rparr>),
      kc_needs_socket = True\<rparr>"

type_synonym mach_answers =
  "(knote \<Rightarrow> kevent \<Rightarrow> knote) \<times> (kevent_ctx \<Rightarrow> knote \<Rightarrow> bool \<times> kevent \<times> knote) \<times> bool"

definition mach_class ::
  "(mach_source, mach_reply, u64 \<times> u64 \<times> u64 \<times> u32, u64 \<times> u64 \<times> u32, mach_answers,
    dtape_kqchan \<Rightarrow> dtape_kqchan) kq_class" where
  "mach_class =
     \<lparr>kc_decode = MachPort_decode,
      kc_modify = (\<lambda>(touch, _, _) m q. MachPort_touch touch m q),
      kc_fill = (\<lambda>(_, process, _) r q. apfst Inr (MachPort_fill process r q)),
      kc_pending = (\<lambda>(_, _, has_events) _. has_events),
      kc_arrive = (\<lambda>f q. q\<lparr>mp_dtapeKqchan := f (mp_dtapeKqchan q)\<rparr>),
      kc_attach = id,
      kc_needs_socket = False\<rparr>"

text \<open>
  Where the answering of a read stands. Between the sections nothing is held, so other threads
  come in between.
\<close>

datatype ('r, 'k) kq_reader =
    Reader_idle
  | Filling 'r
  | Replying 'k
  | Reply_pushed
  | Flushing "'k kq_message"

text \<open>
  The channel with everything in flight: \<open>ks_pushing\<close> counts the notifications that threads
  are about to put into the outbox, \<open>ks_modifying\<close> the replies to modifications, \<open>ks_checks\<close> the
  checks for events that the sending of a reply schedules, \<open>ks_wire\<close> the messages the client has
  not taken from the socket yet. Of the client, \<open>ks_notified\<close> counts the notifications it has not
  acted on, and \<open>ks_reading\<close> says that it waits for the reply to a read. \<open>ks_overlap\<close> records that a
  read was started while another one was being answered.
\<close>

record ('q, 'k, 'r) kq_sys =
  ks_chan :: "('q, 'k) kqchan"
  ks_listening :: bool
  ks_setting_up :: bool
  ks_reader :: "('r, 'k) kq_reader"
  ks_pushing :: nat
  ks_modifying :: nat
  ks_checks :: nat
  ks_wire :: "'k kq_message list"
  ks_notified :: nat
  ks_reading :: bool
  ks_overlap :: bool

definition kq_start :: "'q \<Rightarrow> ('q, 'k, 'r) kq_sys" where
  "kq_start q =
     \<lparr>ks_chan = Kqchan_new q, ks_listening = True, ks_setting_up = False, ks_reader = Reader_idle,
      ks_pushing = 0, ks_modifying = 0, ks_checks = 0, ks_wire = [], ks_notified = 0,
      ks_reading = False, ks_overlap = False\<rparr>"

definition request_notification :: "bool \<Rightarrow> ('q, 'k, 'r) kq_sys \<Rightarrow> ('q, 'k, 'r) kq_sys" where
  "request_notification wanted s =
     (if wanted
      then (let (now, k) = sendNotification_locked (ks_chan s) in
            s\<lparr>ks_chan := k, ks_pushing := ks_pushing s + of_bool now\<rparr>)
      else s)"

definition with_source :: "('q \<Rightarrow> 'q) \<Rightarrow> ('q, 'k, 'r) kq_sys \<Rightarrow> ('q, 'k, 'r) kq_sys" where
  "with_source f s = s\<lparr>ks_chan := (ks_chan s)\<lparr>kq_source := f (kq_source (ks_chan s))\<rparr>\<rparr>"

definition with_outbox :: "'k kq_message \<Rightarrow> ('q, 'k, 'r) kq_sys \<Rightarrow> ('q, 'k, 'r) kq_sys" where
  "with_outbox m s = s\<lparr>ks_chan := push_outbox m (ks_chan s)\<rparr>"

definition with_inbox :: "u8 list list \<Rightarrow> ('q, 'k, 'r) kq_sys \<Rightarrow> ('q, 'k, 'r) kq_sys" where
  "with_inbox bs s = s\<lparr>ks_chan := (ks_chan s)\<lparr>kq_inbox := bs\<rparr>\<rparr>"

definition notify_step :: "('q, 'k, 'm, 'r, 'o, 'e) kq_class \<Rightarrow> 'e \<Rightarrow> ('q, 'k, 'r) kq_sys \<Rightarrow> ('q, 'k, 'r) kq_sys" where
  "notify_step C e s =
     (let s = with_source (kc_arrive C e) s in
      request_notification (kq_socket (ks_chan s) \<or> \<not> kc_needs_socket C) s)"

definition check_step :: "('q, 'k, 'm, 'r, 'o, 'e) kq_class \<Rightarrow> 'o \<Rightarrow> ('q, 'k, 'r) kq_sys \<Rightarrow> ('q, 'k, 'r) kq_sys" where
  "check_step C a s =
     request_notification (kc_pending C a (kq_source (ks_chan s))) (s\<lparr>ks_checks := ks_checks s - 1\<rparr>)"

definition setup_step :: "('q, 'k, 'r) kq_sys \<Rightarrow> ('q, 'k, 'r) kq_sys" where
  "setup_step s = s\<lparr>ks_chan := (ks_chan s)\<lparr>kq_socket := True\<rparr>, ks_setting_up := True\<rparr>"

definition attach_step :: "('q, 'k, 'm, 'r, 'o, 'e) kq_class \<Rightarrow> 'o \<Rightarrow> ('q, 'k, 'r) kq_sys \<Rightarrow> ('q, 'k, 'r) kq_sys" where
  "attach_step C a s =
     (let s = with_source (kc_attach C) (s\<lparr>ks_setting_up := False\<rparr>) in
      request_notification (kc_pending C a (kq_source (ks_chan s))) s)"

definition has_callback :: "'k kq_message \<Rightarrow> bool" where
  "has_callback m \<longleftrightarrow> m \<noteq> Notification"

definition send_step :: "nat \<Rightarrow> ('q, 'k, 'r) kq_sys \<Rightarrow> ('q, 'k, 'r) kq_sys" where
  "send_step n s =
     (let k = ks_chan s; sent = take n (kq_outbox k) in
      s\<lparr>ks_chan := k\<lparr>kq_outbox := drop n (kq_outbox k)\<rparr>, ks_wire := ks_wire s @ sent,
        ks_checks := ks_checks s + length (filter has_callback sent)\<rparr>)"

definition fill_step :: "('q, 'k, 'm, 'r, 'o, 'e) kq_class \<Rightarrow> 'o \<Rightarrow> 'r \<Rightarrow> ('q, 'k, 'r) kq_sys \<Rightarrow> ('q, 'k, 'r) kq_sys" where
  "fill_step C a r s =
     (case kc_fill C a r (kq_source (ks_chan s)) of
        (Inl r', q) \<Rightarrow> (with_source (\<lambda>_. q) s)\<lparr>ks_reader := Filling r'\<rparr>
      | (Inr k, q) \<Rightarrow> (with_source (\<lambda>_. q) s)\<lparr>ks_reader := Replying k\<rparr>)"

definition deferred_step :: "('q, 'k, 'r) kq_sys \<Rightarrow> ('q, 'k, 'r) kq_sys" where
  "deferred_step s =
     (case sendDeferredNotification_locked (ks_chan s) of
        (None, k) \<Rightarrow> s\<lparr>ks_chan := k, ks_reader := Reader_idle\<rparr>
      | (Some m, k) \<Rightarrow> s\<lparr>ks_chan := k, ks_reader := Flushing m\<rparr>)"

definition client_receive :: "('q, 'k, 'r) kq_sys \<Rightarrow> ('q, 'k, 'r) kq_sys" where
  "client_receive s =
     (case ks_wire s of
        [] \<Rightarrow> s
      | m # ms \<Rightarrow>
          (let s = s\<lparr>ks_wire := ms\<rparr> in
           case m of
             Notification \<Rightarrow> s\<lparr>ks_notified := ks_notified s + 1\<rparr>
           | Modify_reply \<Rightarrow> s
           | Read_reply _ \<Rightarrow> s\<lparr>ks_reading := False\<rparr>))"

inductive kq_step ::
  "('q, 'k, 'm, 'r, 'o, 'e) kq_class \<Rightarrow> ('q, 'k, 'r) kq_sys \<Rightarrow> ('q, 'k, 'r) kq_sys \<Rightarrow> bool"
  for C where
  step_setup: "\<not> kq_socket (ks_chan s) \<Longrightarrow> kq_step C s (setup_step s)"
| step_attach: "ks_setting_up s \<Longrightarrow> kq_step C s (attach_step C a s)"
| step_notify: "kq_step C s (notify_step C e s)"
| step_push: "0 < ks_pushing s \<Longrightarrow>
    kq_step C s (with_outbox Notification (s\<lparr>ks_pushing := ks_pushing s - 1\<rparr>))"
| step_check: "0 < ks_checks s \<Longrightarrow> kq_step C s (check_step C a s)"
| step_send: "kq_socket (ks_chan s) \<Longrightarrow> kq_step C s (send_step n s)"
| step_modify: "kq_inbox (ks_chan s) = b # bs \<Longrightarrow> kc_decode C b = Inr (Modify m) \<Longrightarrow>
    kq_step C s (with_source (kc_modify C a m) (with_inbox bs (s\<lparr>ks_modifying := ks_modifying s + 1\<rparr>)))"
| step_modify_reply: "0 < ks_modifying s \<Longrightarrow>
    kq_step C s (with_outbox Modify_reply (s\<lparr>ks_modifying := ks_modifying s - 1\<rparr>))"
| step_read: "kq_inbox (ks_chan s) = b # bs \<Longrightarrow> kc_decode C b = Inr (Read r) \<Longrightarrow>
    ks_reader s = Reader_idle \<Longrightarrow>
    kq_step C s (with_inbox bs (s\<lparr>ks_chan := acknowledge (ks_chan s), ks_reader := Filling r\<rparr>))"
| step_overlap: "kq_inbox (ks_chan s) = b # bs \<Longrightarrow> kc_decode C b = Inr (Read r) \<Longrightarrow>
    ks_reader s \<noteq> Reader_idle \<Longrightarrow> kq_step C s (s\<lparr>ks_overlap := True\<rparr>)"
| step_ignore: "kq_inbox (ks_chan s) = b # bs \<Longrightarrow> \<not> ks_listening s \<Longrightarrow> kq_step C s (with_inbox bs s)"
| step_fill: "ks_reader s = Filling r \<Longrightarrow> kq_step C s (fill_step C a r s)"
| step_reply: "ks_reader s = Replying k \<Longrightarrow>
    kq_step C s (with_outbox (Read_reply k) (s\<lparr>ks_reader := Reply_pushed\<rparr>))"
| step_deferred: "ks_reader s = Reply_pushed \<Longrightarrow> kq_step C s (deferred_step s)"
| step_flush: "ks_reader s = Flushing m \<Longrightarrow> kq_step C s (with_outbox m (s\<lparr>ks_reader := Reader_idle\<rparr>))"
| step_listener_dies: "kq_step C s (s\<lparr>ks_listening := False\<rparr>)"
| step_client_receive: "kq_step C s (client_receive s)"
| step_client_modify: "kc_decode C b = Inr (Modify m) \<Longrightarrow>
    kq_step C s (with_inbox (kq_inbox (ks_chan s) @ [b]) s)"
| step_client_read: "0 < ks_notified s \<Longrightarrow> \<not> ks_reading s \<Longrightarrow> kc_decode C b = Inr (Read r) \<Longrightarrow>
    kq_step C s (with_inbox (kq_inbox (ks_chan s) @ [b])
      (s\<lparr>ks_notified := ks_notified s - 1, ks_reading := True\<rparr>))"

section \<open>Invariants\<close>

text \<open>
  The messages on their way to the client that are not replies to modifications, the read
  requests on their way to the server, and the notifications that exist anywhere.
\<close>

definition talk :: "'k kq_message list \<Rightarrow> 'k kq_message list" where
  "talk ms = filter (\<lambda>m. m \<noteq> Modify_reply) ms"

abbreviation pipeline :: "('q, 'k, 'r) kq_sys \<Rightarrow> 'k kq_message list" where
  "pipeline s \<equiv> talk (ks_wire s @ kq_outbox (ks_chan s))"

definition is_read :: "('q, 'k, 'm, 'r, 'o, 'e) kq_class \<Rightarrow> u8 list \<Rightarrow> bool" where
  "is_read C b \<longleftrightarrow> (case kc_decode C b of Inr (Read _) \<Rightarrow> True | _ \<Rightarrow> False)"

definition reads :: "('q, 'k, 'm, 'r, 'o, 'e) kq_class \<Rightarrow> ('q, 'k, 'r) kq_sys \<Rightarrow> nat" where
  "reads C s = length (filter (is_read C) (kq_inbox (ks_chan s)))"

definition notifications :: "'k kq_message list \<Rightarrow> nat" where
  "notifications ms = length (filter (\<lambda>m. m = Notification) ms)"

fun flushing :: "('r, 'k) kq_reader \<Rightarrow> nat" where
  "flushing (Flushing _) = 1"
| "flushing _ = 0"

definition tokens :: "('q, 'k, 'r) kq_sys \<Rightarrow> nat" where
  "tokens s = ks_pushing s + of_bool (deferredNotification (ks_chan s) \<noteq> None)
     + flushing (ks_reader s) + notifications (pipeline s) + ks_notified s"

fun reader_ok :: "nat \<Rightarrow> ('q, 'k, 'r) kq_sys \<Rightarrow> ('r, 'k) kq_reader \<Rightarrow> bool" where
  "reader_ok n s Reader_idle \<longleftrightarrow> \<not> deferNotification (ks_chan s) \<and>
     (if ks_reading s
      then n = 1 \<and> pipeline s = []
         \<or> n = 0 \<and> (\<exists>k. pipeline s = [Read_reply k] \<or> pipeline s = [Read_reply k, Notification])
      else n = 0 \<and> (pipeline s = [] \<or> pipeline s = [Notification]))"
| "reader_ok n s (Filling r) \<longleftrightarrow> deferNotification (ks_chan s) \<and> n = 0 \<and> ks_pushing s = 0 \<and>
     ks_notified s = 0 \<and> ks_reading s \<and> pipeline s = []"
| "reader_ok n s (Replying k) \<longleftrightarrow> deferNotification (ks_chan s) \<and> n = 0 \<and> ks_pushing s = 0 \<and>
     ks_notified s = 0 \<and> ks_reading s \<and> pipeline s = []"
| "reader_ok n s Reply_pushed \<longleftrightarrow> deferNotification (ks_chan s) \<and> n = 0 \<and> ks_pushing s = 0 \<and>
     ks_notified s = 0 \<and> (if ks_reading s then \<exists>k. pipeline s = [Read_reply k] else pipeline s = [])"
| "reader_ok n s (Flushing m) \<longleftrightarrow> \<not> deferNotification (ks_chan s) \<and> n = 0 \<and> ks_pushing s = 0 \<and>
     ks_notified s = 0 \<and> m = Notification \<and>
     (if ks_reading s then \<exists>k. pipeline s = [Read_reply k] else pipeline s = [])"

definition chan_ok :: "('q, 'k, 'm, 'r, 'o, 'e) kq_class \<Rightarrow> ('q, 'k, 'r) kq_sys \<Rightarrow> bool" where
  "chan_ok C s \<longleftrightarrow> (ks_listening s \<longrightarrow>
     \<not> ks_overlap s \<and>
     tokens s + reads C s = (if canSendNotification (ks_chan s) then 0 else 1) \<and>
     (deferredNotification (ks_chan s) \<noteq> None \<longrightarrow>
        deferNotification (ks_chan s) \<and> deferredNotification (ks_chan s) = Some Notification) \<and>
     reader_ok (reads C s) s (ks_reader s))"

lemma talk_simps [simp]:
  "talk [] = []" "talk (Modify_reply # ms) = talk ms"
  "talk (Notification # ms) = Notification # talk ms"
  "talk (Read_reply k # ms) = Read_reply k # talk ms"
  by (simp_all add: talk_def)

lemma notifications_simps [simp]:
  "notifications [] = 0" "notifications (xs @ ys) = notifications xs + notifications ys"
  "notifications (Notification # ms) = Suc (notifications ms)"
  "notifications (Modify_reply # ms) = notifications ms"
  "notifications (Read_reply k # ms) = notifications ms"
  by (simp_all add: notifications_def)

lemma talk_push [simp]:
  "talk (xs @ ys @ [Modify_reply]) = talk (xs @ ys)"
  "talk (xs @ ys @ [Notification]) = talk (xs @ ys) @ [Notification]"
  "talk (xs @ ys @ [Read_reply k]) = talk (xs @ ys) @ [Read_reply k]"
  by (simp_all add: talk_def)

lemma start_ok: "chan_ok C (kq_start q)"
  by (simp add: chan_ok_def kq_start_def Kqchan_new_def tokens_def reads_def)

named_theorems kq_defs \<open>the steps of a channel\<close>

lemmas [kq_defs] = with_source_def with_outbox_def with_inbox_def request_notification_def
  notify_step_def check_step_def setup_step_def attach_step_def send_step_def fill_step_def
  deferred_step_def client_receive_def push_outbox_def sendNotification_locked_def
  sendDeferredNotification_locked_def acknowledge_def Let_def

lemmas chan_defs = chan_ok_def kq_defs tokens_def reads_def is_read_def

lemma with_source_ok: "chan_ok C (with_source f s) = chan_ok C s"
  by (cases "ks_reader s") (simp_all add: chan_ok_def with_source_def tokens_def reads_def)

lemma request_notification_ok:
  assumes "chan_ok C s"
  shows "chan_ok C (request_notification wanted s)"
proof (cases "ks_reader s")
  case Reader_idle
  with assms show ?thesis by (auto simp: chan_defs)
next
  case (Filling r)
  with assms show ?thesis by (auto simp: chan_defs)
next
  case (Replying k)
  with assms show ?thesis by (auto simp: chan_defs)
next
  case Reply_pushed
  with assms show ?thesis by (auto simp: chan_defs)
next
  case (Flushing m)
  with assms show ?thesis by (auto simp: chan_defs)
qed

lemma frame_ok:
  "chan_ok C (s\<lparr>ks_checks := n\<rparr>) = chan_ok C s"
  "chan_ok C (s\<lparr>ks_modifying := n\<rparr>) = chan_ok C s"
  "chan_ok C (s\<lparr>ks_setting_up := b\<rparr>) = chan_ok C s"
  "chan_ok C (s\<lparr>ks_chan := (ks_chan s)\<lparr>kq_socket := c\<rparr>\<rparr>) = chan_ok C s"
  by (cases "ks_reader s"; simp add: chan_ok_def tokens_def reads_def)+

lemma push_ok:
  assumes "chan_ok C s" "0 < ks_pushing s"
  shows "chan_ok C (with_outbox Notification (s\<lparr>ks_pushing := ks_pushing s - 1\<rparr>))"
proof (cases "ks_reader s")
  case Reader_idle
  with assms show ?thesis by (auto simp: chan_defs split: if_splits)
qed (use assms in \<open>auto simp: chan_defs\<close>)

lemma modify_reply_ok:
  assumes "chan_ok C s"
  shows "chan_ok C (with_outbox Modify_reply s)"
  using assms by (cases "ks_reader s") (auto simp: chan_defs)

lemma send_ok:
  assumes "chan_ok C s"
  shows "chan_ok C (send_step n s)"
  using assms by (cases "ks_reader s") (auto simp: chan_defs)

lemma read_ok:
  assumes "chan_ok C s" "kq_inbox (ks_chan s) = b # bs" "kc_decode C b = Inr (Read r)"
    "ks_reader s = Reader_idle"
  shows "chan_ok C (with_inbox bs (s\<lparr>ks_chan := acknowledge (ks_chan s), ks_reader := Filling r\<rparr>))"
  using assms by (auto simp: chan_defs split: if_splits)

lemma fill_ok:
  assumes "chan_ok C s" "ks_reader s = Filling r"
  shows "chan_ok C (fill_step C a r s)"
  using assms by (auto simp: chan_defs split: prod.splits sum.splits)

lemma reply_ok:
  assumes "chan_ok C s" "ks_reader s = Replying k"
  shows "chan_ok C (with_outbox (Read_reply k) (s\<lparr>ks_reader := Reply_pushed\<rparr>))"
  using assms by (auto simp: chan_defs)

lemma deferred_ok:
  assumes "chan_ok C s" "ks_reader s = Reply_pushed"
  shows "chan_ok C (deferred_step s)"
  using assms by (auto simp: chan_defs split: option.splits)

lemma flush_ok:
  assumes "chan_ok C s" "ks_reader s = Flushing m"
  shows "chan_ok C (with_outbox m (s\<lparr>ks_reader := Reader_idle\<rparr>))"
  using assms by (auto simp: chan_defs)

lemma client_receive_ok:
  assumes "chan_ok C s"
  shows "chan_ok C (client_receive s)"
proof (cases "ks_wire s")
  case (Cons m ms)
  with assms show ?thesis
    by (cases m; cases "ks_reader s") (auto simp: chan_defs split: if_splits)
qed (use assms in \<open>simp add: client_receive_def\<close>)

lemma client_read_ok:
  assumes "chan_ok C s" "0 < ks_notified s" "\<not> ks_reading s" "kc_decode C b = Inr (Read r)"
  shows "chan_ok C (with_inbox (kq_inbox (ks_chan s) @ [b])
    (s\<lparr>ks_notified := ks_notified s - 1, ks_reading := True\<rparr>))"
  using assms by (cases "ks_reader s") (auto simp: chan_defs)

lemma modify_ok:
  assumes "chan_ok C s" "kq_inbox (ks_chan s) = b # bs" "kc_decode C b = Inr (Modify m)"
  shows "chan_ok C (with_source f (with_inbox bs (s\<lparr>ks_modifying := n\<rparr>)))"
  using assms by (cases "ks_reader s") (auto simp: chan_defs)

lemma client_modify_ok:
  assumes "chan_ok C s" "kc_decode C b = Inr (Modify m)"
  shows "chan_ok C (with_inbox (kq_inbox (ks_chan s) @ [b]) s)"
  using assms by (cases "ks_reader s") (auto simp: chan_defs)

lemma no_overlap:
  assumes "chan_ok C s" "kq_inbox (ks_chan s) = b # bs" "kc_decode C b = Inr (Read r)"
    "ks_reader s \<noteq> Reader_idle"
  shows "\<not> ks_listening s"
  using assms by (cases "ks_reader s") (auto simp: chan_defs)

lemma kq_step_ok: "kq_step C s s' \<Longrightarrow> chan_ok C s \<Longrightarrow> chan_ok C s'"
proof (induction rule: kq_step.induct)
  case (step_overlap s b bs r)
  then show ?case using no_overlap [of C s b bs r] by (auto simp: chan_ok_def)
next
  case (step_ignore s b bs)
  then show ?case by (simp add: chan_ok_def with_inbox_def)
next
  case (step_listener_dies s)
  then show ?case by (simp add: chan_ok_def)
next
  case (step_modify_reply s)
  then show ?case by (intro modify_reply_ok) (simp add: frame_ok)
next
  case (step_send s n)
  then show ?case by (intro send_ok)
next
  case (step_push s)
  then show ?case by (intro push_ok)
next
  case (step_modify s b bs m a)
  then show ?case by (intro modify_ok)
next
  case (step_client_read s b r)
  then show ?case by (intro client_read_ok)
qed (simp_all add: setup_step_def attach_step_def notify_step_def check_step_def Let_def frame_ok
      with_source_ok request_notification_ok read_ok fill_ok reply_ok deferred_ok flush_ok
      client_receive_ok client_modify_ok)

interpretation kq_runs: inductive_invariant "\<lambda>s. \<exists>q. s = kq_start q" "kq_step C" "chan_ok C" for C
  by unfold_locales (auto simp: start_ok intro: kq_step_ok)

text \<open>
  Events of a process channel are not forgotten: while some are queued, a notification is
  outstanding, or a read is being answered, or a reply is yet to be sent or has scheduled a check,
  or the channel is still being set up.
\<close>

definition answering :: "('r, 'k) kq_reader \<Rightarrow> bool" where
  "answering r \<longleftrightarrow> (case r of Filling _ \<Rightarrow> True | Replying _ \<Rightarrow> True | _ \<Rightarrow> False)"

definition events_announced :: "(proc_source, proc_reply, proc_reply) kq_sys \<Rightarrow> bool" where
  "events_announced s \<longleftrightarrow>
     (kq_socket (ks_chan s) \<and> ps_events (kq_source (ks_chan s)) \<noteq> [] \<longrightarrow>
        \<not> canSendNotification (ks_chan s) \<or> answering (ks_reader s)
        \<or> (\<exists>m \<in> set (kq_outbox (ks_chan s)). has_callback m) \<or> 0 < ks_checks s \<or> ks_setting_up s)"

lemma request_notification_announces:
  "events_announced (request_notification True s)"
  by (auto simp: events_announced_def kq_defs)

lemma request_notification_keeps:
  "events_announced s \<Longrightarrow> events_announced (request_notification b s)"
  by (auto simp: events_announced_def kq_defs)

lemma proc_class_sel [simp]:
  "kc_pending proc_class = (\<lambda>_ q. ps_events q \<noteq> [])"
  "kc_arrive proc_class = (\<lambda>e q. q\<lparr>ps_events := ps_events q @ [e]\<rparr>)"
  "kc_attach proc_class = (\<lambda>q. q\<lparr>ps_attached := True\<rparr>)"
  "kc_modify proc_class = (\<lambda>_ flags q. q\<lparr>ps_flags := flags\<rparr>)"
  "kc_fill proc_class = Process_fill" "kc_needs_socket proc_class"
  by (simp_all add: proc_class_def)

lemma callback_sent:
  assumes "m \<in> set ms" "has_callback m"
  shows "(\<exists>m \<in> set (drop n ms). has_callback m) \<or> 0 < length (filter has_callback (take n ms))"
proof -
  have "m \<in> set (take n ms) \<or> m \<in> set (drop n ms)"
    using assms(1) by (metis Un_iff append_take_drop_id set_append)
  with assms(2) show ?thesis by (auto simp: filter_empty_conv)
qed

lemma announced_step:
  "kq_step proc_class s s' \<Longrightarrow> chan_ok proc_class s \<Longrightarrow> events_announced s \<Longrightarrow> events_announced s'"
proof (induction rule: kq_step.induct)
  case (step_notify s e)
  show ?case
  proof (cases "kq_socket (ks_chan s)")
    case True
    then show ?thesis
      by (simp add: notify_step_def Let_def with_source_def request_notification_announces)
  qed (simp add: events_announced_def notify_step_def Let_def with_source_def request_notification_def)
next
  case (step_check s a)
  show ?case
  proof (cases "ps_events (kq_source (ks_chan s)) = []")
    case False
    then show ?thesis by (simp add: check_step_def request_notification_announces)
  qed (simp add: events_announced_def check_step_def request_notification_def)
next
  case (step_attach s a)
  show ?case
  proof (cases "ps_events (kq_source (ks_chan s)) = []")
    case False
    then show ?thesis
      by (simp add: attach_step_def Let_def with_source_def request_notification_announces)
  qed (simp add: events_announced_def attach_step_def Let_def with_source_def request_notification_def)
next
  case (step_send s n)
  then show ?case
    using callback_sent [of _ "kq_outbox (ks_chan s)" n]
    by (fastforce simp: events_announced_def send_step_def Let_def)
next
  case (step_deferred s)
  then show ?case
    by (auto simp: events_announced_def answering_def deferred_step_def
        sendDeferredNotification_locked_def Let_def split: option.splits)
next
  case (step_fill s r a)
  then show ?case
    by (auto simp: events_announced_def answering_def fill_step_def with_source_def
        split: prod.splits sum.splits)
next
  case (step_reply s k)
  then show ?case
    by (simp add: events_announced_def kq_defs has_callback_def)
next
  case (step_client_receive s)
  then show ?case
    by (auto simp: events_announced_def kq_defs split: list.splits kq_message.splits)
qed (auto simp: events_announced_def kq_defs answering_def has_callback_def)

lemma start_announced: "events_announced (kq_start q)"
  by (simp add: events_announced_def kq_start_def Kqchan_new_def)

interpretation announced_runs: inductive_invariant "\<lambda>s. \<exists>q. s = kq_start q" "kq_step proc_class"
  "\<lambda>s. chan_ok proc_class s \<and> events_announced s"
proof
  show "chan_ok proc_class s \<and> events_announced s" if "\<exists>q. s = kq_start q" for s
    using that by (elim exE) (simp add: start_ok start_announced)
  show "chan_ok proc_class t \<and> events_announced t"
    if "kq_step proc_class s t" "chan_ok proc_class s \<and> events_announced s" for s t
    using that kq_step_ok announced_step by blast
qed

section \<open>Answering a read\<close>

text \<open>The events that interest the user, and what a loop over the events comes to.\<close>

definition interesting :: "u32 \<Rightarrow> proc_event \<Rightarrow> bool" where
  "interesting flags e \<longleftrightarrow> ev_events e AND flags \<noteq> 0"

lemma fill_loop_empty:
  "ps_events q = [] \<Longrightarrow> Process_fill_loop child r q = (r\<lparr>pr_code := 0xdead\<rparr>, q)"
  by (subst Process_fill_loop.simps) (simp add: Process_fill_def)

lemma fill_loop_skip:
  "ps_events q = e # es \<Longrightarrow> \<not> interesting (ps_flags q) e \<Longrightarrow>
   Process_fill_loop child r q =
     Process_fill_loop child (r\<lparr>pr_data := ev_data e, pr_fflags := 0\<rparr>) (q\<lparr>ps_events := es\<rparr>)"
  by (subst Process_fill_loop.simps) (simp add: Process_fill_def interesting_def Let_def)

lemma fill_loop_take:
  "ps_events q = e # es \<Longrightarrow> interesting (ps_flags q) e \<Longrightarrow>
   Process_fill_loop child r q =
     (track_child child (ps_flags q) e
        (r\<lparr>pr_data := ev_data e, pr_fflags := ev_events e AND ps_flags q\<rparr>), q\<lparr>ps_events := es\<rparr>)"
  by (subst Process_fill_loop.simps) (simp add: Process_fill_def interesting_def Let_def)

lemma fill_loop_dropWhile:
  "Process_fill_loop child r q =
     (case dropWhile (\<lambda>e. \<not> interesting (ps_flags q) e) (ps_events q) of
        [] \<Rightarrow> (if ps_events q = [] then r\<lparr>pr_code := 0xdead\<rparr>
               else r\<lparr>pr_code := 0xdead, pr_data := ev_data (last (ps_events q)), pr_fflags := 0\<rparr>,
              q\<lparr>ps_events := []\<rparr>)
      | e # es \<Rightarrow> (track_child child (ps_flags q) e
             (r\<lparr>pr_data := ev_data e, pr_fflags := ev_events e AND ps_flags q\<rparr>), q\<lparr>ps_events := es\<rparr>))"
proof (induction "ps_events q" arbitrary: q r)
  case Nil
  then have "ps_events q = []" by simp
  then show ?case by (simp add: fill_loop_empty)
next
  case (Cons e es)
  then have events: "ps_events q = e # es" by simp
  show ?case
  proof (cases "interesting (ps_flags q) e")
    case True
    with events show ?thesis by (simp add: fill_loop_take)
  next
    case False
    have rest: "es = ps_events (q\<lparr>ps_events := es\<rparr>)" by simp
    note step = Cons(1) [OF rest, of "r\<lparr>pr_data := ev_data e, pr_fflags := 0\<rparr>"]
    show ?thesis
    proof (cases "dropWhile (\<lambda>e. \<not> interesting (ps_flags q) e) es")
      case Nil
      with step events False show ?thesis
        by (cases "es = []") (simp_all add: fill_loop_skip del: dropWhile_eq_Nil_conv)
    next
      case (Cons e' es')
      with step events False show ?thesis by (simp add: fill_loop_skip)
    qed
  qed
qed

lemma fill_loop_events:
  "ps_events (snd (Process_fill_loop child r q)) =
     drop 1 (dropWhile (\<lambda>e. \<not> interesting (ps_flags q) e) (ps_events q))"
  by (subst fill_loop_dropWhile) (simp split: list.splits del: dropWhile_eq_Nil_conv)

lemma Process_read_parts:
  "Process_read True child k =
     (let (r, q) = Process_fill_loop child empty_reply (kq_source k) in
      k\<lparr>notificationCount := notificationCount k + 1, canSendNotification := True,
        deferNotification := False, deferredNotification := None, kq_source := q,
        kq_outbox := kq_outbox k @ Read_reply r #
          (case deferredNotification k of None \<Rightarrow> [] | Some m \<Rightarrow> [m])\<rparr>)"
  by (auto simp: Process_read_def acknowledge_def push_outbox_def sendDeferredNotification_def
      sendDeferredNotification_locked_def Let_def split: prod.splits option.splits)

section \<open>The handlers as runs\<close>

text \<open>
  A handler that nobody interrupts does what the sections of the transition system do one after
  the other, so the states between whole handlers are among the reachable ones: notifications,
  modifications and reads of both classes, and the processing of a whole inbox.
\<close>

abbreviation kq_runs_to ::
  "('q, 'k, 'm, 'r, 'o, 'e) kq_class \<Rightarrow> ('q, 'k, 'r) kq_sys \<Rightarrow> ('q, 'k, 'r) kq_sys \<Rightarrow> bool" where
  "kq_runs_to C \<equiv> (kq_step C)\<^sup>*\<^sup>*"

definition on_chan ::
  "(('q, 'k) kqchan \<Rightarrow> ('q, 'k) kqchan) \<Rightarrow> ('q, 'k, 'r) kq_sys \<Rightarrow> ('q, 'k, 'r) kq_sys" where
  "on_chan f s = s\<lparr>ks_chan := f (ks_chan s)\<rparr>"

lemma runs_one: "kq_step C s t \<Longrightarrow> t = v \<Longrightarrow> kq_runs_to C s v"
  by auto

lemma runs_more: "kq_step C s t \<Longrightarrow> kq_runs_to C t u \<Longrightarrow> u = v \<Longrightarrow> kq_runs_to C s v"
  by (auto intro: converse_rtranclp_into_rtranclp)

lemma notify_runs:
  assumes "kc_needs_socket C \<longrightarrow> kq_socket (ks_chan s)"
  shows "kq_runs_to C s (on_chan (\<lambda>k. sendNotification (k\<lparr>kq_source := kc_arrive C e (kq_source k)\<rparr>)) s)"
proof -
  let ?t = "notify_step C e s"
  let ?k = "(ks_chan s)\<lparr>kq_source := kc_arrive C e (kq_source (ks_chan s))\<rparr>"
  have 1: "kq_step C s ?t" by (rule step_notify)
  obtain now k where l: "sendNotification_locked ?k = (now, k)" by fastforce
  have t: "?t = s\<lparr>ks_chan := k, ks_pushing := ks_pushing s + of_bool now\<rparr>"
    using assms l by (auto simp: notify_step_def with_source_def request_notification_def Let_def)
  show ?thesis
  proof (cases now)
    case True
    then have "kq_step C ?t (with_outbox Notification (?t\<lparr>ks_pushing := ks_pushing ?t - 1\<rparr>))"
      by (intro step_push) (simp add: t)
    moreover have "with_outbox Notification (?t\<lparr>ks_pushing := ks_pushing ?t - 1\<rparr>) =
        on_chan (\<lambda>k. sendNotification (k\<lparr>kq_source := kc_arrive C e (kq_source k)\<rparr>)) s"
      using True l by (simp add: t on_chan_def sendNotification_def with_outbox_def)
    ultimately show ?thesis by (rule runs_more [OF 1 runs_one [OF _ refl]])
  next
    case False
    then have "?t = on_chan (\<lambda>k. sendNotification (k\<lparr>kq_source := kc_arrive C e (kq_source k)\<rparr>)) s"
      using l by (simp add: t on_chan_def sendNotification_def)
    then show ?thesis by (rule runs_one [OF 1])
  qed
qed

lemma modify_runs:
  assumes "kq_inbox (ks_chan s) = b # bs" "kc_decode C b = Inr (Modify m)"
  shows "kq_runs_to C s (on_chan (\<lambda>k. push_outbox Modify_reply (k\<lparr>kq_inbox := bs, kq_source := kc_modify C a m (kq_source k)\<rparr>)) s)"
proof -
  let ?t = "with_source (kc_modify C a m) (with_inbox bs (s\<lparr>ks_modifying := ks_modifying s + 1\<rparr>))"
  have 1: "kq_step C s ?t" by (rule step_modify [OF assms])
  have "kq_step C ?t (with_outbox Modify_reply (?t\<lparr>ks_modifying := ks_modifying ?t - 1\<rparr>))"
    by (rule step_modify_reply) (simp add: with_source_def with_inbox_def)
  moreover have "with_outbox Modify_reply (?t\<lparr>ks_modifying := ks_modifying ?t - 1\<rparr>) =
      on_chan (\<lambda>k. push_outbox Modify_reply (k\<lparr>kq_inbox := bs, kq_source := kc_modify C a m (kq_source k)\<rparr>)) s"
    by (simp add: with_source_def with_inbox_def with_outbox_def on_chan_def)
  ultimately show ?thesis by (rule runs_more [OF 1 runs_one [OF _ refl]])
qed

text \<open>Answering a read: a run of turns that ends with a reply.\<close>

lemma reply_runs:
  assumes "ks_reader s = Replying k"
  shows "kq_runs_to C s ((on_chan (\<lambda>c. sendDeferredNotification (push_outbox (Read_reply k) c)) s)\<lparr>ks_reader := Reader_idle\<rparr>)"
proof -
  let ?t = "with_outbox (Read_reply k) (s\<lparr>ks_reader := Reply_pushed\<rparr>)"
  have 1: "kq_step C s ?t" by (rule step_reply [OF assms])
  have 2: "kq_step C ?t (deferred_step ?t)" by (rule step_deferred) (simp add: with_outbox_def)
  obtain m c where d: "sendDeferredNotification_locked (push_outbox (Read_reply k) (ks_chan s)) = (m, c)" by fastforce
  show ?thesis
  proof (cases m)
    case None
    then have "deferred_step ?t = (on_chan (\<lambda>c. sendDeferredNotification (push_outbox (Read_reply k) c)) s)\<lparr>ks_reader := Reader_idle\<rparr>"
      using d by (simp add: deferred_step_def with_outbox_def on_chan_def sendDeferredNotification_def)
    then show ?thesis by (rule runs_more [OF 1 runs_one [OF 2 refl]])
  next
    case (Some n)
    have 3: "kq_step C (deferred_step ?t) (with_outbox n ((deferred_step ?t)\<lparr>ks_reader := Reader_idle\<rparr>))"
      by (rule step_flush) (use Some d in \<open>simp add: deferred_step_def with_outbox_def\<close>)
    have "with_outbox n ((deferred_step ?t)\<lparr>ks_reader := Reader_idle\<rparr>) =
        (on_chan (\<lambda>c. sendDeferredNotification (push_outbox (Read_reply k) c)) s)\<lparr>ks_reader := Reader_idle\<rparr>"
      using Some d by (simp add: deferred_step_def with_outbox_def on_chan_def sendDeferredNotification_def)
    then show ?thesis by (rule runs_more [OF 1 runs_more [OF 2 runs_one [OF 3 refl] refl]])
  qed
qed

lemma proc_fill_runs:
  assumes "ks_reader s = Filling r"
  shows "kq_runs_to proc_class s
     ((on_chan (\<lambda>c. c\<lparr>kq_source := snd (Process_fill_loop child r (kq_source c))\<rparr>) s)
        \<lparr>ks_reader := Replying (fst (Process_fill_loop child r (kq_source (ks_chan s))))\<rparr>)"
  using assms
proof (induction child r "kq_source (ks_chan s)" arbitrary: s rule: Process_fill_loop.induct)
  case (1 child r)
  let ?t = "fill_step proc_class child r s"
  have st: "kq_step proc_class s ?t" by (rule step_fill [OF 1(2)])
  obtain x q where f: "Process_fill child r (kq_source (ks_chan s)) = (x, q)" by fastforce
  show ?case
  proof (cases x)
    case (Inl r')
    then have t: "?t = (with_source (\<lambda>_. q) s)\<lparr>ks_reader := Filling r'\<rparr>" using f by (simp add: fill_step_def proc_class_def)
    have "kq_runs_to proc_class ?t
     ((on_chan (\<lambda>c. c\<lparr>kq_source := snd (Process_fill_loop child r' (kq_source c))\<rparr>) ?t)
        \<lparr>ks_reader := Replying (fst (Process_fill_loop child r' (kq_source (ks_chan ?t))))\<rparr>)"
      by (rule 1(1) [of x ?t r']) (use f Inl in \<open>simp_all add: t with_source_def\<close>)
    moreover have "(on_chan (\<lambda>c. c\<lparr>kq_source := snd (Process_fill_loop child r' (kq_source c))\<rparr>) ?t)
        \<lparr>ks_reader := Replying (fst (Process_fill_loop child r' (kq_source (ks_chan ?t))))\<rparr> =
      (on_chan (\<lambda>c. c\<lparr>kq_source := snd (Process_fill_loop child r (kq_source c))\<rparr>) s)
        \<lparr>ks_reader := Replying (fst (Process_fill_loop child r (kq_source (ks_chan s))))\<rparr>"
      using f Inl Process_fill_loop.simps [of child r "kq_source (ks_chan s)"]
      by (simp add: t on_chan_def with_source_def)
    ultimately show ?thesis by (rule runs_more [OF st])
  next
    case (Inr k)
    then have "?t = (on_chan (\<lambda>c. c\<lparr>kq_source := snd (Process_fill_loop child r (kq_source c))\<rparr>) s)
        \<lparr>ks_reader := Replying (fst (Process_fill_loop child r (kq_source (ks_chan s))))\<rparr>"
      using f Process_fill_loop.simps [of child r "kq_source (ks_chan s)"]
      by (simp add: fill_step_def proc_class_def on_chan_def with_source_def)
    then show ?thesis by (rule runs_one [OF st])
  qed
qed


lemma proc_read_runs:
  assumes "kq_inbox (ks_chan s) = b # bs" "Process_decode b = Inr (Read u)" "ks_reader s = Reader_idle"
  shows "kq_runs_to proc_class s (on_chan (\<lambda>k. Process_read True child (k\<lparr>kq_inbox := bs\<rparr>)) s)"
proof -
  let ?t = "with_inbox bs (s\<lparr>ks_chan := acknowledge (ks_chan s), ks_reader := Filling empty_reply\<rparr>)"
  let ?u = "(on_chan (\<lambda>c. c\<lparr>kq_source := snd (Process_fill_loop child empty_reply (kq_source c))\<rparr>) ?t)
      \<lparr>ks_reader := Replying (fst (Process_fill_loop child empty_reply (kq_source (ks_chan ?t))))\<rparr>"
  let ?v = "(on_chan (\<lambda>c. sendDeferredNotification
      (push_outbox (Read_reply (fst (Process_fill_loop child empty_reply (kq_source (ks_chan ?t))))) c)) ?u)\<lparr>ks_reader := Reader_idle\<rparr>"
  have 1: "kq_step proc_class s ?t"
    by (rule step_read [OF assms(1) _ assms(3)]) (simp add: proc_class_def assms(2))
  have 2: "kq_runs_to proc_class ?t ?u" by (rule proc_fill_runs) (simp add: with_inbox_def)
  have 3: "kq_runs_to proc_class ?u ?v" by (rule reply_runs) simp
  have "?v = on_chan (\<lambda>k. Process_read True child (k\<lparr>kq_inbox := bs\<rparr>)) s"
    using assms(3) by (cases s; cases "ks_chan s") (simp add: Process_read_def on_chan_def with_inbox_def acknowledge_def Let_def split: prod.splits)
  then show ?thesis by (rule runs_more [OF 1 rtranclp_trans [OF 2 3]])
qed

lemma mach_read_runs:
  assumes "kq_inbox (ks_chan s) = b # bs" "MachPort_decode b = Inr (Read r)" "ks_reader s = Reader_idle"
    "known (snd (snd r))"
  shows "kq_runs_to mach_class s (on_chan (\<lambda>k. snd (MachPort_read known process r (k\<lparr>kq_inbox := bs\<rparr>))) s)"
proof -
  let ?t = "with_inbox bs (s\<lparr>ks_chan := acknowledge (ks_chan s), ks_reader := Filling r\<rparr>)"
  obtain reply q where f: "MachPort_fill process r (kq_source (ks_chan ?t)) = (reply, q)" by fastforce
  let ?u = "(with_source (\<lambda>_. q) ?t)\<lparr>ks_reader := Replying reply\<rparr>"
  let ?v = "(on_chan (\<lambda>c. sendDeferredNotification (push_outbox (Read_reply reply) c)) ?u)\<lparr>ks_reader := Reader_idle\<rparr>"
  have 1: "kq_step mach_class s ?t"
    by (rule step_read [OF assms(1) _ assms(3)]) (simp add: mach_class_def assms(2))
  have "fill_step mach_class (undefined, process, undefined) r ?t = ?u"
    using f by (simp add: fill_step_def mach_class_def)
  then have 2: "kq_step mach_class ?t ?u"
    using step_fill [of ?t r mach_class "(undefined, process, undefined)"] by (simp add: with_inbox_def)
  have 3: "kq_runs_to mach_class ?u ?v" by (rule reply_runs) simp
  have "?v = on_chan (\<lambda>k. snd (MachPort_read known process r (k\<lparr>kq_inbox := bs\<rparr>))) s"
    using assms(3,4) f
    by (cases s; cases "ks_chan s") (simp add: MachPort_read_def on_chan_def with_inbox_def with_source_def acknowledge_def Let_def)
  then show ?thesis by (rule runs_more [OF 1 converse_rtranclp_into_rtranclp [OF 2 3]])
qed

lemma on_chan_frame [simp]:
  "ks_chan (on_chan f s) = f (ks_chan s)" "ks_reader (on_chan f s) = ks_reader s"
  "ks_listening (on_chan f s) = ks_listening s"
  by (simp_all add: on_chan_def)

lemma proc_read_inbox [simp]:
  "kq_inbox (Process_read l child k) = kq_inbox k" "kq_inbox (Process_modify flags k) = kq_inbox k"
  by (auto simp: Process_read_def Process_modify_def push_outbox_def sendDeferredNotification_def
      sendDeferredNotification_locked_def acknowledge_def Let_def split: prod.splits option.splits)

lemma on_chan_on_chan: "on_chan f (on_chan g s) = on_chan (f \<circ> g) s"
  by (simp add: on_chan_def)

lemma modify_inbox: "Process_modify f (k\<lparr>kq_inbox := x\<rparr>) = (Process_modify f k)\<lparr>kq_inbox := x\<rparr>"
  by (simp add: Process_modify_def push_outbox_def)

lemma read_inbox: "Process_read l c (k\<lparr>kq_inbox := x\<rparr>) = (Process_read l c k)\<lparr>kq_inbox := x\<rparr>"
  by (auto simp: Process_read_def push_outbox_def sendDeferredNotification_def
      sendDeferredNotification_locked_def acknowledge_def Let_def split: prod.splits option.splits)

text \<open>Messages are taken from the inbox one by one, so that a handler finds the rest in it.\<close>

lemma messages_inbox:
  "snd (Process_processMessages l cs bs (k\<lparr>kq_inbox := x\<rparr>)) = snd (Process_processMessages l cs bs k)"
proof (induction l cs bs k rule: Process_processMessages.induct)
  case (2 l cs b bs k)
  show ?case
    using 2 by (auto simp: modify_inbox read_inbox split: sum.splits kq_call.splits)
qed simp

lemma messages_run:
  assumes "kq_inbox (ks_chan s) = bs" "ks_reader s = Reader_idle" "\<forall>b\<in>set bs. \<exists>c. Process_decode b = Inr c"
  shows "kq_runs_to proc_class s (on_chan (\<lambda>k. snd (Process_processMessages True cs bs k)) s)"
  using assms
proof (induction bs arbitrary: s cs)
  case Nil
  then have "on_chan (\<lambda>k. snd (Process_processMessages True cs [] k)) s = s" by (simp add: on_chan_def)
  then show ?case by simp
next
  case (Cons b bs)
  obtain c where c: "Process_decode b = Inr c" using Cons.prems(3) by auto
  let ?child = "case cs of [] \<Rightarrow> Inl Bad_alloc | c # _ \<Rightarrow> c"
  define h where "h = (case c of Modify flags \<Rightarrow> Process_modify flags | Read _ \<Rightarrow> Process_read True ?child)"
  have m: "kq_runs_to proc_class s (on_chan (\<lambda>k. h (k\<lparr>kq_inbox := bs\<rparr>)) s)"
  proof (cases c)
    case (Modify flags)
    have "kc_decode proc_class b = Inr (Modify flags)" using c Modify by (simp add: proc_class_def)
    from modify_runs [OF Cons.prems(1) this, of undefined] Modify show ?thesis
      by (simp add: h_def Process_modify_def proc_class_def)
  next
    case (Read u)
    with proc_read_runs [OF Cons.prems(1) _ Cons.prems(2)] c show ?thesis by (simp add: h_def)
  qed
  let ?t = "on_chan (\<lambda>k. h (k\<lparr>kq_inbox := bs\<rparr>)) s"
  have "kq_inbox (ks_chan ?t) = bs" by (cases c) (simp_all add: h_def)
  then have r: "kq_runs_to proc_class ?t (on_chan (\<lambda>k. snd (Process_processMessages True (drop 1 cs) bs k)) ?t)"
    using Cons by simp
  have e: "on_chan (\<lambda>k. snd (Process_processMessages True (drop 1 cs) bs k)) ?t =
      on_chan (\<lambda>k. snd (Process_processMessages True cs (b # bs) k)) s"
  proof -
    have h: "h (k\<lparr>kq_inbox := bs\<rparr>) = (h k)\<lparr>kq_inbox := bs\<rparr>" for k
      unfolding h_def by (cases c) (simp_all add: modify_inbox read_inbox)
    have "snd (Process_processMessages True cs (b # bs) k) = snd (Process_processMessages True (drop 1 cs) bs (h k))" for k
      by (cases c) (simp_all add: c h_def)
    then show ?thesis unfolding on_chan_on_chan by (simp add: o_def h messages_inbox)
  qed
  show ?case using rtranclp_trans [OF m r] unfolding e .
qed

lemma notify_event_runs:
  "kq_socket (ks_chan s) \<Longrightarrow> kq_runs_to proc_class s (on_chan (notify_event e) s)"
  using notify_runs [of proc_class s e]
  by (simp add: notify_event_def notify_locked_def sendNotification_def on_chan_def proc_class_def Let_def)

lemma mach_modify_runs:
  assumes "kq_inbox (ks_chan s) = b # bs" "MachPort_decode b = Inr (Modify m)" "known (snd (snd (snd m)))"
  shows "kq_runs_to mach_class s
           (on_chan (\<lambda>k. snd (MachPort_modify known touch m (k\<lparr>kq_inbox := bs\<rparr>))) s)"
  using modify_runs [OF assms(1), of mach_class m "(touch, undefined, undefined)"] assms(2,3)
  by (simp add: MachPort_modify_def mach_class_def)

section \<open>Properties\<close>

text \<open>The turn-taking on a channel, as the client sees it.\<close>

definition in_turn :: "('q, 'k, 'm, 'r, 'o, 'e) kq_class \<Rightarrow> ('q, 'k, 'r) kq_sys \<Rightarrow> bool" where
  "in_turn C s \<longleftrightarrow>
     \<not> ks_overlap s \<and> tokens s + reads C s \<le> 1 \<and>
     (if ks_reading s
      then pipeline s = [] \<or> (\<exists>k. pipeline s = [Read_reply k] \<or> pipeline s = [Read_reply k, Notification])
      else pipeline s = [] \<or> pipeline s = [Notification])"

lemma chan_ok_in_turn: "chan_ok C s \<Longrightarrow> ks_listening s \<Longrightarrow> in_turn C s"
  by (cases "ks_reader s") (auto simp: chan_ok_def in_turn_def split: if_splits)


text \<open>A run in which the client has read the event of a process and another one arrived meanwhile.\<close>

definition demo_event :: proc_event where
  "demo_event = \<lparr>ev_events = 0x80000000, ev_data = 7, ev_newKqchan = None\<rparr>"

definition demo_source :: proc_source where
  "demo_source = \<lparr>ps_nspid = 5, ps_flags = 0x80000000, ps_events = [], ps_targetProcess = Some 0,
     ps_attached = False\<rparr>"

definition demo_notified :: "(proc_source, proc_reply, proc_reply) kq_sys" where
  "demo_notified = (let s = setup_step (kq_start demo_source);
       s = attach_step proc_class (Inr 0) s; s = notify_step proc_class demo_event s in
     with_outbox Notification (s\<lparr>ks_pushing := ks_pushing s - 1\<rparr>))"

definition demo_asked :: "(proc_source, proc_reply, proc_reply) kq_sys" where
  "demo_asked = (let s = client_receive (send_step 1 demo_notified) in
     with_inbox (kq_inbox (ks_chan s) @ [[5, 0, 0, 0, 0, 0, 0, 0, 0, 0, 0, 0]])
       (s\<lparr>ks_notified := ks_notified s - 1, ks_reading := True\<rparr>))"

definition demo_filled :: "(proc_source, proc_reply, proc_reply) kq_sys" where
  "demo_filled = notify_step proc_class demo_event (fill_step proc_class (Inr 0) empty_reply
     (with_inbox [] (demo_asked\<lparr>ks_chan := acknowledge (ks_chan demo_asked),
        ks_reader := Filling empty_reply\<rparr>)))"

abbreviation proc_reachable :: "(proc_source, proc_reply, proc_reply) kq_sys \<Rightarrow> bool" where
  "proc_reachable \<equiv> reach (\<lambda>s. \<exists>q. s = kq_start q) (kq_step proc_class)"

lemmas demo_eval = kq_start_def Kqchan_new_def demo_source_def demo_event_def kq_defs empty_reply_def
  has_callback_def Process_fill_def track_child_def

lemma demo_decode: "kc_decode proc_class [5, 0, 0, 0, 0, 0, 0, 0, 0, 0, 0, 0] = Inr (Read empty_reply)"
  by (simp add: proc_class_def Process_decode_def le32_def)

lemma demo_notified_reachable: "proc_reachable demo_notified"
proof -
  have "proc_reachable (setup_step (kq_start demo_source))"
    by (rule reach_next [OF reach_start], blast, rule step_setup) (simp add: kq_start_def Kqchan_new_def)
  then have "proc_reachable (attach_step proc_class (Inr 0) (setup_step (kq_start demo_source)))"
    by (rule reach_next) (rule step_attach, simp add: setup_step_def)
  then have "proc_reachable (notify_step proc_class demo_event
      (attach_step proc_class (Inr 0) (setup_step (kq_start demo_source))))"
    by (rule reach_next) (rule step_notify)
  then show ?thesis unfolding demo_notified_def Let_def
    by (rule reach_next) (rule step_push, simp add: demo_eval)
qed

lemma demo_asked_reachable: "proc_reachable demo_asked"
proof -
  have "proc_reachable (send_step 1 demo_notified)"
    by (rule reach_next [OF demo_notified_reachable], rule step_send)
      (simp add: demo_notified_def demo_eval)
  then have "proc_reachable (client_receive (send_step 1 demo_notified))"
    by (rule reach_next) (rule step_client_receive)
  then show ?thesis unfolding demo_asked_def Let_def
    by (rule reach_next) (rule step_client_read, auto simp: demo_notified_def demo_eval demo_decode)
qed

lemma demo_filled_reachable: "proc_reachable demo_filled"
proof -
  have "proc_reachable (with_inbox [] (demo_asked\<lparr>ks_chan := acknowledge (ks_chan demo_asked),
      ks_reader := Filling empty_reply\<rparr>))"
    by (rule reach_next [OF demo_asked_reachable], rule step_read [OF _ demo_decode])
      (simp_all add: demo_asked_def demo_notified_def demo_eval)
  then have "proc_reachable (fill_step proc_class (Inr 0) empty_reply
      (with_inbox [] (demo_asked\<lparr>ks_chan := acknowledge (ks_chan demo_asked),
        ks_reader := Filling empty_reply\<rparr>)))"
    by (rule reach_next) (rule step_fill, simp add: with_inbox_def)
  then show ?thesis unfolding demo_filled_def by (rule reach_next) (rule step_notify)
qed


text \<open>C22: Events of a process are never left unannounced. While events are queued on a channel that
  has its socket, a notification is outstanding, or a read is being answered, or a reply that
  schedules a check is still to be sent, or such a check is due. When the server has nothing
  left to do on the channel and the listening process lives, exactly one notification is with
  the client: in its socket, received by it, or answered by a read request on its way.
\<close>

theorem events_are_announced:
  assumes "reach (\<lambda>s. \<exists>q. s = kq_start q) (kq_step proc_class) s"
    and "kq_socket (ks_chan s)" and "ps_events (kq_source (ks_chan s)) \<noteq> []"
  shows "(\<not> canSendNotification (ks_chan s) \<or> answering (ks_reader s)
       \<or> filter has_callback (kq_outbox (ks_chan s)) \<noteq> [] \<or> 0 < ks_checks s \<or> ks_setting_up s)
    \<and> (ks_listening s \<and> ks_reader s = Reader_idle \<and> ks_pushing s = 0 \<and> kq_outbox (ks_chan s) = []
       \<and> ks_checks s = 0 \<and> \<not> ks_setting_up s \<longrightarrow>
         notifications (talk (ks_wire s)) + ks_notified s + reads proc_class s = 1)"
proof -
  have inv: "chan_ok proc_class s" "events_announced s"
    using announced_runs.holds_when_reached [OF assms(1)] by simp_all
  then have "\<not> canSendNotification (ks_chan s) \<or> answering (ks_reader s)
       \<or> filter has_callback (kq_outbox (ks_chan s)) \<noteq> [] \<or> 0 < ks_checks s \<or> ks_setting_up s"
    using assms(2,3) by (auto simp: events_announced_def filter_empty_conv)
  with inv(1) show ?thesis by (auto simp: chan_ok_def tokens_def answering_def)
qed

theorem events_are_announced_witness:
  "notifications (talk (ks_wire (send_step 1 demo_notified))) + ks_notified (send_step 1 demo_notified)
     + reads proc_class (send_step 1 demo_notified) = 1"
proof -
  let ?s = "send_step 1 demo_notified"
  have "proc_reachable ?s"
    by (rule reach_next [OF demo_notified_reachable], rule step_send)
      (simp add: demo_notified_def demo_eval)
  moreover have "kq_socket (ks_chan ?s)" "ps_events (kq_source (ks_chan ?s)) \<noteq> []"
    by (simp_all add: demo_notified_def demo_eval)
  ultimately show ?thesis
    using events_are_announced [of ?s] by (simp add: demo_notified_def demo_eval)
qed

text \<open>C25: Answering a read on a process channel is the same as taking the first queued event that
  has a flag the user asked for: the events before it are dropped, the reply carries its data
  and the flags asked for, and without such an event the reply says that there was none and
  the queue is empty. The reply is followed by the notification that was held back, and the
  channel may notify again.
\<close>

theorem read_takes_first_interesting:
  "(case dropWhile (\<lambda>e. \<not> interesting (ps_flags q) e) (ps_events q) of
      [] \<Rightarrow> pr_code (fst (Process_fill_loop child empty_reply q)) = 0xdead
    | e # es \<Rightarrow> Process_fill_loop child empty_reply q =
        (track_child child (ps_flags q) e
           \<lparr>pr_code = 0, pr_fflags = ev_events e AND ps_flags q, pr_data = ev_data e, pr_descriptors = []\<rparr>,
         q\<lparr>ps_events := es\<rparr>)) \<and>
   ps_events (snd (Process_fill_loop child empty_reply q)) =
     drop 1 (dropWhile (\<lambda>e. \<not> interesting (ps_flags q) e) (ps_events q)) \<and>
   Process_read True child (k\<lparr>kq_source := q\<rparr>) =
     k\<lparr>notificationCount := notificationCount k + 1, canSendNotification := True,
       deferNotification := False, deferredNotification := None,
       kq_source := snd (Process_fill_loop child empty_reply q),
       kq_outbox := kq_outbox k @ Read_reply (fst (Process_fill_loop child empty_reply q)) #
         (case deferredNotification k of None \<Rightarrow> [] | Some m \<Rightarrow> [m])\<rparr>"
proof (intro conjI)
  show "case dropWhile (\<lambda>e. \<not> interesting (ps_flags q) e) (ps_events q) of
      [] \<Rightarrow> pr_code (fst (Process_fill_loop child empty_reply q)) = 0xdead
    | e # es \<Rightarrow> Process_fill_loop child empty_reply q =
        (track_child child (ps_flags q) e
           \<lparr>pr_code = 0, pr_fflags = ev_events e AND ps_flags q, pr_data = ev_data e, pr_descriptors = []\<rparr>,
         q\<lparr>ps_events := es\<rparr>)"
    by (simp add: fill_loop_dropWhile empty_reply_def split: list.splits del: dropWhile_eq_Nil_conv)
qed (simp_all add: fill_loop_events Process_read_parts split: prod.splits)

end
