(* ===== verification/Microthread.thy ===== *)
theory Microthread
  imports Prelude
begin

text \<open>
  Microthreads (\<open>thread.cpp\<close>) under the scheduler: \<open>Thread::doWork\<close>, which a worker calls for a
  thread taken from the work queue, \<open>suspend\<close>, \<open>resume\<close>, the arrival of calls, interrupts, the
  impersonation of a thread, and its death; with the part of duct-taped waiting
  (\<open>duct-tape/src/thread.c\<close>) that rests on them.

  A section of the code under the thread's lock is a function on the thread. What the workers,
  the thread itself and the threads that wake it do in between is a step relation over these
  functions, in which anything can happen between two sections.
\<close>

section \<open>The thread\<close>

datatype call = Interrupt_enter nat | Interrupt_exit nat | Ordinary nat

datatype deferral_state = NotDeferred | DeferredNotPending | DeferredPending

record interrupt_context =
  in_savedReply :: "call option"
  in_interruptedCall :: "call option"
  in_savedStack :: bool
  in_signal :: int

text \<open>
  Whether the stack and the saved stacks are valid, a continuation is set and the duct-taped
  thread still exists are truth values. \<open>mt_th_wait\<close> is the flag \<open>TH_WAIT\<close> of the duct-taped
  thread.
\<close>

record microthread =
  mt_running :: bool
  mt_suspended :: bool
  mt_terminating :: bool
  mt_dead :: bool
  mt_deferralState :: deferral_state
  mt_pendingCall :: "call option"
  mt_activeCall :: "call option"
  mt_pendingCallOverride :: bool
  mt_continuationCallback :: bool
  mt_interruptedContinuation :: bool
  mt_interruptedForSignal :: bool
  mt_interrupts :: "interrupt_context list"
  mt_pendingInterrupts :: "call list"
  mt_stack :: bool
  mt_dtapeThread :: bool
  mt_th_wait :: bool

definition Thread_new :: microthread where
  "Thread_new =
     \<lparr>mt_running = False, mt_suspended = False, mt_terminating = False, mt_dead = False,
      mt_deferralState = NotDeferred, mt_pendingCall = None, mt_activeCall = None,
      mt_pendingCallOverride = False, mt_continuationCallback = False,
      mt_interruptedContinuation = False, mt_interruptedForSignal = False, mt_interrupts = [],
      mt_pendingInterrupts = [], mt_stack = False, mt_dtapeThread = True, mt_th_wait = False\<rparr>"

section \<open>Calls\<close>

definition setPendingCall :: "call \<Rightarrow> microthread \<Rightarrow> microthread result" where
  "setPendingCall c m =
     (if mt_pendingCall m \<noteq> None then
        (case c of
           Interrupt_enter _ \<Rightarrow> Inr (m\<lparr>mt_pendingInterrupts := mt_pendingInterrupts m @ [c]\<rparr>)
         | _ \<Rightarrow> Inl (Runtime_error ''Thread's pending call overwritten while active''))
      else Inr (m\<lparr>mt_pendingCall := Some c\<rparr>))"

definition makePendingCallActive :: "microthread \<Rightarrow> microthread" where
  "makePendingCallActive m = m\<lparr>mt_activeCall := mt_pendingCall m, mt_pendingCall := None\<rparr>"

text \<open>An empty stack of interrupts is not looked at by the code; its top is then undefined.\<close>

definition deactivateCall :: "call \<Rightarrow> microthread \<Rightarrow> microthread result" where
  "deactivateCall c m =
     (if mt_interruptedForSignal m then
        (case mt_interrupts m of
           [] \<Rightarrow> Inl (Undefined_behaviour ''empty stack of interrupts'')
         | i # is \<Rightarrow>
             if in_interruptedCall i \<noteq> Some c
             then Inl (Runtime_error ''Upon deactivating the active call found active/interrupted call != expected call'')
             else Inr (m\<lparr>mt_interrupts := i\<lparr>in_interruptedCall := None\<rparr> # is\<rparr>))
      else if mt_activeCall m \<noteq> Some c
      then Inl (Runtime_error ''Upon deactivating the active call found active/interrupted call != expected call'')
      else Inr (m\<lparr>mt_activeCall := None\<rparr>))"

section \<open>Running\<close>

text \<open>
  What \<open>doWork\<close> finds in its first locked section: the run is deferred, the thread is running
  elsewhere, it is over, or this worker runs it now.
\<close>

datatype entry = Deferred | Running_elsewhere | Over | Runs

definition doWork_enter :: "microthread \<Rightarrow> entry \<times> microthread" where
  "doWork_enter m =
     (if mt_deferralState m \<noteq> NotDeferred then (Deferred, m\<lparr>mt_deferralState := DeferredPending\<rparr>)
      else if mt_running m then (Running_elsewhere, m)
      else if mt_terminating m then (Over, m)
      else if mt_dead m \<and> mt_activeCall m = None then (Over, m\<lparr>mt_terminating := True\<rparr>)
      else (Runs, m\<lparr>mt_running := True, mt_th_wait := False\<rparr>))"

text \<open>
  The second locked section: what the worker jumps to. An interrupt saves the context of what it
  interrupts. \<open>Nothing\<close> means that there was nothing to do.
\<close>

datatype dispatch = Nothing | Resume | Continue | Start

definition enter_interrupt :: "microthread \<Rightarrow> microthread" where
  "enter_interrupt m =
     (case mt_pendingCall m of
        Some (Interrupt_enter _) \<Rightarrow>
          if mt_pendingCallOverride m then m
          else m\<lparr>mt_interrupts := \<lparr>in_savedReply = None, in_interruptedCall = mt_activeCall m,
                    in_savedStack = mt_stack m, in_signal = 0\<rparr> # mt_interrupts m,
                 mt_stack := False, mt_interruptedContinuation := mt_continuationCallback m,
                 mt_continuationCallback := False, mt_activeCall := None\<rparr>
      | _ \<Rightarrow> m)"

definition doWork_dispatch :: "microthread \<Rightarrow> (dispatch \<times> microthread) result" where
  "doWork_dispatch m =
     (let m = enter_interrupt m in
      if mt_continuationCallback m \<and> mt_pendingCall m \<noteq> None
      then Inl (Runtime_error ''Thread has both a pending call and a pending continuation'')
      else if mt_suspended m \<and> (mt_pendingCallOverride m \<or> mt_pendingCall m = None) then
        (let m = m\<lparr>mt_suspended := False\<rparr> in
         if mt_continuationCallback m then
           (if mt_stack m then Inl (Assertion_failed ''!_stack.isValid()'')
            else Inr (Continue, m\<lparr>mt_stack := True\<rparr>))
         else if \<not> mt_stack m then Inl (Assertion_failed ''_stack.isValid()'')
         else Inr (Resume, m))
      else if mt_pendingCall m = None then Inr (Nothing, m)
      else Inr (Start, m\<lparr>mt_suspended := False, mt_stack := True\<rparr>))"

text \<open>
  The end of \<open>doWork\<close>, under the lock. The results are whether the release of the thread is
  scheduled, whether \<open>notifyDead\<close> is called, and whether the thread is scheduled again.
\<close>

record done_result =
  dr_release :: bool
  dr_notify_dead :: bool
  dr_schedule :: bool

definition doneWorking :: "microthread \<Rightarrow> (done_result \<times> microthread) result" where
  "doneWorking m =
     (if mt_running m \<and> \<not> mt_dtapeThread m then Inl (Undefined_behaviour ''dtape_thread_exiting'')
      else
        (let m = m\<lparr>mt_running := False\<rparr>;
             canRelease = mt_dead m \<and> mt_activeCall m = None \<and> \<not> mt_terminating m;
             m = (if canRelease then m\<lparr>mt_terminating := True\<rparr> else m) in
         if mt_terminating m \<and> \<not> mt_dead m
         then Inr (\<lparr>dr_release = canRelease, dr_notify_dead = True, dr_schedule = False\<rparr>, m)
         else if \<not> mt_terminating m \<and> \<not> mt_dead m \<and> mt_pendingInterrupts m \<noteq> [] then
           (if mt_pendingCall m \<noteq> None
            then Inl (Runtime_error ''Need to schedule interrupt for processing, but thread has pending call'')
            else Inr (\<lparr>dr_release = canRelease, dr_notify_dead = False, dr_schedule = True\<rparr>,
                   m\<lparr>mt_pendingCall := Some (hd (mt_pendingInterrupts m)),
                     mt_pendingInterrupts := tl (mt_pendingInterrupts m)\<rparr>))
         else Inr (\<lparr>dr_release = canRelease, dr_notify_dead = False, dr_schedule = False\<rparr>, m)))"

text \<open>Back at the top after a jump, before the end: a stack that is not needed again is freed.\<close>

definition back_at_top :: "microthread \<Rightarrow> microthread" where
  "back_at_top m =
     (if \<not> mt_suspended m \<or> mt_continuationCallback m then m\<lparr>mt_stack := False\<rparr> else m)"

text \<open>
  The two locked sections of \<open>suspend\<close>. The first one comes after the tests that the thread suspends
  itself and that interrupts are enabled; the second one says whether to jump to the top.
\<close>

definition suspend_begin :: "bool \<Rightarrow> nat \<Rightarrow> microthread \<Rightarrow> microthread result" where
  "suspend_begin current interruptDisableCount m =
     (if \<not> current then Inl (Runtime_error ''Attempt to suspend thread other than current thread'')
      else if interruptDisableCount > 0
      then Inl (Runtime_error ''Attempt to suspend thread while interrupts disabled'')
      else Inr (m\<lparr>mt_suspended := True\<rparr>))"

definition suspend_switch :: "bool \<Rightarrow> microthread \<Rightarrow> (bool \<times> microthread) result" where
  "suspend_switch continuation m =
     (if mt_suspended m
      then Inr (True, if continuation then m\<lparr>mt_continuationCallback := True\<rparr> else m)
      else if mt_continuationCallback m then Inl (Assertion_failed ''!_continuationCallback'')
      else Inr (False, m))"

text \<open>Whether \<open>resume\<close> schedules the thread.\<close>

definition resume :: "microthread \<Rightarrow> bool" where
  "resume m \<longleftrightarrow> mt_suspended m"

definition microthreadContinuation :: "microthread \<Rightarrow> microthread" where
  "microthreadContinuation m = m\<lparr>mt_continuationCallback := False\<rparr>"

section \<open>Deferral, impersonation and death\<close>

definition deferLocked :: "microthread \<Rightarrow> microthread" where
  "deferLocked m =
     (if mt_deferralState m = NotDeferred then m\<lparr>mt_deferralState := DeferredNotPending\<rparr> else m)"

text \<open>Whether the thread is scheduled, and the thread.\<close>

definition undeferLocked :: "microthread \<Rightarrow> bool \<times> microthread" where
  "undeferLocked m =
     (mt_deferralState m = DeferredPending, m\<lparr>mt_deferralState := NotDeferred\<rparr>)"

text \<open>
  Impersonating a thread: once it does not run any more it counts as running until the
  impersonation ends.
\<close>

definition impersonate_begin :: "microthread \<Rightarrow> microthread option" where
  "impersonate_begin m = (if mt_running m then None else Some (m\<lparr>mt_running := True\<rparr>))"

definition impersonate_end :: "microthread \<Rightarrow> bool \<times> microthread" where
  "impersonate_end m = undeferLocked (m\<lparr>mt_running := False\<rparr>)"

text \<open>\<open>notifyDead\<close>: whether the release is scheduled, whether the thread is resumed, and the thread.\<close>

definition notifyDead :: "microthread \<Rightarrow> bool \<times> bool \<times> microthread" where
  "notifyDead m =
     (if mt_dead m then (False, False, m)
      else (let m = m\<lparr>mt_dead := True\<rparr> in
            if mt_activeCall m = None then (True, False, m\<lparr>mt_terminating := True, mt_th_wait := False\<rparr>)
            else (False, True, m\<lparr>mt_th_wait := False\<rparr>)))"

text \<open>\<open>terminate\<close> of a kernel thread by another one: whether \<open>notifyDead\<close> follows at once.\<close>

definition terminate_other :: "microthread \<Rightarrow> bool \<times> microthread" where
  "terminate_other m = (\<not> mt_running m, m\<lparr>mt_terminating := True\<rparr>)"

section \<open>Duct-taped waiting\<close>

text \<open>\<open>assert_wait\<close> marks the thread; \<open>thread_block\<close> suspends it if the mark is still there.\<close>

definition thread_mark_wait_locked :: "microthread \<Rightarrow> microthread" where
  "thread_mark_wait_locked m = m\<lparr>mt_th_wait := True\<rparr>"

definition thread_block_waiting :: "microthread \<Rightarrow> bool" where
  "thread_block_waiting m \<longleftrightarrow> mt_th_wait m"

text \<open>\<open>thread_unblock\<close>: the mark stays; the thread is resumed.\<close>

definition thread_unblock :: "microthread \<Rightarrow> bool \<times> microthread" where
  "thread_unblock m = (resume m, m)"

section \<open>The thread under the scheduler\<close>

text \<open>
  Where a worker stands with the thread: not concerned, about to enter \<open>doWork\<close>, at its top,
  starting the pending call, in the code of the thread, about to block, between the sections
  of \<open>suspend\<close>, or on the way back to the top. The flag says that a lock was handed to \<open>suspend\<close>.
\<close>

datatype worker_pc =
    Free
  | Entered
  | At_top
  | Starting
  | In_thread
  | Blocking bool
  | Suspending bool
  | Returned bool

datatype impersonation = No_one | Imp_waiting | Imp_running

text \<open>
  The thread with everything that concerns it: how often it is in the work queue, the workers,
  the calls set but not yet pushed, the wake-ups on the way to \<open>resume\<close>, whether it is on a wait
  queue and whether the lock of that queue is held, who impersonates it, the releases
  scheduled and not yet executed, and their total number.
\<close>

record mt_sys =
  sy_thread :: microthread
  sy_queued :: nat
  sy_workers :: "nat \<Rightarrow> worker_pc"
  sy_posting :: nat
  sy_resuming :: nat
  sy_waiting :: bool
  sy_lock :: bool
  sy_imp :: impersonation
  sy_releases :: nat
  sy_total_releases :: nat

definition mt_start :: mt_sys where
  "mt_start = \<lparr>sy_thread = Thread_new, sy_queued = 0, sy_workers = (\<lambda>_. Free), sy_posting = 0,
     sy_resuming = 0, sy_waiting = False, sy_lock = False, sy_imp = No_one, sy_releases = 0,
     sy_total_releases = 0\<rparr>"

definition move :: "nat \<Rightarrow> worker_pc \<Rightarrow> microthread \<Rightarrow> mt_sys \<Rightarrow> mt_sys" where
  "move w pc m s = s\<lparr>sy_workers := (sy_workers s)(w := pc), sy_thread := m\<rparr>"

lemma move_simps [simp]:
  "sy_thread (move w pc m s) = m" "sy_lock (move w pc m s) = sy_lock s"
  "sy_waiting (move w pc m s) = sy_waiting s" "sy_imp (move w pc m s) = sy_imp s"
  "sy_queued (move w pc m s) = sy_queued s" "sy_resuming (move w pc m s) = sy_resuming s"
  "sy_workers (move w pc m s) = (sy_workers s)(w := pc)"
  by (simp_all add: move_def)

text \<open>The death of the thread, from outside or at the end of \<open>doWork\<close>.\<close>

definition die :: "mt_sys \<Rightarrow> mt_sys" where
  "die s =
     (case notifyDead (sy_thread s) of
        (release, wake, m) \<Rightarrow>
          s\<lparr>sy_thread := m, sy_releases := sy_releases s + of_bool release,
            sy_total_releases := sy_total_releases s + of_bool release,
            sy_queued := sy_queued s + of_bool (wake \<and> resume m)\<rparr>)"

definition finish :: "nat \<Rightarrow> bool \<Rightarrow> microthread \<Rightarrow> mt_sys \<Rightarrow> mt_sys option" where
  "finish w handed m s =
     (case doneWorking m of
        Inl _ \<Rightarrow> None
      | Inr (r, m) \<Rightarrow>
          (let s = move w Free m s;
               s = s\<lparr>sy_lock := sy_lock s \<and> \<not> handed, sy_queued := sy_queued s + of_bool (dr_schedule r),
                     sy_releases := sy_releases s + of_bool (dr_release r),
                     sy_total_releases := sy_total_releases s + of_bool (dr_release r)\<rparr> in
           Some (if dr_notify_dead r then die s else s)))"

datatype mt_action =
    Pick nat
  | Enter nat
  | Dispatch nat
  | Activate nat
  | Reply nat call
  | Return nat
  | Wait_handing_lock nat
  | Wait_plain nat
  | Block nat
  | Switch nat bool
  | Top nat
  | Wake
  | Resume_thread
  | Receive call
  | Post
  | Impersonate
  | Impersonate_run
  | Impersonate_end
  | Die
  | Release

text \<open>
  \<open>plain\<close> says whether waits without a lock handed to \<open>suspend\<close> occur. An exception of the code
  ends the server: there is no step.
\<close>

fun mt_exec :: "bool \<Rightarrow> mt_action \<Rightarrow> mt_sys \<Rightarrow> mt_sys option" where
  "mt_exec plain (Pick w) s =
     (if 0 < sy_queued s \<and> sy_workers s w = Free
      then Some (move w Entered (sy_thread s) (s\<lparr>sy_queued := sy_queued s - 1\<rparr>)) else None)"
| "mt_exec plain (Enter w) s =
     (if sy_workers s w = Entered
      then (case doWork_enter (sy_thread s) of
              (Deferred, m) \<Rightarrow> Some (move w Free m s)
            | (Running_elsewhere, m) \<Rightarrow> Some (move w Free m s)
            | (Over, m) \<Rightarrow> finish w False m s
            | (Runs, m) \<Rightarrow> Some (move w At_top m s))
      else None)"
| "mt_exec plain (Dispatch w) s =
     (if sy_workers s w = At_top
      then (case doWork_dispatch (sy_thread s) of
              Inl _ \<Rightarrow> None
            | Inr (Nothing, m) \<Rightarrow> finish w False m s
            | Inr (Resume, m) \<Rightarrow> Some (move w In_thread m s)
            | Inr (Continue, m) \<Rightarrow> Some (move w In_thread (microthreadContinuation m) s)
            | Inr (Start, m) \<Rightarrow> Some (move w Starting m s))
      else None)"
| "mt_exec plain (Activate w) s =
     (if sy_workers s w = Starting
      then Some (move w In_thread (makePendingCallActive (sy_thread s)) s) else None)"
| "mt_exec plain (Reply w c) s =
     (if sy_workers s w = In_thread
      then (case deactivateCall c (sy_thread s) of
              Inl _ \<Rightarrow> None
            | Inr m \<Rightarrow> Some (move w In_thread m s))
      else None)"
| "mt_exec plain (Return w) s =
     (if sy_workers s w = In_thread then Some (move w (Returned False) (sy_thread s) s) else None)"
| "mt_exec plain (Wait_handing_lock w) s =
     (if sy_workers s w = In_thread \<and> \<not> sy_lock s
      then Some (move w (Blocking True) (sy_thread s) (s\<lparr>sy_lock := True, sy_waiting := True\<rparr>))
      else None)"
| "mt_exec plain (Wait_plain w) s =
     (if plain \<and> sy_workers s w = In_thread \<and> \<not> sy_lock s
      then Some (move w (Blocking False) (thread_mark_wait_locked (sy_thread s)) (s\<lparr>sy_waiting := True\<rparr>))
      else None)"
| "mt_exec plain (Block w) s =
     (case sy_workers s w of
        Blocking handed \<Rightarrow>
          if handed \<or> thread_block_waiting (sy_thread s)
          then (case suspend_begin True 0 (sy_thread s) of
                  Inl _ \<Rightarrow> None
                | Inr m \<Rightarrow> Some (move w (Suspending handed) m s))
          else Some (move w In_thread (sy_thread s) s)
      | _ \<Rightarrow> None)"
| "mt_exec plain (Switch w continuation) s =
     (case sy_workers s w of
        Suspending handed \<Rightarrow>
          (case suspend_switch continuation (sy_thread s) of
             Inl _ \<Rightarrow> None
           | Inr (True, m) \<Rightarrow> Some (move w (Returned handed) m s)
           | Inr (False, m) \<Rightarrow> Some (move w In_thread m s))
      | _ \<Rightarrow> None)"
| "mt_exec plain (Top w) s =
     (case sy_workers s w of
        Returned handed \<Rightarrow> finish w handed (back_at_top (sy_thread s)) s
      | _ \<Rightarrow> None)"
| "mt_exec plain Wake s =
     (if sy_waiting s \<and> \<not> sy_lock s
      then Some (s\<lparr>sy_waiting := False, sy_resuming := sy_resuming s + 1\<rparr>) else None)"
| "mt_exec plain Resume_thread s =
     (if 0 < sy_resuming s
      then Some (s\<lparr>sy_resuming := sy_resuming s - 1,
                   sy_queued := sy_queued s + of_bool (resume (sy_thread s))\<rparr>) else None)"
| "mt_exec plain (Receive c) s =
     (case setPendingCall c (sy_thread s) of
        Inl _ \<Rightarrow> None
      | Inr m \<Rightarrow> Some (s\<lparr>sy_thread := m, sy_posting := sy_posting s + 1\<rparr>))"
| "mt_exec plain Post s =
     (if 0 < sy_posting s
      then Some (s\<lparr>sy_posting := sy_posting s - 1, sy_queued := sy_queued s + 1\<rparr>) else None)"
| "mt_exec plain Impersonate s =
     (if sy_imp s = No_one
      then Some (s\<lparr>sy_imp := Imp_waiting, sy_thread := deferLocked (sy_thread s)\<rparr>) else None)"
| "mt_exec plain Impersonate_run s =
     (if sy_imp s = Imp_waiting
      then map_option (\<lambda>m. s\<lparr>sy_imp := Imp_running, sy_thread := m\<rparr>) (impersonate_begin (sy_thread s))
      else None)"
| "mt_exec plain Impersonate_end s =
     (if sy_imp s = Imp_running
      then (case impersonate_end (sy_thread s) of
              (pending, m) \<Rightarrow> Some (s\<lparr>sy_imp := No_one, sy_thread := m,
                                sy_queued := sy_queued s + of_bool pending\<rparr>))
      else None)"
| "mt_exec plain Die s = Some (die s)"
| "mt_exec plain Release s =
     (if 0 < sy_releases s
      then Some (s\<lparr>sy_releases := sy_releases s - 1,
                   sy_thread := (sy_thread s)\<lparr>mt_dtapeThread := False\<rparr>\<rparr>) else None)"

inductive mt_step :: "bool \<Rightarrow> mt_sys \<Rightarrow> mt_sys \<Rightarrow> bool" for plain where
  step: "mt_exec plain a s = Some s' \<Longrightarrow> mt_step plain s s'"

section \<open>Exclusion\<close>

fun holds_thread :: "worker_pc \<Rightarrow> bool" where
  "holds_thread Free = False"
| "holds_thread Entered = False"
| "holds_thread _ = True"

definition sole :: "mt_sys \<Rightarrow> bool" where
  "sole s \<longleftrightarrow>
     (\<forall>v w. holds_thread (sy_workers s v) \<and> holds_thread (sy_workers s w) \<longrightarrow> v = w) \<and>
     (mt_running (sy_thread s) \<longleftrightarrow> (\<exists>w. holds_thread (sy_workers s w)) \<or> sy_imp s = Imp_running) \<and>
     \<not> ((\<exists>w. holds_thread (sy_workers s w)) \<and> sy_imp s = Imp_running) \<and>
     (sy_imp s = No_one \<longleftrightarrow> mt_deferralState (sy_thread s) = NotDeferred)"

lemma sole_frame:
  assumes "sole s" "\<And>w. holds_thread (sy_workers s' w) = holds_thread (sy_workers s w)"
    "mt_running (sy_thread s') = mt_running (sy_thread s)" "sy_imp s' = sy_imp s"
    "(mt_deferralState (sy_thread s') = NotDeferred) = (mt_deferralState (sy_thread s) = NotDeferred)"
  shows "sole s'"
  using assms by (simp add: sole_def)

lemma sole_move:
  assumes "sole s" "holds_thread pc = holds_thread (sy_workers s w)"
    "mt_running m = mt_running (sy_thread s)"
    "(mt_deferralState m = NotDeferred) = (mt_deferralState (sy_thread s) = NotDeferred)"
  shows "sole (move w pc m s)"
  using assms(1) by (rule sole_frame) (use assms in \<open>auto simp: move_def\<close>)

lemma sole_die: "sole s \<Longrightarrow> sole (die s)"
  by (erule sole_frame) (auto simp: die_def notifyDead_def Let_def)

lemma doneWorking_view:
  assumes "doneWorking m = Inr (r, m')"
  shows "\<not> mt_running m'" "mt_deferralState m' = mt_deferralState m"
  using assms by (auto simp: doneWorking_def Let_def split: if_splits)

lemma sole_finish:
  assumes "sole s" "finish w handed m s = Some s'" "sy_imp s \<noteq> Imp_running"
    "mt_deferralState m = mt_deferralState (sy_thread s)"
    "\<And>v. holds_thread (sy_workers s v) \<Longrightarrow> v = w"
  shows "sole s'"
proof -
  obtain r m' where d: "doneWorking m = Inr (r, m')"
    using assms(2) by (auto simp: finish_def split: sum.splits)
  let ?s = "(move w Free m' s)\<lparr>sy_lock := sy_lock s \<and> \<not> handed,
     sy_queued := sy_queued s + of_bool (dr_schedule r),
     sy_releases := sy_releases s + of_bool (dr_release r),
     sy_total_releases := sy_total_releases s + of_bool (dr_release r)\<rparr>"
  have "sole ?s"
    using assms(1,3-) doneWorking_view [OF d] by (auto simp: sole_def move_def)
  moreover have "s' = (if dr_notify_dead r then die ?s else ?s)"
    using assms(2) by (auto simp: finish_def d Let_def move_def)
  ultimately show ?thesis by (simp add: sole_die)
qed

lemma sole_holder:
  assumes "sole s" "holds_thread (sy_workers s w)"
  shows "sy_imp s \<noteq> Imp_running" "holds_thread (sy_workers s v) \<Longrightarrow> v = w" "mt_running (sy_thread s)"
  using assms unfolding sole_def by blast+

lemma sole_enter:
  assumes "sole s" "mt_exec plain (Enter w) s = Some s'"
  shows "sole s'"
proof -
  let ?m = "sy_thread s"
  have w: "sy_workers s w = Entered" using assms(2) by (auto split: if_splits)
  obtain e m where e: "doWork_enter ?m = (e, m)" by fastforce
  show ?thesis
  proof (cases e)
    case Deferred
    with e have "m = ?m\<lparr>mt_deferralState := DeferredPending\<rparr>" "mt_deferralState ?m \<noteq> NotDeferred"
      by (auto simp: doWork_enter_def split: if_splits)
    with assms w e Deferred show ?thesis by (auto intro!: sole_move)
  next
    case Running_elsewhere
    with e have "m = ?m" by (auto simp: doWork_enter_def split: if_splits)
    with assms w e Running_elsewhere show ?thesis by (auto intro!: sole_move)
  next
    case Over
    with e have m: "mt_deferralState ?m = NotDeferred" "\<not> mt_running ?m"
      "mt_deferralState m = mt_deferralState ?m"
      by (auto simp: doWork_enter_def split: if_splits)
    have "finish w False m s = Some s'" using assms(2) w e Over by simp
    moreover have "\<not> holds_thread (sy_workers s v)" "sy_imp s \<noteq> Imp_running" for v
      using assms(1) m by (auto simp: sole_def)
    ultimately show ?thesis using assms(1) m(3) sole_finish by blast
  next
    case Runs
    with e have m: "mt_deferralState ?m = NotDeferred" "\<not> mt_running ?m"
      "m = ?m\<lparr>mt_running := True, mt_th_wait := False\<rparr>"
      by (auto simp: doWork_enter_def split: if_splits)
    have "s' = move w At_top m s" using assms(2) w e Runs by simp
    with assms(1) m show ?thesis by (auto simp: sole_def move_def)
  qed
qed

lemma dispatch_view:
  assumes "doWork_dispatch m = Inr (d, m')"
  shows "mt_running m' = mt_running m" "mt_deferralState m' = mt_deferralState m"
  using assms
  by (auto simp: doWork_dispatch_def enter_interrupt_def Let_def split: if_splits option.splits call.splits)

lemma sole_dispatch:
  assumes "sole s" "mt_exec plain (Dispatch w) s = Some s'"
  shows "sole s'"
proof -
  have w: "sy_workers s w = At_top" using assms(2) by (auto split: if_splits)
  then have h: "holds_thread (sy_workers s w)" by simp
  obtain d m where d: "doWork_dispatch (sy_thread s) = Inr (d, m)"
    using assms(2) by (auto split: if_splits sum.splits)
  show ?thesis
  proof (cases d)
    case Nothing
    then have "finish w False m s = Some s'" using assms(2) w d by simp
    then show ?thesis
      using sole_finish assms(1) sole_holder [OF assms(1) h] dispatch_view [OF d] by blast
  qed (use assms w d dispatch_view [OF d] in
      \<open>auto intro!: sole_move simp: microthreadContinuation_def\<close>)
qed

lemmas quiet_defs = move_def makePendingCallActive_def thread_mark_wait_locked_def

lemma sole_step: "mt_step plain s s' \<Longrightarrow> sole s \<Longrightarrow> sole s'"
proof (induction rule: mt_step.induct)
  case (step a s s')
  show ?case
  proof (cases a)
    case (Enter w)
    with step sole_enter show ?thesis by simp
  next
    case (Dispatch w)
    with step sole_dispatch show ?thesis by blast
  next
    case (Top w)
    with step obtain handed where w: "sy_workers s w = Returned handed"
      and f: "finish w handed (back_at_top (sy_thread s)) s = Some s'"
      by (auto split: worker_pc.splits)
    then have "holds_thread (sy_workers s w)" by simp
    from sole_holder [OF step(2) this] sole_finish [OF step(2) f] show ?thesis
      by (simp add: back_at_top_def)
  next
    case Impersonate
    with step show ?thesis by (auto simp: sole_def deferLocked_def split: if_splits)
  next
    case Impersonate_run
    with step show ?thesis by (auto simp: sole_def impersonate_begin_def split: if_splits)
  next
    case Impersonate_end
    with step show ?thesis
      by (auto simp: sole_def impersonate_end_def undeferLocked_def split: if_splits)
  next
    case Die
    with step sole_die show ?thesis by auto
  next
    case (Reply w c)
    with step show ?thesis
      by (auto simp: deactivateCall_def intro!: sole_move split: if_splits sum.splits list.splits)
  next
    case (Receive c)
    with step show ?thesis
      by (auto simp: setPendingCall_def sole_def split: if_splits call.splits)
  next
    case (Switch w c)
    with step show ?thesis
      by (auto simp: suspend_switch_def intro!: sole_move split: if_splits worker_pc.splits)
  next
    case (Block w)
    with step show ?thesis
      by (auto simp: suspend_begin_def intro!: sole_move split: if_splits worker_pc.splits)
  next
    case (Pick w)
    from step(2) show ?thesis
      by (rule sole_frame) (use step(1) Pick in \<open>auto simp: quiet_defs split: if_splits\<close>)
  next
    case (Activate w)
    from step(2) show ?thesis
      by (rule sole_frame) (use step(1) Activate in \<open>auto simp: quiet_defs split: if_splits\<close>)
  next
    case (Return w)
    from step(2) show ?thesis
      by (rule sole_frame) (use step(1) Return in \<open>auto simp: quiet_defs split: if_splits\<close>)
  next
    case (Wait_handing_lock w)
    from step(2) show ?thesis
      by (rule sole_frame) (use step(1) Wait_handing_lock in \<open>auto simp: quiet_defs split: if_splits\<close>)
  next
    case (Wait_plain w)
    from step(2) show ?thesis
      by (rule sole_frame) (use step(1) Wait_plain in \<open>auto simp: quiet_defs split: if_splits\<close>)
  next
    case Wake
    from step(2) show ?thesis
      by (rule sole_frame) (use step(1) Wake in \<open>auto simp: quiet_defs split: if_splits\<close>)
  next
    case Resume_thread
    from step(2) show ?thesis
      by (rule sole_frame) (use step(1) Resume_thread in \<open>auto simp: quiet_defs split: if_splits\<close>)
  next
    case Post
    from step(2) show ?thesis
      by (rule sole_frame) (use step(1) Post in \<open>auto simp: quiet_defs split: if_splits\<close>)
  next
    case Release
    from step(2) show ?thesis
      by (rule sole_frame) (use step(1) Release in \<open>auto simp: quiet_defs split: if_splits\<close>)
  qed
qed

section \<open>Death and release\<close>

definition no_holder :: "mt_sys \<Rightarrow> bool" where
  "no_holder s \<longleftrightarrow> (\<forall>w. \<not> holds_thread (sy_workers s w))"

definition release_ok :: "mt_sys \<Rightarrow> bool" where
  "release_ok s \<longleftrightarrow>
     sy_releases s \<le> sy_total_releases s \<and> sy_total_releases s \<le> 1 \<and>
     (0 < sy_total_releases s \<longrightarrow> mt_dead (sy_thread s) \<and> mt_terminating (sy_thread s)) \<and>
     (mt_terminating (sy_thread s) \<longrightarrow> mt_dead (sy_thread s)) \<and>
     (mt_dead (sy_thread s) \<and> \<not> mt_terminating (sy_thread s) \<and> no_holder s \<longrightarrow>
        mt_activeCall (sy_thread s) \<noteq> None)"

lemma release_die: "release_ok s \<Longrightarrow> release_ok (die s)"
  by (auto simp: release_ok_def die_def notifyDead_def Let_def no_holder_def)

lemma release_finish:
  assumes "release_ok s" "finish w handed m s = Some s'"
    "mt_dead m = mt_dead (sy_thread s)" "mt_terminating m = mt_terminating (sy_thread s)"
  shows "release_ok s'"
proof -
  obtain r m' where d: "doneWorking m = Inr (r, m')"
    using assms(2) by (auto simp: finish_def split: sum.splits)
  then have r: "dr_release r \<longleftrightarrow> mt_dead m \<and> mt_activeCall m = None \<and> \<not> mt_terminating m"
    "mt_dead m' = mt_dead m" "mt_terminating m' = (mt_terminating m \<or> dr_release r)"
    "mt_activeCall m' = mt_activeCall m" "dr_notify_dead r \<longrightarrow> mt_terminating m \<and> \<not> mt_dead m"
    by (auto simp: doneWorking_def Let_def split: if_splits)
  with assms(1,3,4) have "\<not> dr_notify_dead r" by (auto simp: release_ok_def)
  then have "s' = (move w Free m' s)\<lparr>sy_lock := sy_lock s \<and> \<not> handed,
     sy_queued := sy_queued s + of_bool (dr_schedule r),
     sy_releases := sy_releases s + of_bool (dr_release r),
     sy_total_releases := sy_total_releases s + of_bool (dr_release r)\<rparr>"
    using assms(2) by (auto simp: finish_def d Let_def move_def)
  with assms(1,3,4) r show ?thesis by (auto simp: release_ok_def move_def)
qed

lemma release_frame:
  assumes "release_ok s" "sy_releases s' = sy_releases s" "sy_total_releases s' = sy_total_releases s"
    "mt_dead (sy_thread s') = mt_dead (sy_thread s)"
    "mt_terminating (sy_thread s') = mt_terminating (sy_thread s)"
    "no_holder s' \<Longrightarrow> no_holder s \<and> mt_activeCall (sy_thread s') = mt_activeCall (sy_thread s)"
  shows "release_ok s'"
  using assms by (auto simp: release_ok_def)

lemma release_quiet:
  assumes "release_ok s" "\<And>w. holds_thread (sy_workers s' w) = holds_thread (sy_workers s w)"
    "sy_releases s' = sy_releases s" "sy_total_releases s' = sy_total_releases s"
    "mt_dead (sy_thread s') = mt_dead (sy_thread s)"
    "mt_terminating (sy_thread s') = mt_terminating (sy_thread s)"
    "mt_activeCall (sy_thread s') = mt_activeCall (sy_thread s)"
  shows "release_ok s'"
  using assms by (simp add: release_ok_def no_holder_def)

lemma holder_moved: "holds_thread pc \<Longrightarrow> \<not> no_holder (move w pc m s)"
  by (auto simp: no_holder_def move_def)

lemma not_holder_moved:
  "holds_thread pc = holds_thread (sy_workers s w) \<Longrightarrow> no_holder (move w pc m s) = no_holder s"
  by (auto simp: no_holder_def move_def)

lemma release_enter:
  assumes "release_ok s" "sole s" "mt_exec plain (Enter w) s = Some s'"
  shows "release_ok s'"
proof -
  let ?m = "sy_thread s"
  have w: "sy_workers s w = Entered" using assms(3) by (auto split: if_splits)
  obtain e m where e: "doWork_enter ?m = (e, m)" by fastforce
  show ?thesis
  proof (cases e)
    case Over
    with e have m: "mt_deferralState ?m = NotDeferred" "\<not> mt_running ?m"
      "mt_terminating ?m \<or> mt_dead ?m \<and> mt_activeCall ?m = None"
      "m = (if mt_terminating ?m then ?m else ?m\<lparr>mt_terminating := True\<rparr>)"
      by (auto simp: doWork_enter_def split: if_splits)
    have "no_holder s" using assms(2) m(2) by (auto simp: sole_def no_holder_def)
    with assms(1) m(3) have "mt_terminating ?m" by (auto simp: release_ok_def)
    with m(4) assms(1,3) w e Over release_finish [of s w False m s'] show ?thesis by simp
  next
    case Runs
    with e have "m = ?m\<lparr>mt_running := True, mt_th_wait := False\<rparr>"
      by (auto simp: doWork_enter_def split: if_splits)
    with assms w e Runs show ?thesis
      by (auto simp: holder_moved intro!: release_frame [of s]) (auto simp: move_def)
  next
    case Deferred
    with e have "m = ?m\<lparr>mt_deferralState := DeferredPending\<rparr>"
      by (auto simp: doWork_enter_def split: if_splits)
    with assms w e Deferred show ?thesis
      by (auto simp: not_holder_moved intro!: release_frame [of s]) (auto simp: move_def)
  next
    case Running_elsewhere
    with e have "m = ?m" by (auto simp: doWork_enter_def split: if_splits)
    with assms w e Running_elsewhere show ?thesis
      by (auto simp: not_holder_moved intro!: release_frame [of s]) (auto simp: move_def)
  qed
qed

lemma dispatch_flags:
  assumes "doWork_dispatch m = Inr (d, m')"
  shows "mt_dead m' = mt_dead m" "mt_terminating m' = mt_terminating m"
  using assms
  by (auto simp: doWork_dispatch_def enter_interrupt_def Let_def split: if_splits option.splits call.splits)

lemma release_move:
  assumes "release_ok s" "holds_thread pc"
    "mt_dead m = mt_dead (sy_thread s)" "mt_terminating m = mt_terminating (sy_thread s)"
  shows "release_ok (move w pc m s)"
  using assms holder_moved [OF assms(2)] by (auto intro!: release_frame [of s] simp: move_def)

lemma release_dispatch:
  assumes "release_ok s" "mt_exec plain (Dispatch w) s = Some s'"
  shows "release_ok s'"
proof -
  obtain d m where d: "sy_workers s w = At_top" "doWork_dispatch (sy_thread s) = Inr (d, m)"
    using assms(2) by (auto split: if_splits sum.splits)
  show ?thesis
  proof (cases d)
    case Nothing
    then have "finish w False m s = Some s'" using assms(2) d by simp
    from release_finish [OF assms(1) this] dispatch_flags [OF d(2)] show ?thesis by simp
  qed (use assms d dispatch_flags [OF d(2)] in
      \<open>auto intro!: release_move simp: microthreadContinuation_def\<close>)
qed

lemmas imp_defs = deferLocked_def impersonate_begin_def impersonate_end_def undeferLocked_def

lemma release_step: "mt_step plain s s' \<Longrightarrow> sole s \<Longrightarrow> release_ok s \<Longrightarrow> release_ok s'"
proof (induction rule: mt_step.induct)
  case (step a s s')
  show ?case
  proof (cases a)
    case (Enter w)
    with step release_enter show ?thesis by blast
  next
    case (Dispatch w)
    with step release_dispatch show ?thesis by blast
  next
    case (Top w)
    with step obtain handed where
      f: "finish w handed (back_at_top (sy_thread s)) s = Some s'"
      by (auto split: worker_pc.splits)
    from release_finish [OF step(3) f] show ?thesis by (simp add: back_at_top_def)
  next
    case Die
    with step release_die show ?thesis by auto
  next
    case (Reply w c)
    with step show ?thesis
      by (auto simp: deactivateCall_def intro!: release_move split: if_splits sum.splits list.splits)
  next
    case (Switch w c)
    with step show ?thesis
      by (auto simp: suspend_switch_def intro!: release_move split: if_splits worker_pc.splits)
  next
    case (Block w)
    with step show ?thesis
      by (auto simp: suspend_begin_def intro!: release_move split: if_splits worker_pc.splits)
  next
    case (Pick w)
    from step(3) show ?thesis
      by (rule release_quiet) (use step(1) Pick in \<open>auto simp: quiet_defs imp_defs split: if_splits\<close>)
  next
    case (Return w)
    from step(3) show ?thesis
      by (rule release_quiet) (use step(1) Return in \<open>auto simp: quiet_defs imp_defs split: if_splits\<close>)
  next
    case (Wait_handing_lock w)
    from step(3) show ?thesis
      by (rule release_quiet) (use step(1) Wait_handing_lock in \<open>auto simp: quiet_defs imp_defs split: if_splits\<close>)
  next
    case (Wait_plain w)
    from step(3) show ?thesis
      by (rule release_quiet) (use step(1) Wait_plain in \<open>auto simp: quiet_defs imp_defs split: if_splits\<close>)
  next
    case Wake
    from step(3) show ?thesis
      by (rule release_quiet) (use step(1) Wake in \<open>auto simp: quiet_defs imp_defs split: if_splits\<close>)
  next
    case Resume_thread
    from step(3) show ?thesis
      by (rule release_quiet) (use step(1) Resume_thread in \<open>auto simp: quiet_defs imp_defs split: if_splits\<close>)
  next
    case Post
    from step(3) show ?thesis
      by (rule release_quiet) (use step(1) Post in \<open>auto simp: quiet_defs imp_defs split: if_splits\<close>)
  next
    case Impersonate
    from step(3) show ?thesis
      by (rule release_quiet) (use step(1) Impersonate in \<open>auto simp: quiet_defs imp_defs split: if_splits\<close>)
  next
    case Impersonate_run
    from step(3) show ?thesis
      by (rule release_quiet) (use step(1) Impersonate_run in \<open>auto simp: quiet_defs imp_defs split: if_splits\<close>)
  next
    case Impersonate_end
    from step(3) show ?thesis
      by (rule release_quiet) (use step(1) Impersonate_end in \<open>auto simp: quiet_defs imp_defs split: if_splits\<close>)
  next
    case (Receive c)
    from step(3) show ?thesis
      by (rule release_quiet)
        (use step(1) Receive in \<open>auto simp: setPendingCall_def split: if_splits call.splits\<close>)
  next
    case (Activate w)
    with step show ?thesis by (auto simp: makePendingCallActive_def intro!: release_move split: if_splits)
  next
    case Release
    with step show ?thesis by (auto simp: release_ok_def no_holder_def split: if_splits)
  qed
qed

section \<open>Wake-ups\<close>

text \<open>What is known where a worker stands, if locks are handed to \<open>suspend\<close>.\<close>

fun pc_ok :: "mt_sys \<Rightarrow> worker_pc \<Rightarrow> bool" where
  "pc_ok s In_thread \<longleftrightarrow> \<not> mt_suspended (sy_thread s)"
| "pc_ok s Starting \<longleftrightarrow> \<not> mt_suspended (sy_thread s)"
| "pc_ok s (Blocking h) \<longleftrightarrow> h \<and> \<not> mt_suspended (sy_thread s) \<and> sy_lock s \<and> sy_waiting s"
| "pc_ok s (Suspending h) \<longleftrightarrow> h \<and> mt_suspended (sy_thread s) \<and> sy_lock s \<and> sy_waiting s"
| "pc_ok s (Returned h) \<longleftrightarrow> mt_suspended (sy_thread s) = h \<and> (h \<longrightarrow> sy_lock s \<and> sy_waiting s)"
| "pc_ok s _ \<longleftrightarrow> True"

definition woken :: "mt_sys \<Rightarrow> bool" where
  "woken s \<longleftrightarrow> 0 < sy_resuming s \<or> 0 < sy_queued s \<or> (\<exists>w. sy_workers s w = Entered)
     \<or> mt_deferralState (sy_thread s) = DeferredPending"

definition asleep :: "mt_sys \<Rightarrow> bool" where
  "asleep s \<longleftrightarrow> mt_suspended (sy_thread s) \<and> no_holder s \<and> \<not> mt_terminating (sy_thread s)"

definition wake_ok :: "mt_sys \<Rightarrow> bool" where
  "wake_ok s \<longleftrightarrow> (\<forall>w. pc_ok s (sy_workers s w)) \<and> (asleep s \<and> \<not> sy_waiting s \<longrightarrow> woken s)"

lemma idle_pc_ok: "\<not> holds_thread pc \<Longrightarrow> pc_ok s pc"
  by (cases pc) auto

lemma wake_okD: "wake_ok s \<Longrightarrow> pc_ok s (sy_workers s w)"
  by (simp add: wake_ok_def)

lemma wake_holder:
  assumes "\<And>v. v \<noteq> w \<Longrightarrow> \<not> holds_thread (sy_workers s' v)" "pc_ok s' (sy_workers s' w)"
    "holds_thread (sy_workers s' w) \<or> \<not> mt_suspended (sy_thread s') \<or> sy_waiting s'
      \<or> mt_terminating (sy_thread s')"
  shows "wake_ok s'"
proof -
  have "pc_ok s' (sy_workers s' v)" for v
    using assms(1) [of v] assms(2) idle_pc_ok by (cases "v = w") auto
  with assms(3) show ?thesis by (auto simp: wake_ok_def asleep_def no_holder_def)
qed

lemma wake_move:
  assumes "sole s" "holds_thread (sy_workers s w)" "holds_thread pc" "pc_ok (move w pc m s) pc"
  shows "wake_ok (move w pc m s)"
proof (rule wake_holder)
  show "\<not> holds_thread (sy_workers (move w pc m s) v)" if "v \<noteq> w" for v
    using sole_holder(2) [OF assms(1,2), of v] that by (auto simp: move_def)
qed (use assms in \<open>simp_all add: move_def\<close>)

lemma wake_quiet:
  assumes "wake_ok s" "\<And>v. sy_workers s' v = sy_workers s v \<or> \<not> holds_thread (sy_workers s' v)"
    "\<And>v. holds_thread (sy_workers s' v) = holds_thread (sy_workers s v)"
    "mt_suspended (sy_thread s') = mt_suspended (sy_thread s)"
    "mt_terminating (sy_thread s') = mt_terminating (sy_thread s)"
    "sy_lock s' = sy_lock s" "sy_waiting s' = sy_waiting s" "woken s \<Longrightarrow> woken s'"
  shows "wake_ok s'"
proof -
  have "pc_ok s' pc = pc_ok s pc" for pc using assms(4,6,7) by (cases pc) auto
  then have "pc_ok s' (sy_workers s' v)" for v
    using assms(2) [of v] wake_okD [OF assms(1), of v] idle_pc_ok by auto
  with assms(1,3-) show ?thesis by (auto simp: wake_ok_def asleep_def no_holder_def)
qed

lemma wake_die: "wake_ok s \<Longrightarrow> wake_ok (die s)"
proof -
  assume ok: "wake_ok s"
  have "pc_ok (die s) pc = pc_ok s pc" for pc
    by (cases pc) (auto simp: die_def notifyDead_def Let_def)
  with ok have "pc_ok (die s) (sy_workers (die s) w)" for w
    by (simp add: wake_ok_def) (simp add: die_def notifyDead_def Let_def)
  with ok show ?thesis
    by (auto simp: wake_ok_def asleep_def no_holder_def woken_def die_def notifyDead_def Let_def resume_def
        split: if_splits)
qed

lemma doneWorking_suspended:
  "doneWorking m = Inr (r, m') \<Longrightarrow> mt_suspended m' = mt_suspended m"
  "doneWorking m = Inr (r, m') \<Longrightarrow> mt_terminating m \<Longrightarrow> mt_terminating m'"
  by (auto simp: doneWorking_def Let_def split: if_splits)

lemma wake_finish:
  assumes "finish w handed m s = Some s'" "\<And>v. holds_thread (sy_workers s v) \<Longrightarrow> v = w"
    "\<not> mt_suspended m \<or> sy_waiting s \<or> mt_terminating m"
  shows "wake_ok s'"
proof -
  obtain r m' where d: "doneWorking m = Inr (r, m')"
    using assms(1) by (auto simp: finish_def split: sum.splits)
  let ?s = "(move w Free m' s)\<lparr>sy_lock := sy_lock s \<and> \<not> handed,
     sy_queued := sy_queued s + of_bool (dr_schedule r),
     sy_releases := sy_releases s + of_bool (dr_release r),
     sy_total_releases := sy_total_releases s + of_bool (dr_release r)\<rparr>"
  have "wake_ok ?s"
    using assms(2,3) doneWorking_suspended [OF d]
    by (intro wake_holder [of w]) (auto simp: move_def)
  moreover have "s' = (if dr_notify_dead r then die ?s else ?s)"
    using assms(1) by (auto simp: finish_def d Let_def move_def)
  ultimately show ?thesis by (simp add: wake_die)
qed

lemma wake_enter:
  assumes "wake_ok s" "sole s" "mt_exec False (Enter w) s = Some s'"
  shows "wake_ok s'"
proof -
  let ?m = "sy_thread s"
  have w: "sy_workers s w = Entered" using assms(3) by (auto split: if_splits)
  obtain e m where e: "doWork_enter ?m = (e, m)" by fastforce
  show ?thesis
  proof (cases e)
    case Deferred
    with e have "m = ?m\<lparr>mt_deferralState := DeferredPending\<rparr>"
      by (auto simp: doWork_enter_def split: if_splits)
    with assms w e Deferred show ?thesis
      by (intro wake_quiet [OF assms(1)]) (auto simp: move_def woken_def split: if_splits)
  next
    case Running_elsewhere
    with e have m: "m = ?m" "mt_running ?m" "mt_deferralState ?m = NotDeferred"
      by (auto simp: doWork_enter_def split: if_splits)
    then obtain v where v: "holds_thread (sy_workers s v)" using assms(2) by (auto simp: sole_def)
    with w have "v \<noteq> w" by auto
    have "wake_ok (move w Free m s)"
    proof (rule wake_holder [of v])
      show "\<not> holds_thread (sy_workers (move w Free m s) u)" if "u \<noteq> v" for u
        using that sole_holder(2) [OF assms(2) v, of u] by (auto simp: move_def)
      show "pc_ok (move w Free m s) (sy_workers (move w Free m s) v)"
        using wake_okD [OF assms(1), of v] m(1) \<open>v \<noteq> w\<close>
        by (cases "sy_workers s v") (auto simp: move_def)
    qed (use v \<open>v \<noteq> w\<close> in \<open>simp add: move_def\<close>)
    with assms w e Running_elsewhere show ?thesis by simp
  next
    case Over
    with e have m: "\<not> mt_running ?m" "mt_terminating m"
      by (auto simp: doWork_enter_def split: if_splits)
    have "finish w False m s = Some s'" using assms(3) w e Over by simp
    moreover have "\<not> holds_thread (sy_workers s v)" for v
      using assms(2) m by (auto simp: sole_def)
    ultimately show ?thesis using m(2) wake_finish by blast
  next
    case Runs
    with e have m: "\<not> mt_running ?m" by (auto simp: doWork_enter_def split: if_splits)
    then have "\<not> holds_thread (sy_workers s v)" for v using assms(2) by (auto simp: sole_def)
    then have "wake_ok (move w At_top m s)"
      by (intro wake_holder [of w]) (auto simp: move_def)
    with assms w e Runs show ?thesis by simp
  qed
qed

lemma dispatch_suspended:
  "doWork_dispatch m = Inr (d, m') \<Longrightarrow> \<not> mt_suspended m'"
  by (auto simp: doWork_dispatch_def enter_interrupt_def Let_def split: if_splits option.splits call.splits)

lemma wake_dispatch:
  assumes "sole s" "mt_exec False (Dispatch w) s = Some s'"
  shows "wake_ok s'"
proof -
  obtain d m where d: "sy_workers s w = At_top" "doWork_dispatch (sy_thread s) = Inr (d, m)"
    using assms(2) by (auto split: if_splits sum.splits)
  then have h: "holds_thread (sy_workers s w)" by simp
  note awake = dispatch_suspended [OF d(2)]
  show ?thesis
  proof (cases d)
    case Nothing
    then have "finish w False m s = Some s'" using assms(2) d by simp
    then show ?thesis using wake_finish sole_holder(2) [OF assms(1) h] awake by blast
  next
    case Resume
    with assms d awake wake_move [OF assms(1) h, of In_thread m] show ?thesis by (auto simp: move_def)
  next
    case Continue
    with assms d awake wake_move [OF assms(1) h, of In_thread "microthreadContinuation m"]
    show ?thesis by (auto simp: move_def microthreadContinuation_def)
  next
    case Start
    with assms d awake wake_move [OF assms(1) h, of Starting m] show ?thesis by (auto simp: move_def)
  qed
qed

lemma lock_free:
  assumes "wake_ok s" "\<not> sy_lock s"
  shows "pc_ok (s\<lparr>sy_waiting := False, sy_resuming := n\<rparr>) (sy_workers s w)"
  using wake_okD [OF assms(1), of w] assms(2) by (cases "sy_workers s w") auto

lemma wake_step:
  "mt_step plain s s' \<Longrightarrow> \<not> plain \<Longrightarrow> sole s \<Longrightarrow> wake_ok s \<Longrightarrow> wake_ok s'"
proof (induction rule: mt_step.induct)
  case (step a s s')
  show ?case
  proof (cases a)
    case (Enter w)
    with step wake_enter show ?thesis by auto
  next
    case (Dispatch w)
    with step wake_dispatch show ?thesis by auto
  next
    case (Top w)
    with step obtain handed where w: "sy_workers s w = Returned handed"
      and f: "finish w handed (back_at_top (sy_thread s)) s = Some s'"
      by (auto split: worker_pc.splits)
    then have h: "holds_thread (sy_workers s w)" by simp
    have "\<not> mt_suspended (sy_thread s) \<or> sy_waiting s"
      using wake_okD [OF step(4), of w] w by simp
    with wake_finish [OF f sole_holder(2) [OF step(3) h]] show ?thesis by (simp add: back_at_top_def)
  next
    case Die
    with step wake_die show ?thesis by auto
  next
    case (Reply w c)
    with step wake_okD [OF step(4), of w] show ?thesis
      by (auto simp: deactivateCall_def intro!: wake_move split: if_splits sum.splits list.splits)
  next
    case (Activate w)
    with step wake_okD [OF step(4), of w] show ?thesis
      by (auto intro!: wake_move simp: makePendingCallActive_def split: if_splits)
  next
    case (Return w)
    with step wake_okD [OF step(4), of w] show ?thesis
      by (auto intro!: wake_move simp: makePendingCallActive_def split: if_splits)
  next
    case (Wait_handing_lock w)
    with step have w: "sy_workers s w = In_thread" and s': "s' = move w (Blocking True) (sy_thread s)
        (s\<lparr>sy_lock := True, sy_waiting := True\<rparr>)"
      by (auto split: if_splits)
    then have h: "holds_thread (sy_workers s w)" by simp
    show ?thesis
    proof (rule wake_holder [of w])
      show "\<not> holds_thread (sy_workers s' v)" if "v \<noteq> w" for v
        using sole_holder(2) [OF step(3) h, of v] that by (auto simp: s' move_def)
    qed (use wake_okD [OF step(4), of w] w in \<open>simp_all add: s' move_def\<close>)
  next
    case (Block w)
    with step obtain handed where w: "sy_workers s w = Blocking handed"
      by (auto split: worker_pc.splits)
    with wake_okD [OF step(4), of w] have "handed" "sy_lock s" "sy_waiting s" by auto
    with Block step w show ?thesis
      by (auto simp: suspend_begin_def intro!: wake_move)
  next
    case (Switch w c)
    with step obtain handed where w: "sy_workers s w = Suspending handed"
      by (auto split: worker_pc.splits)
    with wake_okD [OF step(4), of w] have "handed" "sy_lock s" "sy_waiting s" "mt_suspended (sy_thread s)"
      by auto
    with Switch step w show ?thesis
      by (auto simp: suspend_switch_def intro!: wake_move)
  next
    case (Pick w)
    from step(4) show ?thesis
      by (rule wake_quiet)
        (use step(1) Pick in \<open>auto simp: move_def woken_def split: if_splits\<close>)
  next
    case Wake
    with step have s': "s' = s\<lparr>sy_waiting := False, sy_resuming := sy_resuming s + 1\<rparr>" "\<not> sy_lock s"
      by (auto split: if_splits)
    with lock_free [OF step(4) this(2)] show ?thesis by (simp add: wake_ok_def woken_def)
  next
    case Resume_thread
    with step have "s' = s\<lparr>sy_resuming := sy_resuming s - 1,
        sy_queued := sy_queued s + of_bool (mt_suspended (sy_thread s))\<rparr>"
      by (auto simp: resume_def split: if_splits)
    moreover have "pc_ok (s\<lparr>sy_resuming := i, sy_queued := j\<rparr>) pc = pc_ok s pc" for i j pc
      by (cases pc) auto
    ultimately show ?thesis using step(4) by (auto simp: wake_ok_def woken_def asleep_def)
  next
    case (Receive c)
    from step(4) show ?thesis
      by (rule wake_quiet)
        (use step(1) Receive in \<open>auto simp: setPendingCall_def woken_def split: if_splits call.splits\<close>)
  next
    case (Wait_plain w)
    with step show ?thesis by simp
  next
    case Post
    from step(4) show ?thesis
      by (rule wake_quiet)
        (use step(1) Post in \<open>auto simp: quiet_defs imp_defs woken_def split: if_splits\<close>)
  next
    case Impersonate
    from step(4) show ?thesis
      by (rule wake_quiet)
        (use step(1) Impersonate in \<open>auto simp: quiet_defs imp_defs woken_def split: if_splits\<close>)
  next
    case Impersonate_run
    from step(4) show ?thesis
      by (rule wake_quiet)
        (use step(1) Impersonate_run in \<open>auto simp: quiet_defs imp_defs woken_def split: if_splits\<close>)
  next
    case Impersonate_end
    from step(4) show ?thesis
      by (rule wake_quiet)
        (use step(1) Impersonate_end in \<open>auto simp: quiet_defs imp_defs woken_def split: if_splits\<close>)
  next
    case Release
    from step(4) show ?thesis
      by (rule wake_quiet)
        (use step(1) Release in \<open>auto simp: quiet_defs imp_defs woken_def split: if_splits\<close>)
  qed
qed

section \<open>Runs\<close>

definition mt_inv :: "bool \<Rightarrow> mt_sys \<Rightarrow> bool" where
  "mt_inv plain s \<longleftrightarrow> sole s \<and> release_ok s \<and> (\<not> plain \<longrightarrow> wake_ok s)"

lemma mt_start_inv: "mt_inv plain mt_start"
  by (simp add: mt_inv_def mt_start_def sole_def release_ok_def wake_ok_def asleep_def Thread_new_def)

interpretation mt_runs: inductive_invariant "\<lambda>s. s = mt_start" "mt_step plain" "mt_inv plain" for plain
proof
  show "mt_inv plain s" if "s = mt_start" for s using that mt_start_inv by simp
  show "mt_inv plain t" if "mt_step plain s t" "mt_inv plain s" for s t
    using that sole_step release_step wake_step unfolding mt_inv_def by blast
qed

text \<open>Executing a list of actions.\<close>

fun mt_run :: "bool \<Rightarrow> mt_action list \<Rightarrow> mt_sys \<Rightarrow> mt_sys option" where
  "mt_run plain [] s = Some s"
| "mt_run plain (a # as) s = (case mt_exec plain a s of None \<Rightarrow> None | Some s' \<Rightarrow> mt_run plain as s')"

lemma mt_run_reach:
  "mt_run plain as s = Some s' \<Longrightarrow> reach init (mt_step plain) s \<Longrightarrow> reach init (mt_step plain) s'"
proof (induction "as" arbitrary: s)
  case (Cons a "as")
  then obtain t where "mt_exec plain a s = Some t" "mt_run plain as t = Some s'"
    by (auto split: option.splits)
  with Cons show ?case by (blast intro: reach_next mt_step.intros)
qed simp

section \<open>Properties\<close>

text \<open>C3: Whatever the interleaving of workers, calls, wake-ups, impersonation and death: at most
  one worker is inside the code of a microthread, and none while it is impersonated; the flag that
  says it is running tells exactly that. The release of the duct-taped thread is scheduled at
  most once, and only for a dead thread that will not run again. What \<open>doWork\<close> and \<open>notifyDead\<close>
  call impossible does not occur: a dead thread without an active call that nobody is running
  has been marked as terminating.
\<close>

theorem microthread_runs_alone:
  assumes "reach (\<lambda>s. s = mt_start) (mt_step plain) s"
  shows "(holds_thread (sy_workers s v) \<and> holds_thread (sy_workers s w) \<longrightarrow> v = w)
    \<and> (holds_thread (sy_workers s v) \<longrightarrow> sy_imp s \<noteq> Imp_running)
    \<and> (mt_running (sy_thread s) \<longleftrightarrow> (\<exists>u. holds_thread (sy_workers s u)) \<or> sy_imp s = Imp_running)
    \<and> sy_total_releases s \<le> 1
    \<and> (0 < sy_total_releases s \<longrightarrow> mt_dead (sy_thread s) \<and> mt_terminating (sy_thread s))
    \<and> (mt_dead (sy_thread s) \<and> mt_activeCall (sy_thread s) = None \<and> \<not> mt_running (sy_thread s)
        \<longrightarrow> mt_terminating (sy_thread s))"
proof -
  have inv: "sole s" "release_ok s"
    using mt_runs.holds_when_reached [OF assms] by (simp_all add: mt_inv_def)
  have "no_holder s" if "\<not> mt_running (sy_thread s)"
    using inv(1) that by (auto simp: sole_def no_holder_def)
  with inv(2) have "mt_terminating (sy_thread s)"
    if "mt_dead (sy_thread s) \<and> mt_activeCall (sy_thread s) = None \<and> \<not> mt_running (sy_thread s)"
    using that by (auto simp: release_ok_def)
  with inv show ?thesis by (auto simp: sole_def release_ok_def)
qed

definition demo_call :: "mt_action list" where
  "demo_call = [Receive (Ordinary 1), Post, Pick 0, Enter 0, Dispatch 0, Activate 0]"

lemmas mt_eval = mt_start_def Thread_new_def setPendingCall_def move_def doWork_enter_def
  doWork_dispatch_def enter_interrupt_def makePendingCallActive_def finish_def doneWorking_def
  back_at_top_def suspend_begin_def suspend_switch_def thread_mark_wait_locked_def
  thread_block_waiting_def resume_def deactivateCall_def die_def notifyDead_def Let_def

theorem microthread_runs_alone_witness:
  "\<exists>s. mt_run False (demo_call @ [Receive (Interrupt_enter 2), Post, Pick 1, Enter 1]) mt_start = Some s
     \<and> sy_workers s 0 = In_thread \<and> \<not> holds_thread (sy_workers s 1)"
proof -
  obtain s where run: "mt_run False (demo_call @ [Receive (Interrupt_enter 2), Post, Pick 1, Enter 1]) mt_start = Some s"
    and w: "sy_workers s 0 = In_thread"
    by (simp add: demo_call_def mt_eval)
  have "reach (\<lambda>s. s = mt_start) (mt_step False) s"
    using run by (rule mt_run_reach) (simp add: reach_start)
  from microthread_runs_alone [OF this, of 0 1] run w show ?thesis by auto
qed

text \<open>C21: When every wait hands the lock of its wait queue to \<open>suspend\<close>, as the duct-taped mutexes
  and condition variables do, no wake-up is lost: a suspended thread that is not being run and
  is no longer on a wait queue is about to be resumed, or is in the work queue, or taken from it by
  a worker that is about to run it, or has a deferred run that the end of the impersonation will
  schedule.
\<close>

theorem handed_lock_keeps_wakeups:
  assumes "reach (\<lambda>s. s = mt_start) (mt_step False) s"
    and "mt_suspended (sy_thread s)" and "\<not> mt_terminating (sy_thread s)"
    and "\<not> (\<exists>w. holds_thread (sy_workers s w))" and "\<not> sy_waiting s"
  shows "0 < sy_resuming s \<or> 0 < sy_queued s \<or> (\<exists>w. sy_workers s w = Entered)
    \<or> (mt_deferralState (sy_thread s) = DeferredPending \<and> sy_imp s \<noteq> No_one)"
proof -
  have "wake_ok s" "sole s"
    using mt_runs.holds_when_reached [OF assms(1)] by (simp_all add: mt_inv_def)
  then show ?thesis
    using assms(2-) by (auto simp: wake_ok_def asleep_def no_holder_def woken_def sole_def)
qed

theorem handed_lock_keeps_wakeups_witness:
  "\<exists>s. mt_run False (demo_call @ [Wait_handing_lock 0, Block 0, Switch 0 False, Top 0, Wake]) mt_start
      = Some s \<and> 0 < sy_resuming s"
proof -
  obtain s where run: "mt_run False (demo_call @ [Wait_handing_lock 0, Block 0, Switch 0 False, Top 0, Wake])
      mt_start = Some s"
    and s: "mt_suspended (sy_thread s)" "\<not> mt_terminating (sy_thread s)" "\<not> sy_waiting s"
      "\<forall>w. sy_workers s w = Free" "sy_queued s = 0" "mt_deferralState (sy_thread s) = NotDeferred"
    by (simp add: demo_call_def mt_eval)
  have "reach (\<lambda>s. s = mt_start) (mt_step False) s"
    using run by (rule mt_run_reach) (simp add: reach_start)
  from handed_lock_keeps_wakeups [OF this s(1,2) _ s(3)] run s(4-) show ?thesis by simp
qed

text \<open>
  Three interleavings. In the first one the thread has marked itself as waiting but not suspended
  itself when the wake-up comes. In the second one the client sends its next call after the
  reply to the previous one, before the worker is back at the top. In the third one the thread
  is found dead in the same window.
\<close>

definition lost_wakeup :: "mt_action list" where
  "lost_wakeup = demo_call @ [Wait_plain 0, Wake, Resume_thread, Block 0, Switch 0 False, Top 0]"

definition lost_call :: "mt_action list" where
  "lost_call = demo_call @ [Reply 0 (Ordinary 1), Receive (Ordinary 2), Post, Pick 1, Enter 1, Return 0, Top 0]"

definition early_release :: "mt_action list" where
  "early_release = demo_call @ [Reply 0 (Ordinary 1), Die, Release, Return 0]"


end
