(* ===== verification/KernelAsync.thy ===== *)
theory KernelAsync
  imports Prelude
begin

text \<open>
  Running functions in kernel microthreads (\<open>Thread::kernelAsync\<close> and
  \<open>kernelAsyncRunnerThreadWorker\<close> in \<open>thread.cpp\<close>): a queue of functions, a semaphore that counts
  them, and runners that wait on the semaphore. A runner is made when none is available; the
  first ten stay for ever, the others end after one function. The sections under the lock of
  the queue are functions on the state, and the interleavings are sequences of actions.
\<close>

section \<open>State and operations\<close>

datatype 'f runner_pc =
    About_to_wait
  | Waiting_for_work
  | Got_semaphore
  | Interrupted_waiting
  | Running_function 'f
  | Ended

record 'f runner =
  ru_permanent :: bool
  ru_pc :: "'f runner_pc"

text \<open>
  \<open>ka_upping\<close> counts the callers that have queued a function and not raised the semaphore yet.
  The functions ever queued and the functions taken by runners are kept beside the state.
\<close>

record 'f kernel_async =
  kernelAsyncRunnerQueue :: "'f list"
  kernelAsyncRunnerQueueSempahore :: nat
  kernelAsyncRunnersAvailable :: nat
  permanentKernelAsyncRunners :: nat
  ka_runners :: "'f runner list"
  ka_upping :: nat
  ka_queued :: "'f list"
  ka_taken :: "'f list"

abbreviation MAX_PERMANENT_KERNEL_RUNNERS :: nat where "MAX_PERMANENT_KERNEL_RUNNERS \<equiv> 10"

definition ka_start :: "'f kernel_async" where
  "ka_start = \<lparr>kernelAsyncRunnerQueue = [], kernelAsyncRunnerQueueSempahore = 0,
     kernelAsyncRunnersAvailable = 0, permanentKernelAsyncRunners = 0, ka_runners = [],
     ka_upping = 0, ka_queued = [], ka_taken = []\<rparr>"

definition set_runner :: "nat \<Rightarrow> 'f runner_pc \<Rightarrow> 'f kernel_async \<Rightarrow> 'f kernel_async" where
  "set_runner i pc s = s\<lparr>ka_runners := (ka_runners s)[i := (ka_runners s ! i)\<lparr>ru_pc := pc\<rparr>]\<rparr>"

text \<open>The locked section of \<open>kernelAsync\<close>.\<close>

definition kernelAsync :: "'f \<Rightarrow> 'f kernel_async \<Rightarrow> 'f kernel_async" where
  "kernelAsync f s =
     (let s = s\<lparr>kernelAsyncRunnerQueue := kernelAsyncRunnerQueue s @ [f], ka_queued := ka_queued s @ [f],
                ka_upping := ka_upping s + 1\<rparr> in
      if kernelAsyncRunnersAvailable s = 0 then
        (let permanent = permanentKernelAsyncRunners s < MAX_PERMANENT_KERNEL_RUNNERS in
         s\<lparr>ka_runners := ka_runners s @ [\<lparr>ru_permanent = permanent, ru_pc = About_to_wait\<rparr>],
           permanentKernelAsyncRunners := permanentKernelAsyncRunners s + of_bool permanent\<rparr>)
      else s)"

definition kernelAsync_up :: "'f kernel_async \<Rightarrow> 'f kernel_async" where
  "kernelAsync_up s = s\<lparr>ka_upping := ka_upping s - 1,
     kernelAsyncRunnerQueueSempahore := kernelAsyncRunnerQueueSempahore s + 1\<rparr>"

text \<open>What a runner does after a turn: start again if it is permanent, end otherwise.\<close>

definition next_turn :: "nat \<Rightarrow> 'f kernel_async \<Rightarrow> 'f kernel_async" where
  "next_turn i s =
     set_runner i (if ru_permanent (ka_runners s ! i) then About_to_wait else Ended) s"

definition runner_available :: "nat \<Rightarrow> 'f kernel_async \<Rightarrow> 'f kernel_async" where
  "runner_available i s =
     set_runner i Waiting_for_work (s\<lparr>kernelAsyncRunnersAvailable := kernelAsyncRunnersAvailable s + 1\<rparr>)"

definition runner_interrupted :: "nat \<Rightarrow> 'f kernel_async \<Rightarrow> 'f kernel_async" where
  "runner_interrupted i s =
     next_turn i (s\<lparr>kernelAsyncRunnersAvailable := kernelAsyncRunnersAvailable s - 1\<rparr>)"

definition runner_take :: "nat \<Rightarrow> 'f kernel_async \<Rightarrow> 'f kernel_async" where
  "runner_take i s =
     (let s = s\<lparr>kernelAsyncRunnersAvailable := kernelAsyncRunnersAvailable s - 1\<rparr> in
      case kernelAsyncRunnerQueue s of
        [] \<Rightarrow> next_turn i s
      | f # fs \<Rightarrow> set_runner i (Running_function f)
                   (s\<lparr>kernelAsyncRunnerQueue := fs, ka_taken := ka_taken s @ [f]\<rparr>))"

datatype 'f ka_action =
    Async 'f
  | Up
  | Available nat
  | Down nat
  | Interrupt nat
  | Give_up nat
  | Take nat
  | Finish nat

fun ka_exec :: "'f ka_action \<Rightarrow> 'f kernel_async \<Rightarrow> 'f kernel_async option" where
  "ka_exec (Async f) s = Some (kernelAsync f s)"
| "ka_exec Up s = (if 0 < ka_upping s then Some (kernelAsync_up s) else None)"
| "ka_exec (Available i) s =
     (if i < length (ka_runners s) then
        (case ru_pc (ka_runners s ! i) of About_to_wait \<Rightarrow> Some (runner_available i s) | _ \<Rightarrow> None)
      else None)"
| "ka_exec (Down i) s =
     (if i < length (ka_runners s) \<and> 0 < kernelAsyncRunnerQueueSempahore s then
        (case ru_pc (ka_runners s ! i) of
           Waiting_for_work \<Rightarrow> Some (set_runner i Got_semaphore
             (s\<lparr>kernelAsyncRunnerQueueSempahore := kernelAsyncRunnerQueueSempahore s - 1\<rparr>))
         | _ \<Rightarrow> None)
      else None)"
| "ka_exec (Interrupt i) s =
     (if i < length (ka_runners s) then
        (case ru_pc (ka_runners s ! i) of
           Waiting_for_work \<Rightarrow> Some (set_runner i Interrupted_waiting s) | _ \<Rightarrow> None)
      else None)"
| "ka_exec (Give_up i) s =
     (if i < length (ka_runners s) then
        (case ru_pc (ka_runners s ! i) of
           Interrupted_waiting \<Rightarrow> Some (runner_interrupted i s) | _ \<Rightarrow> None)
      else None)"
| "ka_exec (Take i) s =
     (if i < length (ka_runners s) then
        (case ru_pc (ka_runners s ! i) of Got_semaphore \<Rightarrow> Some (runner_take i s) | _ \<Rightarrow> None)
      else None)"
| "ka_exec (Finish i) s =
     (if i < length (ka_runners s) then
        (case ru_pc (ka_runners s ! i) of Running_function f \<Rightarrow> Some (next_turn i s) | _ \<Rightarrow> None)
      else None)"

inductive ka_step :: "'f kernel_async \<Rightarrow> 'f kernel_async \<Rightarrow> bool" where
  step: "ka_exec a s = Some s' \<Longrightarrow> ka_step s s'"

section \<open>Accounting\<close>

fun counted :: "'f runner_pc \<Rightarrow> bool" where
  "counted Waiting_for_work = True"
| "counted Got_semaphore = True"
| "counted Interrupted_waiting = True"
| "counted _ = False"

definition got :: "'f runner \<Rightarrow> bool" where
  "got r \<longleftrightarrow> (case ru_pc r of Got_semaphore \<Rightarrow> True | _ \<Rightarrow> False)"

text \<open>
  The runners that count as available, those that hold a unit of the semaphore, and the order of
  the functions.
\<close>

definition ka_ok :: "'f kernel_async \<Rightarrow> bool" where
  "ka_ok s \<longleftrightarrow>
     kernelAsyncRunnersAvailable s = count_if (counted \<circ> ru_pc) (ka_runners s) \<and>
     length (kernelAsyncRunnerQueue s) =
       kernelAsyncRunnerQueueSempahore s + ka_upping s + count_if got (ka_runners s) \<and>
     ka_taken s @ kernelAsyncRunnerQueue s = ka_queued s \<and>
     permanentKernelAsyncRunners s = count_if ru_permanent (ka_runners s) \<and>
     (\<forall>r \<in> set (ka_runners s). ru_permanent r \<longrightarrow> ru_pc r \<noteq> Ended) \<and>
     (ka_queued s \<noteq> [] \<longrightarrow> ka_runners s \<noteq> []) \<and>
     (ka_runners s \<noteq> [] \<longrightarrow> 0 < permanentKernelAsyncRunners s)"

lemma set_runner_simps [simp]:
  "kernelAsyncRunnerQueue (set_runner i pc s) = kernelAsyncRunnerQueue s"
  "kernelAsyncRunnerQueueSempahore (set_runner i pc s) = kernelAsyncRunnerQueueSempahore s"
  "kernelAsyncRunnersAvailable (set_runner i pc s) = kernelAsyncRunnersAvailable s"
  "permanentKernelAsyncRunners (set_runner i pc s) = permanentKernelAsyncRunners s"
  "ka_upping (set_runner i pc s) = ka_upping s" "ka_queued (set_runner i pc s) = ka_queued s"
  "ka_taken (set_runner i pc s) = ka_taken s"
  by (simp_all add: set_runner_def)

lemma set_runner_counts:
  assumes "i < length (ka_runners s)"
  shows "count_if (counted \<circ> ru_pc) (ka_runners (set_runner i pc s)) + of_bool (counted (ru_pc (ka_runners s ! i)))
      = count_if (counted \<circ> ru_pc) (ka_runners s) + of_bool (counted pc)"
    and "count_if got (ka_runners (set_runner i pc s)) + of_bool (ru_pc (ka_runners s ! i) = Got_semaphore)
      = count_if got (ka_runners s) + of_bool (pc = Got_semaphore)"
    and "count_if ru_permanent (ka_runners (set_runner i pc s)) = count_if ru_permanent (ka_runners s)"
proof -
  let ?r = "ka_runners s ! i" and ?rs = "ka_runners s"
  have g: "got r \<longleftrightarrow> ru_pc r = Got_semaphore" for r :: "'a runner"
    by (auto simp: got_def split: runner_pc.splits)
  show "count_if (counted \<circ> ru_pc) (ka_runners (set_runner i pc s)) + of_bool (counted (ru_pc ?r))
      = count_if (counted \<circ> ru_pc) ?rs + of_bool (counted pc)"
    using count_if_update [OF assms, of "counted \<circ> ru_pc" "?r\<lparr>ru_pc := pc\<rparr>"] by (simp add: set_runner_def)
  show "count_if got (ka_runners (set_runner i pc s)) + of_bool (ru_pc ?r = Got_semaphore)
      = count_if got ?rs + of_bool (pc = Got_semaphore)"
    using count_if_update [OF assms, of got "?r\<lparr>ru_pc := pc\<rparr>"] by (simp add: set_runner_def g)
  show "count_if ru_permanent (ka_runners (set_runner i pc s)) = count_if ru_permanent ?rs"
    using count_if_update [OF assms, of ru_permanent "?r\<lparr>ru_pc := pc\<rparr>"] by (simp add: set_runner_def)
qed

lemma set_runner_alive:
  assumes "\<forall>r \<in> set (ka_runners s). ru_permanent r \<longrightarrow> ru_pc r \<noteq> Ended" "i < length (ka_runners s)"
    "ru_permanent (ka_runners s ! i) \<longrightarrow> pc \<noteq> Ended"
  shows "\<forall>r \<in> set (ka_runners (set_runner i pc s)). ru_permanent r \<longrightarrow> ru_pc r \<noteq> Ended"
  using assms by (auto simp: set_runner_def dest!: set_update_subset_insert [THEN subsetD])

text \<open>A runner's move from one point to another, with what it does to the counters.\<close>

lemma set_runner_ok:
  assumes "ka_ok s" "i < length (ka_runners s)" "ka_runners t = ka_runners s"
    "ru_permanent (ka_runners s ! i) \<longrightarrow> pc \<noteq> Ended"
    "kernelAsyncRunnersAvailable t + of_bool (counted (ru_pc (ka_runners s ! i)))
      = kernelAsyncRunnersAvailable s + of_bool (counted pc)"
    "length (kernelAsyncRunnerQueue t) + kernelAsyncRunnerQueueSempahore s
        + of_bool (ru_pc (ka_runners s ! i) = Got_semaphore)
      = length (kernelAsyncRunnerQueue s) + kernelAsyncRunnerQueueSempahore t + of_bool (pc = Got_semaphore)"
    "ka_upping t = ka_upping s" "ka_taken t @ kernelAsyncRunnerQueue t = ka_queued s"
    "ka_queued t = ka_queued s" "permanentKernelAsyncRunners t = permanentKernelAsyncRunners s"
  shows "ka_ok (set_runner i pc t)"
proof -
  have i: "i < length (ka_runners t)" using assms by simp
  note counts = set_runner_counts [OF i, of pc]
  have "\<forall>r \<in> set (ka_runners (set_runner i pc t)). ru_permanent r \<longrightarrow> ru_pc r \<noteq> Ended"
    using assms by (intro set_runner_alive [OF _ i]) (simp_all add: ka_ok_def)
  then show ?thesis
    using assms counts unfolding ka_ok_def by (auto simp: set_runner_def)
qed

lemma ka_step_ok: "ka_step s s' \<Longrightarrow> ka_ok s \<Longrightarrow> ka_ok s'"
proof (induction rule: ka_step.induct)
  case (step a s s')
  have pos: "0 < kernelAsyncRunnersAvailable s"
    if "i < length (ka_runners s)" "counted (ru_pc (ka_runners s ! i))" for i
    using step(2) count_if_nth_pos [of i "ka_runners s" "counted \<circ> ru_pc"] that by (simp add: ka_ok_def)
  show ?case
  proof (cases a)
    case (Async f)
    show ?thesis
    proof (cases "kernelAsyncRunnersAvailable s = 0")
      case True
      with Async step show ?thesis
        by (cases "ka_runners s = []") (auto simp: kernelAsync_def Let_def ka_ok_def got_def)
    next
      case False
      with Async step show ?thesis
        by (cases "ka_runners s = []") (auto simp: kernelAsync_def Let_def ka_ok_def)
    qed
  next
    case Up
    with step show ?thesis by (auto simp: kernelAsync_up_def ka_ok_def split: if_splits)
  next
    case (Available i)
    with step have i: "i < length (ka_runners s)" "ru_pc (ka_runners s ! i) = About_to_wait"
      "s' = runner_available i s"
      by (auto split: if_splits runner_pc.splits)
    show ?thesis unfolding i(3) runner_available_def
      by (rule set_runner_ok [OF step(2) i(1)]) (use step(2) i(2) in \<open>auto simp: ka_ok_def\<close>)
  next
    case (Down i)
    with step have i: "i < length (ka_runners s)" "ru_pc (ka_runners s ! i) = Waiting_for_work"
      "0 < kernelAsyncRunnerQueueSempahore s" "s' = set_runner i Got_semaphore
             (s\<lparr>kernelAsyncRunnerQueueSempahore := kernelAsyncRunnerQueueSempahore s - 1\<rparr>)"
      by (auto split: if_splits runner_pc.splits)
    show ?thesis unfolding i(4)
      by (rule set_runner_ok [OF step(2) i(1)]) (use step(2) i(2,3) in \<open>auto simp: ka_ok_def\<close>)
  next
    case (Interrupt i)
    with step have i: "i < length (ka_runners s)" "ru_pc (ka_runners s ! i) = Waiting_for_work"
      "s' = set_runner i Interrupted_waiting s"
      by (auto split: if_splits runner_pc.splits)
    show ?thesis unfolding i(3)
      by (rule set_runner_ok [OF step(2) i(1)]) (use step(2) i(2) in \<open>auto simp: ka_ok_def\<close>)
  next
    case (Give_up i)
    with step have i: "i < length (ka_runners s)" "ru_pc (ka_runners s ! i) = Interrupted_waiting"
      "s' = runner_interrupted i s"
      by (auto split: if_splits runner_pc.splits)
    show ?thesis unfolding i(3) runner_interrupted_def next_turn_def
      by (rule set_runner_ok [OF step(2) i(1)])
        (use step(2) i(1,2) pos [of i] in \<open>auto simp: ka_ok_def\<close>)
  next
    case (Take i)
    with step have i: "i < length (ka_runners s)" "ru_pc (ka_runners s ! i) = Got_semaphore"
      "s' = runner_take i s"
      by (auto split: if_splits runner_pc.splits)
    have "0 < count_if got (ka_runners s)"
      using count_if_nth_pos [OF i(1), of got] i(2) by (simp add: got_def)
    with step(2) obtain f fs where q: "kernelAsyncRunnerQueue s = f # fs"
      by (cases "kernelAsyncRunnerQueue s") (auto simp: ka_ok_def)
    have s': "s' = set_runner i (Running_function f)
        (s\<lparr>kernelAsyncRunnersAvailable := kernelAsyncRunnersAvailable s - 1,
           kernelAsyncRunnerQueue := fs, ka_taken := ka_taken s @ [f]\<rparr>)"
      by (simp add: i(3) runner_take_def q)
    show ?thesis unfolding s'
      by (rule set_runner_ok [OF step(2) i(1)])
        (use step(2) i(1,2) q pos [of i] in \<open>auto simp: ka_ok_def\<close>)
  next
    case (Finish i)
    with step obtain f where i: "i < length (ka_runners s)" "ru_pc (ka_runners s ! i) = Running_function f"
      "s' = next_turn i s"
      by (auto split: if_splits runner_pc.splits)
    show ?thesis unfolding i(3) next_turn_def
      by (rule set_runner_ok [OF step(2) i(1)]) (use step(2) i(2) in \<open>auto simp: ka_ok_def\<close>)
  qed
qed

interpretation ka_runs: inductive_invariant "\<lambda>s. s = ka_start" ka_step ka_ok
  by unfold_locales (simp add: ka_ok_def ka_start_def, rule ka_step_ok)

section \<open>Properties\<close>

fun ka_run :: "'f ka_action list \<Rightarrow> 'f kernel_async \<Rightarrow> 'f kernel_async option" where
  "ka_run [] s = Some s"
| "ka_run (a # as) s = (case ka_exec a s of None \<Rightarrow> None | Some s' \<Rightarrow> ka_run as s')"

lemma ka_run_reach:
  "ka_run as s = Some s' \<Longrightarrow> reach init ka_step s \<Longrightarrow> reach init ka_step s'"
proof (induction "as" arbitrary: s)
  case (Cons a "as")
  then obtain t where "ka_exec a s = Some t" "ka_run as t = Some s'"
    by (auto split: option.splits)
  with Cons show ?case by (blast intro: reach_next ka_step.intros)
qed simp

text \<open>C23: Whatever the interleaving of callers and runners, and whichever waits are interrupted:
  the functions taken by runners are the functions handed over, each once and in order, and the
  rest is still queued. Every queued function has its unit of the semaphore, on its way or
  raised, or taken by a runner that is about to take a function, so a runner that got the
  semaphore always finds one. The count of available runners is exact, and once a function
  was handed over there is a runner that never ends.
\<close>

theorem kernel_async_conserves_functions:
  assumes "reach (\<lambda>s. s = ka_start) ka_step s"
  shows "ka_taken s @ kernelAsyncRunnerQueue s = ka_queued s
    \<and> length (kernelAsyncRunnerQueue s) = kernelAsyncRunnerQueueSempahore s + ka_upping s
        + length (filter (\<lambda>r. ru_pc r = Got_semaphore) (ka_runners s))
    \<and> kernelAsyncRunnersAvailable s = length (filter (\<lambda>r. counted (ru_pc r)) (ka_runners s))
    \<and> (ka_queued s \<noteq> [] \<longrightarrow> (\<exists>r \<in> set (ka_runners s). ru_permanent r \<and> ru_pc r \<noteq> Ended))"
proof -
  have ok: "ka_ok s" using assms by (rule ka_runs.holds_when_reached)
  have g: "got = (\<lambda>r :: 'a runner. ru_pc r = Got_semaphore)"
    by (auto simp: got_def split: runner_pc.splits)
  have "\<exists>r \<in> set (ka_runners s). ru_permanent r \<and> ru_pc r \<noteq> Ended" if "ka_queued s \<noteq> []"
    using ok that count_if_pos_iff [of ru_permanent "ka_runners s"] by (auto simp: ka_ok_def)
  with ok g show ?thesis by (simp add: ka_ok_def count_if_def comp_def)
qed

theorem kernel_async_conserves_functions_witness:
  "\<exists>s. ka_run [Async ''a'', Up, Available 0, Async ''b'', Down 0, Up, Take 0] ka_start = Some s
     \<and> ka_taken s @ kernelAsyncRunnerQueue s = [''a'', ''b''] \<and> ka_taken s = [''a'']"
proof -
  obtain s where run: "ka_run [Async ''a'', Up, Available 0, Async ''b'', Down 0, Up, Take 0] ka_start = Some s"
    and s: "ka_queued s = [''a'', ''b'']" "ka_taken s = [''a'']"
    by (simp add: ka_start_def kernelAsync_def kernelAsync_up_def runner_available_def runner_take_def
        set_runner_def)
  have "reach (\<lambda>s. s = ka_start) ka_step s"
    using run by (rule ka_run_reach) (simp add: reach_start)
  from kernel_async_conserves_functions [OF this] run s show ?thesis by auto
qed

text \<open>
  Ten permanent runners that are busy, and a temporary one that is counted as available for two
  functions.
\<close>

definition busy_runners :: "nat ka_action list" where
  "busy_runners = concat (map (\<lambda>i. [Async i, Up, Available i, Down i, Take i]) [0..<10])"

definition stranding :: "nat ka_action list" where
  "stranding = busy_runners @ [Async 10, Up, Available 10, Async 11, Up, Down 10, Take 10, Finish 10]"

text \<open>A function can be left without a runner while the permanent runners are busy, although
  \<open>kernelAsync\<close> makes a runner when none is available: a temporary runner counts as available
  until it takes its one function. In this run the second of two functions finds it available,
  and afterwards no runner waits and none was made for it.
\<close>

lemma temporary_runner_strands_function:
  "\<exists>s. ka_run stranding ka_start = Some s \<and> kernelAsyncRunnerQueue s = [11] \<and> ka_upping s = 0
     \<and> kernelAsyncRunnersAvailable s = 0 \<and> kernelAsyncRunnerQueueSempahore s = 1
     \<and> map ru_pc (ka_runners s) = map Running_function [0..<10] @ [Ended]"
  by (simp add: stranding_def busy_runners_def upt_rec ka_start_def kernelAsync_def kernelAsync_up_def
      runner_available_def runner_take_def set_runner_def next_turn_def)

end
