(* ===== verification/ProcessLife.thy ===== *)
theory ProcessLife
  imports Prelude
begin

text \<open>
  The life of processes and threads (\<open>process.cpp\<close>, and the constructors, the destructor and the
  death of a thread in \<open>thread.cpp\<close>): a process is made with its first call, is replaced by an
  exec, tells its listeners what happens to it, and dies together with its threads. Each process
  and thread owns duct-taped objects (a task or thread and semaphores), which are released in
  kernel microthreads later; the model keeps account of them.
\<close>

section \<open>Objects\<close>

record thread_obj =
  th_nsid :: int
  th_process :: "ptr option"
  th_dead :: bool
  th_activeCall :: bool
  th_dtapeThread :: "nat option"
  th_s2cSemaphores :: "nat list"

record process_obj =
  px_pid :: int
  px_nspid :: int
  px_threads :: "(int \<times> ptr) list"
  px_parentProcess :: "ptr option"
  px_architecture :: nat
  px_pendingReplacement :: bool
  px_dead :: bool
  px_kqchannels :: "ptr list"
  px_listeningKqchannels :: "ptr list"
  px_dtapeTask :: "nat option"
  px_dtapeForkWaitSemaphore :: "nat option"
  px_groups :: "u32 list"
  px_cachedVchrootPath :: string
  px_startSuspended :: bool
  px_tracerProcess :: "ptr option"
  px_executablePath :: string

text \<open>What was scheduled to run in a kernel microthread.\<close>

datatype async_release = Release_thread ptr | Release_task ptr

text \<open>
  All objects: the processes and threads by address, the channels that exist, the duct-taped
  tasks, threads and semaphores that exist, with the ups made on each semaphore, the
  scheduled releases, the processes and threads in the registries, and the notifications sent
  to channels.
\<close>

record life =
  lf_procs :: "(ptr \<times> process_obj) list"
  lf_threads :: "(ptr \<times> thread_obj) list"
  lf_channels :: "ptr list"
  lf_next :: nat
  lf_tasks :: "nat list"
  lf_dthreads :: "nat list"
  lf_sems :: "nat list"
  lf_ups :: "nat list"
  lf_async :: "async_release list"
  lf_processRegistry :: "ptr list"
  lf_threadRegistry :: "ptr list"
  lf_events :: "(ptr \<times> u32 \<times> int) list"

definition put_proc :: "ptr \<Rightarrow> process_obj \<Rightarrow> life \<Rightarrow> life" where
  "put_proc p x w = w\<lparr>lf_procs := AList.update p x (lf_procs w)\<rparr>"

definition put_thread :: "ptr \<Rightarrow> thread_obj \<Rightarrow> life \<Rightarrow> life" where
  "put_thread t x w = w\<lparr>lf_threads := AList.update t x (lf_threads w)\<rparr>"

section \<open>Duct-taped objects\<close>

definition task_create :: "life \<Rightarrow> nat \<times> life" where
  "task_create w = (lf_next w, w\<lparr>lf_next := lf_next w + 1, lf_tasks := lf_next w # lf_tasks w\<rparr>)"

definition thread_create :: "life \<Rightarrow> nat \<times> life" where
  "thread_create w = (lf_next w, w\<lparr>lf_next := lf_next w + 1, lf_dthreads := lf_next w # lf_dthreads w\<rparr>)"

definition semaphore_create :: "life \<Rightarrow> nat \<times> life" where
  "semaphore_create w = (lf_next w, w\<lparr>lf_next := lf_next w + 1, lf_sems := lf_next w # lf_sems w\<rparr>)"

text \<open>Destroying an object that does not exist is undefined.\<close>

definition task_release :: "nat option \<Rightarrow> life \<Rightarrow> life result" where
  "task_release n w =
     (case n of
        None \<Rightarrow> Inl (Undefined_behaviour ''task'')
      | Some k \<Rightarrow> if k \<in> set (lf_tasks w) then Inr (w\<lparr>lf_tasks := remove1 k (lf_tasks w)\<rparr>)
                  else Inl (Undefined_behaviour ''task''))"

definition thread_release :: "nat option \<Rightarrow> life \<Rightarrow> life result" where
  "thread_release n w =
     (case n of
        None \<Rightarrow> Inl (Undefined_behaviour ''thread'')
      | Some k \<Rightarrow> if k \<in> set (lf_dthreads w) then Inr (w\<lparr>lf_dthreads := remove1 k (lf_dthreads w)\<rparr>)
                  else Inl (Undefined_behaviour ''thread''))"

definition semaphore_destroy :: "nat option \<Rightarrow> life \<Rightarrow> life result" where
  "semaphore_destroy n w =
     (case n of
        None \<Rightarrow> Inl (Undefined_behaviour ''semaphore'')
      | Some k \<Rightarrow> if k \<in> set (lf_sems w) then Inr (w\<lparr>lf_sems := remove1 k (lf_sems w)\<rparr>)
                  else Inl (Undefined_behaviour ''semaphore''))"

fun semaphores_destroy :: "nat list \<Rightarrow> life \<Rightarrow> life result" where
  "semaphores_destroy [] w = Inr w"
| "semaphores_destroy (k # ks) w =
     (case semaphore_destroy (Some k) w of Inl e \<Rightarrow> Inl e | Inr w \<Rightarrow> semaphores_destroy ks w)"

primrec semaphores_create :: "nat \<Rightarrow> life \<Rightarrow> nat list \<times> life" where
  "semaphores_create 0 w = ([], w)"
| "semaphores_create (Suc n) w =
     (let (k, w) = semaphore_create w; (ks, w) = semaphores_create n w in (k # ks, w))"

definition semaphore_up :: "nat option \<Rightarrow> life \<Rightarrow> life result" where
  "semaphore_up n w =
     (case n of
        None \<Rightarrow> Inl (Undefined_behaviour ''semaphore'')
      | Some k \<Rightarrow> Inr (w\<lparr>lf_ups := lf_ups w @ [k]\<rparr>))"

section \<open>Threads\<close>

text \<open>The constructor for a thread of a process, and for a kernel thread; the latter has no
  semaphores for calls to the client.\<close>

definition Thread_ctor :: "ptr \<Rightarrow> int \<Rightarrow> ptr \<Rightarrow> life \<Rightarrow> life" where
  "Thread_ctor t nsid p w =
     (let (d, w) = thread_create w; (ks, w) = semaphores_create 4 w in
      put_thread t \<lparr>th_nsid = nsid, th_process = Some p, th_dead = False, th_activeCall = False,
        th_dtapeThread = Some d, th_s2cSemaphores = ks\<rparr> w)"

definition kernel_Thread_ctor :: "ptr \<Rightarrow> int \<Rightarrow> ptr \<Rightarrow> life \<Rightarrow> life" where
  "kernel_Thread_ctor t nsid kp w =
     (let (d, w) = thread_create w in
      put_thread t \<lparr>th_nsid = nsid, th_process = Some kp, th_dead = False, th_activeCall = False,
        th_dtapeThread = Some d, th_s2cSemaphores = []\<rparr> w)"

definition registerWithProcess :: "ptr \<Rightarrow> life \<Rightarrow> life" where
  "registerWithProcess t w =
     (case map_of (lf_threads w) t of
        None \<Rightarrow> w
      | Some th \<Rightarrow>
          (case th_process th of
             None \<Rightarrow> w
           | Some p \<Rightarrow>
               (case map_of (lf_procs w) p of
                  None \<Rightarrow> w
                | Some x \<Rightarrow> put_proc p (x\<lparr>px_threads := AList.update (th_nsid th) t (px_threads x)\<rparr>) w)))"

text \<open>\<open>Thread::notifyDead\<close>: without an active call the release is scheduled now, otherwise when the
  call is over.\<close>

definition Thread_notifyDead :: "ptr \<Rightarrow> life \<Rightarrow> life" where
  "Thread_notifyDead t w =
     (case map_of (lf_threads w) t of
        None \<Rightarrow> w
      | Some th \<Rightarrow>
          if th_dead th then w
          else (let w = put_thread t (th\<lparr>th_dead := True\<rparr>) w;
                    w = (if th_activeCall th then w else w\<lparr>lf_async := lf_async w @ [Release_thread t]\<rparr>) in
                w\<lparr>lf_threadRegistry := removeAll t (lf_threadRegistry w)\<rparr>))"

text \<open>The end of the active call of a dead thread, at the end of \<open>doWork\<close>.\<close>

definition Thread_call_begins :: "ptr \<Rightarrow> life \<Rightarrow> life" where
  "Thread_call_begins t w =
     (case map_of (lf_threads w) t of
        None \<Rightarrow> w
      | Some th \<Rightarrow> if th_dead th then w else put_thread t (th\<lparr>th_activeCall := True\<rparr>) w)"

definition Thread_call_ends :: "ptr \<Rightarrow> life \<Rightarrow> life" where
  "Thread_call_ends t w =
     (case map_of (lf_threads w) t of
        None \<Rightarrow> w
      | Some th \<Rightarrow>
          if \<not> th_activeCall th then w
          else (let w = put_thread t (th\<lparr>th_activeCall := False\<rparr>) w in
                if th_dead th then w\<lparr>lf_async := lf_async w @ [Release_thread t]\<rparr> else w))"

text \<open>The function that \<open>_scheduleRelease\<close> schedules.\<close>

definition release_thread :: "ptr \<Rightarrow> life \<Rightarrow> life result" where
  "release_thread t w =
     (case map_of (lf_threads w) t of
        None \<Rightarrow> Inr w
      | Some th \<Rightarrow>
          (case semaphores_destroy (th_s2cSemaphores th) w of
             Inl e \<Rightarrow> Inl e
           | Inr w \<Rightarrow>
               (case thread_release (th_dtapeThread th) w of
                  Inl e \<Rightarrow> Inl e
                | Inr w \<Rightarrow> Inr (put_thread t (th\<lparr>th_s2cSemaphores := [], th_dtapeThread := None\<rparr>) w))))"

section \<open>Processes\<close>

text \<open>
  The constructor. The parent is what the registry holds under the parent ID in the status
  file, if anything; the vchroot and the groups are inherited.
\<close>

definition Process_ctor :: "ptr \<Rightarrow> int \<Rightarrow> int \<Rightarrow> nat \<Rightarrow> ptr option \<Rightarrow> life \<Rightarrow> life" where
  "Process_ctor p pid nsid arch parent w =
     (let par = (case parent of None \<Rightarrow> None | Some q \<Rightarrow> map_of (lf_procs w) q);
          (task, w) = task_create w; (sem, w) = semaphore_create w in
      put_proc p \<lparr>px_pid = pid, px_nspid = nsid, px_threads = [], px_parentProcess = parent,
        px_architecture = arch, px_pendingReplacement = False, px_dead = False, px_kqchannels = [],
        px_listeningKqchannels = [], px_dtapeTask = Some task, px_dtapeForkWaitSemaphore = Some sem,
        px_groups = (case par of None \<Rightarrow> [] | Some x \<Rightarrow> px_groups x),
        px_cachedVchrootPath = (case par of None \<Rightarrow> [] | Some x \<Rightarrow> px_cachedVchrootPath x),
        px_startSuspended = False, px_tracerProcess = None, px_executablePath = []\<rparr> w)"

definition setPendingReplacement :: "process_obj \<Rightarrow> process_obj" where
  "setPendingReplacement x = x\<lparr>px_pendingReplacement := True\<rparr>"

definition registerKqchan :: "ptr \<Rightarrow> process_obj \<Rightarrow> process_obj" where
  "registerKqchan c x = x\<lparr>px_kqchannels := List.insert c (px_kqchannels x)\<rparr>"

definition unregisterKqchan :: "ptr \<Rightarrow> process_obj \<Rightarrow> process_obj" where
  "unregisterKqchan c x = x\<lparr>px_kqchannels := removeAll c (px_kqchannels x)\<rparr>"

definition registerListeningKqchan :: "ptr \<Rightarrow> process_obj \<Rightarrow> process_obj" where
  "registerListeningKqchan c x = x\<lparr>px_listeningKqchannels := List.insert c (px_listeningKqchannels x)\<rparr>"

definition unregisterListeningKqchan :: "ptr \<Rightarrow> process_obj \<Rightarrow> process_obj" where
  "unregisterListeningKqchan c x = x\<lparr>px_listeningKqchannels := removeAll c (px_listeningKqchannels x)\<rparr>"

text \<open>The listeners that still exist are notified.\<close>

definition notifyListeningKqchannels :: "u32 \<Rightarrow> int \<Rightarrow> ptr \<Rightarrow> life \<Rightarrow> life" where
  "notifyListeningKqchannels ev dat p w =
     (case map_of (lf_procs w) p of
        None \<Rightarrow> w
      | Some x \<Rightarrow>
          w\<lparr>lf_events := lf_events w @
              map (\<lambda>c. (c, ev, dat)) (filter (\<lambda>c. c \<in> set (lf_channels w)) (px_listeningKqchannels x))\<rparr>)"

text \<open>The loop of \<open>notifyCheckin\<close> that takes all threads but the main one out of the process.\<close>

fun clear_threads :: "int \<Rightarrow> (int \<times> ptr) list \<Rightarrow> ptr option \<Rightarrow> life \<Rightarrow> ptr option \<times> life" where
  "clear_threads nspid [] main w = (main, w)"
| "clear_threads nspid ((_, t) # ts) main w =
     (case map_of (lf_threads w) t of
        None \<Rightarrow> clear_threads nspid ts main w
      | Some th \<Rightarrow>
          if th_nsid th = nspid then clear_threads nspid ts (Some t) w
          else clear_threads nspid ts main
                 (Thread_notifyDead t (put_thread t (th\<lparr>th_process := None\<rparr>) w)))"

text \<open>
  The exec case: a new task and a new duct-taped main thread take the place of the old ones, which
  are released with their semaphores.
\<close>

definition replace_task :: "nat \<Rightarrow> ptr \<Rightarrow> ptr \<Rightarrow> life \<Rightarrow> life result" where
  "replace_task arch p main w =
     (case (map_of (lf_procs w) p, map_of (lf_threads w) main) of
        (Some x, Some th) \<Rightarrow>
          (let (task, w) = task_create w; (d, w) = thread_create w in
           case semaphores_destroy (th_s2cSemaphores th) w of Inl e \<Rightarrow> Inl e | Inr w \<Rightarrow>
           case semaphore_destroy (px_dtapeForkWaitSemaphore x) w of Inl e \<Rightarrow> Inl e | Inr w \<Rightarrow>
           case thread_release (th_dtapeThread th) w of Inl e \<Rightarrow> Inl e | Inr w \<Rightarrow>
           case task_release (px_dtapeTask x) w of Inl e \<Rightarrow> Inl e | Inr w \<Rightarrow>
             (let (sem, w) = semaphore_create w; (ks, w) = semaphores_create 4 w;
                  w = put_thread main (th\<lparr>th_dtapeThread := Some d, th_s2cSemaphores := ks\<rparr>) w in
              Inr (put_proc p (x\<lparr>px_architecture := arch, px_dtapeTask := Some task,
                     px_dtapeForkWaitSemaphore := Some sem,
                     px_threads := [(th_nsid th, main)]\<rparr>) w)))
      | _ \<Rightarrow> Inl (Undefined_behaviour ''process''))"

definition notifyCheckin :: "nat \<Rightarrow> ptr \<Rightarrow> life \<Rightarrow> life result" where
  "notifyCheckin arch p w =
     (case map_of (lf_procs w) p of
        None \<Rightarrow> Inl (Undefined_behaviour ''process'')
      | Some x \<Rightarrow>
          if px_pendingReplacement x then
            (case clear_threads (px_nspid x) (px_threads x) None w of
               (None, _) \<Rightarrow> Inl (Runtime_error ''Main thread for process died?'')
             | (Some main, w) \<Rightarrow>
                 (case replace_task arch p main w of
                    Inl e \<Rightarrow> Inl e
                  | Inr w \<Rightarrow>
                      (case map_of (lf_procs w) p of
                         None \<Rightarrow> Inr w
                       | Some x \<Rightarrow> Inr (notifyListeningKqchannels NOTE_EXEC 0 p
                                        (put_proc p (x\<lparr>px_pendingReplacement := False\<rparr>) w)))))
          else if arch \<noteq> px_architecture x
          then Inl (Runtime_error ''Impossible: parent process architecture != child process architecture on fork'')
          else (case px_parentProcess x of
                  None \<Rightarrow> Inr w
                | Some q \<Rightarrow>
                    (case map_of (lf_procs w) q of
                       None \<Rightarrow> Inr w
                     | Some y \<Rightarrow>
                         (case semaphore_up (px_dtapeForkWaitSemaphore y) w of
                            Inl e \<Rightarrow> Inl e
                          | Inr w \<Rightarrow> Inr (notifyListeningKqchannels NOTE_FORK (px_nspid x) q w)))))"

fun threads_notifyDead :: "(int \<times> ptr) list \<Rightarrow> life \<Rightarrow> life" where
  "threads_notifyDead [] w = w"
| "threads_notifyDead ((_, t) # ts) w = threads_notifyDead ts (Thread_notifyDead t w)"

definition Process_notifyDead :: "ptr \<Rightarrow> life \<Rightarrow> life" where
  "Process_notifyDead p w =
     (case map_of (lf_procs w) p of
        None \<Rightarrow> w
      | Some x \<Rightarrow>
          if px_dead x then w
          else (let w = put_proc p (x\<lparr>px_dead := True, px_kqchannels := []\<rparr>) w;
                    w = notifyListeningKqchannels NOTE_EXIT 0 p w;
                    w = threads_notifyDead (px_threads x) w;
                    w = w\<lparr>lf_async := lf_async w @ [Release_task p]\<rparr> in
                w\<lparr>lf_processRegistry := removeAll p (lf_processRegistry w)\<rparr>))"

text \<open>The function that \<open>Process::notifyDead\<close> schedules.\<close>

definition release_task :: "ptr \<Rightarrow> life \<Rightarrow> life result" where
  "release_task p w =
     (case map_of (lf_procs w) p of
        None \<Rightarrow> Inr w
      | Some x \<Rightarrow>
          (case (case px_dtapeForkWaitSemaphore x of None \<Rightarrow> Inr w | s \<Rightarrow> semaphore_destroy s w) of
             Inl e \<Rightarrow> Inl e
           | Inr w \<Rightarrow>
               (case task_release (px_dtapeTask x) w of
                  Inl e \<Rightarrow> Inl e
                | Inr w \<Rightarrow> Inr (put_proc p (x\<lparr>px_dtapeForkWaitSemaphore := None, px_dtapeTask := None\<rparr>) w))))"

definition run_async :: "life \<Rightarrow> life result" where
  "run_async w =
     (case lf_async w of
        [] \<Rightarrow> Inr w
      | a # as \<Rightarrow>
          (let w = w\<lparr>lf_async := as\<rparr> in
           case a of Release_thread t \<Rightarrow> release_thread t w | Release_task p \<Rightarrow> release_task p w))"

text \<open>
  The destructor of a thread takes it out of its process; the process has died when its last
  thread is gone.
\<close>

definition Thread_dtor :: "ptr \<Rightarrow> life \<Rightarrow> life result" where
  "Thread_dtor t w =
     (case map_of (lf_threads w) t of
        None \<Rightarrow> Inl (Undefined_behaviour ''thread'')
      | Some th \<Rightarrow>
          (let w = w\<lparr>lf_threads := AList.delete t (lf_threads w)\<rparr> in
           case th_process th of
             None \<Rightarrow> Inr w
           | Some p \<Rightarrow>
               (case map_of (lf_procs w) p of
                  None \<Rightarrow> Inl (Undefined_behaviour ''process'')
                | Some x \<Rightarrow>
                    if map_of (px_threads x) (th_nsid th) = None
                    then Inl (Runtime_error ''Thread was not registered with Process'')
                    else (let ts = AList.delete (th_nsid th) (px_threads x);
                              w = put_proc p (x\<lparr>px_threads := ts\<rparr>) w in
                          Inr (if ts = [] then Process_notifyDead p w else w)))))"

section \<open>Runs\<close>

definition life_start :: "life \<Rightarrow> bool" where
  "life_start w \<longleftrightarrow> lf_procs w = [] \<and> lf_threads w = [] \<and> lf_tasks w = [] \<and> lf_dthreads w = [] \<and>
     lf_sems w = [] \<and> lf_async w = []"

definition alive :: "ptr \<Rightarrow> life \<Rightarrow> bool" where
  "alive p w \<longleftrightarrow> (case map_of (lf_procs w) p of None \<Rightarrow> False | Some x \<Rightarrow> \<not> px_dead x)"

text \<open>
  The operations in any order. Addresses of new objects are fresh. A checkin comes from a living
  process. A thread object goes away after its duct-taped thread.
\<close>

inductive life_step :: "life \<Rightarrow> life \<Rightarrow> bool" where
  new_process: "map_of (lf_procs w) p = None \<Longrightarrow> life_step w (Process_ctor p pid nsid arch parent w)"
| new_thread: "map_of (lf_threads w) t = None \<Longrightarrow>
    life_step w (registerWithProcess t (Thread_ctor t nsid p w))"
| new_kernel_thread: "map_of (lf_threads w) t = None \<Longrightarrow> life_step w (kernel_Thread_ctor t nsid p w)"
| thread_call_begins: "life_step w (Thread_call_begins t w)"
| thread_call_ends: "life_step w (Thread_call_ends t w)"
| thread_dies: "life_step w (Thread_notifyDead t w)"
| process_dies: "life_step w (Process_notifyDead p w)"
| pending_replacement: "map_of (lf_procs w) p = Some x \<Longrightarrow> life_step w (put_proc p (setPendingReplacement x) w)"
| checkin: "alive p w \<Longrightarrow> notifyCheckin arch p w = Inr w' \<Longrightarrow> life_step w w'"
| async: "run_async w = Inr w' \<Longrightarrow> life_step w w'"
| thread_gone: "map_of (lf_threads w) t = Some th \<Longrightarrow> th_dtapeThread th = None \<Longrightarrow> th_s2cSemaphores th = []
    \<Longrightarrow> Thread_dtor t w = Inr w' \<Longrightarrow> life_step w w'"

section \<open>Accounting\<close>

definition gather :: "('b \<Rightarrow> 'c list) \<Rightarrow> ('a \<times> 'b) list \<Rightarrow> 'c list" where
  "gather f al = concat (map (f \<circ> snd) al)"

lemma gather_simps [simp]: "gather f [] = []" "gather f ((k, v) # al) = f v @ gather f al"
  by (simp_all add: gather_def)

lemma gather_update:
  assumes "distinct (map fst al)"
  shows "mset (gather f (AList.update k v al)) +
      mset (case map_of al k of None \<Rightarrow> [] | Some u \<Rightarrow> f u) = mset (gather f al) + mset (f v)"
  using assms
proof (induction al)
  case (Cons a al)
  obtain k' u where a: "a = (k', u)" by fastforce
  show ?case
  proof (cases "k' = k")
    case False
    with Cons a show ?thesis by (simp add: ac_simps)
  qed (use a in simp)
qed simp

lemma gather_delete:
  assumes "distinct (map fst al)" "map_of al k = Some u"
  shows "mset (gather f (AList.delete k al)) + mset (f u) = mset (gather f al)"
  using assms
proof (induction al)
  case (Cons a al)
  obtain k' v where a: "a = (k', v)" by fastforce
  show ?case
  proof (cases "k' = k")
    case True
    with Cons a have "k \<notin> fst ` set al" by simp
    then have "AList.delete k al = al" by (simp add: delete_idem)
    with Cons.prems a True show ?thesis by (simp add: AList.delete_eq)
  next
    case False
    with Cons a show ?thesis by (simp add: AList.delete_eq)
  qed
qed simp

abbreviation owned_tasks :: "life \<Rightarrow> nat list" where
  "owned_tasks w \<equiv> gather (opt_list \<circ> px_dtapeTask) (lf_procs w)"

abbreviation owned_dthreads :: "life \<Rightarrow> nat list" where
  "owned_dthreads w \<equiv> gather (opt_list \<circ> th_dtapeThread) (lf_threads w)"

abbreviation owned_sems :: "life \<Rightarrow> nat list" where
  "owned_sems w \<equiv> gather (opt_list \<circ> px_dtapeForkWaitSemaphore) (lf_procs w) @
     gather th_s2cSemaphores (lf_threads w)"

text \<open>The duct-taped objects that exist are those the processes and threads own, each once.\<close>

definition owned_ok :: "life \<Rightarrow> bool" where
  "owned_ok w \<longleftrightarrow>
     distinct (map fst (lf_procs w)) \<and> distinct (map fst (lf_threads w)) \<and>
     mset (lf_tasks w) = mset (owned_tasks w) \<and> mset (lf_dthreads w) = mset (owned_dthreads w) \<and>
     mset (lf_sems w) = mset (owned_sems w) \<and>
     distinct (lf_tasks w) \<and> distinct (lf_dthreads w) \<and> distinct (lf_sems w) \<and>
     (\<forall>k \<in> set (lf_tasks w @ lf_dthreads w @ lf_sems w). k < lf_next w)"

text \<open>A release is scheduled exactly for what is dead, done with its call, and not released yet.\<close>

definition thread_due :: "thread_obj \<Rightarrow> bool" where
  "thread_due th \<longleftrightarrow> th_dead th \<and> \<not> th_activeCall th \<and> th_dtapeThread th \<noteq> None"

definition process_due :: "process_obj \<Rightarrow> bool" where
  "process_due x \<longleftrightarrow> px_dead x \<and> px_dtapeTask x \<noteq> None"

definition due_ok :: "life \<Rightarrow> bool" where
  "due_ok w \<longleftrightarrow>
     (\<forall>t. count_list (lf_async w) (Release_thread t) =
        (case map_of (lf_threads w) t of None \<Rightarrow> 0 | Some th \<Rightarrow> of_bool (thread_due th))) \<and>
     (\<forall>p. count_list (lf_async w) (Release_task p) =
        (case map_of (lf_procs w) p of None \<Rightarrow> 0 | Some x \<Rightarrow> of_bool (process_due x)))"

text \<open>Only what is dead, and for a thread done with its call, has been released, and then all of it.\<close>

definition thread_intact :: "thread_obj \<Rightarrow> bool" where
  "thread_intact th \<longleftrightarrow>
     (th_dtapeThread th = None \<longrightarrow> th_dead th \<and> \<not> th_activeCall th \<and> th_s2cSemaphores th = [])"

definition process_intact :: "process_obj \<Rightarrow> bool" where
  "process_intact x \<longleftrightarrow>
     (px_dtapeTask x = None) = (px_dtapeForkWaitSemaphore x = None) \<and> (px_dtapeTask x = None \<longrightarrow> px_dead x)"

definition intact_ok :: "life \<Rightarrow> bool" where
  "intact_ok w \<longleftrightarrow>
     (\<forall>t th. map_of (lf_threads w) t = Some th \<longrightarrow> thread_intact th) \<and>
     (\<forall>p x. map_of (lf_procs w) p = Some x \<longrightarrow> process_intact x)"

definition life_ok :: "life \<Rightarrow> bool" where
  "life_ok w \<longleftrightarrow> owned_ok w \<and> due_ok w \<and> intact_ok w"

section \<open>The operations keep the account\<close>

lemma put_simps [simp]:
  "lf_threads (put_proc p x w) = lf_threads w" "lf_procs (put_thread t th w) = lf_procs w"
  "lf_procs (put_proc p x w) = AList.update p x (lf_procs w)"
  "lf_threads (put_thread t th w) = AList.update t th (lf_threads w)"
  "lf_async (put_proc p x w) = lf_async w" "lf_async (put_thread t th w) = lf_async w"
  "lf_tasks (put_proc p x w) = lf_tasks w" "lf_tasks (put_thread t th w) = lf_tasks w"
  "lf_dthreads (put_proc p x w) = lf_dthreads w" "lf_dthreads (put_thread t th w) = lf_dthreads w"
  "lf_sems (put_proc p x w) = lf_sems w" "lf_sems (put_thread t th w) = lf_sems w"
  "lf_next (put_proc p x w) = lf_next w" "lf_next (put_thread t th w) = lf_next w"
  "lf_events (put_proc p x w) = lf_events w" "lf_events (put_thread t th w) = lf_events w"
  "lf_channels (put_proc p x w) = lf_channels w" "lf_channels (put_thread t th w) = lf_channels w"
  by (simp_all add: put_proc_def put_thread_def)

lemma gather_same:
  assumes "distinct (map fst al)" "map_of al k = Some u" "f v = f u"
  shows "mset (gather f (AList.update k v al)) = mset (gather f al)"
  using gather_update [OF assms(1), of f k v] assms(2,3) by simp

text \<open>Changing a process or thread without touching what it owns.\<close>

lemma owned_put_proc:
  assumes "owned_ok w" "map_of (lf_procs w) p = Some x" "px_dtapeTask x' = px_dtapeTask x"
    "px_dtapeForkWaitSemaphore x' = px_dtapeForkWaitSemaphore x"
  shows "owned_ok (put_proc p x' w)"
  using assms unfolding owned_ok_def
  by (simp add: distinct_update gather_same [of _ p x])

lemma owned_put_thread:
  assumes "owned_ok w" "map_of (lf_threads w) t = Some th" "th_dtapeThread th' = th_dtapeThread th"
    "th_s2cSemaphores th' = th_s2cSemaphores th"
  shows "owned_ok (put_thread t th' w)"
  using assms unfolding owned_ok_def
  by (simp add: distinct_update gather_same [of _ t th])

lemma owned_frame:
  assumes "owned_ok w" "lf_procs w' = lf_procs w" "lf_threads w' = lf_threads w"
    "lf_tasks w' = lf_tasks w" "lf_dthreads w' = lf_dthreads w" "lf_sems w' = lf_sems w"
    "lf_next w' = lf_next w"
  shows "owned_ok w'"
  using assms by (simp add: owned_ok_def)

lemma due_put_proc:
  assumes "due_ok w" "map_of (lf_procs w) p = Some x" "process_due x' = process_due x"
  shows "due_ok (put_proc p x' w)"
  using assms by (auto simp: due_ok_def alist_simps split: option.splits)

lemma due_put_thread:
  assumes "due_ok w" "map_of (lf_threads w) t = Some th" "thread_due th' = thread_due th"
  shows "due_ok (put_thread t th' w)"
  using assms by (auto simp: due_ok_def alist_simps split: option.splits)

lemma due_frame:
  assumes "due_ok w" "lf_procs w' = lf_procs w" "lf_threads w' = lf_threads w" "lf_async w' = lf_async w"
  shows "due_ok w'"
  using assms by (simp add: due_ok_def)

lemma semaphores_create_result:
  "semaphores_create n w = (ks, w') \<Longrightarrow>
   ks = [lf_next w ..< lf_next w + n] \<and>
   w' = w\<lparr>lf_next := lf_next w + n, lf_sems := rev ks @ lf_sems w\<rparr>"
proof (induction n arbitrary: w ks w')
  case (Suc n)
  let ?w = "w\<lparr>lf_next := lf_next w + 1, lf_sems := lf_next w # lf_sems w\<rparr>"
  obtain ks1 w1 where c: "semaphores_create n ?w = (ks1, w1)" by fastforce
  from Suc.IH [OF c] Suc.prems c show ?case
    by (auto simp: semaphore_create_def Let_def upt_conv_Cons split: prod.splits)
qed simp

lemma semaphores_create_eq:
  "semaphores_create n w = ([lf_next w ..< lf_next w + n],
     w\<lparr>lf_next := lf_next w + n, lf_sems := rev [lf_next w ..< lf_next w + n] @ lf_sems w\<rparr>)"
  using semaphores_create_result by (metis surj_pair)

lemma semaphores_destroy_result:
  "semaphores_destroy ks w = Inr w' \<Longrightarrow>
   \<exists>l. w' = w\<lparr>lf_sems := l\<rparr> \<and> mset l + mset ks = mset (lf_sems w) \<and> (distinct (lf_sems w) \<longrightarrow> distinct l)"
proof (induction ks arbitrary: w)
  case (Cons k ks)
  let ?w = "w\<lparr>lf_sems := remove1 k (lf_sems w)\<rparr>"
  from Cons.prems have k: "k \<in> set (lf_sems w)" "semaphores_destroy ks ?w = Inr w'"
    by (auto simp: semaphore_destroy_def split: if_splits)
  from Cons.IH [OF k(2)] obtain l where "w' = ?w\<lparr>lf_sems := l\<rparr>"
    "mset l + mset ks = mset (remove1 k (lf_sems w))" "distinct (remove1 k (lf_sems w)) \<longrightarrow> distinct l"
    by auto
  with k(1) show ?case by (intro exI [of _ l]) auto
qed (auto intro!: exI [of _ "lf_sems w'"])

lemma semaphores_destroy_works:
  "mset ks \<subseteq># mset (lf_sems w) \<Longrightarrow> \<exists>w'. semaphores_destroy ks w = Inr w'"
proof (induction ks arbitrary: w)
  case (Cons k ks)
  then have k: "k \<in> set (lf_sems w)"
    by (metis insert_subset_eq_iff mset.simps(2) set_mset_mset)
  have "mset ks \<subseteq># mset (remove1 k (lf_sems w))"
    using Cons.prems by (simp add: insert_subset_eq_iff)
  with Cons.IH [of "w\<lparr>lf_sems := remove1 k (lf_sems w)\<rparr>"] k show ?case
    by (simp add: semaphore_destroy_def)
qed simp

lemma intact_put_proc:
  assumes "intact_ok w" "process_intact x'"
  shows "intact_ok (put_proc p x' w)"
  using assms by (auto simp: intact_ok_def alist_simps)

lemma intact_put_thread:
  assumes "intact_ok w" "thread_intact th'"
  shows "intact_ok (put_thread t th' w)"
  using assms by (auto simp: intact_ok_def alist_simps)

lemma life_intact:
  assumes "life_ok w"
  shows "map_of (lf_threads w) t = Some th \<Longrightarrow> thread_intact th"
    "map_of (lf_procs w) p = Some x \<Longrightarrow> process_intact x"
  using assms unfolding life_ok_def intact_ok_def by blast+

lemma life_frame:
  assumes "life_ok w" "lf_procs w' = lf_procs w" "lf_threads w' = lf_threads w"
    "lf_tasks w' = lf_tasks w" "lf_dthreads w' = lf_dthreads w" "lf_sems w' = lf_sems w"
    "lf_next w' = lf_next w" "lf_async w' = lf_async w"
  shows "life_ok w'"
proof -
  have "intact_ok w' = intact_ok w" by (simp add: intact_ok_def assms)
  with assms show ?thesis unfolding life_ok_def by (auto intro: owned_frame due_frame)
qed

lemma life_put_proc:
  assumes "life_ok w" "map_of (lf_procs w) p = Some x" "px_dtapeTask x' = px_dtapeTask x"
    "px_dtapeForkWaitSemaphore x' = px_dtapeForkWaitSemaphore x" "px_dead x' = px_dead x"
  shows "life_ok (put_proc p x' w)"
proof -
  have "process_intact x'" using life_intact(2) [OF assms(1,2)] assms(3-5) by (simp add: process_intact_def)
  with assms show ?thesis unfolding life_ok_def
    by (auto intro!: owned_put_proc due_put_proc intact_put_proc simp: process_due_def)
qed

lemma life_put_thread:
  assumes "life_ok w" "map_of (lf_threads w) t = Some th" "th_dtapeThread th' = th_dtapeThread th"
    "th_s2cSemaphores th' = th_s2cSemaphores th" "th_dead th' = th_dead th"
    "th_activeCall th' = th_activeCall th"
  shows "life_ok (put_thread t th' w)"
proof -
  have "thread_intact th'" using life_intact(1) [OF assms(1,2)] assms(3-6) by (simp add: thread_intact_def)
  with assms show ?thesis unfolding life_ok_def
    by (auto intro!: owned_put_thread due_put_thread intact_put_thread simp: thread_due_def)
qed

lemma owned_below:
  assumes "owned_ok w" "lf_next w \<le> k"
  shows "k \<notin> set (lf_tasks w)" "k \<notin> set (lf_dthreads w)" "k \<notin> set (lf_sems w)"
proof -
  have "\<forall>j \<in> set (lf_tasks w @ lf_dthreads w @ lf_sems w). j < k"
    using assms by (auto simp: owned_ok_def intro: less_le_trans)
  then show "k \<notin> set (lf_tasks w)" "k \<notin> set (lf_dthreads w)" "k \<notin> set (lf_sems w)" by auto
qed

lemma owned_less:
  assumes "owned_ok w" "k \<in> set (lf_tasks w) \<or> k \<in> set (lf_dthreads w) \<or> k \<in> set (lf_sems w)"
  shows "k < Suc (lf_next w + n)"
proof -
  have "k < lf_next w" using assms by (auto simp: owned_ok_def)
  then show ?thesis by simp
qed

lemma Process_ctor_ok:
  assumes "life_ok w" "map_of (lf_procs w) p = None"
  shows "life_ok (Process_ctor p pid nsid arch parent w)"
proof -
  let ?w = "Process_ctor p pid nsid arch parent w"
  have ok: "owned_ok w" "due_ok w" "intact_ok w" using assms(1) by (simp_all add: life_ok_def)
  note defs = Process_ctor_def task_create_def semaphore_create_def Let_def
  have d: "distinct (map fst (lf_procs w))" using ok(1) by (simp add: owned_ok_def)
  have "owned_ok ?w"
    using ok(1) owned_below [OF ok(1), of "lf_next w"] owned_below [OF ok(1), of "lf_next w + 1"]
      gather_update [OF d, of "opt_list \<circ> px_dtapeTask" p] gather_update [OF d, of "opt_list \<circ> px_dtapeForkWaitSemaphore" p]
      assms(2)
    by (auto simp: owned_ok_def defs distinct_update less_Suc_eq)
  moreover have "due_ok ?w"
    using ok(2) assms(2) by (auto simp: due_ok_def defs process_due_def alist_simps)
  moreover have "intact_ok ?w"
    using ok(3) by (auto simp: intact_ok_def process_intact_def defs alist_simps)
  ultimately show ?thesis by (simp add: life_ok_def)
qed

lemma new_thread_ok:
  assumes "life_ok w" "map_of (lf_threads w) t = None"
    "w' = put_thread t \<lparr>th_nsid = nsid, th_process = p, th_dead = False, th_activeCall = False,
        th_dtapeThread = Some (lf_next w), th_s2cSemaphores = ks\<rparr>
      (w\<lparr>lf_next := lf_next w + 1 + n, lf_dthreads := lf_next w # lf_dthreads w, lf_sems := rev ks @ lf_sems w\<rparr>)"
    "ks = [lf_next w + 1 ..< lf_next w + 1 + n]"
  shows "life_ok w'"
proof -
  have ok: "owned_ok w" "due_ok w" "intact_ok w" using assms(1) by (simp_all add: life_ok_def)
  have d: "distinct (map fst (lf_threads w))" using ok(1) by (simp add: owned_ok_def)
  have "set ks \<inter> set (lf_sems w) = {}"
    using owned_below(3) [OF ok(1)] by (auto simp: assms(4))
  then have "owned_ok w'"
    using ok(1) owned_below(2) [OF ok(1), of "lf_next w"]
      gather_update [OF d, of "opt_list \<circ> th_dtapeThread" t] gather_update [OF d, of th_s2cSemaphores t]
      assms(2) owned_less [OF ok(1), of _ n]
    by (auto simp: owned_ok_def assms(3,4) distinct_update)
  moreover have "due_ok w'"
    using ok(2) assms(2) by (auto simp: due_ok_def assms(3) thread_due_def alist_simps)
  moreover have "intact_ok w'"
    using ok(3) by (auto simp: intact_ok_def thread_intact_def assms(3) alist_simps)
  ultimately show ?thesis by (simp add: life_ok_def)
qed

lemma Thread_ctor_ok:
  assumes "life_ok w" "map_of (lf_threads w) t = None"
  shows "life_ok (Thread_ctor t nsid p w)"
proof -
  let ?w = "w\<lparr>lf_next := lf_next w + 1, lf_dthreads := lf_next w # lf_dthreads w\<rparr>"
  obtain ks w1 where c: "semaphores_create 4 ?w = (ks, w1)" by fastforce
  from semaphores_create_result [OF c]
  have ks: "ks = [lf_next w + 1 ..< lf_next w + 1 + 4]"
    "w1 = ?w\<lparr>lf_next := lf_next w + 1 + 4, lf_sems := rev ks @ lf_sems w\<rparr>" by simp_all
  show ?thesis
    by (rule new_thread_ok [OF assms _ ks(1), where nsid = nsid and p = "Some p"])
      (rule life.equality, use c ks(2) in \<open>simp_all add: Thread_ctor_def thread_create_def put_thread_def\<close>)
qed

lemma kernel_Thread_ctor_ok:
  assumes "life_ok w" "map_of (lf_threads w) t = None"
  shows "life_ok (kernel_Thread_ctor t nsid p w)"
  by (rule new_thread_ok [OF assms, where nsid = nsid and p = "Some p" and ks = "[]" and n = 0])
    (simp_all add: kernel_Thread_ctor_def thread_create_def Let_def)

lemma registerWithProcess_ok: "life_ok w \<Longrightarrow> life_ok (registerWithProcess t w)"
  by (auto simp: registerWithProcess_def split: option.splits intro: life_put_proc)

text \<open>A thread that becomes due is scheduled in the same step.\<close>

lemma thread_becomes_due:
  assumes "life_ok w" "map_of (lf_threads w) t = Some th" "\<not> thread_due th" "thread_due th'"
    "th_dtapeThread th' = th_dtapeThread th" "th_s2cSemaphores th' = th_s2cSemaphores th"
  shows "life_ok ((put_thread t th' w)\<lparr>lf_async := lf_async w @ [Release_thread t]\<rparr>)"
proof -
  let ?w = "(put_thread t th' w)\<lparr>lf_async := lf_async w @ [Release_thread t]\<rparr>"
  have "owned_ok (put_thread t th' w)"
    using assms by (intro owned_put_thread) (simp_all add: life_ok_def)
  then have "owned_ok ?w" by (rule owned_frame) simp_all
  moreover have "intact_ok (put_thread t th' w)"
    using assms by (intro intact_put_thread) (auto simp: life_ok_def thread_due_def thread_intact_def)
  then have "intact_ok ?w" by (simp add: intact_ok_def)
  moreover have "due_ok ?w"
    using assms by (auto simp: life_ok_def due_ok_def alist_simps split: option.splits)
  ultimately show ?thesis by (simp add: life_ok_def)
qed

lemma thread_stays_due:
  assumes "life_ok w" "map_of (lf_threads w) t = Some th" "thread_due th' = thread_due th"
    "th_dtapeThread th' = th_dtapeThread th" "th_s2cSemaphores th' = th_s2cSemaphores th"
    "th_dtapeThread th' \<noteq> None"
  shows "life_ok (put_thread t th' w)"
  using assms unfolding life_ok_def
  by (auto intro!: owned_put_thread due_put_thread intact_put_thread simp: thread_intact_def)

lemma undead_intact:
  "life_ok w \<Longrightarrow> map_of (lf_threads w) t = Some th \<Longrightarrow> \<not> th_dead th \<or> th_activeCall th \<Longrightarrow>
   th_dtapeThread th \<noteq> None"
  using life_intact(1) by (auto simp: thread_intact_def)

lemma Thread_notifyDead_ok:
  assumes "life_ok w"
  shows "life_ok (Thread_notifyDead t w)"
proof (cases "map_of (lf_threads w) t")
  case (Some th)
  show ?thesis
  proof (cases "th_dead th")
    case False
    note d = undead_intact [OF assms Some] False
    have "life_ok (if th_activeCall th then put_thread t (th\<lparr>th_dead := True\<rparr>) w
        else (put_thread t (th\<lparr>th_dead := True\<rparr>) w)\<lparr>lf_async := lf_async w @ [Release_thread t]\<rparr>)"
    proof (cases "th_activeCall th")
      case True
      with d have "life_ok (put_thread t (th\<lparr>th_dead := True\<rparr>) w)"
        by (intro thread_stays_due [OF assms Some]) (simp_all add: thread_due_def)
      with True show ?thesis by simp
    next
      case False
      with d have "life_ok ((put_thread t (th\<lparr>th_dead := True\<rparr>) w)\<lparr>lf_async := lf_async w @ [Release_thread t]\<rparr>)"
        by (intro thread_becomes_due [OF assms Some]) (simp_all add: thread_due_def)
      with False show ?thesis by simp
    qed
    then show ?thesis
      by (rule life_frame) (use Some False in \<open>auto simp: Thread_notifyDead_def Let_def\<close>)
  qed (use assms Some in \<open>simp add: Thread_notifyDead_def\<close>)
qed (use assms in \<open>simp add: Thread_notifyDead_def\<close>)

lemma Thread_call_begins_ok:
  assumes "life_ok w"
  shows "life_ok (Thread_call_begins t w)"
proof (cases "map_of (lf_threads w) t")
  case (Some th)
  with assms undead_intact [OF assms Some] show ?thesis
    by (auto simp: Thread_call_begins_def thread_due_def intro!: thread_stays_due)
qed (use assms in \<open>simp add: Thread_call_begins_def\<close>)

lemma Thread_call_ends_ok:
  assumes "life_ok w"
  shows "life_ok (Thread_call_ends t w)"
proof (cases "map_of (lf_threads w) t")
  case (Some th)
  let ?th = "th\<lparr>th_activeCall := False\<rparr>"
  show ?thesis
  proof (cases "th_activeCall th \<and> th_dead th")
    case True
    with undead_intact [OF assms Some] thread_becomes_due [OF assms Some, of ?th] show ?thesis
      by (simp add: Thread_call_ends_def Some thread_due_def)
  next
    case False
    with assms undead_intact [OF assms Some] thread_stays_due [OF assms Some, of ?th] show ?thesis
      by (auto simp: Thread_call_ends_def Some thread_due_def Let_def)
  qed
qed (use assms in \<open>simp add: Thread_call_ends_def\<close>)

lemma notifyListening_ok: "life_ok w \<Longrightarrow> life_ok (notifyListeningKqchannels ev dat p w)"
  by (erule life_frame) (simp_all add: notifyListeningKqchannels_def split: option.splits)

lemma threads_notifyDead_ok: "life_ok w \<Longrightarrow> life_ok (threads_notifyDead ts w)"
  by (induction ts w rule: threads_notifyDead.induct) (simp_all add: Thread_notifyDead_ok)

text \<open>The death of threads leaves the processes alone.\<close>

lemma notifyDead_procs [simp]:
  "lf_procs (Thread_notifyDead t w) = lf_procs w" "lf_procs (threads_notifyDead ts w) = lf_procs w"
proof -
  show *: "lf_procs (Thread_notifyDead t w) = lf_procs w" for t w
    by (simp add: Thread_notifyDead_def Let_def split: option.splits)
  show "lf_procs (threads_notifyDead ts w) = lf_procs w"
    by (induction ts w rule: threads_notifyDead.induct) (simp_all add: *)
qed

lemma process_becomes_due:
  assumes "life_ok w" "map_of (lf_procs w) p = Some x" "\<not> process_due x" "process_due x'"
    "px_dtapeTask x' = px_dtapeTask x" "px_dtapeForkWaitSemaphore x' = px_dtapeForkWaitSemaphore x"
  shows "life_ok ((put_proc p x' w)\<lparr>lf_async := lf_async w @ [Release_task p]\<rparr>)"
proof -
  let ?w = "(put_proc p x' w)\<lparr>lf_async := lf_async w @ [Release_task p]\<rparr>"
  have "owned_ok (put_proc p x' w)"
    using assms by (intro owned_put_proc) (simp_all add: life_ok_def)
  then have "owned_ok ?w" by (rule owned_frame) simp_all
  moreover have "px_dtapeTask x \<noteq> None \<longrightarrow> px_dtapeForkWaitSemaphore x \<noteq> None"
    using life_intact(2) [OF assms(1,2)] by (simp add: process_intact_def)
  with assms have "intact_ok (put_proc p x' w)"
    by (intro intact_put_proc) (auto simp: life_ok_def process_due_def process_intact_def)
  then have "intact_ok ?w" by (simp add: intact_ok_def)
  moreover have "due_ok ?w"
    using assms by (auto simp: life_ok_def due_ok_def alist_simps split: option.splits)
  ultimately show ?thesis by (simp add: life_ok_def)
qed

text \<open>The order of the scheduled releases does not matter to the account.\<close>

lemma life_reorder:
  assumes "life_ok w" "lf_procs w' = lf_procs w" "lf_threads w' = lf_threads w"
    "lf_tasks w' = lf_tasks w" "lf_dthreads w' = lf_dthreads w" "lf_sems w' = lf_sems w"
    "lf_next w' = lf_next w" "mset (lf_async w') = mset (lf_async w)"
  shows "life_ok w'"
proof -
  have "count_list (lf_async w') a = count_list (lf_async w) a" for a
    using assms(8) by (metis count_mset)
  then have "due_ok w' = due_ok w" by (simp add: due_ok_def assms(2,3))
  moreover have "intact_ok w' = intact_ok w" by (simp add: intact_ok_def assms)
  ultimately show ?thesis using assms unfolding life_ok_def by (auto intro: owned_frame)
qed

text \<open>What is scheduled for a thread does not depend on what was scheduled before.\<close>

lemma Thread_notifyDead_async:
  "Thread_notifyDead t (w\<lparr>lf_async := l\<rparr>) =
   (Thread_notifyDead t w)\<lparr>lf_async := l @ drop (length (lf_async w)) (lf_async (Thread_notifyDead t w))\<rparr>"
  by (simp add: Thread_notifyDead_def put_thread_def Let_def split: option.splits)

lemma Thread_notifyDead_prefix:
  "\<exists>r. lf_async (Thread_notifyDead t w) = lf_async w @ r"
  by (simp add: Thread_notifyDead_def put_thread_def Let_def split: option.splits)

lemma threads_notifyDead_async:
  "\<exists>r. lf_async (threads_notifyDead ts w) = lf_async w @ r \<and>
     (\<forall>l. threads_notifyDead ts (w\<lparr>lf_async := l\<rparr>) = (threads_notifyDead ts w)\<lparr>lf_async := l @ r\<rparr>)"
proof (induction ts w rule: threads_notifyDead.induct)
  case (2 n t ts w)
  obtain r where r: "lf_async (Thread_notifyDead t w) = lf_async w @ r"
    using Thread_notifyDead_prefix by blast
  from 2 obtain r' where
    "lf_async (threads_notifyDead ts (Thread_notifyDead t w)) = lf_async (Thread_notifyDead t w) @ r'"
    "\<forall>l. threads_notifyDead ts ((Thread_notifyDead t w)\<lparr>lf_async := l\<rparr>) =
      (threads_notifyDead ts (Thread_notifyDead t w))\<lparr>lf_async := l @ r'\<rparr>" by blast
  with r show ?case by (intro exI [of _ "r @ r'"]) (simp add: Thread_notifyDead_async)
qed (auto intro: exI [of _ "[]"])

lemma Process_notifyDead_ok:
  assumes "life_ok w"
  shows "life_ok (Process_notifyDead p w)"
proof (cases "map_of (lf_procs w) p")
  case (Some x)
  show ?thesis
  proof (cases "px_dead x")
    case False
    let ?x = "x\<lparr>px_dead := True, px_kqchannels := []\<rparr>"
    let ?w = "notifyListeningKqchannels NOTE_EXIT 0 p (put_proc p ?x w)"
    have f: "lf_async ?w = lf_async w" "lf_procs ?w = lf_procs (put_proc p ?x w)"
      "lf_threads ?w = lf_threads w" "lf_tasks ?w = lf_tasks w" "lf_dthreads ?w = lf_dthreads w"
      "lf_sems ?w = lf_sems w" "lf_next ?w = lf_next w"
      by (simp_all add: notifyListeningKqchannels_def split: option.splits)
    have "px_dtapeTask x \<noteq> None"
      using life_intact(2) [OF assms Some] False by (auto simp: process_intact_def)
    with False have "life_ok ((put_proc p ?x w)\<lparr>lf_async := lf_async w @ [Release_task p]\<rparr>)"
      by (intro process_becomes_due [OF assms Some]) (simp_all add: process_due_def)
    then have "life_ok (?w\<lparr>lf_async := lf_async w @ [Release_task p]\<rparr>)"
      by (rule life_frame) (simp_all add: f)
    from threads_notifyDead_ok [OF this, of "px_threads x"]
    have ok: "life_ok (threads_notifyDead (px_threads x) (?w\<lparr>lf_async := lf_async w @ [Release_task p]\<rparr>))" .
    obtain r where r: "lf_async (threads_notifyDead (px_threads x) ?w) = lf_async w @ r"
      "threads_notifyDead (px_threads x) (?w\<lparr>lf_async := lf_async w @ [Release_task p]\<rparr>) =
        (threads_notifyDead (px_threads x) ?w)\<lparr>lf_async := (lf_async w @ [Release_task p]) @ r\<rparr>"
      using threads_notifyDead_async [of "px_threads x" ?w] f(1) by metis
    from ok show ?thesis unfolding r(2)
      by (rule life_reorder) (use Some False in \<open>simp_all add: Process_notifyDead_def Let_def r(1)\<close>)
  qed (use assms Some in \<open>simp add: Process_notifyDead_def\<close>)
qed (use assms in \<open>simp add: Process_notifyDead_def\<close>)

section \<open>Exchanging and releasing duct-taped objects\<close>

lemma owned_exchange:
  assumes "owned_ok w" "distinct (map fst (lf_procs w'))" "distinct (map fst (lf_threads w'))"
    "mset (lf_tasks w') + tr = mset (lf_tasks w) + ta" "mset (owned_tasks w') + tr = mset (owned_tasks w) + ta"
    "mset (lf_dthreads w') + dr = mset (lf_dthreads w) + da"
    "mset (owned_dthreads w') + dr = mset (owned_dthreads w) + da"
    "mset (lf_sems w') + sr = mset (lf_sems w) + sa" "mset (owned_sems w') + sr = mset (owned_sems w) + sa"
    "distinct (lf_tasks w')" "distinct (lf_dthreads w')" "distinct (lf_sems w')"
    "\<forall>k \<in> set (lf_tasks w' @ lf_dthreads w' @ lf_sems w'). k < lf_next w'"
  shows "owned_ok w'"
proof -
  have "mset (lf_tasks w) = mset (owned_tasks w)" "mset (lf_dthreads w) = mset (owned_dthreads w)"
    "mset (lf_sems w) = mset (owned_sems w)" using assms(1) by (simp_all add: owned_ok_def)
  then have "mset (lf_tasks w') = mset (owned_tasks w')" "mset (lf_dthreads w') = mset (owned_dthreads w')"
    "mset (lf_sems w') = mset (owned_sems w')"
    using assms(4-9) by (metis add_right_cancel)+
  with assms(2,3,10-13) show ?thesis unfolding owned_ok_def by blast
qed

lemma owned_distinct:
  assumes "owned_ok w"
  shows "distinct (map fst (lf_procs w))" "distinct (map fst (lf_threads w))"
    "distinct (lf_tasks w)" "distinct (lf_dthreads w)" "distinct (lf_sems w)"
    "k \<in> set (lf_tasks w) \<Longrightarrow> k < lf_next w" "k \<in> set (lf_dthreads w) \<Longrightarrow> k < lf_next w"
    "k \<in> set (lf_sems w) \<Longrightarrow> k < lf_next w"
  using assms by (auto simp: owned_ok_def)

lemma gather_member:
  assumes "map_of al k = Some u"
  shows "mset (f u) \<subseteq># mset (gather f al)"
  using assms
proof (induction al)
  case (Cons a al)
  then show ?case by (cases a) (auto split: if_splits intro: subset_mset.add_increasing)
qed simp

lemma owned_parts:
  assumes "owned_ok w"
  shows "map_of (lf_threads w) t = Some th \<Longrightarrow> th_dtapeThread th = Some d \<Longrightarrow> d \<in> set (lf_dthreads w)"
    "map_of (lf_threads w) t = Some th \<Longrightarrow> mset (th_s2cSemaphores th) \<subseteq># mset (lf_sems w)"
    "map_of (lf_procs w) p = Some x \<Longrightarrow> px_dtapeTask x = Some k \<Longrightarrow> k \<in> set (lf_tasks w)"
    "map_of (lf_procs w) p = Some x \<Longrightarrow> px_dtapeForkWaitSemaphore x = Some k \<Longrightarrow> k \<in> set (lf_sems w)"
proof -
  note o = assms [unfolded owned_ok_def]
  show "d \<in> set (lf_dthreads w)" if "map_of (lf_threads w) t = Some th" "th_dtapeThread th = Some d"
    using gather_member [OF that(1), of "opt_list \<circ> th_dtapeThread"] that(2) o
    by (metis comp_apply insert_subset_eq_iff mset.simps opt_list_simps(2) set_mset_mset)
  show "mset (th_s2cSemaphores th) \<subseteq># mset (lf_sems w)" if "map_of (lf_threads w) t = Some th"
    using gather_member [OF that, of th_s2cSemaphores] o by (simp add: subset_mset.add_increasing)
  show "k \<in> set (lf_tasks w)" if "map_of (lf_procs w) p = Some x" "px_dtapeTask x = Some k"
    using gather_member [OF that(1), of "opt_list \<circ> px_dtapeTask"] that(2) o
    by (metis comp_apply insert_subset_eq_iff mset.simps opt_list_simps(2) set_mset_mset)
  have "set (gather (opt_list \<circ> px_dtapeForkWaitSemaphore) (lf_procs w)) \<subseteq> set (lf_sems w)"
    using o by (metis Un_upper1 set_append set_mset_mset)
  then show "k \<in> set (lf_sems w)" if "map_of (lf_procs w) p = Some x" "px_dtapeForkWaitSemaphore x = Some k"
    using gather_member [OF that(1), of "opt_list \<circ> px_dtapeForkWaitSemaphore"] that(2)
    by (metis comp_apply insert_subset_eq_iff mset.simps opt_list_simps(2) set_mset_mset subsetD)
qed

lemma due_thread_released:
  assumes "due_ok w" "lf_async w = Release_thread t # rest" "map_of (lf_threads w) t = Some th" "thread_due th"
    "lf_async w' = rest" "lf_procs w' = lf_procs w" "lf_threads w' = AList.update t th' (lf_threads w)"
    "\<not> thread_due th'"
  shows "due_ok w'"
proof -
  have p: "count_list (lf_async w) (Release_task p) =
      (case map_of (lf_procs w) p of None \<Rightarrow> 0 | Some x \<Rightarrow> of_bool (process_due x))" for p
    using assms(1) by (simp add: due_ok_def)
  have q: "count_list (lf_async w) (Release_thread q) =
      (case map_of (lf_threads w) q of None \<Rightarrow> 0 | Some x \<Rightarrow> of_bool (thread_due x))" for q
    using assms(1) by (simp add: due_ok_def)
  have "count_list rest (Release_thread q) =
      (case map_of (lf_threads w') q of None \<Rightarrow> 0 | Some x \<Rightarrow> of_bool (thread_due x))" for q
    using q [of q] assms(2-4,7,8) by (cases "q = t") (simp_all add: alist_simps)
  then show ?thesis using p assms(2,5,6) by (simp add: due_ok_def)
qed

lemma due_task_released:
  assumes "due_ok w" "lf_async w = Release_task p # rest" "map_of (lf_procs w) p = Some x" "process_due x"
    "lf_async w' = rest" "lf_threads w' = lf_threads w" "lf_procs w' = AList.update p x' (lf_procs w)"
    "\<not> process_due x'"
  shows "due_ok w'"
proof -
  have t: "count_list (lf_async w) (Release_thread t) =
      (case map_of (lf_threads w) t of None \<Rightarrow> 0 | Some th \<Rightarrow> of_bool (thread_due th))" for t
    using assms(1) by (simp add: due_ok_def)
  have q: "count_list (lf_async w) (Release_task q) =
      (case map_of (lf_procs w) q of None \<Rightarrow> 0 | Some x \<Rightarrow> of_bool (process_due x))" for q
    using assms(1) by (simp add: due_ok_def)
  have "count_list rest (Release_task q) =
      (case map_of (lf_procs w') q of None \<Rightarrow> 0 | Some x \<Rightarrow> of_bool (process_due x))" for q
    using q [of q] assms(2-4,7,8) by (cases "q = p") (simp_all add: alist_simps)
  then show ?thesis using t assms(2,5,6) by (simp add: due_ok_def)
qed

lemma release_thread_ok:
  assumes "life_ok w" "lf_async w = Release_thread t # rest"
  shows "\<exists>w'. release_thread t (w\<lparr>lf_async := rest\<rparr>) = Inr w' \<and> life_ok w'"
proof -
  have ok: "owned_ok w" "due_ok w" "intact_ok w" using assms(1) by (simp_all add: life_ok_def)
  have n: "count_list (lf_async w) (Release_thread t) =
      (case map_of (lf_threads w) t of None \<Rightarrow> 0 | Some th \<Rightarrow> of_bool (thread_due th))"
    using ok(2) by (simp add: due_ok_def)
  then obtain th where th: "map_of (lf_threads w) t = Some th" "thread_due th"
    using assms(2) by (cases "map_of (lf_threads w) t") (auto simp: of_bool_def split: if_splits)
  then obtain d where d: "th_dtapeThread th = Some d" "th_dead th" "\<not> th_activeCall th"
    by (auto simp: thread_due_def)
  let ?w = "w\<lparr>lf_async := rest\<rparr>" and ?th = "th\<lparr>th_s2cSemaphores := [], th_dtapeThread := None\<rparr>"
  obtain w1 where "semaphores_destroy (th_s2cSemaphores th) ?w = Inr w1"
    using semaphores_destroy_works [of "th_s2cSemaphores th" ?w] owned_parts(2) [OF ok(1) th(1)] by auto
  with semaphores_destroy_result obtain l where l: "semaphores_destroy (th_s2cSemaphores th) ?w = Inr (?w\<lparr>lf_sems := l\<rparr>)"
    "mset l + mset (th_s2cSemaphores th) = mset (lf_sems w)" "distinct (lf_sems w) \<longrightarrow> distinct l" by fastforce
  let ?w' = "put_thread t ?th (?w\<lparr>lf_sems := l, lf_dthreads := remove1 d (lf_dthreads w)\<rparr>)"
  have r: "release_thread t ?w = Inr ?w'"
    using owned_parts(1) [OF ok(1) th(1) d(1)] th(1) l(1) d(1) by (simp add: release_thread_def thread_release_def)
  have o: "distinct (map fst (lf_threads w))" using ok(1) by (simp add: owned_ok_def)
  have "set l \<subseteq> set (lf_sems w)" using l(2) by (metis set_mset_mset set_mset_union sup_ge1)
  then have "owned_ok ?w'"
    using owned_distinct [OF ok(1)] owned_parts(1) [OF ok(1) th(1) d(1)] l(2,3) th(1) d(1)
      gather_update [OF o, of "opt_list \<circ> th_dtapeThread" t ?th] gather_update [OF o, of th_s2cSemaphores t ?th]
    by (intro owned_exchange [OF ok(1), where tr = "{#}" and ta = "{#}" and dr = "{#d#}" and da = "{#}"
          and sr = "mset (th_s2cSemaphores th)" and sa = "{#}"])
      (auto simp: distinct_update ac_simps dest: notin_set_remove1)
  moreover have "due_ok ?w'"
    by (rule due_thread_released [OF ok(2) assms(2) th, where th' = ?th]) (simp_all add: thread_due_def)
  moreover have "intact_ok ?w'"
    using ok(3) d(2,3) by (auto simp: intact_ok_def thread_intact_def alist_simps)
  ultimately show ?thesis using r by (auto simp: life_ok_def)
qed

lemma release_task_ok:
  assumes "life_ok w" "lf_async w = Release_task p # rest"
  shows "\<exists>w'. release_task p (w\<lparr>lf_async := rest\<rparr>) = Inr w' \<and> life_ok w'"
proof -
  have ok: "owned_ok w" "due_ok w" "intact_ok w" using assms(1) by (simp_all add: life_ok_def)
  have n: "count_list (lf_async w) (Release_task p) =
      (case map_of (lf_procs w) p of None \<Rightarrow> 0 | Some x \<Rightarrow> of_bool (process_due x))"
    using ok(2) by (simp add: due_ok_def)
  then obtain x where x: "map_of (lf_procs w) p = Some x" "process_due x"
    using assms(2) by (cases "map_of (lf_procs w) p") (auto simp: of_bool_def split: if_splits)
  then obtain k where k: "px_dtapeTask x = Some k" "px_dead x" by (auto simp: process_due_def)
  let ?x = "x\<lparr>px_dtapeForkWaitSemaphore := None, px_dtapeTask := None\<rparr>"
  define l where "l = (case px_dtapeForkWaitSemaphore x of None \<Rightarrow> lf_sems w | Some s \<Rightarrow> remove1 s (lf_sems w))"
  have l: "mset l + mset (opt_list (px_dtapeForkWaitSemaphore x)) = mset (lf_sems w)"
    "distinct (lf_sems w) \<longrightarrow> distinct l" "set l \<subseteq> set (lf_sems w)"
    using owned_parts(4) [OF ok(1) x(1)]
    by (auto simp: l_def opt_list_def split: option.splits dest: subsetD [OF set_remove1_subset])
  let ?w' = "put_proc p ?x (w\<lparr>lf_async := rest, lf_sems := l, lf_tasks := remove1 k (lf_tasks w)\<rparr>)"
  have r: "release_task p (w\<lparr>lf_async := rest\<rparr>) = Inr ?w'"
    using owned_parts(3,4) [OF ok(1) x(1)] x(1) k(1)
    by (cases "px_dtapeForkWaitSemaphore x") (simp_all add: release_task_def task_release_def semaphore_destroy_def l_def)
  have o: "distinct (map fst (lf_procs w))" using ok(1) by (simp add: owned_ok_def)
  have "owned_ok ?w'"
    using owned_distinct [OF ok(1)] owned_parts(3) [OF ok(1) x(1) k(1)] l x(1) k(1)
      gather_update [OF o, of "opt_list \<circ> px_dtapeTask" p ?x]
      gather_update [OF o, of "opt_list \<circ> px_dtapeForkWaitSemaphore" p ?x]
    by (intro owned_exchange [OF ok(1), where tr = "{#k#}" and ta = "{#}" and dr = "{#}" and da = "{#}"
          and sr = "mset (opt_list (px_dtapeForkWaitSemaphore x))" and sa = "{#}"])
      (auto simp: distinct_update ac_simps dest: notin_set_remove1)
  moreover have "due_ok ?w'"
    by (rule due_task_released [OF ok(2) assms(2) x, where x' = ?x]) (simp_all add: process_due_def)
  moreover have "intact_ok ?w'"
    using ok(3) k(2) by (auto simp: intact_ok_def process_intact_def alist_simps)
  ultimately show ?thesis using r by (auto simp: life_ok_def)
qed

lemma run_async_ok:
  assumes "life_ok w"
  shows "\<exists>w'. run_async w = Inr w' \<and> life_ok w'"
proof (cases "lf_async w")
  case (Cons a rest)
  with assms release_thread_ok [OF assms] release_task_ok [OF assms] show ?thesis
    by (cases a) (auto simp: run_async_def)
qed (use assms in \<open>simp add: run_async_def\<close>)

text \<open>A thread object that owns nothing leaves no trace in the account.\<close>

lemma thread_leaves:
  assumes "life_ok w" "map_of (lf_threads w) t = Some th" "th_dtapeThread th = None" "th_s2cSemaphores th = []"
  shows "life_ok (w\<lparr>lf_threads := AList.delete t (lf_threads w)\<rparr>)"
proof -
  let ?w = "w\<lparr>lf_threads := AList.delete t (lf_threads w)\<rparr>"
  have ok: "owned_ok w" "due_ok w" "intact_ok w" using assms(1) by (simp_all add: life_ok_def)
  have o: "distinct (map fst (lf_threads w))" using ok(1) by (simp add: owned_ok_def)
  have "owned_ok ?w"
    using ok(1) gather_delete [OF o assms(2), of "opt_list \<circ> th_dtapeThread"]
      gather_delete [OF o assms(2), of th_s2cSemaphores] assms(3,4)
    by (simp add: owned_ok_def distinct_delete)
  moreover have "due_ok ?w"
    using ok(2) assms(2,3) by (auto simp: due_ok_def delete_conv' thread_due_def split: option.splits)
  moreover have "intact_ok ?w"
    using ok(3) by (auto simp: intact_ok_def delete_conv' split: if_splits)
  ultimately show ?thesis by (simp add: life_ok_def)
qed

lemma Thread_dtor_ok:
  assumes "life_ok w" "map_of (lf_threads w) t = Some th" "th_dtapeThread th = None" "th_s2cSemaphores th = []"
    "Thread_dtor t w = Inr w'"
  shows "life_ok w'"
proof -
  note ok = thread_leaves [OF assms(1-4)]
  show ?thesis
  proof (cases "th_process th")
    case (Some p)
    with assms obtain x where x: "map_of (lf_procs w) p = Some x"
      by (auto simp: Thread_dtor_def Let_def split: option.splits)
    let ?ts = "AList.delete (th_nsid th) (px_threads x)"
    have "life_ok (put_proc p (x\<lparr>px_threads := ?ts\<rparr>) (w\<lparr>lf_threads := AList.delete t (lf_threads w)\<rparr>))"
      by (rule life_put_proc [OF ok]) (use x in simp_all)
    with Process_notifyDead_ok [OF this] assms(2,5) Some x show ?thesis
      by (auto simp: Thread_dtor_def Let_def split: if_splits)
  qed (use assms ok in \<open>simp add: Thread_dtor_def\<close>)
qed

section \<open>Checking in\<close>

lemma clear_threads_ok: "life_ok w \<Longrightarrow> life_ok (snd (clear_threads n ts main w))"
proof (induction n ts main w rule: clear_threads.induct)
  case (2 nspid k t ts main w)
  show ?case
  proof (cases "map_of (lf_threads w) t")
    case (Some th)
    have "life_ok (put_thread t (th\<lparr>th_process := None\<rparr>) w)"
      by (rule life_put_thread [OF 2(4) Some]) simp_all
    with 2 Some show ?thesis by (simp add: Thread_notifyDead_ok)
  qed (use 2 in simp)
qed simp

text \<open>The effect of the replacement on what exists: the new objects are numbered after the old ones.\<close>

lemma replace_task_result:
  assumes "replace_task arch p main w = Inr w'"
  obtains x th kt kd ks sl l where
    "map_of (lf_procs w) p = Some x" "map_of (lf_threads w) main = Some th"
    "px_dtapeTask x = Some kt" "th_dtapeThread th = Some kd" "px_dtapeForkWaitSemaphore x = Some ks"
    "kt \<in> set (lf_next w # lf_tasks w)" "kd \<in> set (Suc (lf_next w) # lf_dthreads w)" "ks \<in> set sl"
    "mset sl + mset (th_s2cSemaphores th) = mset (lf_sems w)" "distinct (lf_sems w) \<longrightarrow> distinct sl"
    "l = [lf_next w + 3 ..< lf_next w + 7]"
    "lf_tasks w' = remove1 kt (lf_next w # lf_tasks w)"
    "lf_dthreads w' = remove1 kd (Suc (lf_next w) # lf_dthreads w)"
    "lf_sems w' = rev l @ (lf_next w + 2) # remove1 ks sl"
    "lf_next w' = lf_next w + 7" "lf_async w' = lf_async w"
    "lf_threads w' = AList.update main (th\<lparr>th_dtapeThread := Some (Suc (lf_next w)), th_s2cSemaphores := l\<rparr>) (lf_threads w)"
    "lf_procs w' = AList.update p (x\<lparr>px_architecture := arch, px_dtapeTask := Some (lf_next w),
       px_dtapeForkWaitSemaphore := Some (lf_next w + 2), px_threads := [(th_nsid th, main)]\<rparr>) (lf_procs w)"
    "lf_events w' = lf_events w" "lf_channels w' = lf_channels w"
proof -
  let ?n = "lf_next w"
  let ?w1 = "w\<lparr>lf_next := Suc (Suc ?n), lf_tasks := ?n # lf_tasks w, lf_dthreads := Suc ?n # lf_dthreads w\<rparr>"
  obtain x th where xt: "map_of (lf_procs w) p = Some x" "map_of (lf_threads w) main = Some th"
    using assms by (auto simp: replace_task_def split: option.splits)
  note defs = replace_task_def xt task_create_def thread_create_def semaphore_create_def Let_def
    semaphore_destroy_def thread_release_def task_release_def
  have w1: "w\<lparr>lf_next := Suc (Suc ?n), lf_tasks := ?n # lf_tasks w, lf_dthreads := Suc ?n # lf_dthreads w\<rparr> =
      w\<lparr>lf_tasks := ?n # lf_tasks w, lf_next := Suc (Suc ?n), lf_dthreads := Suc ?n # lf_dthreads w\<rparr>" by simp
  obtain w2 where w2: "semaphores_destroy (th_s2cSemaphores th) ?w1 = Inr w2"
    using assms unfolding w1 by (simp add: defs split: sum.splits)
  from semaphores_destroy_result [OF w2] obtain sl where sl: "w2 = ?w1\<lparr>lf_sems := sl\<rparr>"
    "mset sl + mset (th_s2cSemaphores th) = mset (lf_sems w)" "distinct (lf_sems w) \<longrightarrow> distinct sl" by auto
  from assms w2 sl(1) obtain kt kd ks where k:
    "px_dtapeTask x = Some kt" "th_dtapeThread th = Some kd" "px_dtapeForkWaitSemaphore x = Some ks"
    "kt \<in> set (?n # lf_tasks w)" "kd \<in> set (Suc ?n # lf_dthreads w)" "ks \<in> set sl"
    unfolding w1 by (auto simp: defs split: option.splits if_splits)
  have "put_proc p (x\<lparr>px_architecture := arch, px_dtapeTask := Some ?n,
       px_dtapeForkWaitSemaphore := Some (Suc (Suc ?n)), px_threads := [(th_nsid th, main)]\<rparr>)
     (put_thread main (th\<lparr>th_dtapeThread := Some (Suc ?n), th_s2cSemaphores := [Suc (Suc (Suc ?n)) ..< 7 + ?n]\<rparr>)
     (w\<lparr>lf_dthreads := remove1 kd (Suc ?n # lf_dthreads w), lf_tasks := remove1 kt (?n # lf_tasks w),
       lf_next := 7 + ?n, lf_sems := rev [Suc (Suc (Suc ?n)) ..< 7 + ?n] @ Suc (Suc ?n) # remove1 ks sl\<rparr>)) = w'"
    using assms w2 sl(1) k unfolding w1
    by (simp add: defs semaphores_create_eq del: remove1.simps upt_Suc)
  then show thesis
    by (intro that [OF xt k sl(2,3) refl])
      (auto simp: numeral_3_eq_3 add.commute simp del: remove1.simps upt_Suc)
qed

lemma add_mset_accounts:
  "add_mset k a = add_mset m b \<Longrightarrow> c + s = d + l \<Longrightarrow> add_mset k (a + c + s) = add_mset m (b + d + l)"
  by (metis add.assoc union_mset_add_mset_left)

lemma replace_task_owned:
  assumes "owned_ok w" "replace_task arch p main w = Inr w'"
  shows "owned_ok w'"
proof -
  from assms(2) show ?thesis
  proof (cases rule: replace_task_result)
    case (1 x th kt kd ks sl l)
    let ?th = "th\<lparr>th_dtapeThread := Some (Suc (lf_next w)), th_s2cSemaphores := l\<rparr>"
    let ?x = "x\<lparr>px_architecture := arch, px_dtapeTask := Some (lf_next w),
       px_dtapeForkWaitSemaphore := Some (lf_next w + 2), px_threads := [(th_nsid th, main)]\<rparr>"
    note d = owned_distinct [OF assms(1)]
    have sub: "set sl \<subseteq> set (lf_sems w)" using 1(9) by (metis set_mset_mset set_mset_union sup_ge1)
    have lt: "k \<in> set (remove1 ks sl) \<Longrightarrow> k < lf_next w" for k
      using sub d(8) by (meson notin_set_remove1 subsetD)
    have fresh: "lf_next w \<notin> set (lf_tasks w)" "Suc (lf_next w) \<notin> set (lf_dthreads w)"
      using d(6,7) by (metis less_irrefl, metis Suc_n_not_le_n less_imp_le)
    show ?thesis
    proof (rule owned_exchange [OF assms(1), where tr = "{#kt#}" and ta = "{#lf_next w#}" and dr = "{#kd#}"
          and da = "{#Suc (lf_next w)#}" and sr = "mset (ks # th_s2cSemaphores th)" and sa = "mset ((lf_next w + 2) # l)"])
      show "mset (lf_tasks w') + {#kt#} = mset (lf_tasks w) + {#lf_next w#}"
        using 1(6,12) by auto
      show "mset (lf_dthreads w') + {#kd#} = mset (lf_dthreads w) + {#Suc (lf_next w)#}"
        using 1(7,13) by auto
      show "mset (lf_sems w') + mset (ks # th_s2cSemaphores th) = mset (lf_sems w) + mset ((lf_next w + 2) # l)"
        using 1(8) by (simp add: 1(14) 1(9) [symmetric])
      show "mset (owned_tasks w') + {#kt#} = mset (owned_tasks w) + {#lf_next w#}"
        using gather_update [OF d(1), of "opt_list \<circ> px_dtapeTask" p ?x] 1(1,3) by (simp add: 1(18))
      show "mset (owned_dthreads w') + {#kd#} = mset (owned_dthreads w) + {#Suc (lf_next w)#}"
        using gather_update [OF d(2), of "opt_list \<circ> th_dtapeThread" main ?th] 1(2,4) by (simp add: 1(17))
      show "mset (owned_sems w') + mset (ks # th_s2cSemaphores th) = mset (owned_sems w) + mset ((lf_next w + 2) # l)"
        using gather_update [OF d(1), of "opt_list \<circ> px_dtapeForkWaitSemaphore" p ?x] 1(1,5)
          gather_update [OF d(2), of th_s2cSemaphores main ?th] 1(2)
        by (simp add: 1(17,18)) (rule add_mset_accounts)
      show "distinct (lf_tasks w')" "distinct (lf_dthreads w')"
        using fresh d(3,4) by (auto simp: 1(12,13) intro!: distinct_remove1)
      have "distinct (remove1 ks sl)" using d(5) 1(10) by (simp add: distinct_remove1)
      then show "distinct (lf_sems w')" by (auto simp: 1(11,14) dest: lt)
      have "k < lf_next w'" if "k \<in> set (lf_tasks w')" for k
        using d(6) [of k] that subsetD [OF set_remove1_subset, of k kt "lf_tasks w"] by (auto simp: 1(12,15) split: if_splits)
      moreover have "k < lf_next w'" if "k \<in> set (lf_dthreads w')" for k
        using d(7) [of k] that subsetD [OF set_remove1_subset, of k kd "lf_dthreads w"] by (auto simp: 1(13,15) split: if_splits)
      moreover have "k < lf_next w'" if "k \<in> set (lf_sems w')" for k
        using lt [of k] that by (auto simp: 1(11,14,15))
      ultimately show "\<forall>k \<in> set (lf_tasks w' @ lf_dthreads w' @ lf_sems w'). k < lf_next w'" by auto
    qed (use d in \<open>simp_all add: 1(17,18) distinct_update\<close>)
  qed
qed

lemma replace_task_ok:
  assumes "life_ok w" "replace_task arch p main w = Inr w'"
  shows "life_ok w'"
proof -
  have ok: "owned_ok w" "due_ok w" "intact_ok w" using assms(1) by (simp_all add: life_ok_def)
  from assms(2) have "due_ok w' \<and> intact_ok w'"
  proof (cases rule: replace_task_result)
    case (1 x th kt kd ks sl l)
    let ?th = "th\<lparr>th_dtapeThread := Some (Suc (lf_next w)), th_s2cSemaphores := l\<rparr>"
    let ?x = "x\<lparr>px_architecture := arch, px_dtapeTask := Some (lf_next w),
       px_dtapeForkWaitSemaphore := Some (lf_next w + 2), px_threads := [(th_nsid th, main)]\<rparr>"
    let ?w = "put_proc p ?x (put_thread main ?th w)"
    have "due_ok (put_thread main ?th w)"
      by (rule due_put_thread [OF ok(2) 1(2)]) (simp add: thread_due_def 1(4))
    then have "due_ok ?w" by (rule due_put_proc [where x = x]) (use 1(1,3) in \<open>auto simp: process_due_def\<close>)
    moreover have "intact_ok ?w" using ok(3) by (intro intact_put_proc intact_put_thread) (simp_all add: process_intact_def thread_intact_def)
    ultimately show ?thesis using 1(16-18) by (auto simp: due_ok_def intact_ok_def)
  qed
  with replace_task_owned [OF ok(1) assms(2)] show ?thesis by (simp add: life_ok_def)
qed

lemma notifyCheckin_ok:
  assumes "life_ok w" "notifyCheckin arch p w = Inr w'"
  shows "life_ok w'"
proof -
  obtain x where x: "map_of (lf_procs w) p = Some x"
    using assms(2) by (auto simp: notifyCheckin_def split: option.splits)
  show ?thesis
  proof (cases "px_pendingReplacement x")
    case True
    with assms(2) x obtain main w1 w2 where r: "clear_threads (px_nspid x) (px_threads x) None w = (Some main, w1)"
      "replace_task arch p main w1 = Inr w2"
      "case map_of (lf_procs w2) p of None \<Rightarrow> w' = w2
       | Some x \<Rightarrow> w' = notifyListeningKqchannels NOTE_EXEC 0 p (put_proc p (x\<lparr>px_pendingReplacement := False\<rparr>) w2)"
      by (auto simp: notifyCheckin_def split: option.splits prod.splits sum.splits)
    from clear_threads_ok [OF assms(1), of "px_nspid x" "px_threads x" None] r(1) have "life_ok w1" by simp
    then have w2: "life_ok w2" by (rule replace_task_ok [OF _ r(2)])
    with r(3) show ?thesis
      by (auto split: option.splits intro!: notifyListening_ok intro: life_put_proc [OF w2])
  next
    case False
    have up: "life_ok w1" if "semaphore_up n w = Inr w1" for n w1
      using that assms(1) by (auto simp: semaphore_up_def split: option.splits intro: life_frame [OF assms(1)])
    from False assms x show ?thesis
      by (auto simp: notifyCheckin_def split: option.splits sum.splits if_splits intro: notifyListening_ok up)
  qed
qed

lemma life_step_ok: "life_step w w' \<Longrightarrow> life_ok w \<Longrightarrow> life_ok w'"
proof (induction rule: life_step.induct)
  case (pending_replacement w p x)
  then show ?case by (auto simp: setPendingReplacement_def intro: life_put_proc)
next
  case (async w w')
  then show ?case using run_async_ok by fastforce
qed (auto intro: Process_ctor_ok Thread_ctor_ok kernel_Thread_ctor_ok registerWithProcess_ok
  Thread_call_begins_ok Thread_call_ends_ok Thread_notifyDead_ok Process_notifyDead_ok notifyCheckin_ok Thread_dtor_ok)

interpretation life: inductive_invariant life_start life_step life_ok
proof
  show "life_ok w" if "life_start w" for w
    using that by (simp add: life_start_def life_ok_def owned_ok_def due_ok_def intact_ok_def)
  show "life_ok w'" if "life_ok w" "life_step w w'" for w w'
    using that by (rule life_step_ok [rotated])
qed

section \<open>The replacement of the task\<close>

text \<open>The loop over the threads finds the main thread and leaves it alone; the others die and forget
  the process.\<close>

definition cut_off :: "life \<Rightarrow> ptr \<Rightarrow> bool" where
  "cut_off w t \<longleftrightarrow> (\<exists>u. map_of (lf_threads w) t = Some u \<and> th_dead u \<and> th_process u = None)"

definition others_ok :: "int \<Rightarrow> ptr \<Rightarrow> life \<Rightarrow> ptr \<Rightarrow> bool" where
  "others_ok n main w t \<longleftrightarrow> t = main \<or> (\<exists>u. map_of (lf_threads w) t = Some u \<and> th_nsid u \<noteq> n)"

definition cleared_from :: "life \<Rightarrow> life \<Rightarrow> bool" where
  "cleared_from w w' \<longleftrightarrow> lf_procs w' = lf_procs w \<and> lf_events w' = lf_events w \<and>
     lf_channels w' = lf_channels w \<and> lf_tasks w' = lf_tasks w \<and> lf_dthreads w' = lf_dthreads w \<and>
     lf_sems w' = lf_sems w \<and> lf_next w' = lf_next w"

lemma kill_thread:
  assumes "map_of (lf_threads w) t = Some th"
  defines "w' \<equiv> Thread_notifyDead t (put_thread t (th\<lparr>th_process := None\<rparr>) w)"
  shows "cleared_from w w'" "cut_off w' t"
    "others_ok n main w s \<Longrightarrow> others_ok n main w' s" "cut_off w s \<Longrightarrow> cut_off w' s"
    "s \<noteq> t \<Longrightarrow> map_of (lf_threads w') s = map_of (lf_threads w) s"
proof -
  have m: "map_of (lf_threads w') s =
      (if s = t then Some (th\<lparr>th_process := None, th_dead := True\<rparr>) else map_of (lf_threads w) s)" for s
    by (cases th) (simp add: w'_def Thread_notifyDead_def Let_def alist_simps)
  show "cleared_from w w'"
    by (simp add: cleared_from_def w'_def Thread_notifyDead_def Let_def put_thread_def split: option.splits)
  show "cut_off w' t" by (simp add: cut_off_def m)
  show "others_ok n main w s \<Longrightarrow> others_ok n main w' s" using assms(1) by (auto simp: others_ok_def m)
  show "cut_off w s \<Longrightarrow> cut_off w' s" using assms(1) by (auto simp: cut_off_def m)
  show "s \<noteq> t \<Longrightarrow> map_of (lf_threads w') s = map_of (lf_threads w) s" by (simp add: m)
qed

lemma clear_threads_result:
  assumes "\<forall>t \<in> snd ` set ts. others_ok n main w t" "map_of (lf_threads w) main = Some th" "th_nsid th = n"
    "clear_threads n ts m w = (m', w')"
  shows "m' = (if main \<in> snd ` set ts then Some main else m) \<and> cleared_from w w' \<and>
    map_of (lf_threads w') main = Some th \<and>
    (\<forall>t. t \<in> snd ` set ts \<and> t \<noteq> main \<or> cut_off w t \<longrightarrow> cut_off w' t)"
  using assms
proof (induction n ts m w rule: clear_threads.induct)
  case (1 n m w)
  then show ?case by (simp add: cleared_from_def)
next
  case (2 n k t ts m w)
  show ?case
  proof (cases "t = main")
    case True
    with 2(1,2,3) 2(5-7) 2(4) show ?thesis by auto
  next
    case False
    with 2(4) obtain u where u: "map_of (lf_threads w) t = Some u" "th_nsid u \<noteq> n"
      by (auto simp: others_ok_def)
    let ?w = "Thread_notifyDead t (put_thread t (u\<lparr>th_process := None\<rparr>) w)"
    note k = kill_thread [OF u(1)]
    have "m' = (if main \<in> snd ` set ts then Some main else m) \<and> cleared_from ?w w' \<and>
      map_of (lf_threads w') main = Some th \<and>
      (\<forall>t. t \<in> snd ` set ts \<and> t \<noteq> main \<or> cut_off ?w t \<longrightarrow> cut_off w' t)"
      by (rule 2(3) [OF u]) (use 2(4-7) k False u in simp_all)
    with k False show ?thesis by (auto simp: cleared_from_def)
  qed
qed

lemma replace_task_works:
  assumes "life_ok w" "map_of (lf_procs w) p = Some x" "\<not> px_dead x"
    "map_of (lf_threads w) main = Some th" "\<not> th_dead th"
  shows "\<exists>w'. replace_task arch p main w = Inr w'"
proof -
  have ok: "owned_ok w" using assms(1) by (simp add: life_ok_def)
  obtain kt ks kd where k: "px_dtapeTask x = Some kt" "px_dtapeForkWaitSemaphore x = Some ks"
    "th_dtapeThread th = Some kd"
    using life_intact(2) [OF assms(1,2)] life_intact(1) [OF assms(1,4)] assms(3,5)
    by (auto simp: process_intact_def thread_intact_def)
  note own = owned_parts(1) [OF ok assms(4) k(3)] owned_parts(3) [OF ok assms(2) k(1)]
  have "{#ks#} \<subseteq># mset (gather (opt_list \<circ> px_dtapeForkWaitSemaphore) (lf_procs w))"
    using gather_member [OF assms(2), of "opt_list \<circ> px_dtapeForkWaitSemaphore"] k(2) by simp
  moreover have "mset (th_s2cSemaphores th) \<subseteq># mset (gather th_s2cSemaphores (lf_threads w))"
    by (rule gather_member [OF assms(4)])
  ultimately have sub: "{#ks#} + mset (th_s2cSemaphores th) \<subseteq># mset (lf_sems w)"
    using ok unfolding owned_ok_def by (metis mset_append subset_mset.add_mono)
  let ?w1 = "w\<lparr>lf_tasks := lf_next w # lf_tasks w, lf_next := Suc (Suc (lf_next w)),
    lf_dthreads := Suc (lf_next w) # lf_dthreads w\<rparr>"
  obtain w2 where "semaphores_destroy (th_s2cSemaphores th) ?w1 = Inr w2"
    using semaphores_destroy_works [of "th_s2cSemaphores th" ?w1] owned_parts(2) [OF ok assms(4)]
    by auto
  with semaphores_destroy_result obtain sl where sl: "semaphores_destroy (th_s2cSemaphores th) ?w1 = Inr (?w1\<lparr>lf_sems := sl\<rparr>)"
    "mset sl + mset (th_s2cSemaphores th) = mset (lf_sems w)" by fastforce
  have "ks \<in> set sl" using sub unfolding sl(2) [symmetric] by simp
  with sl(1) own show ?thesis
    by (simp add: replace_task_def assms(2,4) k task_create_def thread_create_def semaphore_destroy_def
      thread_release_def task_release_def semaphore_create_def semaphores_create_eq)
qed

section \<open>Properties\<close>

definition life_empty :: life where
  "life_empty = \<lparr>lf_procs = [], lf_threads = [], lf_channels = [9], lf_next = 0, lf_tasks = [],
     lf_dthreads = [], lf_sems = [], lf_ups = [], lf_async = [], lf_processRegistry = [],
     lf_threadRegistry = [], lf_events = []\<rparr>"

text \<open>A process at address 1 with its main thread at 5 and another thread at 6.\<close>

definition life_two_threads :: life where
  "life_two_threads = registerWithProcess 6 (Thread_ctor 6 2 1 (registerWithProcess 5 (Thread_ctor 5 1 1
     (Process_ctor 1 100 1 0 None life_empty))))"

lemma life_two_threads_reached: "reach life_start life_step life_two_threads"
proof -
  let ?w1 = "Process_ctor 1 100 1 0 None life_empty"
  let ?w2 = "registerWithProcess 5 (Thread_ctor 5 1 1 ?w1)"
  have "reach life_start life_step life_empty"
    by (rule reach_start) (simp add: life_start_def life_empty_def)
  then have "reach life_start life_step ?w1"
    by (rule reach_next) (rule new_process, simp add: life_empty_def)
  then have "reach life_start life_step ?w2"
    by (rule reach_next) (rule new_thread, code_simp)
  then show ?thesis unfolding life_two_threads_def
    by (rule reach_next) (rule new_thread, code_simp)
qed

text \<open>C4: In every run of the operations on processes and threads, the duct-taped tasks, threads and
  semaphores that exist are exactly those that the processes and threads own, each owned once. The
  scheduled releases always find what they are to release. When none is outstanding, a dead process and
  a dead thread without an active call own nothing any more.\<close>

theorem duct_taped_objects_released_once:
  assumes "reach life_start life_step w"
  shows "mset (lf_tasks w) = mset (owned_tasks w) \<and> distinct (lf_tasks w) \<and>
    mset (lf_dthreads w) = mset (owned_dthreads w) \<and> distinct (lf_dthreads w) \<and>
    mset (lf_sems w) = mset (owned_sems w) \<and> distinct (lf_sems w) \<and>
    (\<exists>w'. run_async w = Inr w') \<and>
    (lf_async w = [] \<longrightarrow>
       (\<forall>t th. map_of (lf_threads w) t = Some th \<and> th_dead th \<and> \<not> th_activeCall th \<longrightarrow>
          th_dtapeThread th = None \<and> th_s2cSemaphores th = []) \<and>
       (\<forall>p x. map_of (lf_procs w) p = Some x \<and> px_dead x \<longrightarrow>
          px_dtapeTask x = None \<and> px_dtapeForkWaitSemaphore x = None))"
proof -
  have ok: "life_ok w" by (rule life.holds_when_reached [OF assms])
  then have own: "owned_ok w" and due: "due_ok w" by (simp_all add: life_ok_def)
  have "th_dtapeThread th = None \<and> th_s2cSemaphores th = []"
    if "lf_async w = []" "map_of (lf_threads w) t = Some th" "th_dead th" "\<not> th_activeCall th" for t th
  proof -
    have "count_list (lf_async w) (Release_thread t) = of_bool (thread_due th)"
      using due that(2) by (simp add: due_ok_def)
    with that life_intact(1) [OF ok that(2)] show ?thesis
      by (simp add: thread_due_def thread_intact_def)
  qed
  moreover have "px_dtapeTask x = None \<and> px_dtapeForkWaitSemaphore x = None"
    if "lf_async w = []" "map_of (lf_procs w) p = Some x" "px_dead x" for p x
  proof -
    have "count_list (lf_async w) (Release_task p) = of_bool (process_due x)"
      using due that(2) by (simp add: due_ok_def)
    with that life_intact(2) [OF ok that(2)] show ?thesis
      by (auto simp: process_due_def process_intact_def)
  qed
  ultimately show ?thesis using own run_async_ok [OF ok] unfolding owned_ok_def by blast
qed

text \<open>Witness: the process has died and everything was released.\<close>

theorem duct_taped_objects_released_once_witness:
  "\<exists>w. reach life_start life_step w \<and> lf_async w = [] \<and>
     (\<exists>x. map_of (lf_procs w) 1 = Some x \<and> px_dead x \<and> px_dtapeTask x = None) \<and> lf_dthreads w = []"
proof -
  let ?w = "Process_notifyDead 1 life_two_threads"
  have r0: "reach life_start life_step ?w"
    by (rule reach_next [OF life_two_threads_reached process_dies])
  define w1 where "w1 = projr (run_async ?w)"
  have r1: "reach life_start life_step w1"
    by (rule reach_next [OF r0 async]) (simp add: w1_def, code_simp)
  define w2 where "w2 = projr (run_async w1)"
  have r2: "reach life_start life_step w2"
    by (rule reach_next [OF r1 async]) (simp add: w2_def w1_def, code_simp)
  define w3 where "w3 = projr (run_async w2)"
  have r3: "reach life_start life_step w3"
    by (rule reach_next [OF r2 async]) (simp add: w3_def w2_def w1_def, code_simp)
  have d: "lf_async w3 = []" "owned_dthreads w3 = []" "map_option px_dead (map_of (lf_procs w3) 1) = Some True"
    unfolding w3_def w2_def w1_def by code_simp+
  then obtain x where "map_of (lf_procs w3) 1 = Some x" "px_dead x" by auto
  with d(1,2) duct_taped_objects_released_once [OF r3] r3 show ?thesis
    by (intro exI [of _ w3]) auto
qed

text \<open>C24: The checkin of a living process after an exec finds its living main thread, cuts off all other
  threads, gives the process a task that it did not have before, destroys the old one, keeps only the
  main thread, and announces the exec to the listening channels.\<close>

theorem checkin_replaces_task:
  assumes "reach life_start life_step w" "map_of (lf_procs w) p = Some x" "\<not> px_dead x"
    "px_pendingReplacement x" "main \<in> snd ` set (px_threads x)" "map_of (lf_threads w) main = Some th"
    "th_nsid th = px_nspid x" "\<not> th_dead th"
    "\<forall>t \<in> snd ` set (px_threads x). t \<noteq> main \<longrightarrow>
       (\<exists>u. map_of (lf_threads w) t = Some u \<and> th_nsid u \<noteq> px_nspid x)"
  shows "\<exists>w' x' k k'. notifyCheckin arch p w = Inr w' \<and> map_of (lf_procs w') p = Some x' \<and>
     px_architecture x' = arch \<and> \<not> px_pendingReplacement x' \<and> px_threads x' = [(px_nspid x, main)] \<and>
     px_dtapeTask x = Some k \<and> px_dtapeTask x' = Some k' \<and>
     k \<in> set (lf_tasks w) \<and> k \<notin> set (lf_tasks w') \<and> k' \<notin> set (lf_tasks w) \<and> k' \<in> set (lf_tasks w') \<and>
     (\<forall>t \<in> snd ` set (px_threads x). t \<noteq> main \<longrightarrow> cut_off w' t) \<and>
     lf_events w' = lf_events w @
       map (\<lambda>c. (c, NOTE_EXEC, 0)) (filter (\<lambda>c. c \<in> set (lf_channels w)) (px_listeningKqchannels x))"
proof -
  let ?n = "px_nspid x"
  have ok: "life_ok w" by (rule life.holds_when_reached [OF assms(1)])
  obtain m w1 where c: "clear_threads ?n (px_threads x) None w = (m, w1)" by fastforce
  have "\<forall>t \<in> snd ` set (px_threads x). others_ok ?n main w t"
    using assms(9) by (auto simp: others_ok_def)
  from clear_threads_result [OF this assms(6,7) c] assms(5)
  have r: "m = Some main" "cleared_from w w1" "map_of (lf_threads w1) main = Some th"
    "\<forall>t \<in> snd ` set (px_threads x). t \<noteq> main \<longrightarrow> cut_off w1 t" by auto
  have ok1: "life_ok w1" using clear_threads_ok [OF ok, of ?n "px_threads x" None] c by simp
  have p1: "map_of (lf_procs w1) p = Some x" using r(2) assms(2) by (simp add: cleared_from_def)
  obtain w2 where w2: "replace_task arch p main w1 = Inr w2"
    using replace_task_works [OF ok1 p1 assms(3) r(3) assms(8)] by blast
  then show ?thesis
  proof (cases rule: replace_task_result)
    case (1 y u kt kd ks sl l)
    have yu: "y = x" "u = th" using 1(1,2) p1 r(3) by simp_all
    have own: "owned_ok w1" using ok1 by (simp add: life_ok_def)
    note d = owned_distinct [OF own]
    have fresh: "lf_next w1 \<notin> set (lf_tasks w1)" using d(6) by auto
    have kt: "kt \<in> set (lf_tasks w1)" using owned_parts(3) [OF own p1] 1(3) yu by simp
    have cut: "cut_off w2 t" if "cut_off w1 t" "t \<noteq> main" for t
      using that by (simp add: cut_off_def 1(17) alist_simps)
    define x2 where "x2 = x\<lparr>px_architecture := arch, px_dtapeTask := Some (lf_next w1),
       px_dtapeForkWaitSemaphore := Some (lf_next w1 + 2), px_threads := [(px_nspid x, main)],
       px_pendingReplacement := False\<rparr>"
    define w3 where "w3 = notifyListeningKqchannels NOTE_EXEC 0 p (put_proc p x2 w2)"
    have "notifyCheckin arch p w = Inr w3"
      using c r(1) w2 assms(2,4,7) by (simp add: notifyCheckin_def w3_def x2_def 1(18) yu alist_simps)
    moreover have "map_of (lf_procs w3) p = Some x2" "lf_tasks w3 = lf_tasks w2" "lf_threads w3 = lf_threads w2"
      "lf_events w3 = lf_events w1 @
        map (\<lambda>c. (c, NOTE_EXEC, 0)) (filter (\<lambda>c. c \<in> set (lf_channels w1)) (px_listeningKqchannels x))"
      by (simp_all add: w3_def notifyListeningKqchannels_def alist_simps 1(19,20) x2_def)
    moreover have "kt \<notin> set (lf_tasks w2)" "lf_next w1 \<in> set (lf_tasks w2)"
      using fresh kt d(3) by (auto simp: 1(12))
    moreover have "cut_off w2 t" if "t \<in> snd ` set (px_threads x)" "t \<noteq> main" for t
      using cut that r(4) by blast
    then have "cut_off w3 t" if "t \<in> snd ` set (px_threads x)" "t \<noteq> main" for t
      using that calculation(4) by (simp add: cut_off_def)
    ultimately show ?thesis
      using r(2) fresh kt 1(3) yu
      by (intro exI [of _ w3] exI [of _ x2] exI [of _ kt] exI [of _ "lf_next w1"])
        (simp add: x2_def cleared_from_def)
  qed
qed

text \<open>Witness: an exec of the process with two threads.\<close>

theorem checkin_replaces_task_witness:
  "\<exists>w' x'. notifyCheckin 7 1 (put_proc 1 (setPendingReplacement (the (map_of (lf_procs life_two_threads) 1)))
      life_two_threads) = Inr w' \<and>
     map_of (lf_procs w') 1 = Some x' \<and> px_architecture x' = 7 \<and> px_threads x' = [(1, 5)] \<and> cut_off w' 6"
proof -
  define x where "x = the (map_of (lf_procs life_two_threads) 1)"
  define y where "y = setPendingReplacement x"
  define w where "w = put_proc 1 y life_two_threads"
  have x: "map_of (lf_procs life_two_threads) 1 = Some x" unfolding x_def by code_simp
  have r: "reach life_start life_step w"
    unfolding w_def y_def by (rule reach_next [OF life_two_threads_reached pending_replacement [OF x]])
  have y: "px_threads y = [(1, 5), (2, 6)]" "px_nspid y = 1" "\<not> px_dead y" "px_pendingReplacement y"
    unfolding y_def x_def by code_simp+
  have p: "map_of (lf_procs w) 1 = Some y" by (simp add: w_def alist_simps)
  obtain u v where t: "map_of (lf_threads w) 5 = Some u" "th_nsid u = 1" "\<not> th_dead u"
    "map_of (lf_threads w) 6 = Some v" "th_nsid v = 2"
  proof
    show "map_of (lf_threads w) 5 = Some (the (map_of (lf_threads life_two_threads) 5))"
      "map_of (lf_threads w) 6 = Some (the (map_of (lf_threads life_two_threads) 6))"
      by (simp_all add: w_def) code_simp+
  qed code_simp+
  from checkin_replaces_task [OF r p y(3,4) _ t(1) _ t(3), of 7] y t
  show ?thesis by (fastforce simp: w_def y_def x_def)
qed

end
