(* ===== verification/Interrupts.thy ===== *)
theory Interrupts
  imports Microthread
begin

text \<open>
  Interrupts: how a client thread that is stopped by a signal, in the middle of a call or between
  two calls, takes part in the protocol of \<open>interrupt_enter\<close>, \<open>interrupt_exit\<close> and \<open>push_reply\<close>
  (\<open>src/src/thread.cpp\<close>, \<open>src/src/call.cpp\<close>).

  The operations of the server are functions on the thread of \<open>Microthread\<close>. They are composed
  with the client's side of the protocol, which the client library of the generated wrappers
  implements: a call is sent and its reply awaited, a signal may arrive while an ordinary call is
  awaited, and a reply that is not the awaited one is pushed back to the server. The generated
  wrappers compare the numbers of call and reply; here calls are told apart one by one, so that a
  reply to another call of the same number counts as wrong.
\<close>

section \<open>Replies and interrupts\<close>

text \<open>
  A reply is represented by the call that it answers. \<open>pushCallReply\<close> gives the reply that is
  sent now, if any. (Replies deferred during a server-to-client call are in \<open>S2C\<close>.)
\<close>

definition pushCallReply :: "call \<Rightarrow> microthread \<Rightarrow> (call option \<times> microthread) result" where
  "pushCallReply c m =
     (case deactivateCall c m of
        Inl e \<Rightarrow> Inl e
      | Inr m \<Rightarrow>
          if mt_interruptedForSignal m then
            (case mt_interrupts m of
               [] \<Rightarrow> Inl (Undefined_behaviour ''empty stack of interrupts'')
             | i # is \<Rightarrow>
                 if in_savedReply i \<noteq> None
                 then Inl (Runtime_error ''New reply would overwrite existing saved reply'')
                 else Inr (None, m\<lparr>mt_interrupts := i\<lparr>in_savedReply := Some c\<rparr> # is\<rparr>))
          else Inr (if mt_dead m then None else Some c, m))"

text \<open>
  The two locked sections of \<open>_handleInterruptEnterForCurrentThread\<close>. In between, the interrupted
  call is resumed, if there is one: the first section says so.
\<close>

definition interruptEnter_begin ::
  "call option \<Rightarrow> microthread \<Rightarrow> (bool \<times> microthread) result" where
  "interruptEnter_begin pendingSavedReply m =
     (case mt_interrupts m of
        [] \<Rightarrow> Inl (Undefined_behaviour ''empty stack of interrupts'')
      | i # is \<Rightarrow>
          if pendingSavedReply \<noteq> None \<and> in_savedReply i \<noteq> None
          then Inl (Runtime_error ''Pending saved reply would overwrite saved reply'')
          else
            (let i = (if pendingSavedReply \<noteq> None then i\<lparr>in_savedReply := pendingSavedReply\<rparr> else i) in
             Inr (mt_interruptedContinuation m \<or> in_interruptedCall i \<noteq> None,
                  m\<lparr>mt_interrupts := i # is, mt_interruptedForSignal := True,
                    mt_interruptedContinuation := False\<rparr>)))"

definition interruptEnter_end :: "microthread \<Rightarrow> microthread result" where
  "interruptEnter_end m =
     (case mt_interrupts m of
        [] \<Rightarrow> Inl (Undefined_behaviour ''empty stack of interrupts'')
      | i # is \<Rightarrow>
          Inr (m\<lparr>mt_interrupts := i\<lparr>in_savedStack := False, in_interruptedCall := None\<rparr> # is,
                 mt_interruptedForSignal := False\<rparr>))"

text \<open>The call of which \<open>syscallReturn\<close> is the end.\<close>

definition syscallReturn_call :: "microthread \<Rightarrow> call option" where
  "syscallReturn_call m =
     (if mt_interruptedForSignal m
      then (case mt_interrupts m of [] \<Rightarrow> None | i # is \<Rightarrow> in_interruptedCall i)
      else mt_activeCall m)"

text \<open>The end of \<open>InterruptExit\<close>, after its own reply: the saved reply that is sent, if any.\<close>

definition interruptExit_pop :: "microthread \<Rightarrow> (call option \<times> microthread) result" where
  "interruptExit_pop m =
     (case mt_interrupts m of
        [] \<Rightarrow> Inl (Undefined_behaviour ''empty stack of interrupts'')
      | i # is \<Rightarrow> Inr (in_savedReply i, m\<lparr>mt_interrupts := is\<rparr>))"

text \<open>Where a reply that the client pushes back is saved: \<open>_pendingSavedReply\<close> and the thread.\<close>

definition push_reply ::
  "call \<Rightarrow> call option \<Rightarrow> microthread \<Rightarrow> (call option \<times> microthread) result" where
  "push_reply r pendingSavedReply m =
     (case mt_pendingCall m of
        Some (Interrupt_enter _) \<Rightarrow> Inr (Some r, m)
      | _ \<Rightarrow>
          (case mt_interrupts m of
             [] \<Rightarrow> Inl (Runtime_error ''Client tried to push reply outside of interrupt'')
           | i # is \<Rightarrow>
               if in_savedReply i \<noteq> None
               then Inl (Runtime_error ''Client-pushed reply overwriting existing saved reply'')
               else Inr (pendingSavedReply, m\<lparr>mt_interrupts := i\<lparr>in_savedReply := Some r\<rparr> # is\<rparr>)))"

section \<open>The thread and its client\<close>

datatype client_message = Send_call call | Push_reply call

text \<open>
  What the client does at one level of nesting: nothing of the protocol, waiting for the reply to a
  call, or waiting until the server has taken the reply pushed back to it. A signal adds a level.
\<close>

datatype client_level = Idle | Awaits call | Pushing call

text \<open>
  Where the worker that runs the thread stands. A call that is resumed inside an interrupt and waits
  again keeps the worker at \<open>In_interrupted\<close>: until it has replied the thread does nothing else
  (\<open>_pendingCallOverride\<close>).
\<close>

datatype run_pc =
    Not_run
  | Top_of_run
  | Starts_call
  | Enters_interrupt
  | In_interrupted
  | Leaves_interrupt
  | In_call
  | Exits_interrupt
  | Back

record talk =
  tk_thread :: microthread
  tk_pendingSavedReply :: "call option"
  tk_pc :: run_pc
  tk_queued :: nat
  tk_up :: "client_message list"
  tk_down :: "call list"
  tk_client :: "client_level list"
  tk_next :: nat
  tk_failed :: "exn option"

definition talk_start :: talk where
  "talk_start =
     \<lparr>tk_thread = Thread_new, tk_pendingSavedReply = None, tk_pc = Not_run, tk_queued = 0,
      tk_up = [], tk_down = [], tk_client = [Idle], tk_next = 0, tk_failed = None\<rparr>"

definition fail :: "exn \<Rightarrow> talk \<Rightarrow> talk" where
  "fail e s = s\<lparr>tk_failed := Some e\<rparr>"

definition at_pc :: "run_pc \<Rightarrow> microthread \<Rightarrow> talk \<Rightarrow> talk" where
  "at_pc pc m s = s\<lparr>tk_pc := pc, tk_thread := m\<rparr>"

definition send_up :: "client_message \<Rightarrow> client_level list \<Rightarrow> talk \<Rightarrow> talk" where
  "send_up msg ls s = s\<lparr>tk_up := tk_up s @ [msg], tk_client := ls, tk_next := Suc (tk_next s)\<rparr>"

datatype talk_action =
    Client_call
  | Client_signal
  | Client_exit
  | Client_receive
  | Server_receive
  | Pick_run
  | Dispatch_run
  | Activate_call
  | Begin_interrupt
  | Reply_interrupted
  | End_interrupt
  | Reply_active
  | Pop_interrupt
  | Suspend_call bool
  | Back_to_top
  | Wake_up

definition rpc_receive :: "talk \<Rightarrow> talk option" where
  "rpc_receive s =
     (case tk_down s of
        [] \<Rightarrow> None
      | r # rs \<Rightarrow>
          (let s = s\<lparr>tk_down := rs\<rparr> in
           case tk_client s of
             Awaits c # ls \<Rightarrow>
               if r = c then
                 Some (s\<lparr>tk_client := (case c of Interrupt_exit _ \<Rightarrow> ls | _ \<Rightarrow> Idle # ls)\<rparr>)
               else
                 (case c of
                    Interrupt_enter _ \<Rightarrow> Some (send_up (Push_reply r) (Pushing c # ls) s)
                  | _ \<Rightarrow> Some (fail (Runtime_error ''Unexpected reply'') s))
           | Idle # ls \<Rightarrow> Some (fail (Runtime_error ''Unexpected reply'') s)
           | _ \<Rightarrow> None))"

definition server_receive :: "talk \<Rightarrow> talk option" where
  "server_receive s =
     (case tk_up s of
        [] \<Rightarrow> None
      | Send_call c # us \<Rightarrow>
          (case setPendingCall c (tk_thread s) of
             Inl e \<Rightarrow> Some (fail e s)
           | Inr m \<Rightarrow> Some (s\<lparr>tk_up := us, tk_thread := m, tk_queued := Suc (tk_queued s)\<rparr>))
      | Push_reply r # us \<Rightarrow>
          (case push_reply r (tk_pendingSavedReply s) (tk_thread s) of
             Inl e \<Rightarrow> Some (fail e s)
           | Inr (p, m) \<Rightarrow>
               Some (s\<lparr>tk_up := us, tk_thread := m, tk_pendingSavedReply := p,
                  tk_client := (case tk_client s of Pushing c # ls \<Rightarrow> Awaits c # ls | ls \<Rightarrow> ls)\<rparr>)))"

definition end_of_run :: "microthread \<Rightarrow> talk \<Rightarrow> talk option" where
  "end_of_run m s =
     (case doneWorking m of
        Inl e \<Rightarrow> Some (fail e s)
      | Inr (r, m) \<Rightarrow>
          Some (at_pc Not_run m (s\<lparr>tk_queued := tk_queued s + of_bool (dr_schedule r)\<rparr>)))"

text \<open>
  \<open>prompt\<close> says that the server takes no message of this thread between the moment at which a
  worker has sent a reply and its return to the top of \<open>doWork\<close>. Nothing in the server ensures it.
  A step that throws sets \<open>tk_failed\<close>, and so does a client that reads a reply to something
  else than what it waits for.
\<close>

fun talk_exec :: "bool \<Rightarrow> talk_action \<Rightarrow> talk \<Rightarrow> talk option" where
  "talk_exec prompt Client_call s =
     (case tk_client s of
        Idle # ls \<Rightarrow> (let c = Ordinary (tk_next s) in Some (send_up (Send_call c) (Awaits c # ls) s))
      | _ \<Rightarrow> None)"
| "talk_exec prompt Client_signal s =
     (let c = Interrupt_enter (tk_next s) in
      case tk_client s of
        Idle # ls \<Rightarrow> Some (send_up (Send_call c) (Awaits c # Idle # ls) s)
      | Awaits (Ordinary n) # ls \<Rightarrow>
          Some (send_up (Send_call c) (Awaits c # Awaits (Ordinary n) # ls) s)
      | _ \<Rightarrow> None)"
| "talk_exec prompt Client_exit s =
     (let c = Interrupt_exit (tk_next s) in
      case tk_client s of
        Idle # l # ls \<Rightarrow> Some (send_up (Send_call c) (Awaits c # l # ls) s)
      | _ \<Rightarrow> None)"
| "talk_exec prompt Client_receive s = rpc_receive s"
| "talk_exec prompt Server_receive s =
     (if prompt \<and> tk_pc s \<in> {Exits_interrupt, Back} then None else server_receive s)"
| "talk_exec prompt Pick_run s =
     (if tk_queued s = 0 then None
      else
        (let s = s\<lparr>tk_queued := tk_queued s - 1\<rparr> in
         case doWork_enter (tk_thread s) of
           (Runs, m) \<Rightarrow> Some (at_pc Top_of_run m s)
         | (_, m) \<Rightarrow> Some (s\<lparr>tk_thread := m\<rparr>)))"
| "talk_exec prompt Dispatch_run s =
     (if tk_pc s \<noteq> Top_of_run then None
      else
        (case doWork_dispatch (tk_thread s) of
           Inl e \<Rightarrow> Some (fail e s)
         | Inr (Nothing, m) \<Rightarrow> end_of_run m s
         | Inr (Resume, m) \<Rightarrow> Some (at_pc In_call m s)
         | Inr (Continue, m) \<Rightarrow> Some (at_pc In_call (microthreadContinuation m) s)
         | Inr (Start, m) \<Rightarrow> Some (at_pc Starts_call m s)))"
| "talk_exec prompt Activate_call s =
     (if tk_pc s \<noteq> Starts_call then None
      else
        (let m = makePendingCallActive (tk_thread s) in
         case mt_activeCall m of
           Some (Interrupt_enter _) \<Rightarrow> Some (at_pc Enters_interrupt m s)
         | _ \<Rightarrow> Some (at_pc In_call m s)))"
| "talk_exec prompt Begin_interrupt s =
     (if tk_pc s \<noteq> Enters_interrupt then None
      else
        (case interruptEnter_begin (tk_pendingSavedReply s) (tk_thread s) of
           Inl e \<Rightarrow> Some (fail e s)
         | Inr (resumes, m) \<Rightarrow>
             Some (at_pc (if resumes then In_interrupted else Leaves_interrupt) m
               (s\<lparr>tk_pendingSavedReply := None\<rparr>))))"
| "talk_exec prompt Reply_interrupted s =
     (if tk_pc s \<noteq> In_interrupted then None
      else
        (case syscallReturn_call (tk_thread s) of
           None \<Rightarrow> Some (fail (Runtime_error ''Attempt to return from syscall on thread with no active syscall'') s)
         | Some c \<Rightarrow>
             (case pushCallReply c (tk_thread s) of
                Inl e \<Rightarrow> Some (fail e s)
              | Inr (r, m) \<Rightarrow> Some (at_pc Leaves_interrupt m (s\<lparr>tk_down := tk_down s @ opt_list r\<rparr>)))))"
| "talk_exec prompt End_interrupt s =
     (if tk_pc s \<noteq> Leaves_interrupt then None
      else
        (case interruptEnter_end (tk_thread s) of
           Inl e \<Rightarrow> Some (fail e s)
         | Inr m \<Rightarrow> Some (at_pc In_call m s)))"
| "talk_exec prompt Reply_active s =
     (if tk_pc s \<noteq> In_call then None
      else
        (case syscallReturn_call (tk_thread s) of
           None \<Rightarrow> Some (fail (Runtime_error ''Attempt to return from syscall on thread with no active syscall'') s)
         | Some c \<Rightarrow>
             (case pushCallReply c (tk_thread s) of
                Inl e \<Rightarrow> Some (fail e s)
              | Inr (r, m) \<Rightarrow>
                  Some (at_pc (case c of Interrupt_exit _ \<Rightarrow> Exits_interrupt | _ \<Rightarrow> Back) m
                    (s\<lparr>tk_down := tk_down s @ opt_list r\<rparr>)))))"
| "talk_exec prompt Pop_interrupt s =
     (if tk_pc s \<noteq> Exits_interrupt then None
      else
        (case interruptExit_pop (tk_thread s) of
           Inl e \<Rightarrow> Some (fail e s)
         | Inr (r, m) \<Rightarrow> Some (at_pc Back m (s\<lparr>tk_down := tk_down s @ opt_list r\<rparr>))))"
| "talk_exec prompt (Suspend_call continuation) s =
     (if tk_pc s \<noteq> In_call then None
      else
        (case mt_activeCall (tk_thread s) of
           Some (Ordinary _) \<Rightarrow>
             (case suspend_begin True 0 (tk_thread s) of
                Inl e \<Rightarrow> Some (fail e s)
              | Inr m \<Rightarrow>
                  (case suspend_switch continuation m of
                     Inl e \<Rightarrow> Some (fail e s)
                   | Inr (_, m) \<Rightarrow> Some (at_pc Back m s)))
         | _ \<Rightarrow> None))"
| "talk_exec prompt Back_to_top s =
     (if tk_pc s \<noteq> Back then None
      else
        end_of_run (back_at_top (tk_thread s)) s)"
| "talk_exec prompt Wake_up s =
     Some (s\<lparr>tk_queued := tk_queued s + of_bool (resume (tk_thread s))\<rparr>)"

inductive talk_step :: "bool \<Rightarrow> talk \<Rightarrow> talk \<Rightarrow> bool" for prompt where
  step: "tk_failed s = None \<Longrightarrow> talk_exec prompt a s = Some s' \<Longrightarrow> talk_step prompt s s'"

fun talk_run :: "bool \<Rightarrow> talk_action list \<Rightarrow> talk \<Rightarrow> talk option" where
  "talk_run prompt [] s = Some s"
| "talk_run prompt (a # as) s =
     (if tk_failed s \<noteq> None then None
      else case talk_exec prompt a s of None \<Rightarrow> None | Some s' \<Rightarrow> talk_run prompt as s')"

section \<open>The invariant\<close>

text \<open>
  Every call that the client waits for is in exactly one place. The line of what is still to come
  back to the client starts with the replies on their way, followed by the calls that are
  executed, pending and sent. Calls that were interrupted, and replies that came too early, are in
  the frames of the stack of interrupts, one for each level of the client below the top.
\<close>

definition slot :: "interrupt_context \<Rightarrow> call option" where
  "slot i = (case in_interruptedCall i of None \<Rightarrow> in_savedReply i | Some c \<Rightarrow> Some c)"

fun calls_of :: "client_message list \<Rightarrow> call list" where
  "calls_of [] = []"
| "calls_of (Send_call c # us) = c # calls_of us"
| "calls_of (Push_reply r # us) = calls_of us"

fun pushes_of :: "client_message list \<Rightarrow> call list" where
  "pushes_of [] = []"
| "pushes_of (Send_call c # us) = pushes_of us"
| "pushes_of (Push_reply r # us) = r # pushes_of us"

fun up_ok :: "client_message list \<Rightarrow> bool" where
  "up_ok [] = True"
| "up_ok (Send_call c # us) = up_ok us"
| "up_ok (Push_reply r # us) = (calls_of us = [] \<and> up_ok us)"

definition frames :: "talk \<Rightarrow> call option list" where
  "frames s =
     map slot (if tk_pc s = Exits_interrupt then tl (mt_interrupts (tk_thread s))
               else mt_interrupts (tk_thread s))"

definition line :: "talk \<Rightarrow> call list" where
  "line s =
     tk_down s @
     (if tk_pc s = Exits_interrupt then opt_list (in_savedReply (hd (mt_interrupts (tk_thread s)))) else []) @
     opt_list (mt_activeCall (tk_thread s)) @ opt_list (mt_pendingCall (tk_thread s)) @
     mt_pendingInterrupts (tk_thread s) @ calls_of (tk_up s)"

fun is_enter :: "call \<Rightarrow> bool" where
  "is_enter (Interrupt_enter _) = True"
| "is_enter _ = False"

fun is_exit :: "call \<Rightarrow> bool" where
  "is_exit (Interrupt_exit _) = True"
| "is_exit _ = False"

fun is_ordinary :: "call \<Rightarrow> bool" where
  "is_ordinary (Ordinary _) = True"
| "is_ordinary _ = False"

text \<open>An \<open>interrupt_enter\<close> that has not interrupted the thread yet; an answered \<open>interrupt_exit\<close>.\<close>

definition enter_waits :: "talk \<Rightarrow> bool" where
  "enter_waits s =
     list_ex is_enter ((if tk_pc s = Starts_call then [] else opt_list (mt_pendingCall (tk_thread s))) @
       mt_pendingInterrupts (tk_thread s) @ calls_of (tk_up s))"

definition exit_answered :: "talk \<Rightarrow> bool" where
  "exit_answered s = list_ex is_exit (tk_down s)"

fun level_out :: "client_level \<Rightarrow> call option" where
  "level_out (Awaits c) = Some c"
| "level_out _ = None"

fun lower_level :: "client_level \<Rightarrow> bool" where
  "lower_level Idle = True"
| "lower_level (Awaits c) = is_ordinary c"
| "lower_level (Pushing c) = False"

definition stacked :: "client_level list \<Rightarrow> call option list \<Rightarrow> bool" where
  "stacked ls ks = (list_all lower_level ls \<and> ks = map level_out ls)"

fun levels_ok ::
  "client_level list \<Rightarrow> call list \<Rightarrow> call list \<Rightarrow> call option \<Rightarrow> call option list \<Rightarrow> bool \<Rightarrow> bool \<Rightarrow> bool" where
  "levels_ok (Idle # ls) q pushes psr ks waits answered =
     (q = [] \<and> pushes = [] \<and> psr = None \<and> stacked ls ks)"
| "levels_ok (Awaits (Ordinary n) # ls) q pushes psr ks waits answered =
     (q = [Ordinary n] \<and> pushes = [] \<and> psr = None \<and> stacked ls ks)"
| "levels_ok (Awaits (Interrupt_exit n) # l # ls) q pushes psr ks waits answered =
     (pushes = [] \<and> psr = None \<and> lower_level l \<and>
      (if answered then q = Interrupt_exit n # opt_list (level_out l) \<and> stacked ls ks
       else q = [Interrupt_exit n] \<and> stacked (l # ls) ks))"
| "levels_ok (Awaits (Interrupt_enter n) # l # ls) q pushes psr ks waits answered =
     (pushes = [] \<and> lower_level l \<and>
      (if waits then stacked ls ks \<and>
         (q = opt_list (level_out l) @ [Interrupt_enter n] \<and> psr = None \<or>
          q = [Interrupt_enter n] \<and> psr \<noteq> None \<and> psr = level_out l)
       else ks \<noteq> [] \<and> stacked ls (tl ks) \<and>
         (q = opt_list (level_out l) @ [Interrupt_enter n] \<and> psr = None \<and> hd ks = None \<or>
          q = [Interrupt_enter n] \<and> psr = None \<and> hd ks = level_out l \<or>
          q = [Interrupt_enter n] \<and> psr \<noteq> None \<and> psr = level_out l \<and> hd ks = None)))"
| "levels_ok (Pushing (Interrupt_enter n) # l # ls) q pushes psr ks waits answered =
     (pushes \<noteq> [] \<and> pushes = opt_list (level_out l) \<and> psr = None \<and> lower_level l \<and>
      q = [Interrupt_enter n] \<and>
      (if waits then stacked ls ks else ks \<noteq> [] \<and> hd ks = None \<and> stacked ls (tl ks)))"
| "levels_ok _ q pushes psr ks waits answered = False"

text \<open>What holds of the thread at each point of its worker.\<close>

fun pc_ok :: "run_pc \<Rightarrow> microthread \<Rightarrow> bool" where
  "pc_ok Not_run m = (\<not> mt_interruptedForSignal m \<and> (mt_activeCall m = None \<or> mt_suspended m))"
| "pc_ok Top_of_run m = (\<not> mt_interruptedForSignal m \<and> (mt_activeCall m = None \<or> mt_suspended m))"
| "pc_ok Starts_call m =
     (\<not> mt_interruptedForSignal m \<and> mt_activeCall m = None \<and> mt_pendingCall m \<noteq> None \<and> \<not> mt_suspended m)"
| "pc_ok Enters_interrupt m =
     (\<not> mt_interruptedForSignal m \<and> list_ex is_enter (opt_list (mt_activeCall m)) \<and>
      \<not> mt_suspended m)"
| "pc_ok In_interrupted m =
     (mt_interruptedForSignal m \<and> list_ex is_enter (opt_list (mt_activeCall m)) \<and>
      mt_interrupts m \<noteq> [] \<and> in_interruptedCall (hd (mt_interrupts m)) \<noteq> None \<and> \<not> mt_suspended m)"
| "pc_ok Leaves_interrupt m =
     (mt_interruptedForSignal m \<and> list_ex is_enter (opt_list (mt_activeCall m)) \<and>
      mt_interrupts m \<noteq> [] \<and> in_interruptedCall (hd (mt_interrupts m)) = None \<and> \<not> mt_suspended m)"
| "pc_ok In_call m = (\<not> mt_interruptedForSignal m \<and> mt_activeCall m \<noteq> None \<and> \<not> mt_suspended m)"
| "pc_ok Exits_interrupt m =
     (\<not> mt_interruptedForSignal m \<and> mt_activeCall m = None \<and> mt_interrupts m \<noteq> [] \<and>
      list_all is_ordinary (opt_list (in_savedReply (hd (mt_interrupts m)))) \<and> \<not> mt_suspended m)"
| "pc_ok Back m =
     (\<not> mt_interruptedForSignal m \<and> (mt_activeCall m = None \<or> mt_suspended m))"

text \<open>Only the frame on top can hold an interrupted call, while its \<open>interrupt_enter\<close> is started.\<close>

definition enter_started :: "run_pc \<Rightarrow> microthread \<Rightarrow> bool" where
  "enter_started pc m =
     (pc = Starts_call \<and> list_ex is_enter (opt_list (mt_pendingCall m)) \<or>
      pc = Enters_interrupt \<or> pc = In_interrupted)"

definition contexts_ok :: "bool \<Rightarrow> interrupt_context list \<Rightarrow> bool" where
  "contexts_ok started is =
     (list_all (\<lambda>i. in_interruptedCall i = None) (tl is) \<and>
      (is \<noteq> [] \<longrightarrow> in_interruptedCall (hd is) \<noteq> None \<longrightarrow> started \<and> in_savedReply (hd is) = None))"

definition thread_ok :: "run_pc \<Rightarrow> microthread \<Rightarrow> bool" where
  "thread_ok pc m =
     (mt_running m = (pc \<noteq> Not_run) \<and> mt_deferralState m = NotDeferred \<and> \<not> mt_terminating m \<and>
      \<not> mt_dead m \<and> mt_dtapeThread m \<and> \<not> mt_pendingCallOverride m \<and>
      (mt_continuationCallback m \<longrightarrow> mt_suspended m) \<and>
      (mt_suspended m \<longrightarrow> list_ex is_ordinary (opt_list (mt_activeCall m))) \<and>
      (mt_suspended m \<longrightarrow> pc \<in> {Not_run, Top_of_run} \<longrightarrow> mt_stack m = (\<not> mt_continuationCallback m)) \<and>
      (pc \<notin> {Not_run, Top_of_run} \<longrightarrow> mt_stack m) \<and>
      (mt_interruptedContinuation m \<longrightarrow> enter_started pc m \<and> pc \<noteq> In_interrupted \<and>
         mt_interrupts m \<noteq> [] \<and> in_interruptedCall (hd (mt_interrupts m)) \<noteq> None) \<and>
      pc_ok pc m \<and> contexts_ok (enter_started pc m) (mt_interrupts m) \<and>
      list_all is_enter (mt_pendingInterrupts m) \<and>
      (mt_pendingInterrupts m \<noteq> [] \<longrightarrow> pc \<notin> {In_call, Exits_interrupt, Back} \<longrightarrow> mt_pendingCall m \<noteq> None) \<and>
      (pc \<in> {Exits_interrupt, Back} \<longrightarrow> mt_pendingCall m = None \<or> mt_pendingInterrupts m = []))"

text \<open>A reply pushed back before its \<open>interrupt_enter\<close> runs waits for the first section of that call.\<close>

definition saved_ok :: "talk \<Rightarrow> bool" where
  "saved_ok s =
     (tk_pendingSavedReply s \<noteq> None \<longrightarrow>
      list_ex is_enter (opt_list (mt_pendingCall (tk_thread s))) \<or> tk_pc s = Enters_interrupt)"

definition talk_ok :: "talk \<Rightarrow> bool" where
  "talk_ok s =
     (tk_failed s = None \<and> thread_ok (tk_pc s) (tk_thread s) \<and> saved_ok s \<and>
      up_ok (tk_up s) \<and>
      levels_ok (tk_client s) (line s) (pushes_of (tk_up s)) (tk_pendingSavedReply s) (frames s)
        (enter_waits s) (exit_answered s))"

lemma levels_ok_cases [consumes 1, case_names idle ordinary leaving entering pushing]:
  assumes "levels_ok ls q pushes psr ks waits answered"
  obtains (idle) l where "ls = Idle # l"
  | (ordinary) n l where "ls = Awaits (Ordinary n) # l"
  | (leaving) n l ls' where "ls = Awaits (Interrupt_exit n) # l # ls'"
  | (entering) n l ls' where "ls = Awaits (Interrupt_enter n) # l # ls'"
  | (pushing) n l ls' where "ls = Pushing (Interrupt_enter n) # l # ls'"
  using assms by (cases rule: levels_ok.elims(2)) auto

lemma lower_level_cases:
  assumes "lower_level l"
  obtains "l = Idle" | n where "l = Awaits (Ordinary n)"
  using assms by (cases l; cases "the (level_out l)") auto

lemmas view_defs = saved_ok_def line_def frames_def enter_waits_def exit_answered_def

lemmas talk_defs = talk_ok_def view_defs

lemma calls_of_append [simp]: "calls_of (us @ vs) = calls_of us @ calls_of vs"
  by (induction us rule: calls_of.induct) auto

lemma pushes_of_append [simp]: "pushes_of (us @ vs) = pushes_of us @ pushes_of vs"
  by (induction us rule: pushes_of.induct) auto

lemma up_ok_append [simp]: "up_ok (us @ vs) \<longleftrightarrow> up_ok us \<and> up_ok vs \<and> (pushes_of us = [] \<or> calls_of vs = [])"
  by (induction us rule: up_ok.induct) auto

lemma opt_list_iff [simp]: "opt_list x = [] \<longleftrightarrow> x = None" "[] = opt_list x \<longleftrightarrow> x = None"
  "opt_list x = [y] \<longleftrightarrow> x = Some y" "[y] = opt_list x \<longleftrightarrow> x = Some y"
  by (cases x; auto)+

section \<open>The steps of the client\<close>

lemma client_call_ok: "talk_ok s \<Longrightarrow> talk_exec prompt Client_call s = Some s' \<Longrightarrow> talk_ok s'"
  by (auto simp: talk_defs send_up_def Let_def split: list.splits client_level.splits)

lemma client_signal_ok: "talk_ok s \<Longrightarrow> talk_exec prompt Client_signal s = Some s' \<Longrightarrow> talk_ok s'"
  by (auto simp: talk_defs send_up_def Let_def split: list.splits client_level.splits call.splits)

lemma client_exit_ok: "talk_ok s \<Longrightarrow> talk_exec prompt Client_exit s = Some s' \<Longrightarrow> talk_ok s'"
  by (auto simp: talk_defs send_up_def Let_def stacked_def split: list.splits client_level.splits call.splits)

lemma wake_up_ok: "talk_ok s \<Longrightarrow> talk_exec prompt Wake_up s = Some s' \<Longrightarrow> talk_ok s'"
  by (auto simp: talk_defs)

lemma length_opt_list [simp]: "length (opt_list x) = of_bool (x \<noteq> None)"
  by (cases x) auto

lemma levels_short:
  assumes "levels_ok ls q pushes psr ks waits answered"
  shows "length q \<le> 2"
  by (cases rule: levels_ok_cases [OF assms]) (use assms in \<open>auto split: if_splits\<close>)

lemma stacked_Cons:
  "stacked (l # ls) ks \<longleftrightarrow> lower_level l \<and> ks \<noteq> [] \<and> hd ks = level_out l \<and> stacked ls (tl ks)"
  by (cases ks) (auto simp: stacked_def)

lemma no_line:
  assumes "line s = []" "thread_ok (tk_pc s) (tk_thread s)" "saved_ok s"
  shows "\<not> enter_waits s" "tk_pendingSavedReply s = None"
  using assms by (auto simp: talk_defs thread_ok_def split: if_splits)

lemma view_client [simp]:
  "saved_ok (s\<lparr>tk_client := ls\<rparr>) = saved_ok s"
  "line (s\<lparr>tk_client := ls\<rparr>) = line s" "frames (s\<lparr>tk_client := ls\<rparr>) = frames s"
  "enter_waits (s\<lparr>tk_client := ls\<rparr>) = enter_waits s" "exit_answered (s\<lparr>tk_client := ls\<rparr>) = exit_answered s"
  by (simp_all add: talk_defs)

lemma view_queued [simp]:
  "saved_ok (s\<lparr>tk_queued := q\<rparr>) = saved_ok s" "line (s\<lparr>tk_queued := q\<rparr>) = line s"
  "frames (s\<lparr>tk_queued := q\<rparr>) = frames s" "enter_waits (s\<lparr>tk_queued := q\<rparr>) = enter_waits s"
  "exit_answered (s\<lparr>tk_queued := q\<rparr>) = exit_answered s"
  by (simp_all add: talk_defs)

lemma view_push [simp]:
  "saved_ok (send_up msg ls s) = saved_ok s"
  "line (send_up (Push_reply r) ls s) = line s" "frames (send_up (Push_reply r) ls s) = frames s"
  "enter_waits (send_up (Push_reply r) ls s) = enter_waits s"
  "exit_answered (send_up (Push_reply r) ls s) = exit_answered s"
  by (simp_all add: talk_defs send_up_def)

lemma send_up_simps [simp]:
  "tk_up (send_up msg ls s) = tk_up s @ [msg]" "tk_client (send_up msg ls s) = ls"
  "tk_thread (send_up msg ls s) = tk_thread s" "tk_pc (send_up msg ls s) = tk_pc s"
  "tk_failed (send_up msg ls s) = tk_failed s"
  "tk_pendingSavedReply (send_up msg ls s) = tk_pendingSavedReply s"
  by (simp_all add: send_up_def)

lemma view_down:
  assumes "tk_down s = r # rs"
  shows "line s = r # line (s\<lparr>tk_down := rs\<rparr>)" "frames (s\<lparr>tk_down := rs\<rparr>) = frames s"
    "enter_waits (s\<lparr>tk_down := rs\<rparr>) = enter_waits s"
    "saved_ok (s\<lparr>tk_down := rs\<rparr>) = saved_ok s"
    "exit_answered s = (is_exit r \<or> exit_answered (s\<lparr>tk_down := rs\<rparr>))"
  using assms by (simp_all add: talk_defs)

lemma rpc_receive_ok:
  assumes "talk_ok s" "talk_exec prompt Client_receive s = Some s'"
  shows "talk_ok s'"
proof -
  from assms(2) obtain r rs where d: "tk_down s = r # rs"
    by (auto simp: rpc_receive_def split: list.splits)
  let ?s = "s\<lparr>tk_down := rs\<rparr>"
  have l: "levels_ok (tk_client s) (r # line ?s) (pushes_of (tk_up s)) (tk_pendingSavedReply s) (frames ?s)
        (enter_waits ?s) (is_exit r \<or> exit_answered ?s)"
    and rest: "tk_failed s = None" "thread_ok (tk_pc s) (tk_thread s)" "up_ok (tk_up s)" "saved_ok ?s"
    using assms(1) view_down [OF d] by (simp_all add: talk_ok_def)
  have none: "line ?s = [] \<Longrightarrow> \<not> enter_waits ?s \<and> tk_pendingSavedReply s = None"
    using no_line [of ?s] rest by simp
  note step = assms(2) [simplified talk_exec.simps rpc_receive_def d, simplified]
  from l show ?thesis
  proof (cases rule: levels_ok_cases)
    case (idle l)
    with l show ?thesis by simp
  next
    case (ordinary n l)
    with l step rest show ?thesis by (auto simp: talk_ok_def)
  next
    case (leaving n l ls')
    with l have low: "lower_level l" by simp
    from leaving l step rest show ?thesis
      by (cases rule: lower_level_cases [OF low]) (auto simp: talk_ok_def split: if_splits)
  next
    case (entering n l ls')
    with l have low: "lower_level l" by simp
    from entering l step rest none show ?thesis
      by (cases rule: lower_level_cases [OF low]) (auto simp: talk_ok_def stacked_Cons split: if_splits)
  next
    case (pushing n l ls')
    with step show ?thesis by auto
  qed
qed

section \<open>The steps of the server\<close>

lemma talk_ok_same:
  assumes "talk_ok s" "s' = at_pc pc m (s\<lparr>tk_queued := q, tk_down := ds\<rparr>)" "thread_ok pc m" "saved_ok s'"
    "line s' = line s" "frames s' = frames s"
    "enter_waits s' = enter_waits s" "exit_answered s' = exit_answered s"
  shows "talk_ok s'"
  using assms unfolding talk_ok_def by (simp add: at_pc_def)

lemma talk_thread: "talk_ok s \<Longrightarrow> thread_ok (tk_pc s) (tk_thread s)"
  by (simp add: talk_ok_def)

lemma thread_enter:
  assumes "thread_ok pc m"
  shows "doWork_enter m =
     (if pc = Not_run then (Runs, m\<lparr>mt_running := True, mt_th_wait := False\<rparr>) else (Running_elsewhere, m))"
  using assms unfolding thread_ok_def doWork_enter_def by simp

lemma thread_ok_top:
  "thread_ok Not_run m \<Longrightarrow> thread_ok Top_of_run (m\<lparr>mt_running := True, mt_th_wait := False\<rparr>)"
  by (simp add: thread_ok_def contexts_ok_def enter_started_def)

lemma talk_ok_idem:
  assumes "talk_ok s"
  shows "talk_ok (s\<lparr>tk_queued := q\<rparr>)"
  using assms by (simp add: talk_ok_def)

lemma pick_run_ok:
  assumes "talk_ok s" "talk_exec prompt Pick_run s = Some s'"
  shows "talk_ok s'"
proof (cases "tk_pc s = Not_run")
  case True
  have t: "thread_ok Not_run (tk_thread s)" "saved_ok s"
    using assms(1) True by (simp_all add: talk_ok_def)
  with True assms(2) have s': "s' = at_pc Top_of_run ((tk_thread s)\<lparr>mt_running := True, mt_th_wait := False\<rparr>)
      (s\<lparr>tk_queued := tk_queued s - 1, tk_down := tk_down s\<rparr>)"
    by (simp add: thread_enter Let_def split: if_splits)
  show ?thesis
    by (rule talk_ok_same [OF assms(1) s' thread_ok_top [OF t(1)]])
      (use t(2) True in \<open>simp_all add: s' at_pc_def view_defs\<close>)
next
  case False
  then have "s' = s\<lparr>tk_queued := tk_queued s - 1\<rparr>"
    using assms(2) thread_enter [OF talk_thread [OF assms(1)]] by (simp add: Let_def split: if_splits)
  then show ?thesis using assms(1) by (simp add: talk_ok_idem)
qed

lemma thread_ok_activate:
  assumes "thread_ok Starts_call m" "mt_pendingCall m = Some c" "is_enter c \<Longrightarrow> mt_pendingInterrupts m = []"
  shows "thread_ok (if is_enter c then Enters_interrupt else In_call) (makePendingCallActive m)"
  using assms
  by (auto simp: makePendingCallActive_def thread_ok_def contexts_ok_def enter_started_def)

lemma levels_one_enter:
  assumes "levels_ok ls q pushes psr ks waits answered"
  shows "length (filter is_enter q) \<le> 1"
  using assms
proof (cases rule: levels_ok_cases)
  case (leaving m l ls')
  then have "lower_level l" using assms by simp
  then show ?thesis using leaving assms by (cases rule: lower_level_cases) (auto split: if_splits)
next
  case (entering m l ls')
  then have "lower_level l" using assms by simp
  then show ?thesis using entering assms by (cases rule: lower_level_cases) (auto split: if_splits)
qed (use assms in auto)

lemma talk_one_enter: "talk_ok s \<Longrightarrow> length (filter is_enter (line s)) \<le> 1"
  using levels_one_enter by (auto simp: talk_ok_def)

lemma talk_line_short: "talk_ok s \<Longrightarrow> length (line s) \<le> 2"
  using levels_short by (auto simp: talk_ok_def)

lemma activate_call_ok:
  assumes "talk_ok s" "talk_exec prompt Activate_call s = Some s'"
  shows "talk_ok s'"
proof -
  have pc: "tk_pc s = Starts_call" using assms(2) by (simp split: if_splits)
  have t: "thread_ok Starts_call (tk_thread s)" "saved_ok s"
    using assms(1) pc by (simp_all add: talk_ok_def)
  then obtain c where c: "mt_pendingCall (tk_thread s) = Some c" "mt_activeCall (tk_thread s) = None"
    by (auto simp: thread_ok_def)
  have one: "is_enter c \<Longrightarrow> mt_pendingInterrupts (tk_thread s) = []"
    using talk_one_enter [OF assms(1)] t(1) c pc
    by (cases "mt_pendingInterrupts (tk_thread s)") (auto simp: line_def thread_ok_def)
  have s': "s' = at_pc (if is_enter c then Enters_interrupt else In_call) (makePendingCallActive (tk_thread s))
     (s\<lparr>tk_queued := tk_queued s, tk_down := tk_down s\<rparr>)"
    using assms(2) pc c by (cases c) (simp_all add: makePendingCallActive_def Let_def)
  show ?thesis
    by (rule talk_ok_same [OF assms(1) s' thread_ok_activate [OF t(1) c(1) one]])
      (use t(2) c pc in \<open>auto simp: s' at_pc_def view_defs makePendingCallActive_def\<close>)
qed

lemma thread_reply:
  assumes "thread_ok In_call m"
  obtains c where "mt_activeCall m = Some c" "syscallReturn_call m = Some c"
    "pushCallReply c m = Inr (Some c, m\<lparr>mt_activeCall := None\<rparr>)"
  using assms by (auto simp: thread_ok_def syscallReturn_call_def pushCallReply_def deactivateCall_def)

lemma thread_ok_reply:
  assumes "thread_ok In_call m" "mt_pendingCall m = None \<or> mt_pendingInterrupts m = []"
  shows "thread_ok Back (m\<lparr>mt_activeCall := None\<rparr>)"
   and "mt_interrupts m \<noteq> [] \<Longrightarrow> list_all is_ordinary (opt_list (in_savedReply (hd (mt_interrupts m)))) \<Longrightarrow> thread_ok Exits_interrupt (m\<lparr>mt_activeCall := None\<rparr>)"
  using assms by (auto simp: thread_ok_def contexts_ok_def enter_started_def)

lemma active_exit:
  assumes "levels_ok ls q pushes psr ks waits answered" "q = ds @ [Interrupt_exit n] @ r" "answered = list_ex is_exit ds"
  obtains l ls' where "ls = Awaits (Interrupt_exit n) # l # ls'" "ds = []" "r = []" "pushes = []" "psr = None" "\<not> answered"
    "ks \<noteq> []" "hd ks = level_out l" "stacked ls' (tl ks)" "lower_level l"
  using assms(1)
proof (cases rule: levels_ok_cases)
  case (leaving m l ls')
  have "\<not> answered"
  proof
    assume "answered"
    then have "q = Interrupt_exit m # opt_list (level_out l)" "lower_level l" "ds \<noteq> []"
      using leaving assms by auto
    then show False using assms(2) by (cases l; cases ds) (auto simp: append_eq_Cons_conv)
  qed
  then show ?thesis
    using that leaving assms by (auto simp: stacked_Cons append_eq_Cons_conv)
next
  case (entering m l ls')
  then have "lower_level l" using assms by simp
  then show ?thesis using entering assms by (cases rule: lower_level_cases) (auto split: if_splits simp: Cons_eq_append_conv append_eq_Cons_conv)
qed (use assms in \<open>auto simp: Cons_eq_append_conv append_eq_Cons_conv\<close>)

lemma reply_active_ok:
  assumes "talk_ok s" "talk_exec prompt Reply_active s = Some s'"
  shows "talk_ok s'"
proof -
  have pc: "tk_pc s = In_call" using assms(2) by (simp split: if_splits)
  have t: "thread_ok In_call (tk_thread s)" "saved_ok s" and
    l: "levels_ok (tk_client s) (line s) (pushes_of (tk_up s)) (tk_pendingSavedReply s) (frames s)
        (enter_waits s) (exit_answered s)" and rest: "tk_failed s = None" "up_ok (tk_up s)"
    using assms(1) pc by (simp_all add: talk_ok_def)
  obtain c where c: "mt_activeCall (tk_thread s) = Some c" "syscallReturn_call (tk_thread s) = Some c"
    "pushCallReply c (tk_thread s) = Inr (Some c, (tk_thread s)\<lparr>mt_activeCall := None\<rparr>)"
    using thread_reply [OF t(1)] .
  have short: "mt_pendingCall (tk_thread s) = None \<or> mt_pendingInterrupts (tk_thread s) = []"
    using talk_line_short [OF assms(1)] c(1) pc
    by (cases "mt_pendingInterrupts (tk_thread s)"; cases "mt_pendingCall (tk_thread s)") (simp_all add: line_def)
  have s': "s' = at_pc (case c of Interrupt_exit _ \<Rightarrow> Exits_interrupt | _ \<Rightarrow> Back) ((tk_thread s)\<lparr>mt_activeCall := None\<rparr>)
     (s\<lparr>tk_queued := tk_queued s, tk_down := tk_down s @ [c]\<rparr>)"
    using assms(2) pc c by (cases c) simp_all
  show ?thesis
  proof (cases "is_exit c")
    case False
    then have s'': "s' = at_pc Back ((tk_thread s)\<lparr>mt_activeCall := None\<rparr>)
     (s\<lparr>tk_queued := tk_queued s, tk_down := tk_down s @ [c]\<rparr>)" using s' by (cases c) simp_all
    show ?thesis
      by (rule talk_ok_same [OF assms(1) s'' thread_ok_reply(1) [OF t(1) short]])
        (use t(2) c pc False in \<open>simp_all add: s'' at_pc_def view_defs\<close>)
  next
    case True
    then obtain n where n: "c = Interrupt_exit n" by (cases c) auto
    have q: "line s = tk_down s @ [Interrupt_exit n] @ (opt_list (mt_pendingCall (tk_thread s)) @
      mt_pendingInterrupts (tk_thread s) @ calls_of (tk_up s))"
      using pc c n by (simp add: line_def)
    obtain k ls where a: "tk_client s = Awaits (Interrupt_exit n) # k # ls" "tk_down s = []"
      "opt_list (mt_pendingCall (tk_thread s)) @ mt_pendingInterrupts (tk_thread s) @ calls_of (tk_up s) = []"
      "pushes_of (tk_up s) = []" "tk_pendingSavedReply s = None" "\<not> exit_answered s"
      "frames s \<noteq> []" "hd (frames s) = level_out k" "stacked ls (tl (frames s))" "lower_level k"
      by (rule active_exit [OF l q exit_answered_def])
    then obtain i "is" where i: "mt_interrupts (tk_thread s) = i # is" "slot i = level_out k" "stacked ls (map slot is)"
      using pc by (cases "mt_interrupts (tk_thread s)") (auto simp: frames_def)
    have "in_interruptedCall i = None" using t(1) i by (simp add: thread_ok_def contexts_ok_def enter_started_def)
    then have k: "in_savedReply i = level_out k" using i(2) by (simp add: slot_def)
    moreover have "thread_ok Exits_interrupt ((tk_thread s)\<lparr>mt_activeCall := None\<rparr>)"
      using thread_ok_reply(2) [OF t(1) short] i k a(10) by (cases k) simp_all
    ultimately show ?thesis
      using a i rest by (simp add: s' n talk_defs at_pc_def)
  qed
qed

lemma pop_interrupt_ok:
  assumes "talk_ok s" "talk_exec prompt Pop_interrupt s = Some s'"
  shows "talk_ok s'"
proof -
  have pc: "tk_pc s = Exits_interrupt" using assms(2) by (simp split: if_splits)
  have t: "thread_ok Exits_interrupt (tk_thread s)" "saved_ok s"
    using assms(1) pc by (simp_all add: talk_ok_def)
  then obtain i "is" where i: "mt_interrupts (tk_thread s) = i # is" "mt_activeCall (tk_thread s) = None"
    by (cases "mt_interrupts (tk_thread s)") (auto simp: thread_ok_def)
  have s': "s' = at_pc Back ((tk_thread s)\<lparr>mt_interrupts := is\<rparr>)
     (s\<lparr>tk_queued := tk_queued s, tk_down := tk_down s @ opt_list (in_savedReply i)\<rparr>)"
    using assms(2) pc i by (simp add: interruptExit_pop_def)
  have m: "thread_ok Back ((tk_thread s)\<lparr>mt_interrupts := is\<rparr>)"
    using t(1) i by (cases "is") (auto simp: thread_ok_def contexts_ok_def enter_started_def)
  have low: "\<not> list_ex is_exit (opt_list (in_savedReply i))"
    using t(1) i by (cases "in_savedReply i"; cases "the (in_savedReply i)") (auto simp: thread_ok_def)
  show ?thesis
    by (rule talk_ok_same [OF assms(1) s' m])
      (use t(2) i pc low in \<open>auto simp: s' at_pc_def view_defs\<close>)
qed

lemma thread_begin:
  assumes "thread_ok Enters_interrupt m" "mt_interrupts m = i # is" "r \<noteq> None \<Longrightarrow> slot i = None"
    and m': "m' = m\<lparr>mt_interrupts := (if r \<noteq> None then i\<lparr>in_savedReply := r\<rparr> else i) # is,
          mt_interruptedForSignal := True, mt_interruptedContinuation := False\<rparr>"
  shows "interruptEnter_begin r m = Inr (in_interruptedCall i \<noteq> None, m')"
    and "thread_ok (if in_interruptedCall i \<noteq> None then In_interrupted else Leaves_interrupt) m'"
  using assms
  by (auto simp: interruptEnter_begin_def Let_def thread_ok_def contexts_ok_def enter_started_def slot_def
      split: option.splits)

lemma levels_enter:
  assumes "levels_ok ls q pushes psr ks waits answered" "Interrupt_enter n \<in> set q"
  obtains l ls' where "ls = Awaits (Interrupt_enter n) # l # ls' \<or> ls = Pushing (Interrupt_enter n) # l # ls'"
    "lower_level l" "last q = Interrupt_enter n"
  using assms(1)
proof (cases rule: levels_ok_cases)
  case (leaving m l ls')
  then have "lower_level l" using assms by simp
  then show ?thesis using leaving assms by (cases rule: lower_level_cases) (auto split: if_splits)
next
  case (entering m l ls')
  then have "lower_level l" using assms by simp
  then show ?thesis using that [of l ls'] entering assms by (cases rule: lower_level_cases) (auto split: if_splits)
next
  case (pushing m l ls')
  then show ?thesis using that [of l ls'] assms by auto
qed (use assms in auto)

lemma begin_interrupt_ok:
  assumes "talk_ok s" "talk_exec prompt Begin_interrupt s = Some s'"
  shows "talk_ok s'"
proof -
  have pc: "tk_pc s = Enters_interrupt" using assms(2) by (simp split: if_splits)
  have t: "thread_ok Enters_interrupt (tk_thread s)" and
    l: "levels_ok (tk_client s) (line s) (pushes_of (tk_up s)) (tk_pendingSavedReply s) (frames s)
        (enter_waits s) (exit_answered s)" and rest: "tk_failed s = None" "up_ok (tk_up s)"
    using assms(1) pc by (simp_all add: talk_ok_def)
  obtain n where n: "mt_activeCall (tk_thread s) = Some (Interrupt_enter n)"
    using t by (cases "mt_activeCall (tk_thread s)"; cases "the (mt_activeCall (tk_thread s))") (auto simp: thread_ok_def)
  then have "Interrupt_enter n \<in> set (line s)" by (simp add: line_def)
  then obtain k ls where k: "tk_client s = Awaits (Interrupt_enter n) # k # ls \<or> tk_client s = Pushing (Interrupt_enter n) # k # ls"
    "lower_level k" "last (line s) = Interrupt_enter n"
    by (rule levels_enter [OF l])
  have w: "\<not> enter_waits s"
    using talk_one_enter [OF assms(1)] n pc
    by (auto simp: line_def enter_waits_def list_ex_iff filter_empty_conv)
  then have f: "frames s \<noteq> []" "stacked ls (tl (frames s))" "tk_pendingSavedReply s \<noteq> None \<Longrightarrow> hd (frames s) = None"
    using k(1) l by auto
  then obtain i "is" where i: "mt_interrupts (tk_thread s) = i # is" 
     "tk_pendingSavedReply s \<noteq> None \<Longrightarrow> slot i = None"
    using pc by (cases "mt_interrupts (tk_thread s)") (auto simp: frames_def)
  note b = thread_begin [OF t i refl]
  let ?i = "if tk_pendingSavedReply s \<noteq> None then i\<lparr>in_savedReply := tk_pendingSavedReply s\<rparr> else i"
  have s': "s' = at_pc (if in_interruptedCall i \<noteq> None then In_interrupted else Leaves_interrupt)
     ((tk_thread s)\<lparr>mt_interrupts := ?i # is, mt_interruptedForSignal := True, mt_interruptedContinuation := False\<rparr>)
     (s\<lparr>tk_pendingSavedReply := None\<rparr>)"
    using assms(2) pc b(1) by simp
  have v: "line s' = line s" "enter_waits s' = enter_waits s" "exit_answered s' = exit_answered s"
    "frames s' = slot ?i # tl (frames s)"
    using pc i by (auto simp: s' at_pc_def view_defs)
  have "slot ?i = (if tk_pendingSavedReply s \<noteq> None then tk_pendingSavedReply s else hd (frames s))"
    using i pc by (auto simp: slot_def frames_def split: option.splits)
  then have "levels_ok (tk_client s) (line s) (pushes_of (tk_up s)) None (slot ?i # tl (frames s))
        (enter_waits s) (exit_answered s)"
    using k w l f by auto
  then show ?thesis
    using b(2) rest v unfolding talk_ok_def by (simp add: s' at_pc_def saved_ok_def)
qed

lemma thread_reply_interrupted:
  assumes "thread_ok In_interrupted m"
  obtains c i "is" where "mt_interrupts m = i # is" "in_interruptedCall i = Some c" "in_savedReply i = None"
    "syscallReturn_call m = Some c"
    "pushCallReply c m = Inr (None, m\<lparr>mt_interrupts := i\<lparr>in_interruptedCall := None, in_savedReply := Some c\<rparr> # is\<rparr>)"
  using assms
  by (cases "mt_interrupts m")
    (auto simp: thread_ok_def contexts_ok_def syscallReturn_call_def pushCallReply_def deactivateCall_def)

lemma reply_interrupted_ok:
  assumes "talk_ok s" "talk_exec prompt Reply_interrupted s = Some s'"
  shows "talk_ok s'"
proof -
  have pc: "tk_pc s = In_interrupted" using assms(2) by (simp split: if_splits)
  have t: "thread_ok In_interrupted (tk_thread s)" "saved_ok s"
    using assms(1) pc by (simp_all add: talk_ok_def)
  obtain c i "is" where i: "mt_interrupts (tk_thread s) = i # is" "in_interruptedCall i = Some c" "in_savedReply i = None"
    "syscallReturn_call (tk_thread s) = Some c"
    "pushCallReply c (tk_thread s) =
       Inr (None, (tk_thread s)\<lparr>mt_interrupts := i\<lparr>in_interruptedCall := None, in_savedReply := Some c\<rparr> # is\<rparr>)"
    by (rule thread_reply_interrupted [OF t(1)])
  have s': "s' = at_pc Leaves_interrupt
     ((tk_thread s)\<lparr>mt_interrupts := i\<lparr>in_interruptedCall := None, in_savedReply := Some c\<rparr> # is\<rparr>)
     (s\<lparr>tk_queued := tk_queued s, tk_down := tk_down s\<rparr>)"
    using assms(2) pc i by simp
  have m: "thread_ok Leaves_interrupt
     ((tk_thread s)\<lparr>mt_interrupts := i\<lparr>in_interruptedCall := None, in_savedReply := Some c\<rparr> # is\<rparr>)"
    using t(1) i(1) by (auto simp: thread_ok_def contexts_ok_def enter_started_def)
  show ?thesis
    by (rule talk_ok_same [OF assms(1) s' m])
      (use t(2) i pc in \<open>auto simp: s' at_pc_def view_defs slot_def\<close>)
qed

lemma end_interrupt_ok:
  assumes "talk_ok s" "talk_exec prompt End_interrupt s = Some s'"
  shows "talk_ok s'"
proof -
  have pc: "tk_pc s = Leaves_interrupt" using assms(2) by (simp split: if_splits)
  have t: "thread_ok Leaves_interrupt (tk_thread s)" "saved_ok s"
    using assms(1) pc by (simp_all add: talk_ok_def)
  then obtain i "is" where i: "mt_interrupts (tk_thread s) = i # is" "in_interruptedCall i = None"
    by (cases "mt_interrupts (tk_thread s)") (auto simp: thread_ok_def)
  let ?m = "(tk_thread s)\<lparr>mt_interrupts := i\<lparr>in_savedStack := False, in_interruptedCall := None\<rparr> # is,
     mt_interruptedForSignal := False\<rparr>"
  have s': "s' = at_pc In_call ?m (s\<lparr>tk_queued := tk_queued s, tk_down := tk_down s\<rparr>)"
    using assms(2) pc i by (simp add: interruptEnter_end_def)
  have m: "thread_ok In_call ?m"
    using t(1) i(1) by (cases "mt_activeCall (tk_thread s)") (auto simp: thread_ok_def contexts_ok_def enter_started_def)
  show ?thesis
    by (rule talk_ok_same [OF assms(1) s' m])
      (use t(2) i pc in \<open>auto simp: s' at_pc_def view_defs slot_def\<close>)
qed

lemma suspend_call_ok:
  assumes "talk_ok s" "talk_exec prompt (Suspend_call b) s = Some s'"
  shows "talk_ok s'"
proof -
  have pc: "tk_pc s = In_call" using assms(2) by (simp split: if_splits)
  have t: "thread_ok In_call (tk_thread s)" "saved_ok s"
    using assms(1) pc by (simp_all add: talk_ok_def)
  obtain n where n: "mt_activeCall (tk_thread s) = Some (Ordinary n)"
    using assms(2) pc by (auto split: option.splits call.splits)
  let ?n = "(tk_thread s)\<lparr>mt_suspended := True\<rparr>"
  let ?m = "if b then ?n\<lparr>mt_continuationCallback := True\<rparr> else ?n"
  have cont: "\<not> mt_continuationCallback (tk_thread s)" using t by (auto simp: thread_ok_def)
  have s': "s' = at_pc Back ?m (s\<lparr>tk_queued := tk_queued s, tk_down := tk_down s\<rparr>)"
    using assms(2) pc n cont by (auto simp: suspend_begin_def suspend_switch_def)
  have short: "mt_pendingCall (tk_thread s) = None \<or> mt_pendingInterrupts (tk_thread s) = []"
    using talk_line_short [OF assms(1)] n pc
    by (cases "mt_pendingInterrupts (tk_thread s)"; cases "mt_pendingCall (tk_thread s)") (simp_all add: line_def)
  have m: "thread_ok Back ?m"
    using t(1) n short by (auto simp: thread_ok_def contexts_ok_def enter_started_def)
  show ?thesis
    by (rule talk_ok_same [OF assms(1) s' m])
      (use t(2) n pc in \<open>auto simp: s' at_pc_def view_defs\<close>)
qed

definition after_run :: "bool \<Rightarrow> microthread \<Rightarrow> microthread" where
  "after_run stack m = m\<lparr>mt_stack := stack, mt_running := False,
     mt_pendingCall := (if mt_pendingInterrupts m = [] then mt_pendingCall m else Some (hd (mt_pendingInterrupts m))),
     mt_pendingInterrupts := tl (mt_pendingInterrupts m)\<rparr>"

lemma thread_done:
  assumes "thread_ok pc m" "pc = Top_of_run \<or> pc = Back"
    "mt_pendingInterrupts m \<noteq> [] \<Longrightarrow> mt_pendingCall m = None" "length (mt_pendingInterrupts m) \<le> 1"
    "mt_suspended m \<Longrightarrow> stack = (\<not> mt_continuationCallback m)"
  shows "\<exists>r. doneWorking (m\<lparr>mt_stack := stack\<rparr>) = Inr (r, after_run stack m)"
    and "thread_ok Not_run (after_run stack m)"
proof -
  have a: "mt_running m" "mt_dtapeThread m" "\<not> mt_dead m" "\<not> mt_terminating m"
    "\<not> mt_interruptedForSignal m" "mt_activeCall m = None \<or> mt_suspended m"
    "pc \<noteq> Starts_call" "pc \<noteq> Enters_interrupt" "pc \<noteq> In_interrupted" "pc \<noteq> Not_run"
    using assms(1,2) unfolding thread_ok_def by (elim disjE; simp)+
  show "\<exists>r. doneWorking (m\<lparr>mt_stack := stack\<rparr>) = Inr (r, after_run stack m)"
    using a assms(3) by (auto simp: doneWorking_def Let_def after_run_def)
  show "thread_ok Not_run (after_run stack m)"
  proof (cases "mt_pendingInterrupts m")
    case Nil
    then show ?thesis
      using assms(1,5) a unfolding thread_ok_def contexts_ok_def by (simp add: enter_started_def after_run_def)
  next
    case (Cons c cs)
    then show ?thesis
      using assms(1,4,5) a unfolding thread_ok_def contexts_ok_def by (simp add: enter_started_def after_run_def)
  qed
qed

lemma end_of_run_ok:
  assumes "talk_ok s" "end_of_run ((tk_thread s)\<lparr>mt_stack := stack\<rparr>) s = Some s'" "tk_pc s = Top_of_run \<or> tk_pc s = Back"
    "mt_suspended (tk_thread s) \<Longrightarrow> stack = (\<not> mt_continuationCallback (tk_thread s))"
    "tk_pc s = Top_of_run \<Longrightarrow> mt_pendingCall (tk_thread s) = None"
  shows "talk_ok s'"
proof -
  let ?m = "tk_thread s"
  have t: "thread_ok (tk_pc s) ?m" "saved_ok s"
    using assms(1) by (simp_all add: talk_ok_def)
  have p: "mt_pendingInterrupts ?m \<noteq> [] \<Longrightarrow> mt_pendingCall ?m = None"
    using t(1) assms(3,5) unfolding thread_ok_def by (elim disjE) simp_all
  have "length (mt_pendingInterrupts ?m) = length (filter is_enter (mt_pendingInterrupts ?m))"
    using t(1) by (simp add: thread_ok_def list_all_iff)
  then have one: "length (mt_pendingInterrupts ?m) \<le> 1"
    using talk_one_enter [OF assms(1)] by (simp add: line_def)
  obtain r where r: "doneWorking (?m\<lparr>mt_stack := stack\<rparr>) = Inr (r, after_run stack ?m)"
    using thread_done(1) [OF t(1) assms(3) p one assms(4)] by blast
  have s': "s' = at_pc Not_run (after_run stack ?m)
      (s\<lparr>tk_queued := tk_queued s + of_bool (dr_schedule r), tk_down := tk_down s\<rparr>)"
    using assms(2) r by (simp add: end_of_run_def)
  have pcs: "tk_pc s \<noteq> Starts_call" "tk_pc s \<noteq> Exits_interrupt" "tk_pc s \<noteq> Enters_interrupt"
    using assms(3) by auto
  show ?thesis
  proof (rule talk_ok_same [OF assms(1) s' thread_done(2) [OF t(1) assms(3) p one assms(4)]])
  qed (use pcs t(2) p in \<open>cases "mt_pendingInterrupts ?m"; simp add: s' at_pc_def view_defs after_run_def\<close>)+
qed

lemma back_to_top_ok:
  assumes "talk_ok s" "talk_exec prompt Back_to_top s = Some s'"
  shows "talk_ok s'"
proof -
  have pc: "tk_pc s = Back" using assms(2) by (simp split: if_splits)
  have t: "thread_ok Back (tk_thread s)" using assms(1) pc by (simp add: talk_ok_def)
  let ?y = "mt_suspended (tk_thread s) \<and> \<not> mt_continuationCallback (tk_thread s)"
  have "back_at_top (tk_thread s) = (tk_thread s)\<lparr>mt_stack := ?y\<rparr>"
    using t by (simp add: back_at_top_def thread_ok_def)
  with assms(2) pc show ?thesis by (intro end_of_run_ok [OF assms(1), of ?y]) simp_all
qed

definition interrupted :: "microthread \<Rightarrow> microthread" where
  "interrupted m = m\<lparr>mt_interrupts := \<lparr>in_savedReply = None, in_interruptedCall = mt_activeCall m,
       in_savedStack = mt_stack m, in_signal = 0\<rparr> # mt_interrupts m,
     mt_stack := True, mt_interruptedContinuation := mt_continuationCallback m,
     mt_continuationCallback := False, mt_activeCall := None, mt_suspended := False\<rparr>"

lemma dispatch_interrupt:
  assumes "thread_ok Top_of_run m" "mt_pendingCall m = Some (Interrupt_enter n)"
  shows "doWork_dispatch m = Inr (Start, interrupted m)" "thread_ok Starts_call (interrupted m)"
proof -
  have "\<not> mt_pendingCallOverride m" using assms by (simp add: thread_ok_def)
  then show "doWork_dispatch m = Inr (Start, interrupted m)"
    using assms(2) by (simp add: doWork_dispatch_def enter_interrupt_def interrupted_def Let_def)
  have "mt_continuationCallback m \<Longrightarrow> mt_activeCall m \<noteq> None"
    using assms by (cases "mt_activeCall m") (auto simp: thread_ok_def)
  then show "thread_ok Starts_call (interrupted m)"
    using assms unfolding thread_ok_def contexts_ok_def
    by (cases "mt_interrupts m") (simp_all add: interrupted_def enter_started_def)
qed

lemma dispatch_other:
  assumes "thread_ok Top_of_run m" "mt_pendingCall m = Some c" "\<not> is_enter c" "mt_activeCall m = None"
  shows "doWork_dispatch m = Inr (Start, m\<lparr>mt_suspended := False, mt_stack := True\<rparr>)"
    "thread_ok Starts_call (m\<lparr>mt_suspended := False, mt_stack := True\<rparr>)"
proof -
  have a: "\<not> mt_suspended m" "\<not> mt_continuationCallback m"
    using assms by (auto simp: thread_ok_def)
  then show "doWork_dispatch m = Inr (Start, m\<lparr>mt_suspended := False, mt_stack := True\<rparr>)"
    using assms(2,3) by (cases c) (simp_all add: doWork_dispatch_def enter_interrupt_def Let_def)
  show "thread_ok Starts_call (m\<lparr>mt_suspended := False, mt_stack := True\<rparr>)"
    using assms a unfolding thread_ok_def contexts_ok_def by (simp add: enter_started_def)
qed

lemma dispatch_resume:
  assumes "thread_ok Top_of_run m" "mt_pendingCall m = None" "mt_suspended m"
  shows "doWork_dispatch m = (if mt_continuationCallback m
       then Inr (Continue, m\<lparr>mt_suspended := False, mt_stack := True\<rparr>) else Inr (Resume, m\<lparr>mt_suspended := False\<rparr>))"
    "thread_ok In_call (m\<lparr>mt_suspended := False, mt_stack := True, mt_continuationCallback := False\<rparr>)"
    "\<not> mt_continuationCallback m \<Longrightarrow> mt_stack m"
proof -
  have a: "mt_stack m = (\<not> mt_continuationCallback m)" "mt_activeCall m \<noteq> None"
    using assms by (cases "mt_activeCall m"; simp add: thread_ok_def)+
  then show "doWork_dispatch m = (if mt_continuationCallback m
       then Inr (Continue, m\<lparr>mt_suspended := False, mt_stack := True\<rparr>) else Inr (Resume, m\<lparr>mt_suspended := False\<rparr>))"
    "\<not> mt_continuationCallback m \<Longrightarrow> mt_stack m"
    using assms(2,3) by (simp_all add: doWork_dispatch_def enter_interrupt_def Let_def)
  show "thread_ok In_call (m\<lparr>mt_suspended := False, mt_stack := True, mt_continuationCallback := False\<rparr>)"
    using assms a unfolding thread_ok_def contexts_ok_def by (simp add: enter_started_def)
qed

lemma dispatch_interrupt_ok:
  assumes "talk_ok s" "tk_pc s = Top_of_run" "mt_pendingCall (tk_thread s) = Some (Interrupt_enter n)"
  shows "talk_ok (at_pc Starts_call (interrupted (tk_thread s)) s)"
proof -
  have t: "thread_ok Top_of_run (tk_thread s)" "saved_ok s" and
    l: "levels_ok (tk_client s) (line s) (pushes_of (tk_up s)) (tk_pendingSavedReply s) (frames s)
        (enter_waits s) (exit_answered s)" and rest: "tk_failed s = None" "up_ok (tk_up s)"
    using assms by (simp_all add: talk_ok_def)
  let ?s = "at_pc Starts_call (interrupted (tk_thread s)) s"
  have "Interrupt_enter n \<in> set (line s)" using assms(3) by (simp add: line_def)
  then obtain k ls where k: "tk_client s = Awaits (Interrupt_enter n) # k # ls \<or> tk_client s = Pushing (Interrupt_enter n) # k # ls"
    "lower_level k" "last (line s) = Interrupt_enter n"
    by (rule levels_enter [OF l])
  have w: "enter_waits s" using assms(2,3) by (simp add: enter_waits_def)
  have one: "filter is_enter (mt_pendingInterrupts (tk_thread s)) = []" "filter is_enter (calls_of (tk_up s)) = []"
    using talk_one_enter [OF assms(1)] assms(3) by (simp_all add: line_def)
  then have w': "\<not> enter_waits ?s"
    by (auto simp: enter_waits_def at_pc_def interrupted_def list_ex_iff filter_empty_conv)
  have v: "exit_answered ?s = exit_answered s" "frames ?s = mt_activeCall (tk_thread s) # frames s"
    "saved_ok ?s = saved_ok s"
    using assms(2) by (auto simp: at_pc_def interrupted_def view_defs slot_def split: option.splits)
  have q: "line s = tk_down s @ opt_list (mt_activeCall (tk_thread s)) @ Interrupt_enter n #
      (mt_pendingInterrupts (tk_thread s) @ calls_of (tk_up s))"
    "line ?s = tk_down s @ Interrupt_enter n # (mt_pendingInterrupts (tk_thread s) @ calls_of (tk_up s))"
    using assms by (simp_all add: line_def at_pc_def interrupted_def)
  have "levels_ok (tk_client s) (line ?s) (pushes_of (tk_up s)) (tk_pendingSavedReply s)
        (mt_activeCall (tk_thread s) # frames s) False (exit_answered s)"
  proof (cases "mt_activeCall (tk_thread s)")
    case None
    then have "line ?s = line s" using q by simp
    then show ?thesis using k l w None by auto
  next
    case (Some c)
    then have "length (line s) = 2" "tk_down s = []" "line ?s = [Interrupt_enter n]" "line s = [c, Interrupt_enter n]"
      using talk_line_short [OF assms(1)] q by auto
    then show ?thesis using k l w Some by (cases k) auto
  qed
  then show ?thesis
    using dispatch_interrupt(2) [OF t(1) assms(3)] t rest w' v unfolding talk_ok_def by (simp add: at_pc_def)
qed

lemma levels_pair:
  assumes "levels_ok ls q pushes psr ks waits answered" "q = c # d # r" "\<not> is_exit c"
  shows "is_enter d"
  using assms(1)
proof (cases rule: levels_ok_cases)
  case (entering m l ls')
  then have "lower_level l" using assms by simp
  then show ?thesis using entering assms by (cases rule: lower_level_cases) (auto split: if_splits)
qed (use assms in \<open>auto split: if_splits\<close>)

lemma dispatch_run_ok:
  assumes "talk_ok s" "talk_exec prompt Dispatch_run s = Some s'"
  shows "talk_ok s'"
proof -
  let ?m = "tk_thread s"
  have pc: "tk_pc s = Top_of_run" using assms(2) by (simp split: if_splits)
  have t: "thread_ok Top_of_run ?m" "saved_ok s" and
    l: "levels_ok (tk_client s) (line s) (pushes_of (tk_up s)) (tk_pendingSavedReply s) (frames s)
        (enter_waits s) (exit_answered s)"
    using assms(1) pc by (simp_all add: talk_ok_def)
  consider (enter) n where "mt_pendingCall ?m = Some (Interrupt_enter n)"
    | (other) c where "mt_pendingCall ?m = Some c" "\<not> is_enter c"
    | (wakes) "mt_pendingCall ?m = None" "mt_suspended ?m"
    | (quiet) "mt_pendingCall ?m = None" "\<not> mt_suspended ?m"
    by (cases "mt_pendingCall ?m"; cases "the (mt_pendingCall ?m)") auto
  then show ?thesis
  proof cases
    case enter
    then show ?thesis
      using dispatch_interrupt_ok [OF assms(1) pc enter] assms(2) dispatch_interrupt(1) [OF t(1) enter] pc by simp
  next
    case other
    have a: "mt_activeCall ?m = None"
    proof (rule ccontr)
      assume "mt_activeCall ?m \<noteq> None"
      then obtain d where d: "mt_activeCall ?m = Some d" "is_ordinary d"
        using t(1) unfolding thread_ok_def by auto
      then have "line s = d # c # []"
        using talk_line_short [OF assms(1)] other pc by (auto simp: line_def)
      then show False using levels_pair [OF l] other(2) d(2) by (cases d) auto
    qed
    have s': "s' = at_pc Starts_call (?m\<lparr>mt_suspended := False, mt_stack := True\<rparr>)
       (s\<lparr>tk_queued := tk_queued s, tk_down := tk_down s\<rparr>)"
      using assms(2) pc dispatch_other(1) [OF t(1) other a] by simp
    show ?thesis
      by (intro talk_ok_same [OF assms(1) s' dispatch_other(2) [OF t(1) other a]])
        (use t(2) other pc in \<open>auto simp: s' at_pc_def view_defs\<close>)
  next
    case wakes
    note d = dispatch_resume [OF t(1) wakes]
    let ?n = "?m\<lparr>mt_suspended := False, mt_stack := True, mt_continuationCallback := False\<rparr>"
    have s': "s' = at_pc In_call ?n (s\<lparr>tk_queued := tk_queued s, tk_down := tk_down s\<rparr>)"
      using assms(2) pc d(1,3)
      by (cases "mt_continuationCallback ?m") (auto simp: microthreadContinuation_def at_pc_def)
    show ?thesis
      by (rule talk_ok_same [OF assms(1) s' d(2)])
        (use t(2) wakes pc in \<open>auto simp: s' at_pc_def view_defs\<close>)
  next
    case quiet
    have "\<not> mt_continuationCallback ?m" using t quiet by (auto simp: thread_ok_def)
    then have "doWork_dispatch ?m = Inr (Nothing, ?m)"
      using quiet by (simp add: doWork_dispatch_def enter_interrupt_def Let_def)
    then have "end_of_run (?m\<lparr>mt_stack := mt_stack ?m\<rparr>) s = Some s'"
      using assms(2) pc by simp
    then show ?thesis by (rule end_of_run_ok [OF assms(1)]) (use pc quiet in auto)
  qed
qed

lemma thread_ok_receive:
  assumes "thread_ok pc m" "pc \<noteq> Exits_interrupt" "pc \<noteq> Back"
  shows "mt_pendingCall m = None \<Longrightarrow> thread_ok pc (m\<lparr>mt_pendingCall := Some c\<rparr>)"
    "mt_pendingCall m \<noteq> None \<Longrightarrow> is_enter c \<Longrightarrow>
       thread_ok pc (m\<lparr>mt_pendingInterrupts := mt_pendingInterrupts m @ [c]\<rparr>)"
  using assms unfolding thread_ok_def contexts_ok_def
  by (cases pc; simp add: enter_started_def)+

lemma view_receive:
  assumes "s' = s\<lparr>tk_up := us, tk_thread := m, tk_queued := q\<rparr>" "tk_up s = Send_call c # us"
    "setPendingCall c (tk_thread s) = Inr m" "tk_pc s \<noteq> Starts_call \<or> mt_pendingCall (tk_thread s) \<noteq> None"
    "mt_pendingCall (tk_thread s) \<noteq> None \<or> mt_pendingInterrupts (tk_thread s) = []"
  shows "line s' = line s" "frames s' = frames s" "enter_waits s' = enter_waits s"
    "exit_answered s' = exit_answered s" "saved_ok s \<Longrightarrow> saved_ok s'"
  using assms
  by (auto simp: view_defs setPendingCall_def split: if_splits call.splits)

lemma send_received:
  assumes "talk_ok s" "tk_up s = Send_call c # us"
  shows "is_enter c \<or> mt_pendingCall (tk_thread s) = None"
    "mt_pendingCall (tk_thread s) = None \<Longrightarrow> tk_pc s \<notin> {Exits_interrupt, Back} \<Longrightarrow>
       mt_pendingInterrupts (tk_thread s) = []"
proof -
  let ?m = "tk_thread s"
  have t: "thread_ok (tk_pc s) ?m" and
    l: "levels_ok (tk_client s) (line s) (pushes_of (tk_up s)) (tk_pendingSavedReply s) (frames s)
        (enter_waits s) (exit_answered s)"
    using assms(1) by (simp_all add: talk_ok_def)
  show "is_enter c \<or> mt_pendingCall ?m = None"
  proof (rule ccontr)
    assume "\<not> (is_enter c \<or> mt_pendingCall ?m = None)"
    then obtain d where d: "mt_pendingCall ?m = Some d" "\<not> is_enter c" by auto
    have q: "line s = d # c # []" "tk_down s = []"
      using talk_line_short [OF assms(1)] d(1) assms(2)
      by (auto simp: line_def opt_list_def split: if_splits option.splits)
    from levels_pair [OF l q(1)] d(2) have "is_exit d" by auto
    then obtain n where "d = Interrupt_exit n" by (cases d) auto
    with q active_exit [OF l _ exit_answered_def, of n] show False by auto
  qed
  assume p: "mt_pendingCall ?m = None" "tk_pc s \<notin> {Exits_interrupt, Back}"
  show "mt_pendingInterrupts ?m = []"
  proof (rule ccontr)
    assume ne: "mt_pendingInterrupts ?m \<noteq> []"
    with t p have "tk_pc s = In_call" by (cases "tk_pc s") (simp_all add: thread_ok_def)
    then have "mt_activeCall ?m \<noteq> None" using t by (simp add: thread_ok_def)
    then show False
      using talk_line_short [OF assms(1)] ne assms(2)
      by (cases "mt_pendingInterrupts ?m") (auto simp: line_def)
  qed
qed

lemma receive_call_ok:
  assumes "talk_ok s" "server_receive s = Some s'" "tk_pc s \<notin> {Exits_interrupt, Back}"
    "tk_up s = Send_call c # us"
  shows "talk_ok s'"
proof -
  let ?m = "tk_thread s"
  have t: "thread_ok (tk_pc s) ?m" using assms(1) by (simp add: talk_ok_def)
  note f = send_received [OF assms(1,4)]
  have "\<exists>m. setPendingCall c ?m = Inr m"
    using f(1) by (cases c; cases "mt_pendingCall ?m") (auto simp: setPendingCall_def)
  then obtain m where m: "setPendingCall c ?m = Inr m" ..
  have ok: "thread_ok (tk_pc s) m"
    using thread_ok_receive [OF t] assms(3) m f(1)
    by (cases c) (auto simp: setPendingCall_def split: if_splits)
  have s': "s' = s\<lparr>tk_up := us, tk_thread := m, tk_queued := Suc (tk_queued s)\<rparr>"
    using assms(2,4) m by (simp add: server_receive_def)
  have st: "tk_pc s \<noteq> Starts_call \<or> mt_pendingCall ?m \<noteq> None"
    using t by (cases "tk_pc s = Starts_call") (simp_all add: thread_ok_def)
  have pe: "mt_pendingCall ?m \<noteq> None \<or> mt_pendingInterrupts ?m = []" using f(2) assms(3) by blast
  note v = view_receive [OF s' assms(4) m st pe]
  show ?thesis
    using assms(1,4) v ok unfolding talk_ok_def by (simp add: s')
qed

lemma up_empty: "calls_of us = [] \<Longrightarrow> pushes_of us = [] \<Longrightarrow> us = []"
  by (cases us rule: calls_of.cases) auto

lemma pushed:
  assumes "talk_ok s" "tk_up s = Push_reply r # us"
  obtains n k ls where "tk_client s = Pushing (Interrupt_enter n) # k # ls" "lower_level k" "us = []"
    "level_out k = Some r" "tk_pendingSavedReply s = None" "line s = [Interrupt_enter n]"
    "if enter_waits s then stacked ls (frames s) else frames s \<noteq> [] \<and> hd (frames s) = None \<and> stacked ls (tl (frames s))"
proof -
  have u: "up_ok (tk_up s)" and
    l: "levels_ok (tk_client s) (line s) (pushes_of (tk_up s)) (tk_pendingSavedReply s) (frames s)
        (enter_waits s) (exit_answered s)"
    using assms(1) by (simp_all add: talk_ok_def)
  from l show ?thesis
  proof (cases rule: levels_ok_cases)
    case (pushing n k ls)
    then have "us = []" "level_out k = Some r"
      using l u assms(2) up_empty [of us] by (cases "level_out k"; auto)+
    then show ?thesis using that [of n k ls] pushing l by simp
  qed (use l assms(2) in auto)
qed

lemma push_pending:
  assumes "talk_ok s" "tk_up s = Push_reply r # us" "tk_pc s \<notin> {Exits_interrupt, Back}" "enter_waits s"
  obtains n where "mt_pendingCall (tk_thread s) = Some (Interrupt_enter n)" "tk_pc s \<noteq> Starts_call"
proof -
  let ?m = "tk_thread s"
  have t: "thread_ok (tk_pc s) ?m" using assms(1) by (simp add: talk_ok_def)
  obtain n k ls where p: "us = []" "line s = [Interrupt_enter n]"
    by (rule pushed [OF assms(1,2)])
  have "mt_pendingInterrupts ?m = []"
  proof (rule ccontr)
    assume ne: "mt_pendingInterrupts ?m \<noteq> []"
    then have "mt_pendingCall ?m = None" "mt_activeCall ?m = None"
      using p(2) by (cases "mt_pendingCall ?m"; cases "mt_activeCall ?m"; auto simp: line_def append_eq_Cons_conv)+
    then show False using t ne assms(3) by (cases "tk_pc s") (simp_all add: thread_ok_def)
  qed
  then have w: "tk_pc s \<noteq> Starts_call" "list_ex is_enter (opt_list (mt_pendingCall ?m))"
    using assms(2,4) p(1) by (auto simp: enter_waits_def split: if_splits)
  then obtain j where "mt_pendingCall ?m = Some (Interrupt_enter j)"
    by (cases "mt_pendingCall ?m"; cases "the (mt_pendingCall ?m)") auto
  then show ?thesis using that w by blast
qed

lemma thread_ok_save:
  assumes "thread_ok pc m" "mt_interrupts m = i # is" "in_interruptedCall i = None" "pc \<noteq> Exits_interrupt"
  shows "thread_ok pc (m\<lparr>mt_interrupts := i\<lparr>in_savedReply := r\<rparr> # is\<rparr>)"
  using assms unfolding thread_ok_def contexts_ok_def
  by (cases pc; simp add: enter_started_def)

lemma receive_push_ok:
  assumes "talk_ok s" "server_receive s = Some s'" "tk_pc s \<notin> {Exits_interrupt, Back}"
    "tk_up s = Push_reply r # us"
  shows "talk_ok s'"
proof -
  let ?m = "tk_thread s"
  have t: "thread_ok (tk_pc s) ?m" and f: "tk_failed s = None" using assms(1) by (simp_all add: talk_ok_def)
  obtain n k ls where p: "tk_client s = Pushing (Interrupt_enter n) # k # ls" "lower_level k" "us = []"
    "level_out k = Some r" "tk_pendingSavedReply s = None" "line s = [Interrupt_enter n]"
    "if enter_waits s then stacked ls (frames s) else frames s \<noteq> [] \<and> hd (frames s) = None \<and> stacked ls (tl (frames s))"
    by (rule pushed [OF assms(1,4)])
  show ?thesis
  proof (cases "\<exists>j. mt_pendingCall ?m = Some (Interrupt_enter j)")
    case True
    then have s': "s' = s\<lparr>tk_up := [], tk_pendingSavedReply := Some r, tk_client := Awaits (Interrupt_enter n) # k # ls\<rparr>"
      using assms(2,4) p by (auto simp: server_receive_def push_reply_def)
    have v: "line s' = line s" "frames s' = frames s" "enter_waits s' = enter_waits s"
      "exit_answered s' = exit_answered s" "saved_ok s'"
      using assms(4) True p(3) by (auto simp: s' view_defs)
    show ?thesis using v t f p unfolding talk_ok_def by (auto simp: s')
  next
    case False
    then have w: "\<not> enter_waits s" using push_pending [OF assms(1,4,3)] by blast
    then obtain i "is" where i: "mt_interrupts ?m = i # is" "slot i = None"
      using p(7) assms(3) by (cases "mt_interrupts ?m") (auto simp: frames_def)
    then have i': "in_interruptedCall i = None" "in_savedReply i = None"
      by (auto simp: slot_def split: option.splits)
    have s': "s' = s\<lparr>tk_up := [], tk_thread := ?m\<lparr>mt_interrupts := i\<lparr>in_savedReply := Some r\<rparr> # is\<rparr>,
        tk_pendingSavedReply := None, tk_client := Awaits (Interrupt_enter n) # k # ls\<rparr>"
      using assms(2,4) p i i' False
      by (auto simp: server_receive_def push_reply_def split: option.splits call.splits)
    have v: "line s' = line s" "frames s' = Some r # tl (frames s)" "enter_waits s' = enter_waits s"
      "exit_answered s' = exit_answered s" "saved_ok s'"
      using assms(3,4) i i' p(3) by (auto simp: s' view_defs slot_def)
    show ?thesis
      using v thread_ok_save [OF t i(1) i'(1), of "Some r"] assms(3) f p w unfolding talk_ok_def by (auto simp: s')
  qed
qed

lemma server_receive_ok:
  assumes "talk_ok s" "talk_exec True Server_receive s = Some s'"
  shows "talk_ok s'"
proof -
  have a: "server_receive s = Some s'" "tk_pc s \<notin> {Exits_interrupt, Back}"
    using assms(2) by (simp_all split: if_splits)
  then obtain msg us where u: "tk_up s = msg # us" by (auto simp: server_receive_def split: list.splits)
  show ?thesis
  proof (cases msg)
    case (Send_call c)
    then show ?thesis using receive_call_ok [OF assms(1) a] u by simp
  next
    case (Push_reply r)
    then show ?thesis using receive_push_ok [OF assms(1) a] u by simp
  qed
qed

lemma talk_step_ok:
  assumes "talk_ok s" "talk_step True s s'"
  shows "talk_ok s'"
proof -
  obtain a where a: "talk_exec True a s = Some s'" using assms(2) by (auto elim: talk_step.cases)
  show ?thesis
    by (cases a)
      (use assms(1) a in \<open>blast intro: client_call_ok client_signal_ok client_exit_ok rpc_receive_ok
        server_receive_ok pick_run_ok dispatch_run_ok activate_call_ok begin_interrupt_ok
        reply_interrupted_ok end_interrupt_ok reply_active_ok pop_interrupt_ok suspend_call_ok
        back_to_top_ok wake_up_ok\<close>)+
qed

lemma talk_start_ok: "talk_ok talk_start"
  by (simp add: talk_start_def Thread_new_def talk_defs thread_ok_def contexts_ok_def enter_started_def stacked_def)

section \<open>Staying in step\<close>

interpretation dialogue: inductive_invariant "\<lambda>s. s = talk_start" "talk_step True" talk_ok
  by unfold_locales (simp_all add: talk_start_ok talk_step_ok)

definition outstanding :: "talk \<Rightarrow> call list" where
  "outstanding s = line s @ opt_list (tk_pendingSavedReply s) @ pushes_of (tk_up s) @ concat (map opt_list (frames s))"

fun level_call :: "client_level \<Rightarrow> call list" where
  "level_call Idle = []"
| "level_call (Awaits c) = [c]"
| "level_call (Pushing c) = [c]"

definition awaited :: "talk \<Rightarrow> call list" where
  "awaited s = concat (map level_call (tk_client s))"

lemma stacked_calls: "stacked ls ks \<Longrightarrow> mset (concat (map opt_list ks)) = mset (concat (map level_call ls))"
proof (induction ls arbitrary: ks)
  case (Cons l ls)
  then show ?case by (cases l; cases ks) (auto simp: stacked_Cons)
qed (simp add: stacked_def)

lemma levels_outstanding:
  assumes "levels_ok ls q pushes psr ks waits answered"
  shows "mset (q @ opt_list psr @ pushes @ concat (map opt_list ks)) = mset (concat (map level_call ls))"
  using assms
proof (cases rule: levels_ok_cases)
  case (leaving n l ls')
  then have "lower_level l" using assms by simp
  then show ?thesis using leaving assms
    by (cases rule: lower_level_cases) (auto dest!: stacked_calls split: if_splits)
next
  case (entering n l ls')
  then have low: "lower_level l" using assms by simp
  then show ?thesis using entering assms
    by (cases rule: lower_level_cases; cases ks) (auto dest!: stacked_calls split: if_splits)
next
  case (pushing n l ls')
  then have low: "lower_level l" using assms by simp
  then show ?thesis using pushing assms
    by (cases rule: lower_level_cases; cases ks) (auto dest!: stacked_calls split: if_splits)
qed (use assms in \<open>auto dest!: stacked_calls\<close>)

lemma talk_run_reach:
  assumes "talk_run p as s = Some s'" "reach init (talk_step p) s"
  shows "reach init (talk_step p) s'"
  using assms
proof (induction as arbitrary: s)
  case (Cons a as)
  then obtain t where "tk_failed s = None" "talk_exec p a s = Some t" "talk_run p as t = Some s'"
    by (auto split: if_splits option.splits)
  with Cons show ?case by (blast intro: reach_next talk_step.step)
qed simp

text \<open>C5: A thread and its client never get out of step, as long as the server takes no message
  of the thread between a reply and the worker's return to the top of \<open>doWork\<close>: no operation of the
  server throws, the client never reads a reply to something else than what it waits for, and the calls
  and replies under way, pushed back or saved are exactly the calls that the levels of the client wait for.\<close>

theorem interrupts_stay_in_step:
  assumes "reach (\<lambda>s. s = talk_start) (talk_step True) s"
  shows "tk_failed s = None \<and> mset (outstanding s) = mset (awaited s)"
proof -
  have ok: "talk_ok s" by (rule dialogue.holds_when_reached [OF assms])
  then show ?thesis
    using levels_outstanding unfolding talk_ok_def outstanding_def awaited_def by blast
qed

definition serve :: "talk_action list" where
  "serve = [Server_receive, Pick_run, Dispatch_run, Activate_call]"

definition answer :: "talk_action list" where
  "answer = [Reply_active, Back_to_top, Client_receive]"

definition handle :: "talk_action list" where
  "handle = [Begin_interrupt, End_interrupt]"

text \<open>A call is interrupted while it waits, and its reply comes after the end of the interrupt.\<close>

definition interrupted_call :: "talk_action list" where
  "interrupted_call =
     Client_call # serve @ [Suspend_call False, Back_to_top, Client_signal] @ serve @
     [Begin_interrupt, Reply_interrupted, End_interrupt] @ answer @ [Client_exit] @ serve @
     [Reply_active, Pop_interrupt]"

theorem interrupts_stay_in_step_witness:
  "\<exists>s. reach (\<lambda>s. s = talk_start) (talk_step True) s \<and>
     tk_client s = [Awaits (Interrupt_exit 2), Awaits (Ordinary 0)] \<and>
     tk_down s = [Interrupt_exit 2, Ordinary 0] \<and>
     tk_failed s = None \<and> mset (outstanding s) = mset (awaited s)"
proof -
  have "\<exists>s. talk_run True interrupted_call talk_start = Some s \<and>
      tk_client s = [Awaits (Interrupt_exit 2), Awaits (Ordinary 0)] \<and> tk_down s = [Interrupt_exit 2, Ordinary 0]"
    by (rule returns) code_simp
  then obtain s where run: "talk_run True interrupted_call talk_start = Some s"
    "tk_client s = [Awaits (Interrupt_exit 2), Awaits (Ordinary 0)]" "tk_down s = [Interrupt_exit 2, Ordinary 0]"
    by blast
  have r: "reach (\<lambda>s. s = talk_start) (talk_step True) s"
    by (rule talk_run_reach [OF run(1)]) (simp add: reach_start)
  with run(2,3) interrupts_stay_in_step [OF r] show ?thesis by blast
qed

definition early_push :: "talk_action list" where
  "early_push = [Client_call, Client_signal, Server_receive] @ serve @ [Reply_active, Client_receive, Server_receive]"

definition misplaced_reply :: "talk_action list" where
  "misplaced_reply =
     Client_signal # serve @ handle @ answer @ early_push @ [Back_to_top] @ tl serve @ handle @ answer @
     [Client_exit] @ serve @ [Reply_active, Pop_interrupt, Back_to_top, Client_receive, Pick_run, Dispatch_run]"


end
