(* ===== verification/Calls.thy ===== *)
theory Calls
  imports Interrupts ProcessLife TaskMemory
begin

text \<open>
  Calls (\<open>src/src/call.cpp\<close>): how a message becomes a call of a thread, and what the calls on
  processes, paths, groups, tracers and channels do. Processes and threads are those of
  \<open>ProcessLife\<close>, the memory of the clients is that of \<open>TaskMemory\<close>, the state of a thread between
  calls is that of \<open>Microthread\<close>, and pushed replies are saved by \<open>Interrupts\<close>.

  The table of call numbers and structure sizes is generated by a script and is a parameter. A
  handler gives its reply (the code first) and the new state.
\<close>

unbundle bit_operations_syntax

section \<open>The server as the calls see it\<close>

text \<open>
  With the processes and threads: the machine with the memory of the clients, the lines logged, the
  user and group of every duct-taped task, the handles of every duct-taped thread, the monitors of
  an exec in progress (pipe, process, whether a Darling process follows), and for each thread its
  scheduling state, reply address, saved reply and S2C reply. The last list holds the calls that run in
  kernel microthreads.
\<close>

record 'k served =
  sv_life :: life
  sv_machine :: 'k
  sv_log :: "string list"
  sv_tokens :: "nat \<Rightarrow> u32 \<times> u32"
  sv_handles :: "nat \<Rightarrow> u64 \<times> u64"
  sv_execMonitors :: "(int \<times> ptr \<times> bool) list"
  sv_micro :: "ptr \<Rightarrow> microthread"
  sv_address :: "ptr \<Rightarrow> nat"
  sv_pendingSavedReply :: "ptr \<Rightarrow> call option"
  sv_s2cReply :: "ptr \<Rightarrow> bool"
  sv_kernelCalls :: "u32 list"


definition with_proc :: "ptr \<Rightarrow> process_obj \<Rightarrow> 'k served \<Rightarrow> 'k served" where
  "with_proc p x s = s\<lparr>sv_life := put_proc p x (sv_life s)\<rparr>"

text \<open>\<open>_thread.lock()\<close> followed by \<open>thread->process()\<close>.\<close>

definition calling_process :: "ptr \<Rightarrow> life \<Rightarrow> (ptr \<times> process_obj) option" where
  "calling_process t w =
     (case map_of (lf_threads w) t of
        None \<Rightarrow> None
      | Some th \<Rightarrow>
          (case th_process th of
             None \<Rightarrow> None
           | Some p \<Rightarrow> (case map_of (lf_procs w) p of None \<Rightarrow> None | Some x \<Rightarrow> Some (p, x))))"

definition lookup_process :: "int \<Rightarrow> life \<Rightarrow> ptr option" where
  "lookup_process nsid w =
     find (\<lambda>p. case map_of (lf_procs w) p of None \<Rightarrow> False | Some x \<Rightarrow> px_nspid x = nsid) (lf_processRegistry w)"

definition lookup_thread :: "int \<Rightarrow> life \<Rightarrow> ptr option" where
  "lookup_thread nsid w =
     find (\<lambda>t. case map_of (lf_threads w) t of None \<Rightarrow> False | Some th \<Rightarrow> th_nsid th = nsid) (lf_threadRegistry w)"

text \<open>What reading and writing memory needs to know of a process.\<close>

definition memory_of :: "process_obj \<Rightarrow> process" where
  "memory_of x = \<lparr>proc_id = nat (px_pid x), proc_dead = px_dead x, proc_current = None, proc_threads = []\<rparr>"

definition writeMemory :: "'k host \<Rightarrow> process_obj \<Rightarrow> u64 \<Rightarrow> u8 list \<Rightarrow> 'k served \<Rightarrow> int \<times> 'k served" where
  "writeMemory h x addr bytes s =
     (case Process_writeMemory h (memory_of x) addr bytes (sv_machine s) of
        Inl e \<Rightarrow> (- e, s)
      | Inr k \<Rightarrow> (0, s\<lparr>sv_machine := k\<rparr>))"

section \<open>Strings and groups in memory\<close>

definition bytes_of :: "string \<Rightarrow> u8 list" where
  "bytes_of cs = map of_char cs"

definition string_of :: "u8 list \<Rightarrow> string" where
  "string_of bs = map (\<lambda>b. char_of (unat b)) bs"

definition c_str :: "string \<Rightarrow> u8 list" where
  "c_str cs = bytes_of cs @ [0]"

text \<open>A C string read from memory ends before its first null byte.\<close>

definition from_c_str :: "u8 list \<Rightarrow> string" where
  "from_c_str bs = string_of (takeWhile (\<lambda>b. b \<noteq> 0) bs)"

definition u32_bytes :: "u32 \<Rightarrow> u8 list" where
  "u32_bytes w = [ucast w, ucast (drop_bit 8 w), ucast (drop_bit 16 w), ucast (drop_bit 24 w)]"

definition groups_bytes :: "u32 list \<Rightarrow> u8 list" where
  "groups_bytes gs = concat (map u32_bytes gs)"

fun bytes_groups :: "u8 list \<Rightarrow> u32 list" where
  "bytes_groups (a # b # c # d # bs) =
     (ucast a OR push_bit 8 (ucast b) OR push_bit 16 (ucast c) OR push_bit 24 (ucast d)) # bytes_groups bs"
| "bytes_groups _ = []"

section \<open>Handlers\<close>

text \<open>\<open>Checkin\<close>: exceptions of \<open>notifyCheckin\<close> are not caught.\<close>

definition Checkin :: "nat \<Rightarrow> ptr \<Rightarrow> 'k served \<Rightarrow> (int \<times> 'k served) result" where
  "Checkin arch t s =
     (case calling_process t (sv_life s) of
        None \<Rightarrow> Inr (- ESRCH, s)
      | Some (p, x) \<Rightarrow>
          (case notifyCheckin arch p (sv_life s) of
             Inl e \<Rightarrow> Inl e
           | Inr w \<Rightarrow> Inr (0, s\<lparr>sv_life := w\<rparr>)))"

text \<open>
  \<open>Checkout\<close>: the end of a thread, or an exec whose pipe is monitored. \<open>getfl\<close> and \<open>setfl\<close> are the
  answers of \<open>fcntl\<close>, an error number or nothing. The reply does not go through the thread.
\<close>

definition Checkout ::
  "int option \<Rightarrow> int option \<Rightarrow> int \<Rightarrow> bool \<Rightarrow> ptr \<Rightarrow> 'k served \<Rightarrow> int \<times> 'k served" where
  "Checkout getfl setfl exec_listener_pipe executing_macho t s =
     (case calling_process t (sv_life s) of
        None \<Rightarrow> (- ESRCH, s)
      | Some (p, x) \<Rightarrow>
          if exec_listener_pipe \<ge> 0 then
            (case getfl of
               Some e \<Rightarrow> (- e, s)
             | None \<Rightarrow>
                 (case setfl of
                    Some e \<Rightarrow> (- e, s)
                  | None \<Rightarrow>
                      (0, s\<lparr>sv_execMonitors := sv_execMonitors s @ [(exec_listener_pipe, p, executing_macho)]\<rparr>)))
          else (0, s\<lparr>sv_life := Thread_notifyDead t (sv_life s)\<rparr>))"

text \<open>The function of that monitor; \<open>read_result\<close> is what \<open>read\<close> returns, an error number or a count.\<close>

definition exec_listener :: "int + nat \<Rightarrow> ptr \<Rightarrow> bool \<Rightarrow> 'k served \<Rightarrow> 'k served result" where
  "exec_listener read_result p replacingWithDarlingProcess s =
     (case map_of (lf_procs (sv_life s)) p of
        None \<Rightarrow> Inr s
      | Some x \<Rightarrow>
          (case read_result of
             Inl e \<Rightarrow> Inl (System_error e)
           | Inr n \<Rightarrow>
               if n = 0 then
                 (if replacingWithDarlingProcess
                  then Inr (with_proc p (setPendingReplacement x) s)
                  else Inr (s\<lparr>sv_life := Process_notifyDead p (sv_life s)\<rparr>))
               else Inr s))"

definition VchrootPath :: "'k host \<Rightarrow> u64 \<Rightarrow> u64 \<Rightarrow> ptr \<Rightarrow> 'k served \<Rightarrow> (int \<times> nat) \<times> 'k served" where
  "VchrootPath h buffer buffer_size t s =
     (case calling_process t (sv_life s) of
        None \<Rightarrow> ((- ESRCH, 0), s)
      | Some (p, x) \<Rightarrow>
          if buffer_size > 0 then
            (let path = px_cachedVchrootPath x;
                 tmpstr = take (unat (buffer_size - 1)) path;
                 len = min (length tmpstr + 1) (unat buffer_size);
                 (code, s) = writeMemory h x buffer (take len (c_str tmpstr)) s in
             ((code, length path), s))
          else ((0, 0), s))"

text \<open>\<open>MldrPath\<close> replies with the length of another path than the one it writes.\<close>

definition MldrPath ::
  "string \<Rightarrow> 'k host \<Rightarrow> u64 \<Rightarrow> u64 \<Rightarrow> ptr \<Rightarrow> 'k served \<Rightarrow> (int \<times> nat) \<times> 'k served" where
  "MldrPath defaultMldrPath h buffer buffer_size t s =
     (case calling_process t (sv_life s) of
        None \<Rightarrow> ((- ESRCH, 0), s)
      | Some (p, x) \<Rightarrow>
          (let tmpstr = take (unat (buffer_size - 1)) defaultMldrPath;
               len = min (length tmpstr + 1) (unat buffer_size);
               (code, s) = writeMemory h x buffer (take len (c_str tmpstr)) s in
           ((code, length (px_cachedVchrootPath x)), s)))"

definition isspace :: "u8 \<Rightarrow> bool" where
  "isspace b \<longleftrightarrow> b \<in> {0x20, 0x09, 0x0a, 0x0b, 0x0c, 0x0d}"

definition strip_trailing :: "u8 list \<Rightarrow> u8 list" where
  "strip_trailing bs = rev (dropWhile isspace (rev bs))"

definition Kprintf :: "'k host \<Rightarrow> u64 \<Rightarrow> u64 \<Rightarrow> ptr \<Rightarrow> 'k served \<Rightarrow> int \<times> 'k served" where
  "Kprintf h str string_length t s =
     (case calling_process t (sv_life s) of
        None \<Rightarrow> (- ESRCH, s)
      | Some (p, x) \<Rightarrow>
          (case malloc_ok h (string_length + 1) (sv_machine s) of
             (False, k) \<Rightarrow> (- ENOMEM, s\<lparr>sv_machine := k\<rparr>)
           | (True, k) \<Rightarrow>
               (case Process_readMemory h (memory_of x) str string_length k of
                  Inl e \<Rightarrow> (- e, s\<lparr>sv_machine := k\<rparr>)
                | Inr bs \<Rightarrow>
                    (0, s\<lparr>sv_machine := k, sv_log := sv_log s @ [from_c_str (strip_trailing bs)]\<rparr>))))"

definition StartedSuspended :: "ptr \<Rightarrow> 'k served \<Rightarrow> (int \<times> bool) \<times> 'k served" where
  "StartedSuspended t s =
     (case calling_process t (sv_life s) of
        None \<Rightarrow> ((- ESRCH, False), s)
      | Some (p, x) \<Rightarrow> ((0, px_startSuspended x), with_proc p (x\<lparr>px_startSuspended := False\<rparr>) s))"

definition StopAfterExec :: "ptr \<Rightarrow> 'k served \<Rightarrow> int \<times> 'k served" where
  "StopAfterExec t s =
     (case calling_process t (sv_life s) of
        None \<Rightarrow> (- ESRCH, s)
      | Some (p, x) \<Rightarrow> (0, with_proc p (x\<lparr>px_startSuspended := True\<rparr>) s))"

text \<open>A weak pointer to a process that is gone counts as none.\<close>

definition tracerProcess :: "process_obj \<Rightarrow> life \<Rightarrow> (ptr \<times> process_obj) option" where
  "tracerProcess x w =
     (case px_tracerProcess x of
        None \<Rightarrow> None
      | Some q \<Rightarrow> (case map_of (lf_procs w) q of None \<Rightarrow> None | Some y \<Rightarrow> Some (q, y)))"

definition GetTracer :: "ptr \<Rightarrow> 'k served \<Rightarrow> int \<times> int" where
  "GetTracer t s =
     (case calling_process t (sv_life s) of
        None \<Rightarrow> (- ESRCH, 0)
      | Some (p, x) \<Rightarrow>
          (case tracerProcess x (sv_life s) of
             None \<Rightarrow> (0, 0)
           | Some (q, y) \<Rightarrow> (0, px_nspid y)))"

definition setTracerProcess :: "ptr option \<Rightarrow> ptr \<Rightarrow> process_obj \<Rightarrow> 'k served \<Rightarrow> bool \<times> 'k served" where
  "setTracerProcess tracer p x s =
     (if tracerProcess x (sv_life s) \<noteq> None then (False, s)
      else (True, with_proc p (x\<lparr>px_tracerProcess := tracer\<rparr>) s))"

definition set_tracer_target :: "int \<Rightarrow> ptr \<Rightarrow> life \<Rightarrow> (ptr \<times> process_obj) option" where
  "set_tracer_target target t w =
     (if target = 0 then calling_process t w
      else (case lookup_process target w of
              None \<Rightarrow> None
            | Some p \<Rightarrow> (case map_of (lf_procs w) p of None \<Rightarrow> None | Some x \<Rightarrow> Some (p, x))))"

definition SetTracer :: "int \<Rightarrow> int \<Rightarrow> ptr \<Rightarrow> 'k served \<Rightarrow> int \<times> 'k served" where
  "SetTracer target tracer t s =
     (case set_tracer_target target t (sv_life s) of
        None \<Rightarrow> (ESRCH, s)
      | Some (p, x) \<Rightarrow>
          if tracer \<noteq> 0 \<and> lookup_process tracer (sv_life s) = None then (ESRCH, s)
          else
            (case setTracerProcess (if tracer = 0 then None else lookup_process tracer (sv_life s)) p x s of
               (ok, s) \<Rightarrow> (if ok then 0 else EPERM, s)))"

definition dtape_task_uidgid :: "int \<Rightarrow> int \<Rightarrow> u32 \<times> u32 \<Rightarrow> (int \<times> int) \<times> (u32 \<times> u32)" where
  "dtape_task_uidgid new_uid new_gid token =
     ((sint (fst token), sint (snd token)),
      (if new_uid \<ge> 0 then of_int new_uid else fst token,
       if new_gid \<ge> 0 then of_int new_gid else snd token))"

definition Uidgid :: "int \<Rightarrow> int \<Rightarrow> ptr \<Rightarrow> 'k served \<Rightarrow> ((int \<times> int \<times> int) \<times> 'k served) result" where
  "Uidgid new_uid new_gid t s =
     (case calling_process t (sv_life s) of
        None \<Rightarrow> Inr ((- ESRCH, - 1, - 1), s)
      | Some (p, x) \<Rightarrow>
          (case px_dtapeTask x of
             None \<Rightarrow> Inl (Undefined_behaviour ''task'')
           | Some k \<Rightarrow>
               (case dtape_task_uidgid new_uid new_gid (sv_tokens s k) of
                  ((uid, gid), token) \<Rightarrow> Inr ((0, uid, gid), s\<lparr>sv_tokens := (sv_tokens s)(k := token)\<rparr>))))"

definition SetThreadHandles :: "u64 \<Rightarrow> u64 \<Rightarrow> ptr \<Rightarrow> 'k served \<Rightarrow> (int \<times> 'k served) result" where
  "SetThreadHandles pthread_handle dispatch_qaddr t s =
     (case map_of (lf_threads (sv_life s)) t of
        None \<Rightarrow> Inr (- ESRCH, s)
      | Some th \<Rightarrow>
          (case th_dtapeThread th of
             None \<Rightarrow> Inl (Undefined_behaviour ''thread'')
           | Some k \<Rightarrow> Inr (0, s\<lparr>sv_handles := (sv_handles s)(k := (pthread_handle, dispatch_qaddr))\<rparr>)))"

text \<open>\<open>readlink_result\<close> is what \<open>readlink\<close> gives for the directory: an error number or a path.\<close>

definition Vchroot :: "int + string \<Rightarrow> ptr \<Rightarrow> 'k served \<Rightarrow> int \<times> 'k served" where
  "Vchroot readlink_result t s =
     (case calling_process t (sv_life s) of
        None \<Rightarrow> (- ESRCH, s)
      | Some (p, x) \<Rightarrow>
          (case readlink_result of
             Inl e \<Rightarrow> (- e, s)
           | Inr path \<Rightarrow> (0, with_proc p (x\<lparr>px_cachedVchrootPath := take 4095 path\<rparr>) s)))"

text \<open>
  Opening a channel, at the new address \<open>c\<close>. \<open>setup_result\<close> is the socket, or the error number of a
  system error, or nothing for another exception. The channel is registered in any case.
\<close>

definition Kqchan_open :: "(int option + int) \<Rightarrow> ptr \<Rightarrow> ptr \<Rightarrow> 'k served \<Rightarrow> (int \<times> int) \<times> 'k served" where
  "Kqchan_open setup_result c t s =
     (case calling_process t (sv_life s) of
        None \<Rightarrow> ((- ESRCH, - 1), s)
      | Some (p, x) \<Rightarrow>
          ((case setup_result of
              Inl (Some e) \<Rightarrow> (- e, - 1)
            | Inl None \<Rightarrow> (- ESRCH, - 1)
            | Inr socket \<Rightarrow> (0, socket)),
           with_proc p (registerKqchan c x)
             (s\<lparr>sv_life := (sv_life s)\<lparr>lf_channels := List.insert c (lf_channels (sv_life s))\<rparr>\<rparr>)))"

abbreviation architecture_x86_64 :: nat where "architecture_x86_64 \<equiv> 2"
abbreviation architecture_arm64 :: nat where "architecture_arm64 \<equiv> 4"

definition is64Bit :: "process_obj \<Rightarrow> bool" where
  "is64Bit x \<longleftrightarrow> px_architecture x = architecture_x86_64 \<or> px_architecture x = architecture_arm64"

definition TaskIs64Bit :: "int \<Rightarrow> 'k served \<Rightarrow> int \<times> bool" where
  "TaskIs64Bit target s =
     (case lookup_process target (sv_life s) of
        None \<Rightarrow> (- ESRCH, False)
      | Some p \<Rightarrow>
          (case map_of (lf_procs (sv_life s)) p of
             None \<Rightarrow> (- ESRCH, False)
           | Some x \<Rightarrow> (0, is64Bit x)))"

definition SetExecutablePath ::
  "'k host \<Rightarrow> u64 \<Rightarrow> u64 \<Rightarrow> ptr \<Rightarrow> 'k served \<Rightarrow> (int \<times> 'k served) result" where
  "SetExecutablePath h buffer buffer_size t s =
     (case calling_process t (sv_life s) of
        None \<Rightarrow> Inr (- ESRCH, s)
      | Some (p, x) \<Rightarrow>
          (case malloc_ok h buffer_size (sv_machine s) of
             (False, k) \<Rightarrow> Inl Bad_alloc
           | (True, k) \<Rightarrow>
               (case Process_readMemory h (memory_of x) buffer buffer_size k of
                  Inl e \<Rightarrow> Inr (- e, s\<lparr>sv_machine := k\<rparr>)
                | Inr bs \<Rightarrow>
                    Inr (0, with_proc p (x\<lparr>px_executablePath := from_c_str bs\<rparr>) (s\<lparr>sv_machine := k\<rparr>)))))"

text \<open>The length in the reply is not initialised when the target is not found.\<close>

definition GetExecutablePath ::
  "'k host \<Rightarrow> int \<Rightarrow> u64 \<Rightarrow> u64 \<Rightarrow> ptr \<Rightarrow> 'k served \<Rightarrow> (int \<times> nat option) \<times> 'k served" where
  "GetExecutablePath h pid buffer buffer_size t s =
     (case calling_process t (sv_life s) of
        None \<Rightarrow> ((- ESRCH, None), s)
      | Some (p, x) \<Rightarrow>
          (case lookup_process pid (sv_life s) of
             None \<Rightarrow> ((ESRCH, None), s)
           | Some q \<Rightarrow>
               (case map_of (lf_procs (sv_life s)) q of
                  None \<Rightarrow> ((ESRCH, None), s)
                | Some y \<Rightarrow>
                    (let path = px_executablePath y;
                         len = min (length path + 1) (unat buffer_size);
                         (code, s) = writeMemory h x buffer (take len (c_str path)) s in
                     ((code, Some (length path)), s)))))"

definition new_groups_step ::
  "'k host \<Rightarrow> u64 \<Rightarrow> u64 \<Rightarrow> ptr \<Rightarrow> process_obj \<Rightarrow> 'k served \<Rightarrow> (int \<times> 'k served) result" where
  "new_groups_step h new_groups new_group_count p x s =
     (if new_groups \<noteq> 0 \<and> new_group_count > 0 then
        (case malloc_ok h (new_group_count * 4) (sv_machine s) of
           (False, k) \<Rightarrow> Inl Bad_alloc
         | (True, k) \<Rightarrow>
             (case Process_readMemory h (memory_of x) new_groups (new_group_count * 4) k of
                Inl e \<Rightarrow> Inr (- e, s\<lparr>sv_machine := k\<rparr>)
              | Inr bs \<Rightarrow> Inr (0, with_proc p (x\<lparr>px_groups := bytes_groups bs\<rparr>) (s\<lparr>sv_machine := k\<rparr>))))
      else Inr (0, s))"

definition Groups ::
  "'k host \<Rightarrow> u64 \<Rightarrow> u64 \<Rightarrow> u64 \<Rightarrow> u64 \<Rightarrow> ptr \<Rightarrow> 'k served \<Rightarrow> ((int \<times> nat) \<times> 'k served) result" where
  "Groups h new_groups new_group_count old_groups old_group_space t s =
     (case calling_process t (sv_life s) of
        None \<Rightarrow> Inr ((- ESRCH, 0), s)
      | Some (p, x) \<Rightarrow>
          (case new_groups_step h new_groups new_group_count p x s of
             Inl e \<Rightarrow> Inl e
           | Inr (code, s) \<Rightarrow>
               if code = 0 \<and> old_groups \<noteq> 0 \<and> old_group_space > 0 then
                 (let n = min (length (px_groups x)) (unat old_group_space);
                      (code, s) = writeMemory h x old_groups (groups_bytes (take n (px_groups x))) s in
                  Inr ((code, length (px_groups x)), s))
               else Inr ((code, length (px_groups x)), s)))"

section \<open>Signals of an interrupted thread\<close>

definition pendingSignal :: "microthread \<Rightarrow> int" where
  "pendingSignal m = (case mt_interrupts m of [] \<Rightarrow> 0 | i # is \<Rightarrow> in_signal i)"

definition setPendingSignal :: "int \<Rightarrow> microthread \<Rightarrow> (int \<times> microthread) result" where
  "setPendingSignal signal m =
     (case mt_interrupts m of
        [] \<Rightarrow> Inl (Runtime_error ''Can't set pending signal with no active interrupts'')
      | i # is \<Rightarrow> Inr (in_signal i, m\<lparr>mt_interrupts := i\<lparr>in_signal := signal\<rparr> # is\<rparr>))"

text \<open>The exception of \<open>setPendingSignal\<close> is not caught.\<close>

definition PtraceThupdate :: "int \<Rightarrow> int \<Rightarrow> 'k served \<Rightarrow> (int \<times> 'k served) result" where
  "PtraceThupdate target signum s =
     (case lookup_thread target (sv_life s) of
        None \<Rightarrow> Inr (ESRCH, s)
      | Some t \<Rightarrow>
          (case setPendingSignal signum (sv_micro s t) of
             Inl e \<Rightarrow> Inl e
           | Inr (old, m) \<Rightarrow> Inr (0, s\<lparr>sv_micro := (sv_micro s)(t := m)\<rparr>)))"

section \<open>From messages to calls\<close>

text \<open>
  The table that is generated from the list of calls: the known numbers, the sizes of their
  structures, and the numbers of three calls.
\<close>

record call_table =
  ct_known :: "u32 \<Rightarrow> bool"
  ct_size :: "u32 \<Rightarrow> nat"
  ct_checkin :: u32
  ct_interrupt_enter :: u32
  ct_interrupt_exit :: u32

abbreviation callnum_s2c :: u32 where "callnum_s2c \<equiv> 0x052cca11"
abbreviation callnum_push_reply :: u32 where "callnum_push_reply \<equiv> 0x0badca11"
abbreviation CALL_UNMANAGED_FLAG :: u32 where "CALL_UNMANAGED_FLAG \<equiv> 0x80000000"
abbreviation callhdr_size :: nat where "callhdr_size \<equiv> 16"

text \<open>
  A message: its size, the header, the process ID in its credentials, its sender's address, an
  identity of its own, and, for a pushed reply, the call that the reply answers and whether the
  pipe and the body could be read.
\<close>

record request =
  rq_size :: nat
  rq_number :: u32
  rq_pid :: int
  rq_tid :: int
  rq_arch :: nat
  rq_sender :: int
  rq_from :: nat
  rq_ident :: nat
  rq_pushed :: call
  rq_pushed_pipe :: bool
  rq_pushed_body :: bool

definition call_of :: "call_table \<Rightarrow> request \<Rightarrow> call" where
  "call_of tb r =
     (if rq_number r = ct_interrupt_enter tb then Interrupt_enter (rq_ident r)
      else if rq_number r = ct_interrupt_exit tb then Interrupt_exit (rq_ident r)
      else Ordinary (rq_ident r))"

text \<open>
  What is found when a process or thread has to be made, at the new addresses \<open>fr_process\<close> and
  \<open>fr_thread\<close>: an exception of the constructor, or the parent of the process.
\<close>

record fresh =
  fr_process :: ptr
  fr_thread :: ptr
  fr_parent :: "ptr option result"
  fr_thread_found :: "unit result"

text \<open>A system error of a constructor gives no object; other exceptions get through.\<close>

definition find_process :: "fresh \<Rightarrow> request \<Rightarrow> life \<Rightarrow> (ptr option \<times> life) result" where
  "find_process f r w =
     (case lookup_process (rq_pid r) w of
        Some p \<Rightarrow> Inr (Some p, w)
      | None \<Rightarrow>
          (case fr_parent f of
             Inl (System_error e) \<Rightarrow> Inr (None, w)
           | Inl e \<Rightarrow> Inl e
           | Inr parent \<Rightarrow>
               (let p = fr_process f; w = Process_ctor p (rq_sender r) (rq_pid r) (rq_arch r) parent w in
                Inr (Some p, w\<lparr>lf_processRegistry := lf_processRegistry w @ [p]\<rparr>))))"

definition find_thread :: "fresh \<Rightarrow> request \<Rightarrow> ptr \<Rightarrow> life \<Rightarrow> (ptr option \<times> life) result" where
  "find_thread f r p w =
     (case lookup_thread (rq_tid r) w of
        Some t \<Rightarrow> Inr (Some t, w)
      | None \<Rightarrow>
          (case fr_thread_found f of
             Inl (System_error e) \<Rightarrow> Inr (None, w)
           | Inl e \<Rightarrow> Inl e
           | Inr _ \<Rightarrow>
               (let t = fr_thread f; w = registerWithProcess t (Thread_ctor t (rq_tid r) p w) in
                Inr (Some t, w\<lparr>lf_threadRegistry := lf_threadRegistry w @ [t]\<rparr>))))"

text \<open>What becomes of a message.\<close>

datatype outcome = Ignored | Call_pending ptr | S2C_replied ptr | Reply_pushed ptr | Kernel_call

definition lookup_or_create ::
  "fresh \<Rightarrow> request \<Rightarrow> 'k served \<Rightarrow> (ptr option \<times> 'k served) result" where
  "lookup_or_create f r s =
     (case find_process f r (sv_life s) of
        Inl e \<Rightarrow> Inl e
      | Inr (None, w) \<Rightarrow> Inr (None, s\<lparr>sv_life := w\<rparr>)
      | Inr (Some p, w) \<Rightarrow>
          (case find_thread f r p w of
             Inl e \<Rightarrow> Inl e
           | Inr (None, w) \<Rightarrow> Inr (None, s\<lparr>sv_life := w\<rparr>)
           | Inr (Some t, w) \<Rightarrow>
               (case map_of (lf_procs w) p of
                  None \<Rightarrow> Inl (Undefined_behaviour ''process'')
                | Some x \<Rightarrow>
                    if px_pid x \<noteq> rq_sender r
                    then Inl (Runtime_error ''System-reported message PID != darlingserver-recorded PID'')
                    else Inr (Some t, s\<lparr>sv_life := w, sv_address := (sv_address s)(t := rq_from r),
                           sv_micro := (if lookup_thread (rq_tid r) (sv_life s) = None
                                        then (sv_micro s)(t := Thread_new) else sv_micro s)\<rparr>))))"

definition accept_managed :: "call_table \<Rightarrow> request \<Rightarrow> ptr \<Rightarrow> 'k served \<Rightarrow> (outcome \<times> 'k served) result" where
  "accept_managed tb r t s =
     (if rq_number r = callnum_s2c then
        (if sv_s2cReply s t then Inl (Runtime_error ''Received S2C reply but thread already had one pending'')
         else Inr (S2C_replied t, s\<lparr>sv_s2cReply := (sv_s2cReply s)(t := True)\<rparr>))
      else if rq_number r = callnum_push_reply then
        (if \<not> rq_pushed_pipe r then Inl (Runtime_error ''Failed to extract reply-push synchronization pipe'')
         else if \<not> rq_pushed_body r then Inl (Runtime_error ''Failed to read client-pushed reply body'')
         else (case push_reply (rq_pushed r) (sv_pendingSavedReply s t) (sv_micro s t) of
                 Inl e \<Rightarrow> Inl e
               | Inr (saved, m) \<Rightarrow>
                   Inr (Reply_pushed t, s\<lparr>sv_micro := (sv_micro s)(t := m),
                      sv_pendingSavedReply := (sv_pendingSavedReply s)(t := saved)\<rparr>)))
      else if rq_size r < ct_size tb (rq_number r)
      then Inl (Invalid_argument ''Message buffer was too small for dserver_call_t'')
      else (case setPendingCall (call_of tb r) (sv_micro s t) of
              Inl e \<Rightarrow> Inl e
            | Inr m \<Rightarrow> Inr (Call_pending t, s\<lparr>sv_micro := (sv_micro s)(t := m)\<rparr>)))"

definition accept_unmanaged :: "call_table \<Rightarrow> request \<Rightarrow> 'k served \<Rightarrow> (outcome \<times> 'k served) result" where
  "accept_unmanaged tb r s =
     (if rq_size r < ct_size tb (rq_number r)
      then Inl (Invalid_argument ''Message buffer was too small for dserver_call_t'')
      else Inr (Kernel_call, s\<lparr>sv_kernelCalls := sv_kernelCalls s @ [rq_number r]\<rparr>))"

definition callFromMessage ::
  "call_table \<Rightarrow> fresh \<Rightarrow> request \<Rightarrow> 'k served \<Rightarrow> (outcome \<times> 'k served) result" where
  "callFromMessage tb f r s =
     (if rq_size r < callhdr_size then Inl (Invalid_argument ''Message buffer was too small for call header'')
      else if rq_number r \<noteq> callnum_s2c \<and> rq_number r \<noteq> callnum_push_reply \<and> \<not> ct_known tb (rq_number r)
      then Inl (Invalid_argument ''Invalid call number'')
      else if rq_number r AND CALL_UNMANAGED_FLAG = 0 then
        (case lookup_or_create f r s of
           Inl e \<Rightarrow> Inl e
         | Inr (None, s) \<Rightarrow> Inr (Ignored, s)
         | Inr (Some t, s) \<Rightarrow> accept_managed tb r t s)
      else accept_unmanaged tb r s)"

section \<open>Runs\<close>

text \<open>
  The calls in any order, with everything that goes on around them: the life of the processes and
  threads, the end of a process object that nothing refers to, changes of the clients' memory, and
  what the scheduler does with the threads. New objects get fresh addresses.
\<close>

definition unused :: "ptr \<Rightarrow> life \<Rightarrow> bool" where
  "unused p w \<longleftrightarrow> p \<notin> set (lf_processRegistry w) \<and> (\<forall>t th. map_of (lf_threads w) t = Some th \<longrightarrow> th_process th \<noteq> Some p)"

inductive served_step :: "call_table \<Rightarrow> 'k host \<Rightarrow> string \<Rightarrow> 'k served \<Rightarrow> 'k served \<Rightarrow> bool" for tb h mldr where
  message: "map_of (lf_procs (sv_life s)) (fr_process f) = None \<Longrightarrow>
    map_of (lf_threads (sv_life s)) (fr_thread f) = None \<Longrightarrow>
    callFromMessage tb f r s = Inr (out, s') \<Longrightarrow> served_step tb h mldr s s'"
| checkin: "Checkin arch t s = Inr (c, s') \<Longrightarrow> served_step tb h mldr s s'"
| checkout: "served_step tb h mldr s (snd (Checkout getfl setfl pipe macho t s))"
| exec_listens: "(fd, p, macho) \<in> set (sv_execMonitors s) \<Longrightarrow> exec_listener r p macho s = Inr s' \<Longrightarrow>
    served_step tb h mldr s (s'\<lparr>sv_execMonitors := remove1 (fd, p, macho) (sv_execMonitors s')\<rparr>)"
| vchroot_path: "served_step tb h mldr s (snd (VchrootPath h buf len t s))"
| mldr_path: "served_step tb h mldr s (snd (MldrPath mldr h buf len t s))"
| kprintf: "served_step tb h mldr s (snd (Kprintf h str len t s))"
| started_suspended: "served_step tb h mldr s (snd (StartedSuspended t s))"
| stop_after_exec: "served_step tb h mldr s (snd (StopAfterExec t s))"
| set_tracer: "served_step tb h mldr s (snd (SetTracer target tracer t s))"
| uidgid: "Uidgid uid gid t s = Inr (reply, s') \<Longrightarrow> served_step tb h mldr s s'"
| set_thread_handles: "SetThreadHandles a b t s = Inr (c, s') \<Longrightarrow> served_step tb h mldr s s'"
| vchroot: "served_step tb h mldr s (snd (Vchroot rl t s))"
| kqchan_open: "served_step tb h mldr s (snd (Kqchan_open r c t s))"
| set_executable_path: "SetExecutablePath h buf len t s = Inr (c, s') \<Longrightarrow> served_step tb h mldr s s'"
| get_executable_path: "served_step tb h mldr s (snd (GetExecutablePath h pid buf len t s))"
| groups: "Groups h new n old space t s = Inr (reply, s') \<Longrightarrow> served_step tb h mldr s s'"
| ptrace_thupdate: "PtraceThupdate target signum s = Inr (c, s') \<Longrightarrow> served_step tb h mldr s s'"
| life: "life_step (sv_life s) w \<Longrightarrow> served_step tb h mldr s (s\<lparr>sv_life := w\<rparr>)"
| process_gone: "map_of (lf_procs (sv_life s)) p = Some x \<Longrightarrow> px_dtapeTask x = None \<Longrightarrow> px_dtapeForkWaitSemaphore x = None \<Longrightarrow>
    unused p (sv_life s) \<Longrightarrow>
    served_step tb h mldr s (s\<lparr>sv_life := (sv_life s)\<lparr>lf_procs := AList.delete p (lf_procs (sv_life s))\<rparr>\<rparr>)"
| machine: "served_step tb h mldr s (s\<lparr>sv_machine := k\<rparr>)"
| scheduler: "served_step tb h mldr s (s\<lparr>sv_micro := m, sv_pendingSavedReply := q, sv_s2cReply := b\<rparr>)"

section \<open>How processes and threads evolve\<close>

definition registry_ok :: "life \<Rightarrow> bool" where
  "registry_ok w \<longleftrightarrow>
     (\<forall>p\<in>set (lf_processRegistry w). \<exists>x. map_of (lf_procs w) p = Some x \<and> \<not> px_dead x) \<and>
     distinct (map (\<lambda>p. px_nspid (the (map_of (lf_procs w) p))) (lf_processRegistry w)) \<and>
     (\<forall>t\<in>set (lf_threadRegistry w). \<exists>th. map_of (lf_threads w) t = Some th \<and> \<not> th_dead th) \<and>
     distinct (map (\<lambda>t. th_nsid (the (map_of (lf_threads w) t))) (lf_threadRegistry w))"

text \<open>
  A change of the life of processes and threads: processes keep their tracer and ID, and nothing that
  stays registered dies.
\<close>

definition evolves :: "life \<Rightarrow> life \<Rightarrow> bool" where
  "evolves w w' \<longleftrightarrow>
     (\<forall>p x. map_of (lf_procs w) p = Some x \<longrightarrow>
        (\<exists>x'. map_of (lf_procs w') p = Some x' \<and> px_nspid x' = px_nspid x \<and>
           px_tracerProcess x' = px_tracerProcess x \<and>
           (p \<in> set (lf_processRegistry w') \<longrightarrow> px_dead x' = px_dead x))) \<and>
     (\<forall>t th. map_of (lf_threads w) t = Some th \<and> t \<in> set (lf_threadRegistry w') \<longrightarrow>
        (\<exists>th'. map_of (lf_threads w') t = Some th' \<and> th_nsid th' = th_nsid th \<and> th_dead th' = th_dead th)) \<and>
     (\<exists>P. lf_processRegistry w' = filter P (lf_processRegistry w)) \<and>
     (\<exists>Q. lf_threadRegistry w' = filter Q (lf_threadRegistry w))"

lemma evolves_refl [simp]: "evolves w w"
  unfolding evolves_def by (auto intro: exI [of _ "\<lambda>_. True"])

lemma evolves_trans:
  assumes "evolves w w'" "evolves w' w''"
  shows "evolves w w''"
proof -
  obtain P Q P' Q' where f: "lf_processRegistry w' = filter P (lf_processRegistry w)"
    "lf_threadRegistry w' = filter Q (lf_threadRegistry w)"
    "lf_processRegistry w'' = filter P' (lf_processRegistry w')"
    "lf_threadRegistry w'' = filter Q' (lf_threadRegistry w')"
    using assms unfolding evolves_def by blast
  have "\<exists>x'. map_of (lf_procs w'') p = Some x' \<and> px_nspid x' = px_nspid x \<and>
      px_tracerProcess x' = px_tracerProcess x \<and> (p \<in> set (lf_processRegistry w'') \<longrightarrow> px_dead x' = px_dead x)"
    if x: "map_of (lf_procs w) p = Some x" for p x
  proof -
    from x assms(1) obtain y where y: "map_of (lf_procs w') p = Some y" "px_nspid y = px_nspid x"
      "px_tracerProcess y = px_tracerProcess x" "p \<in> set (lf_processRegistry w') \<longrightarrow> px_dead y = px_dead x"
      unfolding evolves_def by blast
    from y(1) assms(2) obtain z where z: "map_of (lf_procs w'') p = Some z" "px_nspid z = px_nspid y"
      "px_tracerProcess z = px_tracerProcess y" "p \<in> set (lf_processRegistry w'') \<longrightarrow> px_dead z = px_dead y"
      unfolding evolves_def by blast
    show ?thesis using y z f(3) by auto
  qed
  moreover have "\<exists>th'. map_of (lf_threads w'') t = Some th' \<and> th_nsid th' = th_nsid th \<and> th_dead th' = th_dead th"
    if t: "map_of (lf_threads w) t = Some th" "t \<in> set (lf_threadRegistry w'')" for t th
  proof -
    have "t \<in> set (lf_threadRegistry w')" using t(2) f(4) by auto
    with t(1) assms(1) obtain y where y: "map_of (lf_threads w') t = Some y" "th_nsid y = th_nsid th" "th_dead y = th_dead th"
      unfolding evolves_def by blast
    with t(2) assms(2) obtain z where "map_of (lf_threads w'') t = Some z" "th_nsid z = th_nsid y" "th_dead z = th_dead y"
      unfolding evolves_def by blast
    with y show ?thesis by auto
  qed
  moreover have "\<exists>P. lf_processRegistry w'' = filter P (lf_processRegistry w)"
    "\<exists>Q. lf_threadRegistry w'' = filter Q (lf_threadRegistry w)"
    using f by (metis filter_filter)+
  ultimately show ?thesis unfolding evolves_def by blast
qed

lemma registry_evolves:
  assumes "registry_ok w" "evolves w w'"
  shows "registry_ok w'"
proof -
  obtain P Q where f: "lf_processRegistry w' = filter P (lf_processRegistry w)"
    "lf_threadRegistry w' = filter Q (lf_threadRegistry w)"
    using assms unfolding evolves_def by blast
  have p: "\<exists>x'. map_of (lf_procs w') p = Some x' \<and> \<not> px_dead x' \<and>
      px_nspid x' = px_nspid (the (map_of (lf_procs w) p))" if "p \<in> set (lf_processRegistry w')" for p
  proof -
    from that f assms(1) obtain x where "map_of (lf_procs w) p = Some x" "\<not> px_dead x"
      unfolding registry_ok_def by auto
    with that assms(2) show ?thesis unfolding evolves_def by fastforce
  qed
  have t: "\<exists>x'. map_of (lf_threads w') t = Some x' \<and> \<not> th_dead x' \<and>
      th_nsid x' = th_nsid (the (map_of (lf_threads w) t))" if "t \<in> set (lf_threadRegistry w')" for t
  proof -
    from that f assms(1) obtain x where "map_of (lf_threads w) t = Some x" "\<not> th_dead x"
      unfolding registry_ok_def by auto
    with that assms(2) show ?thesis unfolding evolves_def by fastforce
  qed
  have m: "map (\<lambda>p. px_nspid (the (map_of (lf_procs w') p))) (lf_processRegistry w') =
      map (\<lambda>p. px_nspid (the (map_of (lf_procs w) p))) (filter P (lf_processRegistry w))"
    "map (\<lambda>t. th_nsid (the (map_of (lf_threads w') t))) (lf_threadRegistry w') =
      map (\<lambda>t. th_nsid (the (map_of (lf_threads w) t))) (filter Q (lf_threadRegistry w))"
    using p t f by (fastforce intro: map_cong)+
  have "distinct (map (\<lambda>p. px_nspid (the (map_of (lf_procs w') p))) (lf_processRegistry w'))"
    "distinct (map (\<lambda>t. th_nsid (the (map_of (lf_threads w') t))) (lf_threadRegistry w'))"
    unfolding m using assms(1) by (simp_all add: registry_ok_def distinct_map_filter)
  with p t show ?thesis unfolding registry_ok_def by blast
qed

lemma evolves_put_proc:
  assumes "map_of (lf_procs w) p = Some x" "px_nspid x' = px_nspid x" "px_tracerProcess x' = px_tracerProcess x"
    "px_dead x' = px_dead x"
  shows "evolves w (put_proc p x' w)"
  using assms unfolding evolves_def
  by (auto simp: put_proc_def alist_simps intro: exI [of _ "\<lambda>_. True"])

lemma evolves_put_thread:
  assumes "map_of (lf_threads w) t = Some th" "th_nsid th' = th_nsid th" "th_dead th' = th_dead th"
  shows "evolves w (put_thread t th' w)"
  using assms unfolding evolves_def
  by (auto simp: put_thread_def alist_simps intro: exI [of _ "\<lambda>_. True"])

lemma evolves_frame:
  assumes "lf_procs w' = lf_procs w" "lf_threads w' = lf_threads w"
    "lf_processRegistry w' = lf_processRegistry w" "lf_threadRegistry w' = lf_threadRegistry w"
  shows "evolves w w'"
  using assms unfolding evolves_def by (auto intro: exI [of _ "\<lambda>_. True"])

lemma evolves_new_proc:
  assumes "map_of (lf_procs w) p = None"
  shows "evolves w (put_proc p x w)"
  using assms unfolding evolves_def
  by (auto simp: put_proc_def alist_simps intro: exI [of _ "\<lambda>_. True"])

lemma evolves_new_thread:
  assumes "map_of (lf_threads w) t = None"
  shows "evolves w (put_thread t th w)"
  using assms unfolding evolves_def
  by (auto simp: put_thread_def alist_simps intro: exI [of _ "\<lambda>_. True"])

lemma evolves_thread_leaves:
  shows "evolves w (w\<lparr>lf_threads := AList.update t th' (lf_threads w), lf_threadRegistry := removeAll t (lf_threadRegistry w)\<rparr>)"
  unfolding evolves_def removeAll_filter_not_eq
  by (auto simp: alist_simps intro: exI [of _ "\<lambda>_. True"])


lemma evolves_process_leaves:
  assumes "map_of (lf_procs w) p = Some x" "px_nspid x' = px_nspid x" "px_tracerProcess x' = px_tracerProcess x"
    "evolves (put_proc p x' w) w'"
  shows "evolves w (w'\<lparr>lf_processRegistry := removeAll p (lf_processRegistry w')\<rparr>)"
proof -
  obtain P Q where f: "lf_processRegistry w' = filter P (lf_processRegistry w)"
    "lf_threadRegistry w' = filter Q (lf_threadRegistry w)"
    using assms(4) unfolding evolves_def by (auto simp: put_proc_def)
  have "\<exists>z. map_of (lf_procs w') q = Some z \<and> px_nspid z = px_nspid y \<and> px_tracerProcess z = px_tracerProcess y \<and>
      (q \<in> set (lf_processRegistry w') \<and> q \<noteq> p \<longrightarrow> px_dead z = px_dead y)"
    if y: "map_of (lf_procs w) q = Some y" for q y
  proof (cases "q = p")
    case True
    have "map_of (lf_procs (put_proc p x' w)) p = Some x'" by (simp add: put_proc_def alist_simps)
    with assms(4) obtain z where "map_of (lf_procs w') p = Some z" "px_nspid z = px_nspid x'"
      "px_tracerProcess z = px_tracerProcess x'" unfolding evolves_def by blast
    with True y assms(1-3) show ?thesis by auto
  next
    case False
    then have "map_of (lf_procs (put_proc p x' w)) q = Some y" using y by (simp add: put_proc_def alist_simps)
    with assms(4) show ?thesis unfolding evolves_def by blast
  qed
  moreover have "\<exists>th'. map_of (lf_threads w') t = Some th' \<and> th_nsid th' = th_nsid th \<and> th_dead th' = th_dead th"
    if "map_of (lf_threads w) t = Some th" "t \<in> set (lf_threadRegistry w')" for t th
    using that assms(4) unfolding evolves_def by auto
  moreover have "\<exists>P'. removeAll p (lf_processRegistry w') = filter P' (lf_processRegistry w)"
    unfolding f(1) removeAll_filter_not_eq filter_filter by blast
  ultimately show ?thesis
    unfolding evolves_def using f(2) by simp blast
qed

lemma Thread_notifyDead_evolves: "evolves w (Thread_notifyDead t w)"
proof -
  have "evolves w' (w'\<lparr>lf_async := a\<rparr>)" for w' a by (rule evolves_frame) simp_all
  note frame = this
  show ?thesis
  proof (cases "map_of (lf_threads w) t")
    case (Some th)
    let ?w = "w\<lparr>lf_threads := AList.update t (th\<lparr>th_dead := True\<rparr>) (lf_threads w),
        lf_threadRegistry := removeAll t (lf_threadRegistry w)\<rparr>"
    have "Thread_notifyDead t w = (if th_dead th then w else
        if th_activeCall th then ?w else ?w\<lparr>lf_async := lf_async w @ [Release_thread t]\<rparr>)"
      using Some by (simp add: Thread_notifyDead_def Let_def put_thread_def)
    then show ?thesis
      by (auto intro: evolves_thread_leaves evolves_trans [OF evolves_thread_leaves frame])
  qed (simp add: Thread_notifyDead_def)
qed

lemma threads_notifyDead_evolves: "evolves w (threads_notifyDead ts w)"
  by (induction ts w rule: threads_notifyDead.induct) (auto intro: evolves_trans Thread_notifyDead_evolves)

lemma notifyListening_evolves: "evolves w (notifyListeningKqchannels ev dat p w)"
  by (rule evolves_frame) (auto simp: notifyListeningKqchannels_def split: option.splits)

lemma Process_notifyDead_evolves: "evolves w (Process_notifyDead p w)"
proof (cases "map_of (lf_procs w) p")
  case (Some x)
  let ?w = "put_proc p (x\<lparr>px_dead := True, px_kqchannels := []\<rparr>) w"
  let ?v = "threads_notifyDead (px_threads x) (notifyListeningKqchannels NOTE_EXIT 0 p ?w)"
  let ?u = "?v\<lparr>lf_async := lf_async ?v @ [Release_task p]\<rparr>"
  have "evolves ?w ?u"
    by (rule evolves_trans [OF evolves_trans [OF notifyListening_evolves threads_notifyDead_evolves] evolves_frame]) simp_all
  then have "evolves w (?u\<lparr>lf_processRegistry := removeAll p (lf_processRegistry ?u)\<rparr>)"
    by (intro evolves_process_leaves [OF Some]) simp_all
  then show ?thesis using Some by (simp add: Process_notifyDead_def Let_def)
qed (simp add: Process_notifyDead_def)

lemma registerWithProcess_evolves: "evolves w (registerWithProcess t w)"
  by (auto simp: registerWithProcess_def intro: evolves_put_proc split: option.splits)

lemma Process_ctor_evolves:
  assumes "map_of (lf_procs w) p = None"
  shows "evolves w (Process_ctor p pid nsid arch parent w)"
  unfolding Process_ctor_def Let_def task_create_def semaphore_create_def prod.case
  by (rule evolves_trans [OF evolves_frame evolves_new_proc]) (use assms in simp_all)

lemma Thread_ctor_evolves:
  assumes "map_of (lf_threads w) t = None"
  shows "evolves w (Thread_ctor t nsid p w)" "evolves w (kernel_Thread_ctor t nsid p w)"
  unfolding Thread_ctor_def kernel_Thread_ctor_def Let_def thread_create_def semaphores_create_eq prod.case
  by (rule evolves_trans [OF evolves_frame evolves_new_thread]; use assms in simp)+


lemma evolves_then:
  "evolves w v \<Longrightarrow> map_of (lf_procs v) p = Some x \<Longrightarrow> px_nspid x' = px_nspid x \<Longrightarrow>
    px_tracerProcess x' = px_tracerProcess x \<Longrightarrow> px_dead x' = px_dead x \<Longrightarrow> evolves w (put_proc p x' v)"
  "evolves w v \<Longrightarrow> map_of (lf_threads v) t = Some th \<Longrightarrow> th_nsid th' = th_nsid th \<Longrightarrow>
    th_dead th' = th_dead th \<Longrightarrow> evolves w (put_thread t th' v)"
  "evolves w v \<Longrightarrow> evolves w (v\<lparr>lf_async := a\<rparr>)"
  "evolves w v \<Longrightarrow> evolves w (Thread_notifyDead t v)"
  by (erule evolves_trans, simp add: evolves_put_proc evolves_put_thread evolves_frame Thread_notifyDead_evolves)+

lemma call_flags_evolve: "evolves w (Thread_call_begins t w)" "evolves w (Thread_call_ends t w)"
proof -
  show "evolves w (Thread_call_begins t w)"
    by (auto simp: Thread_call_begins_def intro: evolves_put_thread split: option.splits)
  show "evolves w (Thread_call_ends t w)"
    by (auto simp: Thread_call_ends_def Let_def split: option.splits
        intro!: evolves_then(3) intro: evolves_then(2) [OF evolves_refl])
qed

lemma destroy_frames:
  "semaphores_destroy ks w = Inr w' \<Longrightarrow> \<exists>l. w' = w\<lparr>lf_sems := l\<rparr>"
  "semaphore_destroy n w = Inr w' \<Longrightarrow> \<exists>l. w' = w\<lparr>lf_sems := l\<rparr>"
  "thread_release n w = Inr w' \<Longrightarrow> \<exists>l. w' = w\<lparr>lf_dthreads := l\<rparr>"
  "task_release n w = Inr w' \<Longrightarrow> \<exists>l. w' = w\<lparr>lf_tasks := l\<rparr>"
  using semaphores_destroy_result
  by (auto simp: semaphore_destroy_def thread_release_def task_release_def split: option.splits if_splits) blast

lemma release_thread_evolves:
  assumes "release_thread t w = Inr w'"
  shows "evolves w w'"
proof (cases "map_of (lf_threads w) t")
  case (Some th)
  then obtain w1 w2 where r: "semaphores_destroy (th_s2cSemaphores th) w = Inr w1"
    "thread_release (th_dtapeThread th) w1 = Inr w2"
    "w' = put_thread t (th\<lparr>th_s2cSemaphores := [], th_dtapeThread := None\<rparr>) w2"
    using assms by (auto simp: release_thread_def split: sum.splits)
  obtain l l' where "w1 = w\<lparr>lf_sems := l\<rparr>" "w2 = w1\<lparr>lf_dthreads := l'\<rparr>"
    using destroy_frames(1) [OF r(1)] destroy_frames(3) [OF r(2)] by blast
  then have "evolves w w2" "map_of (lf_threads w2) t = Some th"
    using Some by (auto intro: evolves_frame)
  with r(3) show ?thesis by (auto intro: evolves_then)
qed (use assms in \<open>simp add: release_thread_def\<close>)

lemma release_task_evolves:
  assumes "release_task p w = Inr w'"
  shows "evolves w w'"
proof (cases "map_of (lf_procs w) p")
  case (Some x)
  then obtain w1 w2 where r: "(case px_dtapeForkWaitSemaphore x of None \<Rightarrow> Inr w | s \<Rightarrow> semaphore_destroy s w) = Inr w1"
    "task_release (px_dtapeTask x) w1 = Inr w2"
    "w' = put_proc p (x\<lparr>px_dtapeForkWaitSemaphore := None, px_dtapeTask := None\<rparr>) w2"
    using assms by (auto simp: release_task_def split: sum.splits)
  have "\<exists>l. w1 = w\<lparr>lf_sems := l\<rparr>"
    using r(1) destroy_frames(2) by (auto split: option.splits intro: exI [of _ "lf_sems w"])
  then obtain l l' where "w1 = w\<lparr>lf_sems := l\<rparr>" "w2 = w1\<lparr>lf_tasks := l'\<rparr>"
    using destroy_frames(4) [OF r(2)] by blast
  then have "evolves w w2" "map_of (lf_procs w2) p = Some x"
    using Some by (auto intro: evolves_frame)
  with r(3) show ?thesis by (auto intro: evolves_then)
qed (use assms in \<open>simp add: release_task_def\<close>)

lemma run_async_evolves:
  assumes "run_async w = Inr w'"
  shows "evolves w w'"
proof (cases "lf_async w")
  case (Cons a as)
  have "evolves w (w\<lparr>lf_async := as\<rparr>)" by (rule evolves_frame) simp_all
  with assms Cons show ?thesis
    by (cases a) (auto simp: run_async_def Let_def intro: evolves_trans release_thread_evolves release_task_evolves)
qed (use assms in \<open>simp add: run_async_def\<close>)

lemma clear_threads_evolves: "evolves w (snd (clear_threads n ts main w))"
proof (induction n ts main w rule: clear_threads.induct)
  case (2 nspid j t ts main w)
  show ?case
  proof (cases "map_of (lf_threads w) t")
    case (Some th)
    have "evolves w (Thread_notifyDead t (put_thread t (th\<lparr>th_process := None\<rparr>) w))"
      by (intro evolves_then) (use Some in simp_all)
    with 2 Some show ?thesis by (auto elim: evolves_trans)
  qed (use 2 in simp)
qed simp


lemma put_registries [simp]:
  "lf_processRegistry (put_proc p x w) = lf_processRegistry w" "lf_threadRegistry (put_proc p x w) = lf_threadRegistry w"
  "lf_processRegistry (put_thread t th w) = lf_processRegistry w" "lf_threadRegistry (put_thread t th w) = lf_threadRegistry w"
  by (simp_all add: put_proc_def put_thread_def)

lemma replace_task_registries:
  assumes "replace_task arch p main w = Inr w'"
  shows "lf_processRegistry w' = lf_processRegistry w" "lf_threadRegistry w' = lf_threadRegistry w"
  using assms
  by (auto simp: replace_task_def task_create_def thread_create_def semaphore_create_def semaphores_create_eq Let_def
      split: option.splits sum.splits dest!: destroy_frames)

lemma replace_task_evolves:
  assumes "replace_task arch p main w = Inr w'"
  shows "evolves w w'"
  using assms
proof (rule replace_task_result)
  fix x :: process_obj and th :: thread_obj and kt kd ks sl l
  let ?th = "th\<lparr>th_dtapeThread := Some (Suc (lf_next w)), th_s2cSemaphores := l\<rparr>"
  let ?x = "x\<lparr>px_architecture := arch, px_dtapeTask := Some (lf_next w),
       px_dtapeForkWaitSemaphore := Some (lf_next w + 2), px_threads := [(th_nsid th, main)]\<rparr>"
  assume a: "map_of (lf_procs w) p = Some x" "map_of (lf_threads w) main = Some th"
    "lf_threads w' = AList.update main ?th (lf_threads w)" "lf_procs w' = AList.update p ?x (lf_procs w)"
  have "evolves w (put_proc p ?x (put_thread main ?th w))"
    by (intro evolves_then(1) [OF evolves_then(2) [OF evolves_refl a(2)]]) (use a in simp_all)
  moreover have "evolves (put_proc p ?x (put_thread main ?th w)) w'"
    by (rule evolves_frame) (use a(3,4) replace_task_registries [OF assms] in simp_all)
  ultimately show ?thesis by (rule evolves_trans)
qed

lemma notifyCheckin_evolves:
  assumes "notifyCheckin arch p w = Inr w'"
  shows "evolves w w'"
proof -
  obtain x where x: "map_of (lf_procs w) p = Some x"
    using assms by (auto simp: notifyCheckin_def split: option.splits)
  show ?thesis
  proof (cases "px_pendingReplacement x")
    case True
    obtain m w1 where c: "clear_threads (px_nspid x) (px_threads x) None w = (m, w1)" by fastforce
    with assms x True obtain main w2 where r: "replace_task arch p main w1 = Inr w2"
      "w' = (case map_of (lf_procs w2) p of None \<Rightarrow> w2
         | Some x \<Rightarrow> notifyListeningKqchannels NOTE_EXEC 0 p (put_proc p (x\<lparr>px_pendingReplacement := False\<rparr>) w2))"
      by (auto simp: notifyCheckin_def split: option.splits sum.splits)
    have "evolves w w2"
      using clear_threads_evolves [of w "px_nspid x" "px_threads x" None] c
        replace_task_evolves [OF r(1)] by (auto intro: evolves_trans)
    then show ?thesis
      using r(2) by (auto intro: evolves_trans [OF evolves_then(1) notifyListening_evolves] split: option.splits)
  next
    case False
    have up: "semaphore_up n w = Inr w1 \<Longrightarrow> evolves w w1" for n w1
      by (auto simp: semaphore_up_def intro: evolves_frame split: option.splits)
    show ?thesis
      using assms x False up
      by (auto simp: notifyCheckin_def intro: evolves_trans [OF _ notifyListening_evolves]
          split: option.splits sum.splits if_splits)
  qed
qed

lemma Thread_dtor_evolves:
  assumes "Thread_dtor t w = Inr w'" "t \<notin> set (lf_threadRegistry w)"
  shows "evolves w w'"
proof -
  let ?w = "w\<lparr>lf_threads := AList.delete t (lf_threads w)\<rparr>"
  have e: "evolves w ?w"
    using assms(2) unfolding evolves_def
    by (auto simp: delete_conv' intro: exI [of _ "\<lambda>_. True"])
  obtain th where th: "map_of (lf_threads w) t = Some th"
    using assms(1) by (auto simp: Thread_dtor_def split: option.splits)
  show ?thesis
  proof (cases "th_process th")
    case (Some p)
    with assms th obtain x where x: "map_of (lf_procs w) p = Some x"
      by (auto simp: Thread_dtor_def Let_def split: option.splits)
    let ?v = "put_proc p (x\<lparr>px_threads := AList.delete (th_nsid th) (px_threads x)\<rparr>) ?w"
    have "evolves w ?v" by (rule evolves_then(1) [OF e]) (use x in simp_all)
    then show ?thesis
      using assms(1) th Some x Process_notifyDead_evolves [of ?v p]
      by (auto simp: Thread_dtor_def Let_def intro: evolves_trans split: if_splits)
  qed (use assms th e in \<open>simp add: Thread_dtor_def\<close>)
qed

lemma life_step_evolves:
  assumes "life_step w w'" "life_ok w" "registry_ok w"
  shows "evolves w w'"
  using assms
proof (induction rule: life_step.induct)
  case (new_thread w t nsid p)
  then show ?case by (auto intro: evolves_trans [OF Thread_ctor_evolves(1) registerWithProcess_evolves])
next
  case (pending_replacement w p x)
  then show ?case by (auto simp: setPendingReplacement_def intro: evolves_put_proc)
next
  case (thread_gone w t th w')
  have "th_dead th" using life_intact(1) [OF thread_gone(5,1)] thread_gone(2) by (simp add: thread_intact_def)
  then have "t \<notin> set (lf_threadRegistry w)"
    using thread_gone(1,6) unfolding registry_ok_def by fastforce
  then show ?case by (rule Thread_dtor_evolves [OF thread_gone(4)])
qed (auto intro: Process_ctor_evolves Thread_ctor_evolves call_flags_evolve Thread_notifyDead_evolves
  Process_notifyDead_evolves notifyCheckin_evolves run_async_evolves)


section \<open>The calls keep the account\<close>

definition served_ok :: "'k served \<Rightarrow> bool" where
  "served_ok s \<longleftrightarrow> life_ok (sv_life s) \<and> registry_ok (sv_life s)"

lemma served_evolves:
  "served_ok s \<Longrightarrow> life_ok w \<Longrightarrow> evolves (sv_life s) w \<Longrightarrow> served_ok (s\<lparr>sv_life := w\<rparr>)"
  by (auto simp: served_ok_def intro: registry_evolves)

lemma registry_put_proc:
  assumes "registry_ok w" "map_of (lf_procs w) p = Some x" "px_nspid x' = px_nspid x" "px_dead x' = px_dead x"
  shows "registry_ok (put_proc p x' w)"
proof -
  let ?w = "put_proc p x' w"
  have m: "map (\<lambda>q. px_nspid (the (map_of (lf_procs ?w) q))) (lf_processRegistry w) =
      map (\<lambda>q. px_nspid (the (map_of (lf_procs w) q))) (lf_processRegistry w)"
    using assms by (auto simp: alist_simps)
  have "distinct (map (\<lambda>q. px_nspid (the (map_of (lf_procs ?w) q))) (lf_processRegistry w))"
    unfolding m using assms(1) by (simp add: registry_ok_def)
  moreover have "\<exists>y. map_of (lf_procs ?w) q = Some y \<and> \<not> px_dead y" if "q \<in> set (lf_processRegistry w)" for q
    using that assms by (auto simp: alist_simps registry_ok_def)
  ultimately show ?thesis using assms(1) unfolding registry_ok_def by simp
qed

lemma served_with_proc:
  assumes "served_ok s" "map_of (lf_procs (sv_life s)) p = Some x" "px_dtapeTask x' = px_dtapeTask x"
    "px_dtapeForkWaitSemaphore x' = px_dtapeForkWaitSemaphore x" "px_dead x' = px_dead x" "px_nspid x' = px_nspid x"
  shows "served_ok (with_proc p x' s)"
  using assms by (auto simp: served_ok_def with_proc_def intro: life_put_proc registry_put_proc)

lemma served_same:
  assumes "served_ok s" "sv_life s' = sv_life s"
  shows "served_ok s'"
  using assms by (simp add: served_ok_def)

lemma calling_process_found:
  "calling_process t w = Some (p, x) \<Longrightarrow> map_of (lf_procs w) p = Some x"
  by (auto simp: calling_process_def split: option.splits)

lemma writeMemory_life: "writeMemory h x a bs s = (c, s') \<Longrightarrow> sv_life s' = sv_life s"
  by (auto simp: writeMemory_def split: sum.splits)

lemma served_machine [simp]: "served_ok (s\<lparr>sv_machine := k\<rparr>) = served_ok s"
  by (simp add: served_ok_def)

lemma simple_handlers_ok:
  assumes "served_ok s"
  shows "served_ok (snd (VchrootPath h buf len t s))" "served_ok (snd (MldrPath mldr h buf len t s))"
    "served_ok (snd (Kprintf h str len t s))" "served_ok (snd (GetExecutablePath h pid buf len t s))"
    "Uidgid uid gid t s = Inr (reply, s') \<Longrightarrow> served_ok s'"
    "SetThreadHandles a b t s = Inr (c, s') \<Longrightarrow> served_ok s'"
    "PtraceThupdate target signum s = Inr (c, s') \<Longrightarrow> served_ok s'"
  by (rule served_same [OF assms];
      auto simp: VchrootPath_def MldrPath_def Kprintf_def GetExecutablePath_def Uidgid_def SetThreadHandles_def
        PtraceThupdate_def Let_def dest!: writeMemory_life split: option.splits prod.splits sum.splits bool.splits)+

lemma attribute_handlers_ok:
  assumes "served_ok s"
  shows "served_ok (snd (StartedSuspended t s))" "served_ok (snd (StopAfterExec t s))"
    "served_ok (snd (Vchroot rl t s))"
    "SetExecutablePath h buf len t s = Inr (c, s') \<Longrightarrow> served_ok s'"
  using assms
  by (auto simp: StartedSuspended_def StopAfterExec_def Vchroot_def SetExecutablePath_def
      dest!: calling_process_found intro: served_with_proc
      split: option.splits prod.splits sum.splits bool.splits)


lemma set_tracer_ok:
  assumes "served_ok s"
  shows "served_ok (snd (SetTracer target tracer t s))"
proof (cases "set_tracer_target target t (sv_life s)")
  case (Some px)
  obtain p x where px: "px = (p, x)" by fastforce
  then have "map_of (lf_procs (sv_life s)) p = Some x"
    using Some by (auto simp: set_tracer_target_def dest: calling_process_found split: if_splits option.splits)
  then have "served_ok (with_proc p (x\<lparr>px_tracerProcess := q\<rparr>) s)" for q
    by (intro served_with_proc [OF assms]) simp_all
  then show ?thesis
    using Some px assms by (auto simp: SetTracer_def setTracerProcess_def split: prod.splits)
qed (simp add: SetTracer_def assms)

lemma kqchan_open_ok:
  assumes "served_ok s"
  shows "served_ok (snd (Kqchan_open r c t s))"
proof (cases "calling_process t (sv_life s)")
  case (Some px)
  obtain p x where px: "px = (p, x)" by fastforce
  let ?s = "s\<lparr>sv_life := (sv_life s)\<lparr>lf_channels := List.insert c (lf_channels (sv_life s))\<rparr>\<rparr>"
  have "served_ok ?s"
    using assms by (intro served_evolves [OF assms] evolves_frame) (auto simp: served_ok_def intro: life_frame)
  then have "served_ok (with_proc p (registerKqchan c x) ?s)"
    by (rule served_with_proc) (use Some px calling_process_found in \<open>auto simp: registerKqchan_def\<close>)
  then show ?thesis using Some px by (simp add: Kqchan_open_def)
qed (simp add: Kqchan_open_def assms)

lemma groups_ok:
  assumes "served_ok s" "Groups h new n old space t s = Inr (reply, s')"
  shows "served_ok s'"
proof (cases "calling_process t (sv_life s)")
  case (Some px)
  obtain p x where px: "px = (p, x)" by fastforce
  have x: "map_of (lf_procs (sv_life s)) p = Some x" using Some px calling_process_found by blast
  obtain c s1 where g: "new_groups_step h new n p x s = Inr (c, s1)"
    using assms(2) Some px by (auto simp: Groups_def split: sum.splits)
  have "served_ok s1"
    using g assms(1) x
    by (auto simp: new_groups_step_def intro!: served_with_proc split: if_splits prod.splits sum.splits bool.splits)
  then show ?thesis
    using assms(2) Some px g
    by (auto simp: Groups_def Let_def dest: writeMemory_life intro: served_same split: if_splits prod.splits)
qed (use assms in \<open>simp add: Groups_def\<close>)

lemma checkout_ok:
  assumes "served_ok s"
  shows "served_ok (snd (Checkout getfl setfl pipe macho t s))"
proof -
  have "served_ok (s\<lparr>sv_life := Thread_notifyDead t (sv_life s)\<rparr>)"
    using assms by (intro served_evolves [OF assms] Thread_notifyDead_evolves Thread_notifyDead_ok) (simp add: served_ok_def)
  with assms show ?thesis
    by (auto simp: Checkout_def intro: served_same split: option.splits)
qed

lemma exec_listener_ok:
  assumes "served_ok s" "exec_listener r p macho s = Inr s'"
  shows "served_ok s'"
proof -
  have "served_ok (s\<lparr>sv_life := Process_notifyDead p (sv_life s)\<rparr>)"
    using assms(1) by (intro served_evolves [OF assms(1)] Process_notifyDead_evolves Process_notifyDead_ok) (simp add: served_ok_def)
  with assms show ?thesis
    by (auto simp: exec_listener_def setPendingReplacement_def intro: served_with_proc
        split: option.splits sum.splits if_splits)
qed

lemma checkin_ok:
  assumes "served_ok s" "Checkin arch t s = Inr (c, s')"
  shows "served_ok s'"
proof (cases "calling_process t (sv_life s)")
  case (Some px)
  then obtain p w where w: "notifyCheckin arch p (sv_life s) = Inr w" "s' = s\<lparr>sv_life := w\<rparr>"
    using assms(2) by (cases px) (auto simp: Checkin_def split: sum.splits)
  then have "life_ok w" using assms(1) notifyCheckin_ok by (auto simp: served_ok_def)
  then show ?thesis
    unfolding w(2) by (intro served_evolves [OF assms(1)] notifyCheckin_evolves [OF w(1)])
qed (use assms in \<open>simp add: Checkin_def\<close>)

lemma lookup_process_found:
  "lookup_process n w = Some p \<Longrightarrow> p \<in> set (lf_processRegistry w) \<and> (\<exists>x. map_of (lf_procs w) p = Some x \<and> px_nspid x = n)"
  by (auto simp: lookup_process_def find_Some_iff split: option.splits)

lemma lookup_process_none:
  "lookup_process n w = None \<Longrightarrow> p \<in> set (lf_processRegistry w) \<Longrightarrow> map_of (lf_procs w) p = Some x \<Longrightarrow> px_nspid x \<noteq> n"
  by (auto simp: lookup_process_def find_None_iff split: option.splits)

lemma lookup_thread_found:
  "lookup_thread n w = Some t \<Longrightarrow> t \<in> set (lf_threadRegistry w) \<and> (\<exists>th. map_of (lf_threads w) t = Some th \<and> th_nsid th = n)"
  by (auto simp: lookup_thread_def find_Some_iff split: option.splits)

lemma lookup_thread_none:
  "lookup_thread n w = None \<Longrightarrow> t \<in> set (lf_threadRegistry w) \<Longrightarrow> map_of (lf_threads w) t = Some th \<Longrightarrow> th_nsid th \<noteq> n"
  by (auto simp: lookup_thread_def find_None_iff split: option.splits)

lemma register_process:
  assumes "registry_ok w" "map_of (lf_procs w) p = Some x" "\<not> px_dead x" "p \<notin> set (lf_processRegistry w)"
    "lookup_process (px_nspid x) w = None"
  shows "registry_ok (w\<lparr>lf_processRegistry := lf_processRegistry w @ [p]\<rparr>)"
  using assms lookup_process_none [OF assms(5)] unfolding registry_ok_def
  by (fastforce simp: image_iff)

lemma register_thread:
  assumes "registry_ok w" "map_of (lf_threads w) t = Some th" "\<not> th_dead th" "t \<notin> set (lf_threadRegistry w)"
    "lookup_thread (th_nsid th) w = None"
  shows "registry_ok (w\<lparr>lf_threadRegistry := lf_threadRegistry w @ [t]\<rparr>)"
  using assms lookup_thread_none [OF assms(5)] unfolding registry_ok_def
  by (fastforce simp: image_iff)

lemma find_process_ok:
  assumes "life_ok w" "registry_ok w" "map_of (lf_procs w) (fr_process f) = None" "find_process f r w = Inr (q, w')"
  shows "life_ok w' \<and> registry_ok w' \<and> lf_threads w' = lf_threads w \<and> lf_threadRegistry w' = lf_threadRegistry w \<and>
    (\<forall>p. q = Some p \<longrightarrow> (\<exists>x. map_of (lf_procs w') p = Some x \<and> px_nspid x = rq_pid r \<and> p \<in> set (lf_processRegistry w')))"
proof (cases "lookup_process (rq_pid r) w")
  case (Some p)
  with assms lookup_process_found [OF Some] show ?thesis by (auto simp: find_process_def)
next
  case None
  let ?p = "fr_process f"
  show ?thesis
  proof (cases "fr_parent f")
    case (Inl e)
    with None assms show ?thesis by (auto simp: find_process_def split: exn.splits)
  next
    case (Inr parent)
    let ?v = "Process_ctor ?p (rq_sender r) (rq_pid r) (rq_arch r) parent w"
    have v: "lf_processRegistry ?v = lf_processRegistry w" "lf_threadRegistry ?v = lf_threadRegistry w"
      "lf_threads ?v = lf_threads w"
      by (simp_all add: Process_ctor_def Let_def task_create_def semaphore_create_def)
    obtain x where x: "map_of (lf_procs ?v) ?p = Some x" "px_nspid x = rq_pid r" "\<not> px_dead x"
      "lf_procs ?v = AList.update ?p x (lf_procs w)"
      by (simp add: Process_ctor_def Let_def task_create_def semaphore_create_def alist_simps)
    have out: "?p \<notin> set (lf_processRegistry w)" using assms(2,3) by (auto simp: registry_ok_def)
    have l: "lookup_process (rq_pid r) ?v = None"
      using None out by (auto simp: lookup_process_def find_None_iff v x(4) alist_simps split: if_splits)
    have ok: "life_ok ?v" "registry_ok ?v"
      using Process_ctor_ok [OF assms(1,3)] registry_evolves [OF assms(2) Process_ctor_evolves [OF assms(3)]] by auto
    have "registry_ok (?v\<lparr>lf_processRegistry := lf_processRegistry ?v @ [?p]\<rparr>)"
      by (rule register_process [OF ok(2) x(1,3)]) (use out v x l in auto)
    moreover have "life_ok (?v\<lparr>lf_processRegistry := lf_processRegistry ?v @ [?p]\<rparr>)"
      by (rule life_frame [OF ok(1)]) simp_all
    ultimately show ?thesis
      using assms(4) None Inr v x by (auto simp: find_process_def Let_def)
  qed
qed


lemma find_thread_ok:
  assumes "life_ok w" "registry_ok w" "map_of (lf_threads w) (fr_thread f) = None" "find_thread f r p w = Inr (q, w')"
  shows "life_ok w' \<and> registry_ok w' \<and> lf_processRegistry w' = lf_processRegistry w \<and>
    (\<forall>j x. map_of (lf_procs w) j = Some x \<longrightarrow> (\<exists>x'. map_of (lf_procs w') j = Some x' \<and> px_nspid x' = px_nspid x)) \<and>
    (\<forall>t. q = Some t \<longrightarrow> (\<exists>th. map_of (lf_threads w') t = Some th \<and> th_nsid th = rq_tid r \<and> t \<in> set (lf_threadRegistry w')))"
proof (cases "lookup_thread (rq_tid r) w")
  case (Some t)
  with assms lookup_thread_found [OF Some] show ?thesis by (auto simp: find_thread_def)
next
  case None
  let ?t = "fr_thread f"
  show ?thesis
  proof (cases "fr_thread_found f")
    case (Inl e)
    with None assms show ?thesis by (auto simp: find_thread_def split: exn.splits)
  next
    case (Inr u)
    let ?u = "Thread_ctor ?t (rq_tid r) p w"
    let ?v = "registerWithProcess ?t ?u"
    have u: "lf_processRegistry ?u = lf_processRegistry w" "lf_threadRegistry ?u = lf_threadRegistry w"
      by (simp_all add: Thread_ctor_def Let_def thread_create_def semaphores_create_eq)
    have v: "lf_processRegistry ?v = lf_processRegistry w" "lf_threadRegistry ?v = lf_threadRegistry w"
      "lf_threads ?v = lf_threads ?u"
      using u by (auto simp: registerWithProcess_def split: option.splits)
    obtain th where th: "lf_threads ?u = AList.update ?t th (lf_threads w)" "th_nsid th = rq_tid r" "\<not> th_dead th"
      by (simp add: Thread_ctor_def Let_def thread_create_def semaphores_create_eq)
    have out: "?t \<notin> set (lf_threadRegistry w)" using assms(2,3) by (auto simp: registry_ok_def)
    have l: "lookup_thread (rq_tid r) ?v = None"
      using None out by (auto simp: lookup_thread_def find_None_iff v th(1) alist_simps split: if_splits)
    have e: "evolves w ?v"
      by (rule evolves_trans [OF Thread_ctor_evolves(1) [OF assms(3)] registerWithProcess_evolves])
    have ok: "life_ok ?v" "registry_ok ?v"
      using Thread_ctor_ok [OF assms(1,3)] registerWithProcess_ok registry_evolves [OF assms(2) e] by auto
    have "registry_ok (?v\<lparr>lf_threadRegistry := lf_threadRegistry ?v @ [?t]\<rparr>)"
      by (rule register_thread [OF ok(2), of ?t th]) (use out v th l in \<open>auto simp: alist_simps\<close>)
    moreover have "life_ok (?v\<lparr>lf_threadRegistry := lf_threadRegistry ?v @ [?t]\<rparr>)"
      by (rule life_frame [OF ok(1)]) simp_all
    moreover have "\<exists>x'. map_of (lf_procs ?v) j = Some x' \<and> px_nspid x' = px_nspid x" if "map_of (lf_procs w) j = Some x" for j x
      using e that unfolding evolves_def by blast
    ultimately show ?thesis
      using assms(4) None Inr v th by (auto simp: find_thread_def Let_def alist_simps)
  qed
qed

text \<open>The process and the thread that a message is accepted for.\<close>

definition identified :: "request \<Rightarrow> ptr \<Rightarrow> 'k served \<Rightarrow> bool" where
  "identified r t s \<longleftrightarrow>
     (\<exists>p x. p \<in> set (lf_processRegistry (sv_life s)) \<and> map_of (lf_procs (sv_life s)) p = Some x \<and>
        px_nspid x = rq_pid r \<and> px_pid x = rq_sender r) \<and>
     (\<exists>th. t \<in> set (lf_threadRegistry (sv_life s)) \<and> map_of (lf_threads (sv_life s)) t = Some th \<and> th_nsid th = rq_tid r) \<and>
     sv_address s t = rq_from r"

lemma lookup_or_create_ok:
  assumes "served_ok s" "map_of (lf_procs (sv_life s)) (fr_process f) = None"
    "map_of (lf_threads (sv_life s)) (fr_thread f) = None" "lookup_or_create f r s = Inr (q, s')"
  shows "served_ok s'" "q = Some t \<Longrightarrow> identified r t s'"
proof -
  have ok: "life_ok (sv_life s)" "registry_ok (sv_life s)" using assms(1) by (simp_all add: served_ok_def)
  obtain j w where j: "find_process f r (sv_life s) = Inr (j, w)"
    using assms(4) by (auto simp: lookup_or_create_def split: sum.splits)
  note P = find_process_ok [OF ok assms(2) j]
  have "served_ok s' \<and> (\<forall>t. q = Some t \<longrightarrow> identified r t s')"
  proof (cases j)
    case None
    with assms(4) j P show ?thesis by (auto simp: lookup_or_create_def served_ok_def)
  next
    case (Some p)
    obtain i w' where i: "find_thread f r p w = Inr (i, w')"
      using assms(4) j Some by (auto simp: lookup_or_create_def split: sum.splits)
    have none: "map_of (lf_threads w) (fr_thread f) = None" using P assms(3) by simp
    note T = find_thread_ok [OF conjunct1 [OF P] conjunct1 [OF conjunct2 [OF P]] none i]
    obtain x where x: "map_of (lf_procs w') p = Some x" "px_nspid x = rq_pid r" "p \<in> set (lf_processRegistry w')"
      using P T Some by fastforce
    show ?thesis
    proof (cases i)
      case None
      with assms(4) j i Some T show ?thesis by (auto simp: lookup_or_create_def served_ok_def)
    next
      case (Some t)
      with assms(4) j i \<open>j = Some p\<close> T x show ?thesis
        by (auto simp: lookup_or_create_def served_ok_def identified_def split: if_splits)
    qed
  qed
  then show "served_ok s'" "q = Some t \<Longrightarrow> identified r t s'" by blast+
qed

lemma accept_life:
  "accept_managed tb r t s = Inr (out, s') \<Longrightarrow> sv_life s' = sv_life s \<and> sv_address s' = sv_address s \<and> out \<in> {Call_pending t, S2C_replied t, Reply_pushed t}"
  "accept_unmanaged tb r s = Inr (out, s') \<Longrightarrow> sv_life s' = sv_life s"
  by (auto simp: accept_managed_def accept_unmanaged_def split: if_splits sum.splits)

lemma callFromMessage_ok:
  assumes "served_ok s" "map_of (lf_procs (sv_life s)) (fr_process f) = None"
    "map_of (lf_threads (sv_life s)) (fr_thread f) = None" "callFromMessage tb f r s = Inr (out, s')"
  shows "served_ok s'"
proof -
  consider (managed) q s1 where "lookup_or_create f r s = Inr (q, s1)"
      "case q of None \<Rightarrow> s' = s1 | Some t \<Rightarrow> accept_managed tb r t s1 = Inr (out, s')"
    | (unmanaged) "accept_unmanaged tb r s = Inr (out, s')"
    using assms(4) by (auto simp: callFromMessage_def split: if_splits sum.splits option.splits)
  then show ?thesis
  proof cases
    case managed
    with lookup_or_create_ok(1) [OF assms(1-3) managed(1)] show ?thesis
      by (auto dest: accept_life(1) intro: served_same split: option.splits)
  next
    case unmanaged
    with assms(1) show ?thesis by (auto dest: accept_life(2) intro: served_same)
  qed
qed

lemma process_gone_ok:
  assumes "served_ok s" "map_of (lf_procs (sv_life s)) p = Some x" "px_dtapeTask x = None" "px_dtapeForkWaitSemaphore x = None"
    "unused p (sv_life s)"
  shows "served_ok (s\<lparr>sv_life := (sv_life s)\<lparr>lf_procs := AList.delete p (lf_procs (sv_life s))\<rparr>\<rparr>)"
proof -
  let ?w = "sv_life s"
  let ?v = "?w\<lparr>lf_procs := AList.delete p (lf_procs ?w)\<rparr>"
  have ok: "owned_ok ?w" "due_ok ?w" "intact_ok ?w" "registry_ok ?w" using assms(1) by (simp_all add: served_ok_def life_ok_def)
  have d: "distinct (map fst (lf_procs ?w))" using ok(1) by (simp add: owned_ok_def)
  have "owned_ok ?v"
    using ok(1) gather_delete [OF d assms(2), of "opt_list \<circ> px_dtapeTask"]
      gather_delete [OF d assms(2), of "opt_list \<circ> px_dtapeForkWaitSemaphore"] assms(3,4)
    by (simp add: owned_ok_def distinct_delete)
  moreover have "due_ok ?v"
    using ok(2) assms(2,3) by (auto simp: due_ok_def delete_conv' process_due_def split: option.splits)
  moreover have "intact_ok ?v"
    using ok(3) by (auto simp: intact_ok_def delete_conv' split: if_splits)
  moreover have "registry_ok ?v"
  proof -
    have m: "map (\<lambda>q. px_nspid (the (map_of (lf_procs ?v) q))) (lf_processRegistry ?w) =
      map (\<lambda>q. px_nspid (the (map_of (lf_procs ?w) q))) (lf_processRegistry ?w)"
      using assms(5) by (auto simp: unused_def delete_conv')
    have "distinct (map (\<lambda>q. px_nspid (the (map_of (lf_procs ?v) q))) (lf_processRegistry ?w))"
      unfolding m using ok(4) by (simp add: registry_ok_def)
    moreover have "\<exists>y. map_of (lf_procs ?v) q = Some y \<and> \<not> px_dead y" if "q \<in> set (lf_processRegistry ?w)" for q
      using that assms(5) ok(4) by (auto simp: unused_def delete_conv' registry_ok_def)
    ultimately show ?thesis using ok(4) unfolding registry_ok_def by simp
  qed
  ultimately show ?thesis by (simp add: served_ok_def life_ok_def)
qed

lemma served_step_ok: "served_step tb h mldr s s' \<Longrightarrow> served_ok s \<Longrightarrow> served_ok s'"
proof (induction rule: served_step.induct)
  case (life s w)
  then show ?case
    by (intro served_evolves) (auto simp: served_ok_def intro: life_step_ok life_step_evolves)
next
  case (exec_listens fd p macho s r s')
  then have "served_ok s'" using exec_listener_ok by blast
  then show ?case by (rule served_same) simp
next
  case (scheduler s m q b)
  then show ?case by (simp add: served_ok_def)
qed (auto intro: callFromMessage_ok checkin_ok checkout_ok simple_handlers_ok attribute_handlers_ok
  set_tracer_ok kqchan_open_ok groups_ok process_gone_ok)

definition served_start :: "'k served \<Rightarrow> bool" where
  "served_start s \<longleftrightarrow> life_start (sv_life s) \<and> lf_processRegistry (sv_life s) = [] \<and> lf_threadRegistry (sv_life s) = []"

interpretation serving: inductive_invariant served_start "served_step tb h mldr" served_ok
proof
  show "served_ok s" if "served_start s" for s :: "'a served"
    using that by (simp add: served_start_def served_ok_def life_start_def life_ok_def owned_ok_def due_ok_def
        intact_ok_def registry_ok_def)
qed (rule served_step_ok)


section \<open>Tracers\<close>

definition tracers_kept :: "life \<Rightarrow> life \<Rightarrow> bool" where
  "tracers_kept w w' \<longleftrightarrow>
     (\<forall>p x. map_of (lf_procs w) p = Some x \<longrightarrow>
        (\<exists>x'. map_of (lf_procs w') p = Some x' \<and> px_tracerProcess x' = px_tracerProcess x))"

lemma tracers_kept_evolves: "evolves w w' \<Longrightarrow> lf_procs w'' = lf_procs w' \<Longrightarrow> tracers_kept w w''"
  unfolding evolves_def tracers_kept_def by fastforce

lemma tracers_kept_trans: "tracers_kept w w' \<Longrightarrow> tracers_kept w' w'' \<Longrightarrow> tracers_kept w w''"
  unfolding tracers_kept_def by fastforce

lemma Process_ctor_threads [simp]: "lf_threads (Process_ctor p pid nsid arch parent w) = lf_threads w"
  by (simp add: Process_ctor_def Let_def task_create_def semaphore_create_def)

lemma message_keeps_tracers:
  assumes "map_of (lf_procs (sv_life s)) (fr_process f) = None"
    "map_of (lf_threads (sv_life s)) (fr_thread f) = None" "callFromMessage tb f r s = Inr (out, s')"
  shows "tracers_kept (sv_life s) (sv_life s')"
proof -
  have P: "tracers_kept w w' \<and> lf_threads w' = lf_threads w"
    if "find_process f r w = Inr (q, w')" "map_of (lf_procs w) (fr_process f) = None" for w q w'
    using that tracers_kept_evolves [OF Process_ctor_evolves [OF that(2)]] tracers_kept_evolves [OF evolves_refl]
    by (auto simp: find_process_def Let_def split: option.splits sum.splits exn.splits)
  have T: "tracers_kept w w'"
    if "find_thread f r p w = Inr (q, w')" "map_of (lf_threads w) (fr_thread f) = None" for w q w' p
  proof -
    have "evolves w (registerWithProcess (fr_thread f) (Thread_ctor (fr_thread f) (rq_tid r) p w))"
      by (rule evolves_trans [OF Thread_ctor_evolves(1) [OF that(2)] registerWithProcess_evolves])
    from tracers_kept_evolves [OF this] tracers_kept_evolves [OF evolves_refl] that(1) show ?thesis
      by (auto simp: find_thread_def Let_def split: option.splits sum.splits exn.splits)
  qed
  have L: "tracers_kept (sv_life s) (sv_life s1)" if l: "lookup_or_create f r s = Inr (q, s1)" for q s1
  proof -
    obtain j w where j: "find_process f r (sv_life s) = Inr (j, w)"
      using l by (auto simp: lookup_or_create_def split: sum.splits)
    note p = P [OF j assms(1)]
    show ?thesis
    proof (cases j)
      case (Some p')
      obtain i w' where i: "find_thread f r p' w = Inr (i, w')"
        using l j Some by (auto simp: lookup_or_create_def split: sum.splits)
      have "tracers_kept (sv_life s) w'"
        using p T [OF i] assms(2) tracers_kept_trans by auto
      then show ?thesis
        using l j i Some by (cases i) (auto simp: lookup_or_create_def split: option.splits if_splits)
    qed (use l j p in \<open>auto simp: lookup_or_create_def\<close>)
  qed
  have "tracers_kept (sv_life s) (sv_life s)" by (rule tracers_kept_evolves [OF evolves_refl refl])
  then show ?thesis
    using assms(3) L by (auto simp: callFromMessage_def dest!: accept_life split: if_splits sum.splits option.splits)
qed

text \<open>A step leaves the tracer of a process alone, or sets it where there was none.\<close>

definition keeps_tracers :: "'k served \<Rightarrow> 'k served \<Rightarrow> bool" where
  "keeps_tracers s s' \<longleftrightarrow>
     (\<forall>p x x'. map_of (lf_procs (sv_life s)) p = Some x \<and> map_of (lf_procs (sv_life s')) p = Some x' \<longrightarrow>
        px_tracerProcess x' = px_tracerProcess x \<or> tracerProcess x (sv_life s) = None)"

lemma keeps_kept: "tracers_kept (sv_life s) (sv_life s') \<Longrightarrow> keeps_tracers s s'"
  unfolding keeps_tracers_def tracers_kept_def by fastforce

lemma keeps_evolves: "evolves (sv_life s) (sv_life s') \<Longrightarrow> keeps_tracers s s'"
  by (rule keeps_kept) (erule tracers_kept_evolves, rule refl)

lemma keeps_life: "evolves (sv_life s) w \<Longrightarrow> keeps_tracers s (s\<lparr>sv_life := w\<rparr>)"
  by (rule keeps_evolves) simp

lemma keeps_same: "sv_life s' = sv_life s \<Longrightarrow> keeps_tracers s s'"
  by (rule keeps_evolves) simp

lemma keeps_with_proc:
  assumes "map_of (lf_procs (sv_life s)) p = Some x" "px_tracerProcess x' = px_tracerProcess x \<or> tracerProcess x (sv_life s) = None"
    "lf_procs (sv_life s1) = lf_procs (sv_life s)"
  shows "keeps_tracers s (with_proc p x' s1)"
  using assms by (auto simp: keeps_tracers_def with_proc_def alist_simps)

lemma simple_handlers_keep:
  "keeps_tracers s (snd (VchrootPath h buf len t s))" "keeps_tracers s (snd (MldrPath mldr h buf len t s))"
  "keeps_tracers s (snd (Kprintf h str len t s))" "keeps_tracers s (snd (GetExecutablePath h pid buf len t s))"
  "Uidgid uid gid t s = Inr (reply, s') \<Longrightarrow> keeps_tracers s s'"
  "SetThreadHandles a b t s = Inr (c, s') \<Longrightarrow> keeps_tracers s s'"
  "PtraceThupdate target signum s = Inr (c, s') \<Longrightarrow> keeps_tracers s s'"
  by (rule keeps_same;
      auto simp: VchrootPath_def MldrPath_def Kprintf_def GetExecutablePath_def Uidgid_def SetThreadHandles_def
        PtraceThupdate_def Let_def dest!: writeMemory_life split: option.splits prod.splits sum.splits bool.splits)+

lemma attribute_handlers_keep:
  "keeps_tracers s (snd (StartedSuspended t s))" "keeps_tracers s (snd (StopAfterExec t s))"
  "keeps_tracers s (snd (Vchroot rl t s))" "keeps_tracers s (snd (Kqchan_open r c t s))"
  "SetExecutablePath h buf len t s = Inr (code, s') \<Longrightarrow> keeps_tracers s s'"
  by (auto simp: StartedSuspended_def StopAfterExec_def Vchroot_def SetExecutablePath_def Kqchan_open_def registerKqchan_def
      dest!: calling_process_found intro: keeps_with_proc keeps_same
      split: option.splits prod.splits sum.splits bool.splits)


lemma set_tracer_target_found:
  "set_tracer_target target t w = Some (p, x) \<Longrightarrow> map_of (lf_procs w) p = Some x"
  by (auto simp: set_tracer_target_def dest: calling_process_found split: if_splits option.splits)

lemma set_tracer_keeps: "keeps_tracers s (snd (SetTracer target tracer t s))"
  by (auto simp: SetTracer_def setTracerProcess_def dest!: set_tracer_target_found
      intro: keeps_with_proc keeps_same split: option.splits prod.splits if_splits)

lemma groups_keeps:
  assumes "Groups h new n old space t s = Inr (reply, s')"
  shows "keeps_tracers s s'"
proof (cases "calling_process t (sv_life s)")
  case (Some px)
  obtain p x where px: "px = (p, x)" by fastforce
  have x: "map_of (lf_procs (sv_life s)) p = Some x" using Some px calling_process_found by blast
  obtain c s1 where g: "new_groups_step h new n p x s = Inr (c, s1)"
    using assms Some px by (auto simp: Groups_def split: sum.splits)
  have "keeps_tracers s s1"
    using g x by (auto simp: new_groups_step_def intro!: keeps_with_proc intro: keeps_same
        split: if_splits prod.splits sum.splits bool.splits)
  moreover have "sv_life s' = sv_life s1"
    using assms Some px g by (auto simp: Groups_def Let_def dest: writeMemory_life split: if_splits prod.splits)
  ultimately show ?thesis by (simp add: keeps_tracers_def)
qed (use assms in \<open>simp add: Groups_def keeps_same\<close>)

lemma life_handlers_keep:
  "keeps_tracers s (snd (Checkout getfl setfl pipe macho t s))"
  "exec_listener r p macho s = Inr s' \<Longrightarrow> keeps_tracers s s'"
  "Checkin arch t s = Inr (c, s') \<Longrightarrow> keeps_tracers s s'"
  by (auto simp: Checkout_def exec_listener_def Checkin_def setPendingReplacement_def
      intro: keeps_same keeps_with_proc keeps_life Thread_notifyDead_evolves Process_notifyDead_evolves
        keeps_life [OF notifyCheckin_evolves]
      split: option.splits sum.splits if_splits)

lemma served_step_keeps: "served_step tb h mldr s s' \<Longrightarrow> served_ok s \<Longrightarrow> keeps_tracers s s'"
proof (induction rule: served_step.induct)
  case (message s f r out s')
  then show ?case by (intro keeps_kept message_keeps_tracers)
next
  case (exec_listens fd p macho s r s')
  then have "keeps_tracers s s'" by (intro life_handlers_keep)
  then show ?case by (simp add: keeps_tracers_def)
next
  case (life s w)
  then show ?case by (intro keeps_evolves) (simp add: served_ok_def life_step_evolves)
next
  case (process_gone s p x)
  then show ?case by (auto simp: keeps_tracers_def delete_conv' split: if_splits)
qed (auto intro: life_handlers_keep simple_handlers_keep attribute_handlers_keep set_tracer_keeps groups_keeps keeps_same)

section \<open>Groups in memory\<close>

lemma u32_bytes_roundtrip:
  "ucast (ucast w :: u8) OR push_bit 8 (ucast (ucast (drop_bit 8 w) :: u8)) OR
   push_bit 16 (ucast (ucast (drop_bit 16 w) :: u8)) OR push_bit 24 (ucast (ucast (drop_bit 24 w) :: u8)) = (w :: u32)"
proof (rule bit_word_eqI)
  fix n
  assume "n < LENGTH(32)"
  then consider "n < 8" | "8 \<le> n" "n < 16" | "16 \<le> n" "n < 24" | "24 \<le> n" "n < 32"
    by (auto simp: not_less) linarith
  then show "bit (ucast (ucast w :: u8) OR push_bit 8 (ucast (ucast (drop_bit 8 w) :: u8)) OR
      push_bit 16 (ucast (ucast (drop_bit 16 w) :: u8)) OR
      push_bit 24 (ucast (ucast (drop_bit 24 w) :: u8)) :: u32) n = bit w n"
    by cases (auto simp: bit_simps)
qed

lemma bytes_groups_roundtrip: "bytes_groups (groups_bytes gs) = gs"
  by (induction gs) (simp_all add: groups_bytes_def u32_bytes_def u32_bytes_roundtrip)


lemma registered_found:
  assumes "registry_ok w"
  shows "p \<in> set (lf_processRegistry w) \<Longrightarrow> \<exists>x. map_of (lf_procs w) p = Some x \<and> \<not> px_dead x \<and> lookup_process (px_nspid x) w = Some p"
    "t \<in> set (lf_threadRegistry w) \<Longrightarrow> \<exists>th. map_of (lf_threads w) t = Some th \<and> \<not> th_dead th \<and> lookup_thread (th_nsid th) w = Some t"
proof -
  assume p: "p \<in> set (lf_processRegistry w)"
  then obtain x where x: "map_of (lf_procs w) p = Some x" "\<not> px_dead x" using assms by (auto simp: registry_ok_def)
  have "lookup_process (px_nspid x) w \<noteq> None"
    using lookup_process_none p x(1) by blast
  then obtain q where q: "lookup_process (px_nspid x) w = Some q" by blast
  from lookup_process_found [OF q] obtain y where "q \<in> set (lf_processRegistry w)" "map_of (lf_procs w) q = Some y" "px_nspid y = px_nspid x"
    by blast
  with p x assms have "q = p" unfolding registry_ok_def by (auto simp: distinct_map inj_on_def)
  with q x show "\<exists>x. map_of (lf_procs w) p = Some x \<and> \<not> px_dead x \<and> lookup_process (px_nspid x) w = Some p" by blast
next
  assume t: "t \<in> set (lf_threadRegistry w)"
  then obtain x where x: "map_of (lf_threads w) t = Some x" "\<not> th_dead x" using assms by (auto simp: registry_ok_def)
  have "lookup_thread (th_nsid x) w \<noteq> None"
    using lookup_thread_none t x(1) by blast
  then obtain q where q: "lookup_thread (th_nsid x) w = Some q" by blast
  from lookup_thread_found [OF q] obtain y where "q \<in> set (lf_threadRegistry w)" "map_of (lf_threads w) q = Some y" "th_nsid y = th_nsid x"
    by blast
  with t x assms have "q = t" unfolding registry_ok_def by (auto simp: distinct_map inj_on_def)
  with q x show "\<exists>th. map_of (lf_threads w) t = Some th \<and> \<not> th_dead th \<and> lookup_thread (th_nsid th) w = Some t" by blast
qed

section \<open>What the calls guarantee\<close>

text \<open>A server with a flat memory shared by all clients, and the messages of two processes.\<close>

definition flat_host :: "(u64 \<Rightarrow> u8) host" where
  "flat_host = \<lparr>page_size = 4096, client = (\<lambda>t rq k. (None, k)), dup_fd = (\<lambda>fd k. (Inr fd, k)),
     vm_readv = (\<lambda>p a n k. Inr (map (\<lambda>i. k (a + of_nat i)) [0..<unat n])),
     vm_writev = (\<lambda>p a bs k. Inr (\<lambda>b. if unat (b - a) < length bs then bs ! unat (b - a) else k b)),
     self_read = (\<lambda>a n k. []), self_write = (\<lambda>a bs k. k), anon_mmap = (\<lambda>n k. (0, k)),
     self_munmap = (\<lambda>a n k. (False, k)), malloc_ok = (\<lambda>n k. (True, k)), maps_file = (\<lambda>p k. [])\<rparr>"

definition demo_table :: call_table where
  "demo_table = \<lparr>ct_known = (\<lambda>n. n \<in> {1, 2, 3, 4}), ct_size = (\<lambda>n. 16), ct_checkin = 1,
     ct_interrupt_enter = 2, ct_interrupt_exit = 3\<rparr>"

definition demo_served :: "(u64 \<Rightarrow> u8) served" where
  "demo_served = \<lparr>sv_life = life_empty, sv_machine = (\<lambda>_. 0), sv_log = [], sv_tokens = (\<lambda>_. (0, 0)),
     sv_handles = (\<lambda>_. (0, 0)), sv_execMonitors = [], sv_micro = (\<lambda>_. Thread_new), sv_address = (\<lambda>_. 0),
     sv_pendingSavedReply = (\<lambda>_. None), sv_s2cReply = (\<lambda>_. False), sv_kernelCalls = []\<rparr>"

definition demo_request :: "int \<Rightarrow> int \<Rightarrow> int \<Rightarrow> nat \<Rightarrow> request" where
  "demo_request pid tid sender from = \<lparr>rq_size = 16, rq_number = 4, rq_pid = pid, rq_tid = tid, rq_arch = 2,
     rq_sender = sender, rq_from = from, rq_ident = 0, rq_pushed = Ordinary 0, rq_pushed_pipe = False, rq_pushed_body = False\<rparr>"

definition demo_fresh :: "nat \<Rightarrow> fresh" where
  "demo_fresh n = \<lparr>fr_process = n, fr_thread = n, fr_parent = Inr None, fr_thread_found = Inr ()\<rparr>"

definition demo_message :: "nat \<Rightarrow> request \<Rightarrow> (u64 \<Rightarrow> u8) served \<Rightarrow> (u64 \<Rightarrow> u8) served" where
  "demo_message n r s = snd (projr (callFromMessage demo_table (demo_fresh n) r s))"

text \<open>Process 10 (100 outside) with thread 11, process 20 (200 outside) with thread 21.\<close>

definition demo_two :: "(u64 \<Rightarrow> u8) served" where
  "demo_two = demo_message 2 (demo_request 20 21 200 8) (demo_message 1 (demo_request 10 11 100 7) demo_served)"

lemma demo_message_reached:
  assumes "reach served_start (served_step demo_table flat_host []) s" "\<not> isl (callFromMessage demo_table (demo_fresh n) r s)"
    "map_of (lf_procs (sv_life s)) n = None" "map_of (lf_threads (sv_life s)) n = None"
  shows "reach served_start (served_step demo_table flat_host []) (demo_message n r s)"
proof (rule reach_next [OF assms(1)], rule message)
  show "callFromMessage demo_table (demo_fresh n) r s =
      Inr (fst (projr (callFromMessage demo_table (demo_fresh n) r s)), demo_message n r s)"
    using assms(2) by (cases "callFromMessage demo_table (demo_fresh n) r s") (simp_all add: demo_message_def)
qed (use assms(3,4) in \<open>simp_all add: demo_fresh_def\<close>)

lemma demo_two_reached: "reach served_start (served_step demo_table flat_host []) demo_two"
proof -
  have "reach served_start (served_step demo_table flat_host []) demo_served"
    by (rule reach_start) (simp add: served_start_def demo_served_def life_empty_def life_start_def)
  then have "reach served_start (served_step demo_table flat_host []) (demo_message 1 (demo_request 10 11 100 7) demo_served)"
    by (rule demo_message_reached; code_simp)
  then show ?thesis unfolding demo_two_def
    by (rule demo_message_reached; code_simp)
qed

text \<open>The same when both calls are over.\<close>

definition demo_idle :: "(u64 \<Rightarrow> u8) served" where
  "demo_idle = demo_two\<lparr>sv_micro := (\<lambda>_. Thread_new), sv_pendingSavedReply := (\<lambda>_. None), sv_s2cReply := (\<lambda>_. False)\<rparr>"

lemma demo_idle_reached: "reach served_start (served_step demo_table flat_host []) demo_idle"
  unfolding demo_idle_def by (rule reach_next [OF demo_two_reached scheduler])



lemma setPendingCall_sets:
  "setPendingCall c m = Inr m' \<Longrightarrow> mt_pendingCall m' = Some c \<or> is_enter c \<and> c \<in> set (mt_pendingInterrupts m')"
  by (auto simp: setPendingCall_def split: if_splits call.splits)




text \<open>A process keeps its tracer as long as both exist, whatever calls are made: in particular
  \<open>set_tracer\<close> with tracer 0, which is meant to detach it, is refused with \<open>EPERM\<close>.\<close>

lemma tracer_set_once:
  assumes "reach served_start (served_step tb h mldr) s" "served_step tb h mldr s s'"
    and "map_of (lf_procs (sv_life s)) p = Some x" "tracerProcess x (sv_life s) = Some (q, y)"
    and "map_of (lf_procs (sv_life s')) p = Some x'"
  shows "px_tracerProcess x' = Some q \<and>
    (set_tracer_target target t (sv_life s) = Some (p, x) \<longrightarrow> SetTracer target 0 t s = (EPERM, s))"
proof
  have "keeps_tracers s s'" by (rule served_step_keeps [OF assms(2) serving.holds_when_reached [OF assms(1)]])
  then have "px_tracerProcess x' = px_tracerProcess x"
    using assms(3-5) unfolding keeps_tracers_def by fastforce
  then show "px_tracerProcess x' = Some q"
    using assms(4) by (auto simp: tracerProcess_def split: option.splits)
  show "set_tracer_target target t (sv_life s) = Some (p, x) \<longrightarrow> SetTracer target 0 t s = (EPERM, s)"
    using assms(4) by (simp add: SetTracer_def setTracerProcess_def)
qed


definition demo_memory :: "u64 \<Rightarrow> u8" where
  "demo_memory a = (if a = 0x100 then 20 else if a = 0x104 then 80 else 0)"


end
