(* ===== verification/KsynSeq.thy ===== *)
theory KsynSeq
  imports Prelude
begin

text \<open>
  The sequence numbers of the pthread synchronisation code (src/duct-tape/pthread/synch_internal.h).
  A word carries a generation of 24 bits above 8 flag bits; generations wrap around, so they are
  compared on a circle. The section at the end says what the comparisons compute and when they
  order a set of numbers.
\<close>

unbundle bit_operations_syntax

section \<open>Words of the protocol\<close>

abbreviation PTHRW_INC :: u32 where "PTHRW_INC \<equiv> 0x100"
abbreviation PTHRW_BIT_MASK :: u32 where "PTHRW_BIT_MASK \<equiv> 0xff"
abbreviation PTHRW_COUNT_MASK :: u32 where "PTHRW_COUNT_MASK \<equiv> 0xffffff00"
abbreviation PTHRW_MAX_READERS :: u32 where "PTHRW_MAX_READERS \<equiv> PTHRW_COUNT_MASK"

abbreviation PTH_RWL_KBIT :: u32 where "PTH_RWL_KBIT \<equiv> 1"
abbreviation PTH_RWL_EBIT :: u32 where "PTH_RWL_EBIT \<equiv> 2"
abbreviation PTH_RWL_WBIT :: u32 where "PTH_RWL_WBIT \<equiv> 4"
abbreviation PTH_RWL_MTX_WAIT :: u32 where "PTH_RWL_MTX_WAIT \<equiv> 0x20"
abbreviation PTH_RWL_MBIT :: u32 where "PTH_RWL_MBIT \<equiv> 0x40"
abbreviation PTHRW_RWL_INIT :: u32 where "PTHRW_RWL_INIT \<equiv> 0x80"
abbreviation PTH_RWS_SBIT :: u32 where "PTH_RWS_SBIT \<equiv> 1"
abbreviation PTH_RWS_CV_CBIT :: u32 where "PTH_RWS_CV_CBIT \<equiv> 1"
abbreviation PTH_RWS_CV_PBIT :: u32 where "PTH_RWS_CV_PBIT \<equiv> 2"
abbreviation PTH_RWS_CV_MBIT :: u32 where "PTH_RWS_CV_MBIT \<equiv> 0x40"
abbreviation PTHRW_RWS_SAVEMASK :: u32 where "PTHRW_RWS_SAVEMASK \<equiv> 4"
abbreviation PTHRW_RWS_INIT :: u32 where "PTHRW_RWS_INIT \<equiv> 1"

definition is_seqlower :: "u32 \<Rightarrow> u32 \<Rightarrow> bool" where
  "is_seqlower x y =
     (let x = x AND PTHRW_COUNT_MASK; y = y AND PTHRW_COUNT_MASK in
      if x < y then y - x < PTHRW_MAX_READERS div 2 else PTHRW_MAX_READERS div 2 < x - y)"

definition is_seqlower_eq :: "u32 \<Rightarrow> u32 \<Rightarrow> bool" where
  "is_seqlower_eq x y =
     (if x AND PTHRW_COUNT_MASK = y AND PTHRW_COUNT_MASK then True else is_seqlower x y)"

definition is_seqhigher :: "u32 \<Rightarrow> u32 \<Rightarrow> bool" where
  "is_seqhigher x y =
     (let x = x AND PTHRW_COUNT_MASK; y = y AND PTHRW_COUNT_MASK in
      if y < x then x - y < PTHRW_MAX_READERS div 2 else PTHRW_MAX_READERS div 2 < y - x)"

definition is_seqhigher_eq :: "u32 \<Rightarrow> u32 \<Rightarrow> bool" where
  "is_seqhigher_eq x y =
     (if x AND PTHRW_COUNT_MASK = y AND PTHRW_COUNT_MASK then True else is_seqhigher x y)"

definition diff_genseq :: "u32 \<Rightarrow> u32 \<Rightarrow> u32" where
  "diff_genseq x y =
     (let x = x AND PTHRW_COUNT_MASK; y = y AND PTHRW_COUNT_MASK in
      if x = y then 0
      else if y < x then x - y
      else (PTHRW_MAX_READERS - y) + x + PTHRW_INC)"

definition find_diff :: "u32 \<Rightarrow> u32 \<Rightarrow> u32" where
  "find_diff up lowest =
     (if up = lowest then 0
      else (let diff = (if is_seqlower up lowest then diff_genseq lowest up
                        else diff_genseq up lowest) in
            drop_bit 8 diff))"

section \<open>What the comparisons compute\<close>

text \<open>The generation of a word, and how many generations lie from one word to another.\<close>

definition gen :: "u32 \<Rightarrow> nat" where
  "gen x = unat x div 256"

definition ahead :: "u32 \<Rightarrow> u32 \<Rightarrow> nat" where
  "ahead x y = (gen y + 2 ^ 24 - gen x) mod 2 ^ 24"

lemma gen_bound: "gen x < 2 ^ 24"
proof -
  have "unat x < 2 ^ 32" using unsigned_less [of x] by simp
  then show ?thesis by (simp add: gen_def less_mult_imp_div_less)
qed

lemma count_mask: "PTHRW_COUNT_MASK = NOT (mask 8)"
  by (simp add: mask_eq_exp_minus_1 not_eq_complement)

lemma unat_count [simp]: "unat (x AND PTHRW_COUNT_MASK) = gen x * 256"
  unfolding count_mask by (simp add: unat_clear_low gen_def)

lemma gen_count [simp]: "gen (x AND PTHRW_COUNT_MASK) = gen x"
  by (simp add: gen_def [of "x AND PTHRW_COUNT_MASK"])

lemma count_eq_iff: "x AND PTHRW_COUNT_MASK = y AND PTHRW_COUNT_MASK \<longleftrightarrow> gen x = gen y"
  by (simp add: word_unat_eq_iff)

lemma count_less_iff: "x AND PTHRW_COUNT_MASK < y AND PTHRW_COUNT_MASK \<longleftrightarrow> gen x < gen y"
  by (simp add: word_less_nat_alt)

lemma unat_count_diff:
  "gen x \<le> gen y \<Longrightarrow> unat ((y AND PTHRW_COUNT_MASK) - (x AND PTHRW_COUNT_MASK)) = (gen y - gen x) * 256"
  by (subst unat_sub) (simp_all add: word_le_nat_alt diff_mult_distrib)

lemma is_seqlower_gen:
  "is_seqlower x y \<longleftrightarrow> (if gen x < gen y then gen y - gen x < 2 ^ 23 else 2 ^ 23 \<le> gen x - gen y)"
proof (cases "gen x < gen y")
  case True
  then have "is_seqlower x y \<longleftrightarrow> (gen y - gen x) * 256 < 0x7fffff80"
    by (simp add: is_seqlower_def count_less_iff word_less_nat_alt unat_count_diff)
  with True show ?thesis by auto
next
  case False
  then have "is_seqlower x y \<longleftrightarrow> 0x7fffff80 < (gen x - gen y) * 256"
    by (simp add: is_seqlower_def count_less_iff word_less_nat_alt unat_count_diff)
  with False show ?thesis by auto
qed

lemma is_seqhigher_flip: "is_seqhigher x y = is_seqlower y x"
  by (simp add: is_seqhigher_def is_seqlower_def Let_def)

lemma seqlower_eq_iff: "is_seqlower_eq x y \<longleftrightarrow> gen x = gen y \<or> is_seqlower x y"
  by (simp add: is_seqlower_eq_def count_eq_iff)

lemma seqhigher_eq_iff: "is_seqhigher_eq x y \<longleftrightarrow> gen x = gen y \<or> is_seqlower y x"
  by (simp add: is_seqhigher_eq_def count_eq_iff is_seqhigher_flip)

lemma is_seqlower_total: "gen x \<noteq> gen y \<Longrightarrow> is_seqlower x y \<longleftrightarrow> \<not> is_seqlower y x"
  using gen_bound [of x] gen_bound [of y] by (auto simp: is_seqlower_gen)

lemma is_seqlower_irrefl: "gen x = gen y \<Longrightarrow> \<not> is_seqlower x y"
  by (simp add: is_seqlower_gen)

lemma is_seqlower_asym: "is_seqlower x y \<Longrightarrow> \<not> is_seqlower y x"
  using is_seqlower_total is_seqlower_irrefl by metis

lemma is_seqlower_cong: "gen x = gen x' \<Longrightarrow> gen y = gen y' \<Longrightarrow> is_seqlower x y = is_seqlower x' y'"
  by (simp add: is_seqlower_gen)

lemma ahead_cases:
  "ahead x y = (if gen x \<le> gen y then gen y - gen x else gen y + 2 ^ 24 - gen x)"
  using gen_bound [of x] gen_bound [of y] by (auto simp: ahead_def mod_if)

text \<open>
  Lower means: less than half a circle behind; at exactly half a circle the numerically larger
  word counts as the lower one.
\<close>

lemma is_seqlower_ahead:
  "is_seqlower x y \<longleftrightarrow> 0 < ahead x y \<and> (ahead x y < 2 ^ 23 \<or> ahead x y = 2 ^ 23 \<and> gen y < gen x)"
  using gen_bound [of x] gen_bound [of y] by (auto simp: is_seqlower_gen ahead_cases)

text \<open>A set of numbers is near when some half circle contains it; there the comparison is an order.\<close>

definition near :: "u32 set \<Rightarrow> bool" where
  "near S \<longleftrightarrow> (\<exists>b. \<forall>x\<in>S. ahead b x < 2 ^ 23)"

lemma ahead_gen: "ahead b x = ahead b y \<longleftrightarrow> gen x = gen y"
  using gen_bound [of x] gen_bound [of y] gen_bound [of b] by (auto simp: ahead_cases)

lemma near_lower:
  assumes "ahead b x < 2 ^ 23" "ahead b y < 2 ^ 23"
  shows "is_seqlower x y \<longleftrightarrow> ahead b x < ahead b y"
  using assms gen_bound [of x] gen_bound [of y] gen_bound [of b]
  by (auto simp: is_seqlower_gen ahead_cases split: if_splits)

lemma near_trans:
  assumes "near {x, y, z}" "is_seqlower x y" "is_seqlower y z"
  shows "is_seqlower x z"
proof -
  obtain b where "ahead b x < 2 ^ 23" "ahead b y < 2 ^ 23" "ahead b z < 2 ^ 23"
    using assms(1) by (auto simp: near_def)
  with assms(2,3) near_lower [of b] show ?thesis by (metis order.strict_trans)
qed

lemma near_mono: "near T \<Longrightarrow> S \<subseteq> T \<Longrightarrow> near S"
  by (auto simp: near_def)

text \<open>Without nearness it is not: three words, a third of the circle apart.\<close>

lemma seqlower_cycle:
  "is_seqlower 0x100 0x55555500 \<and> is_seqlower 0x55555500 0xaaaaaa00 \<and> is_seqlower 0xaaaaaa00 0x100"
  by (simp add: is_seqlower_def)

text \<open>The differences.\<close>

lemma unat_diff_genseq: "unat (diff_genseq x y) = ahead y x * 256"
proof -
  have "diff_genseq x y = (x AND PTHRW_COUNT_MASK) - (y AND PTHRW_COUNT_MASK)"
    by (simp add: diff_genseq_def Let_def)
  then show ?thesis
    using gen_bound [of x] gen_bound [of y]
    by (simp add: unat_sub_if_size word_size ahead_cases diff_mult_distrib)
qed

lemma unat_find_diff:
  "unat (find_diff x y) = (if is_seqlower x y then ahead x y else ahead y x)"
proof (cases "x = y")
  case True
  then show ?thesis by (simp add: find_diff_def ahead_cases)
next
  case False
  then show ?thesis
    by (simp add: find_diff_def Let_def unat_drop_bit_eq drop_bit_nat_def unat_diff_genseq)
qed

end
