(* ===== verification/KsynQueue.thy ===== *)
theory KsynQueue
  imports KsynSeq
begin

text \<open>
  Wait queues of the pthread synchronisation code (src/duct-tape/pthread/kern_synch.c, "Indiv queue
  support routines") with the shims of src/duct-tape/src/psynch.c they call. A waiting thread is
  represented by the element inside it, a wake-up that came too early (condition variables) by an
  element of the zone. The elements live in a store, the queues are lists of references. The counters of the code
  are natural numbers; the invariant at the end says what they count.
\<close>

unbundle bit_operations_syntax

section \<open>Data\<close>

datatype kwe_ref = Uukwe ptr | Zalloc ptr

datatype kwe_state = KWE_ZERO | KWE_THREAD_INWAIT | KWE_THREAD_PREPOST | KWE_THREAD_BROADCAST

text \<open>\<open>kwe_thread\<close> and \<open>kwe_uth\<close> are the same thread; \<open>kwe_flags\<close> is never read.\<close>

record kwe =
  kwe_kwqqueue :: "ptr option"
  kwe_thread :: "ptr option"
  kwe_st :: kwe_state
  kwe_lockseq :: u32
  kwe_count :: nat
  kwe_psynchretval :: u32

definition kwe_zero :: kwe where
  "kwe_zero = \<lparr>kwe_kwqqueue = None, kwe_thread = None, kwe_st = KWE_ZERO, kwe_lockseq = 0,
     kwe_count = 0, kwe_psynchretval = 0\<rparr>"

record ksyn_queue =
  ksynq_kwelist :: "kwe_ref list"
  ksynq_count :: nat
  ksynq_firstnum :: u32
  ksynq_lastnum :: u32

datatype kwq_queue_type = KSYN_QUEUE_READ | KSYN_QUEUE_WRITE

text \<open>The kinds of interrupted wake-ups are numbers because they are compared with other constants.\<close>

abbreviation KWQ_INTR_NONE :: u32 where "KWQ_INTR_NONE \<equiv> 0"
abbreviation KWQ_INTR_READ :: u32 where "KWQ_INTR_READ \<equiv> 1"
abbreviation KWQ_INTR_WRITE :: u32 where "KWQ_INTR_WRITE \<equiv> 2"

datatype ksyn_wqtype = KSYN_WQTYPE_NONE | KSYN_WQTYPE_MTX | KSYN_WQTYPE_CVAR | KSYN_WQTYPE_RWLOCK

text \<open>
  A wait queue. The bits of \<open>kw_pflags\<close> and \<open>kw_kflags\<close> are fields of their own; \<open>kw_self\<close> is the
  address of the structure. Turnstiles and QoS overrides (priority inheritance) are left out.
\<close>

record ksyn_wait_queue =
  kw_self :: ptr
  kw_addr :: u64
  kw_owner :: "ptr option"
  kw_object :: u64
  kw_offset :: u64
  kw_inhash :: bool
  kw_shared :: bool
  kw_waiting :: bool
  kw_flist :: bool
  kw_ts :: int
  kw_iocount :: nat
  kw_dropcount :: nat
  kw_type :: ksyn_wqtype
  kw_inqueue :: nat
  kw_fakecount :: nat
  kw_highseq :: u32
  kw_lowseq :: u32
  kw_lword :: u32
  kw_uword :: u32
  kw_sword :: u32
  kw_lastunlockseq :: u32
  kw_lastseqword :: u32
  kw_nextseqword :: u32
  kw_prepost_count :: nat
  kw_prepost_lseq :: u32
  kw_prepost_sseq :: u32
  kw_intr_type :: u32
  kw_intr_count :: nat
  kw_intr_seq :: u32
  kw_intr_returnbits :: u32
  kw_initcleared :: bool
  kw_zeroedout :: bool
  kw_overlap_guard :: bool
  kw_ksynqueues :: "kwq_queue_type \<Rightarrow> ksyn_queue"

text \<open>What a thread waits for: its wait ends with a wake-up, a timeout or an interruption.\<close>

datatype wait_result = THREAD_AWAKENED | THREAD_TIMED_OUT | THREAD_INTERRUPTED

datatype th_wait =
    On_cpu
  | Blocked ptr kwq_queue_type
  | Unblocked ptr kwq_queue_type wait_result

text \<open>
  What the code under the lock of a wait queue works on: the queue, all elements, what the threads
  wait for, the elements taken from the zone, and the references on threads that the code has taken.
\<close>

record ksyn =
  kn_kwq :: ksyn_wait_queue
  kn_kwe :: "kwe_ref \<Rightarrow> kwe"
  kn_wait :: "ptr \<Rightarrow> th_wait"
  kn_zone :: "ptr list"
  kn_refs :: "ptr list"

definition with_kwq :: "(ksyn_wait_queue \<Rightarrow> ksyn_wait_queue) \<Rightarrow> ksyn \<Rightarrow> ksyn" where
  "with_kwq f s = s\<lparr>kn_kwq := f (kn_kwq s)\<rparr>"

definition with_kwe :: "kwe_ref \<Rightarrow> (kwe \<Rightarrow> kwe) \<Rightarrow> ksyn \<Rightarrow> ksyn" where
  "with_kwe e f s = s\<lparr>kn_kwe := (kn_kwe s)(e := f (kn_kwe s e))\<rparr>"

definition with_queue ::
  "kwq_queue_type \<Rightarrow> (ksyn_queue \<Rightarrow> ksyn_queue) \<Rightarrow> ksyn_wait_queue \<Rightarrow> ksyn_wait_queue" where
  "with_queue kqi f q = q\<lparr>kw_ksynqueues := (kw_ksynqueues q)(kqi := f (kw_ksynqueues q kqi))\<rparr>"

abbreviation queue_of :: "kwq_queue_type \<Rightarrow> ksyn \<Rightarrow> ksyn_queue" where
  "queue_of kqi s \<equiv> kw_ksynqueues (kn_kwq s) kqi"

abbreviation elements :: "kwq_queue_type \<Rightarrow> ksyn \<Rightarrow> kwe_ref list" where
  "elements kqi s \<equiv> ksynq_kwelist (queue_of kqi s)"

abbreviation seq_of :: "ksyn \<Rightarrow> kwe_ref \<Rightarrow> u32" where
  "seq_of s e \<equiv> kwe_lockseq (kn_kwe s e)"

abbreviation state_of :: "ksyn \<Rightarrow> kwe_ref \<Rightarrow> kwe_state" where
  "state_of s e \<equiv> kwe_st (kn_kwe s e)"

abbreviation EBUSY :: int where "EBUSY \<equiv> 16"
abbreviation EINVAL :: int where "EINVAL \<equiv> 22"
abbreviation ETIMEDOUT :: int where "ETIMEDOUT \<equiv> 60"

section \<open>Lowest and highest numbers\<close>

definition ksyn_queue_init :: ksyn_queue where
  "ksyn_queue_init = \<lparr>ksynq_kwelist = [], ksynq_count = 0, ksynq_firstnum = 0, ksynq_lastnum = 0\<rparr>"

text \<open>A queue as it comes from the zone, filled with zeros.\<close>

definition kwq_alloc :: "ptr \<Rightarrow> ksyn_wait_queue" where
  "kwq_alloc self =
     \<lparr>kw_self = self, kw_addr = 0, kw_owner = None, kw_object = 0, kw_offset = 0, kw_inhash = False,
      kw_shared = False, kw_waiting = False, kw_flist = False, kw_ts = 0, kw_iocount = 0, kw_dropcount = 0,
      kw_type = KSYN_WQTYPE_NONE, kw_inqueue = 0, kw_fakecount = 0, kw_highseq = 0, kw_lowseq = 0, kw_lword = 0,
      kw_uword = 0, kw_sword = 0, kw_lastunlockseq = 0, kw_lastseqword = 0, kw_nextseqword = 0,
      kw_prepost_count = 0, kw_prepost_lseq = 0, kw_prepost_sseq = 0, kw_intr_type = KWQ_INTR_NONE,
      kw_intr_count = 0, kw_intr_seq = 0, kw_intr_returnbits = 0, kw_initcleared = False, kw_zeroedout = False,
      kw_overlap_guard = False, kw_ksynqueues = \<lambda>_. ksyn_queue_init\<rparr>"

definition update_low_high :: "u32 \<Rightarrow> ksyn_wait_queue \<Rightarrow> ksyn_wait_queue" where
  "update_low_high lockseq q =
     (if kw_inqueue q = 1 then q\<lparr>kw_lowseq := lockseq, kw_highseq := lockseq\<rparr>
      else (let q = (if is_seqlower lockseq (kw_lowseq q) then q\<lparr>kw_lowseq := lockseq\<rparr> else q) in
            if is_seqhigher lockseq (kw_highseq q) then q\<lparr>kw_highseq := lockseq\<rparr> else q))"

text \<open>The loops over the two queues; the first element of the pair is \<open>first\<close>.\<close>

definition find_nextlowseq :: "ksyn_wait_queue \<Rightarrow> u32" where
  "find_nextlowseq q =
     snd (fold (\<lambda>i (first, lowest).
            let kq = kw_ksynqueues q i in
            if ksynq_count kq > 0 \<and> (first \<or> is_seqlower (ksynq_firstnum kq) lowest)
            then (False, ksynq_firstnum kq) else (first, lowest))
          [KSYN_QUEUE_READ, KSYN_QUEUE_WRITE] (True, 0))"

definition find_nexthighseq :: "ksyn_wait_queue \<Rightarrow> u32" where
  "find_nexthighseq q =
     snd (fold (\<lambda>i (first, highest).
            let kq = kw_ksynqueues q i in
            if ksynq_count kq > 0 \<and> (first \<or> is_seqhigher (ksynq_lastnum kq) highest)
            then (False, ksynq_lastnum kq) else (first, highest))
          [KSYN_QUEUE_READ, KSYN_QUEUE_WRITE] (True, 0))"

section \<open>Insertion and removal\<close>

text \<open>\<open>shim_uthread_is_cancelled\<close> is a stub.\<close>

definition uthread_is_cancelled :: "ptr option \<Rightarrow> bool" where
  "uthread_is_cancelled t = False"

definition ksyn_queue_find_seq :: "(kwe_ref \<Rightarrow> kwe) \<Rightarrow> ksyn_queue \<Rightarrow> u32 \<Rightarrow> kwe_ref option" where
  "ksyn_queue_find_seq m kq seq =
     find (\<lambda>e. kwe_lockseq (m e) AND PTHRW_COUNT_MASK = seq) (ksynq_kwelist kq)"

fun insert_before_higher :: "(kwe_ref \<Rightarrow> kwe) \<Rightarrow> u32 \<Rightarrow> kwe_ref \<Rightarrow> kwe_ref list \<Rightarrow> kwe_ref list option" where
  "insert_before_higher m lockseq e [] = None"
| "insert_before_higher m lockseq e (q # qs) =
     (if is_seqhigher (kwe_lockseq (m q)) lockseq then Some (e # q # qs)
      else map_option ((#) q) (insert_before_higher m lockseq e qs))"

text \<open>Where the element goes; the code is \<open>SEQFIT\<close> or \<open>FIRSTFIT\<close>.\<close>

definition queue_place ::
  "(kwe_ref \<Rightarrow> kwe) \<Rightarrow> kwe_ref \<Rightarrow> u32 \<Rightarrow> bool \<Rightarrow> ksyn_queue \<Rightarrow> int \<times> ksyn_queue" where
  "queue_place m e lockseq firstfit kq =
     (if ksynq_count kq = 0 then
        (0, kq\<lparr>ksynq_kwelist := e # ksynq_kwelist kq, ksynq_firstnum := lockseq, ksynq_lastnum := lockseq\<rparr>)
      else if firstfit then
        (0, kq\<lparr>ksynq_kwelist := ksynq_kwelist kq @ [e],
              ksynq_firstnum := (if is_seqlower lockseq (ksynq_firstnum kq) then lockseq else ksynq_firstnum kq),
              ksynq_lastnum := (if is_seqhigher lockseq (ksynq_lastnum kq) then lockseq else ksynq_lastnum kq)\<rparr>)
      else if lockseq = ksynq_firstnum kq \<or> lockseq = ksynq_lastnum kq then
        (if kwe_st (m e) = KWE_THREAD_PREPOST then
           (case ksyn_queue_find_seq m kq lockseq of
              None \<Rightarrow> (EBUSY, kq)
            | Some tmp \<Rightarrow>
                if kwe_thread (m tmp) \<noteq> None \<and> uthread_is_cancelled (kwe_thread (m tmp))
                then (0, kq\<lparr>ksynq_kwelist := ksynq_kwelist kq @ [e]\<rparr>) else (EBUSY, kq))
         else (EBUSY, kq))
      else if is_seqlower (ksynq_lastnum kq) lockseq then
        (0, kq\<lparr>ksynq_kwelist := ksynq_kwelist kq @ [e], ksynq_lastnum := lockseq\<rparr>)
      else if is_seqlower lockseq (ksynq_firstnum kq) then
        (0, kq\<lparr>ksynq_kwelist := e # ksynq_kwelist kq, ksynq_firstnum := lockseq\<rparr>)
      else (case insert_before_higher m lockseq e (ksynq_kwelist kq) of
              None \<Rightarrow> (ESRCH, kq)
            | Some l \<Rightarrow> (0, kq\<lparr>ksynq_kwelist := l\<rparr>)))"

definition ksyn_queue_insert ::
  "kwq_queue_type \<Rightarrow> kwe_ref \<Rightarrow> u32 \<Rightarrow> bool \<Rightarrow> ksyn \<Rightarrow> (int \<times> ksyn) result" where
  "ksyn_queue_insert kqi e mgen firstfit s =
     (if kwe_kwqqueue (kn_kwe s e) \<noteq> None then Inl (Panic ''adding enqueued item to another queue'')
      else
        (let lockseq = mgen AND PTHRW_COUNT_MASK;
             (res, kq) = queue_place (kn_kwe s) e lockseq firstfit (queue_of kqi s) in
         if res = 0 then
           Inr (0, with_kwq (\<lambda>q. update_low_high lockseq
                     ((with_queue kqi (\<lambda>_. kq\<lparr>ksynq_count := ksynq_count kq + 1\<rparr>) q)
                        \<lparr>kw_inqueue := kw_inqueue q + 1\<rparr>))
                   (with_kwe e (\<lambda>k. k\<lparr>kwe_kwqqueue := Some (kw_self (kn_kwq s))\<rparr>) s))
         else Inr (res, s)))"

text \<open>Removing an element that is in another list than this one corrupts both lists.\<close>

definition queue_unlink :: "(kwe_ref \<Rightarrow> kwe) \<Rightarrow> kwe_ref \<Rightarrow> ksyn_queue \<Rightarrow> ksyn_queue" where
  "queue_unlink m e kq =
     (let l = remove1 e (ksynq_kwelist kq); n = ksynq_count kq - 1 in
      kq\<lparr>ksynq_kwelist := l, ksynq_count := n,
        ksynq_firstnum := (if n > 0 then kwe_lockseq (m (hd l)) AND PTHRW_COUNT_MASK else 0),
        ksynq_lastnum := (if n > 0 then kwe_lockseq (m (last l)) AND PTHRW_COUNT_MASK else 0)\<rparr>)"

definition find_low_high :: "u32 \<Rightarrow> ksyn_wait_queue \<Rightarrow> ksyn_wait_queue" where
  "find_low_high curseq q =
     (if kw_inqueue q > 0 then
        (let q = (if kw_lowseq q = curseq then q\<lparr>kw_lowseq := find_nextlowseq q\<rparr> else q) in
         if kw_highseq q = curseq then q\<lparr>kw_highseq := find_nexthighseq q\<rparr> else q)
      else q\<lparr>kw_lowseq := 0, kw_highseq := 0\<rparr>)"

definition ksyn_queue_remove_item :: "kwq_queue_type \<Rightarrow> kwe_ref \<Rightarrow> ksyn \<Rightarrow> ksyn result" where
  "ksyn_queue_remove_item kqi e s =
     (if ksynq_count (queue_of kqi s) = 0 then Inl (Panic ''removing item from empty queue'')
      else if kwe_kwqqueue (kn_kwe s e) \<noteq> Some (kw_self (kn_kwq s))
      then Inl (Panic ''removing item from wrong queue'')
      else if e \<notin> set (elements kqi s) then Inl (Undefined_behaviour ''element of another list'')
      else
        (let curseq = seq_of s e AND PTHRW_COUNT_MASK;
             s = with_kwe e (\<lambda>k. k\<lparr>kwe_kwqqueue := None\<rparr>) s in
         Inr (with_kwq (\<lambda>q. find_low_high curseq
                ((with_queue kqi (queue_unlink (kn_kwe s) e) q)\<lparr>kw_inqueue := kw_inqueue q - 1\<rparr>)) s)))"

lemma find_low_high_queues [simp]:
  "kw_ksynqueues (find_low_high c q) = kw_ksynqueues q" "kw_inqueue (find_low_high c q) = kw_inqueue q"
  "kw_self (find_low_high c q) = kw_self q"
  by (simp_all add: find_low_high_def Let_def)

section \<open>Searching\<close>

definition ksyn_queue_find_cvpreposeq :: "(kwe_ref \<Rightarrow> kwe) \<Rightarrow> ksyn_queue \<Rightarrow> u32 \<Rightarrow> kwe_ref option" where
  "ksyn_queue_find_cvpreposeq m kq cgen =
     (let lgen = cgen AND PTHRW_COUNT_MASK in
      case find (\<lambda>e. is_seqhigher_eq (kwe_lockseq (m e)) cgen) (ksynq_kwelist kq) of
        None \<Rightarrow> None
      | Some e \<Rightarrow>
          if kwe_st (m e) = KWE_THREAD_INWAIT \<and> kwe_lockseq (m e) AND PTHRW_COUNT_MASK \<noteq> lgen
          then None else Some e)"

fun signalseq_scan ::
  "ptr \<Rightarrow> (kwe_ref \<Rightarrow> kwe) \<Rightarrow> u32 \<Rightarrow> u32 \<Rightarrow> kwe_ref option \<Rightarrow> kwe_ref list \<Rightarrow> kwe_ref option result" where
  "signalseq_scan kwq m uptoseq signalseq res [] = Inr res"
| "signalseq_scan kwq m uptoseq signalseq res (e # es) =
     (if kwe_st (m e) = KWE_THREAD_PREPOST \<and> is_seqhigher (kwe_lockseq (m e)) uptoseq then Inr res
      else if kwe_st (m e) = KWE_THREAD_PREPOST \<or> kwe_st (m e) = KWE_THREAD_BROADCAST then
        (if is_seqlower (kwe_lockseq (m e)) uptoseq then signalseq_scan kwq m uptoseq signalseq res es
         else Inr (Some e))
      else if kwe_st (m e) = KWE_THREAD_INWAIT then
        (if is_seqhigher (kwe_lockseq (m e)) uptoseq then Inr res
         else if kwe_kwqqueue (m e) = Some kwq \<and> \<not> uthread_is_cancelled (kwe_thread (m e)) then
           (if is_seqhigher_eq (kwe_lockseq (m e)) signalseq then Inr (Some e)
            else signalseq_scan kwq m uptoseq signalseq (if res = None then Some e else res) es)
         else signalseq_scan kwq m uptoseq signalseq res es)
      else Inl (Panic ''ksyn_queue_find_signalseq(): unknown wait queue element type''))"

definition ksyn_queue_find_signalseq :: "u32 \<Rightarrow> u32 \<Rightarrow> ksyn \<Rightarrow> kwe_ref option result" where
  "ksyn_queue_find_signalseq uptoseq signalseq s =
     signalseq_scan (kw_self (kn_kwq s)) (kn_kwe s) uptoseq signalseq None (elements KSYN_QUEUE_WRITE s)"

fun count_scan :: "(kwe_ref \<Rightarrow> kwe) \<Rightarrow> u32 \<Rightarrow> kwe_ref list \<Rightarrow> nat" where
  "count_scan m up [] = 0"
| "count_scan m up (e # es) =
     (let curval = kwe_lockseq (m e) AND PTHRW_COUNT_MASK in
      if is_seqhigher curval up then 0 else if up = curval then 1 else Suc (count_scan m up es))"

definition ksyn_queue_count_tolowest :: "(kwe_ref \<Rightarrow> kwe) \<Rightarrow> ksyn_queue \<Rightarrow> u32 \<Rightarrow> nat" where
  "ksyn_queue_count_tolowest m kq up =
     (if ksynq_count kq = 0 \<or> is_seqhigher (ksynq_firstnum kq) up then 0
      else if up = ksynq_firstnum kq then 1
      else count_scan m up (ksynq_kwelist kq))"

definition find_seq_till :: "u32 \<Rightarrow> nat \<Rightarrow> ksyn \<Rightarrow> bool \<times> nat" where
  "find_seq_till up nwaiters s =
     (let count = ksyn_queue_count_tolowest (kn_kwe s) (queue_of KSYN_QUEUE_READ s) up;
          count = (if nwaiters \<le> count then count
                   else count + ksyn_queue_count_tolowest (kn_kwe s) (queue_of KSYN_QUEUE_WRITE s) up) in
      (if count = 0 then False else nwaiters \<le> count, count))"

section \<open>Waiting and waking\<close>

text \<open>
  \<open>psynch_wait_wakeup\<close> finds the thread around the element and wakes it if it waits for this
  queue; a thread whose wait has ended otherwise is not waiting any more.
\<close>

definition psynch_wait_wakeup :: "kwe_ref \<Rightarrow> ksyn \<Rightarrow> (bool \<times> ksyn) result" where
  "psynch_wait_wakeup e s =
     (case e of
        Zalloc _ \<Rightarrow> Inl (Undefined_behaviour ''element outside a thread'')
      | Uukwe t \<Rightarrow>
          (case kn_wait s t of
             Blocked q kqi \<Rightarrow>
               if q = kw_self (kn_kwq s)
               then Inr (True, s\<lparr>kn_wait := (kn_wait s)(t := Unblocked q kqi THREAD_AWAKENED)\<rparr>)
               else Inr (False, s)
           | _ \<Rightarrow> Inr (False, s)))"

definition ksyn_signal ::
  "kwq_queue_type \<Rightarrow> kwe_ref option \<Rightarrow> u32 \<Rightarrow> ksyn \<Rightarrow> (bool \<times> ksyn) result" where
  "ksyn_signal kqi kwe updateval s =
     (case (case kwe of Some e \<Rightarrow> [e] | None \<Rightarrow> elements kqi s) of
        [] \<Rightarrow> Inl (Panic ''ksyn_signal: panic signaling empty queue'')
      | e # _ \<Rightarrow>
          if state_of s e \<noteq> KWE_THREAD_INWAIT
          then Inl (Panic ''ksyn_signal: panic signaling non-waiting element'')
          else (case ksyn_queue_remove_item kqi e s of
                  Inl x \<Rightarrow> Inl x
                | Inr s \<Rightarrow> psynch_wait_wakeup e (with_kwe e (\<lambda>k. k\<lparr>kwe_psynchretval := updateval\<rparr>) s)))"

text \<open>
  \<open>ksyn_wait\<close> blocks the current thread; it comes back only when the element cannot be inserted,
  and has dropped the lock of the queue then. The answer is the error, or None when it blocked.
\<close>

definition ksyn_wait ::
  "kwq_queue_type \<Rightarrow> ptr \<Rightarrow> u32 \<Rightarrow> bool \<Rightarrow> ksyn \<Rightarrow> (int option \<times> ksyn) result" where
  "ksyn_wait kqi th lockseq firstfit s =
     (let s = with_kwe (Uukwe th) (\<lambda>_. kwe_zero\<lparr>kwe_count := 1,
                kwe_lockseq := lockseq AND PTHRW_COUNT_MASK, kwe_st := KWE_THREAD_INWAIT,
                kwe_thread := Some th\<rparr>) s in
      case ksyn_queue_insert kqi (Uukwe th) lockseq firstfit s of
        Inl x \<Rightarrow> Inl x
      | Inr (res, s) \<Rightarrow>
          if res \<noteq> 0 then Inr (Some res, s)
          else Inr (None, s\<lparr>kn_wait := (kn_wait s)(th := Blocked (kw_self (kn_kwq s)) kqi)\<rparr>))"

definition wait_result_to_errno :: "wait_result \<Rightarrow> int" where
  "wait_result_to_errno r =
     (case r of THREAD_TIMED_OUT \<Rightarrow> ETIMEDOUT | THREAD_INTERRUPTED \<Rightarrow> EINTR | _ \<Rightarrow> 0)"

definition zfree_kwe :: "kwe_ref \<Rightarrow> ksyn \<Rightarrow> ksyn" where
  "zfree_kwe e s = (case e of Zalloc a \<Rightarrow> s\<lparr>kn_zone := remove1 a (kn_zone s)\<rparr> | _ \<Rightarrow> s)"

lemmas [simp] = with_kwq_def with_kwe_def with_queue_def

named_theorems ksyn_frame \<open>what an operation leaves alone\<close>

lemma remove_item_result:
  assumes "ksyn_queue_remove_item kqi e s = Inr s'"
  shows "e \<in> set (elements kqi s)" "elements kqi s' = remove1 e (elements kqi s)"
  using assms
  by (auto simp: ksyn_queue_remove_item_def queue_unlink_def Let_def split: if_splits)

lemma remove1_shorter: "e \<in> set l \<Longrightarrow> length (remove1 e l) < length l"
  using length_pos_if_in_set [of e l] by (simp add: length_remove1)

lemma remove_shorter:
  "ksyn_queue_remove_item kqi e s = Inr s' \<Longrightarrow> length (elements kqi s') < length (elements kqi s)"
  using remove_item_result [of kqi e s s'] by (simp add: remove1_shorter)

lemma wakeup_queue: "psynch_wait_wakeup e s = Inr (b, s') \<Longrightarrow> kn_kwq s' = kn_kwq s"
  by (auto simp: psynch_wait_wakeup_def split: kwe_ref.splits th_wait.splits if_splits)

lemma signal_shorter:
  assumes "ksyn_signal kqi e v s = Inr (b, s')"
  shows "length (elements kqi s') < length (elements kqi s)"
proof -
  obtain d r where d: "ksyn_queue_remove_item kqi d s = Inr r"
    "psynch_wait_wakeup d (with_kwe d (\<lambda>k. k\<lparr>kwe_psynchretval := v\<rparr>) r) = Inr (b, s')"
    using assms by (auto simp: ksyn_signal_def split: list.splits if_splits sum.splits)
  from wakeup_queue [OF d(2)] have "elements kqi s' = elements kqi r" by simp
  with remove_shorter [OF d(1)] show ?thesis by simp
qed

section \<open>Loops\<close>

text \<open>\<open>ksyn_wakeupreaders\<close> answers how many wake-ups failed and how many were made.\<close>

function ksyn_wakeupreaders :: "u32 \<Rightarrow> bool \<Rightarrow> u32 \<Rightarrow> ksyn \<Rightarrow> (nat \<times> nat \<times> ksyn) result" where
  "ksyn_wakeupreaders limitread allreaders updatebits s =
     (if ksynq_count (queue_of KSYN_QUEUE_READ s) \<noteq> 0 \<and>
         (allreaders \<or> is_seqlower (ksynq_firstnum (queue_of KSYN_QUEUE_READ s)) limitread) then
        (case ksyn_signal KSYN_QUEUE_READ None updatebits s of
           Inl x \<Rightarrow> Inl x
         | Inr (woken, s) \<Rightarrow>
             (case ksyn_wakeupreaders limitread allreaders updatebits s of
                Inl x \<Rightarrow> Inl x
              | Inr (failed, num, s) \<Rightarrow> Inr ((if woken then failed else failed + 1), num + 1, s)))
      else Inr (0, 0, s))"
  by auto
termination
  by (relation "measure (\<lambda>(_, _, _, s). length (elements KSYN_QUEUE_READ s))")
    (auto dest: signal_shorter)

declare ksyn_wakeupreaders.simps [simp del]

function ksyn_queue_free_items :: "kwq_queue_type \<Rightarrow> u32 \<Rightarrow> bool \<Rightarrow> ksyn \<Rightarrow> ksyn result" where
  "ksyn_queue_free_items kqi up all s =
     (case elements kqi s of
        [] \<Rightarrow> Inr s
      | e # _ \<Rightarrow>
          if \<not> all \<and> is_seqhigher (seq_of s e) (up AND PTHRW_COUNT_MASK) then Inr s
          else if state_of s e = KWE_THREAD_INWAIT then
            (case ksyn_signal kqi (Some e) (PTHRW_INC OR PTH_RWS_CV_MBIT OR PTH_RWL_MTX_WAIT) s of
               Inl x \<Rightarrow> Inl x
             | Inr (_, s) \<Rightarrow> ksyn_queue_free_items kqi up all s)
          else
            (case ksyn_queue_remove_item kqi e s of
               Inl x \<Rightarrow> Inl x
             | Inr s \<Rightarrow> ksyn_queue_free_items kqi up all
                 (with_kwq (\<lambda>q. q\<lparr>kw_fakecount := kw_fakecount q - 1\<rparr>) (zfree_kwe e s))))"
  by auto
termination
  by (relation "measure (\<lambda>(kqi, _, _, s). length (elements kqi s))")
    (auto dest: signal_shorter remove_shorter simp: zfree_kwe_def split: kwe_ref.splits)

declare ksyn_queue_free_items.simps [simp del]

section \<open>The invariant\<close>

text \<open>What is in a wait queue besides the queues themselves and their bounds.\<close>

definition rest_of :: "ksyn_wait_queue \<Rightarrow> ksyn_wait_queue" where
  "rest_of q = q\<lparr>kw_ksynqueues := (\<lambda>_. ksyn_queue_init), kw_inqueue := 0, kw_lowseq := 0, kw_highseq := 0\<rparr>"

lemma rest_of_fields:
  assumes "rest_of q' = rest_of q"
  shows "kw_self q' = kw_self q" "kw_type q' = kw_type q" "kw_fakecount q' = kw_fakecount q"
    "kw_owner q' = kw_owner q" "kw_prepost_count q' = kw_prepost_count q" "kw_intr_count q' = kw_intr_count q"
    "kw_lword q' = kw_lword q" "kw_sword q' = kw_sword q" "kw_uword q' = kw_uword q"
    "kw_iocount q' = kw_iocount q" "kw_dropcount q' = kw_dropcount q"
  using arg_cong [OF assms, of kw_self] arg_cong [OF assms, of kw_type] arg_cong [OF assms, of kw_fakecount]
    arg_cong [OF assms, of kw_owner] arg_cong [OF assms, of kw_prepost_count]
    arg_cong [OF assms, of kw_intr_count] arg_cong [OF assms, of kw_lword] arg_cong [OF assms, of kw_sword]
    arg_cong [OF assms, of kw_uword] arg_cong [OF assms, of kw_iocount] arg_cong [OF assms, of kw_dropcount]
  by (simp_all add: rest_of_def)

lemma rest_of_simps [simp]:
  "rest_of (q\<lparr>kw_ksynqueues := a\<rparr>) = rest_of q" "rest_of (q\<lparr>kw_inqueue := b\<rparr>) = rest_of q"
  "rest_of (q\<lparr>kw_lowseq := c\<rparr>) = rest_of q" "rest_of (q\<lparr>kw_highseq := c\<rparr>) = rest_of q"
  by (simp_all add: rest_of_def)

lemma find_low_high_rest [simp]: "rest_of (find_low_high c q) = rest_of q"
  by (simp add: find_low_high_def Let_def)

lemma update_low_high_rest [simp]:
  "rest_of (update_low_high l q) = rest_of q"
  "kw_ksynqueues (update_low_high l q) = kw_ksynqueues q"
  "kw_inqueue (update_low_high l q) = kw_inqueue q"
  by (simp_all add: update_low_high_def Let_def)

abbreviation self_of :: "ksyn \<Rightarrow> ptr" where
  "self_of s \<equiv> kw_self (kn_kwq s)"

definition queued :: "ksyn \<Rightarrow> kwe_ref \<Rightarrow> bool" where
  "queued s e \<longleftrightarrow> (\<exists>kqi. e \<in> set (elements kqi s))"

fun is_fake :: "kwe_ref \<Rightarrow> bool" where
  "is_fake (Zalloc _) = True"
| "is_fake (Uukwe _) = False"

text \<open>The lists, their counters, and the back references of the elements.\<close>

definition lists_ok :: "ksyn \<Rightarrow> bool" where
  "lists_ok s \<longleftrightarrow>
     distinct (elements KSYN_QUEUE_READ s @ elements KSYN_QUEUE_WRITE s) \<and>
     (\<forall>kqi. ksynq_count (queue_of kqi s) = length (elements kqi s)) \<and>
     kw_inqueue (kn_kwq s) = length (elements KSYN_QUEUE_READ s) + length (elements KSYN_QUEUE_WRITE s) \<and>
     (\<forall>e. kwe_kwqqueue (kn_kwe s e) = Some (self_of s) \<longleftrightarrow> queued s e)"

text \<open>A blocked thread is queued, and a queued thread has not been woken by this queue.\<close>

definition waits_ok :: "ksyn \<Rightarrow> bool" where
  "waits_ok s \<longleftrightarrow>
     (\<forall>t kqi. (kn_wait s t = Blocked (self_of s) kqi \<longrightarrow> Uukwe t \<in> set (elements kqi s)) \<and>
        (Uukwe t \<in> set (elements kqi s) \<longrightarrow>
           kn_wait s t = Blocked (self_of s) kqi \<or> kn_wait s t = Unblocked (self_of s) kqi THREAD_TIMED_OUT \<or>
           kn_wait s t = Unblocked (self_of s) kqi THREAD_INTERRUPTED))"

text \<open>A thread that has waited here is linked to no other queue.\<close>

definition links_ok :: "ksyn \<Rightarrow> bool" where
  "links_ok s \<longleftrightarrow> (\<forall>t k r. kn_wait s t = Unblocked (self_of s) k r \<longrightarrow>
     kwe_kwqqueue (kn_kwe s (Uukwe t)) \<in> {None, Some (self_of s)})"

text \<open>Threads wait; elements of the zone stand for early wake-ups of a condition variable.\<close>

definition element_ok :: "ksyn \<Rightarrow> kwq_queue_type \<Rightarrow> kwe_ref \<Rightarrow> bool" where
  "element_ok s kqi e \<longleftrightarrow>
     seq_of s e AND PTHRW_COUNT_MASK = seq_of s e \<and>
     (case e of
        Uukwe t \<Rightarrow> state_of s e = KWE_THREAD_INWAIT \<and> kwe_thread (kn_kwe s e) = Some t
      | Zalloc a \<Rightarrow> (state_of s e = KWE_THREAD_PREPOST \<or> state_of s e = KWE_THREAD_BROADCAST) \<and>
          kqi = KSYN_QUEUE_WRITE \<and> kw_type (kn_kwq s) = KSYN_WQTYPE_CVAR \<and> a \<in> set (kn_zone s))"

definition fakes :: "ksyn \<Rightarrow> nat" where
  "fakes s = count_if is_fake (elements KSYN_QUEUE_WRITE s)"

definition ksyn_ok :: "ksyn \<Rightarrow> bool" where
  "ksyn_ok s \<longleftrightarrow> lists_ok s \<and> waits_ok s \<and> links_ok s \<and> (\<forall>kqi. \<forall>e \<in> set (elements kqi s). element_ok s kqi e) \<and>
     fakes s \<le> kw_fakecount (kn_kwq s)"

section \<open>What the operations do to the lists\<close>

lemma insert_before_higher_place:
  "insert_before_higher m l e xs = Some ys \<Longrightarrow> \<exists>as bs. xs = as @ bs \<and> ys = as @ e # bs"
proof (induction xs arbitrary: ys)
  case (Cons x xs)
  show ?case
  proof (cases "is_seqhigher (kwe_lockseq (m x)) l")
    case True
    with Cons.prems show ?thesis by (intro exI [of _ "[]"] exI [of _ "x # xs"]) simp
  next
    case False
    with Cons.prems obtain zs where z: "insert_before_higher m l e xs = Some zs" "ys = x # zs" by auto
    from Cons.IH [OF z(1)] obtain as bs where "xs = as @ bs" "zs = as @ e # bs" by blast
    with z show ?thesis by (intro exI [of _ "x # as"] exI [of _ bs]) simp
  qed
qed simp

lemma queue_place_list:
  assumes "queue_place m e l ff kq = (0, kq')"
  shows "\<exists>as bs. ksynq_kwelist kq = as @ bs \<and> ksynq_kwelist kq' = as @ e # bs"
    and "ksynq_count kq' = ksynq_count kq"
proof -
  have h: "\<exists>as bs. xs = as @ bs \<and> e # xs = as @ e # bs" for xs :: "kwe_ref list"
    by (intro exI [of _ "[]"] exI [of _ xs]) simp
  have t: "\<exists>as bs. xs = as @ bs \<and> xs @ [e] = as @ e # bs" for xs :: "kwe_ref list"
    by (intro exI [of _ xs] exI [of _ "[]"]) simp
  show "\<exists>as bs. ksynq_kwelist kq = as @ bs \<and> ksynq_kwelist kq' = as @ e # bs"
    using assms h t
    by (auto simp: queue_place_def uthread_is_cancelled_def dest: insert_before_higher_place
        split: if_splits option.splits)
  show "ksynq_count kq' = ksynq_count kq"
    using assms by (auto simp: queue_place_def uthread_is_cancelled_def split: if_splits option.splits)
qed

text \<open>Insertion either refuses and changes nothing or puts the element somewhere into its list.\<close>

definition inserted :: "kwq_queue_type \<Rightarrow> kwe_ref \<Rightarrow> ksyn \<Rightarrow> ksyn \<Rightarrow> bool" where
  "inserted kqi e s s' \<longleftrightarrow>
     (\<exists>as bs. elements kqi s = as @ bs \<and> elements kqi s' = as @ e # bs) \<and>
     (\<forall>k. k \<noteq> kqi \<longrightarrow> queue_of k s' = queue_of k s) \<and>
     ksynq_count (queue_of kqi s') = Suc (ksynq_count (queue_of kqi s)) \<and>
     kw_inqueue (kn_kwq s') = Suc (kw_inqueue (kn_kwq s)) \<and> rest_of (kn_kwq s') = rest_of (kn_kwq s) \<and>
     kn_kwe s' = (kn_kwe s)(e := (kn_kwe s e)\<lparr>kwe_kwqqueue := Some (self_of s)\<rparr>) \<and>
     kn_wait s' = kn_wait s \<and> kn_zone s' = kn_zone s \<and> kn_refs s' = kn_refs s"

lemma insert_cases [consumes 1, case_names refused inserted]:
  assumes "ksyn_queue_insert kqi e g ff s = Inr (r, s')"
  obtains "r \<noteq> 0" "s' = s" | "r = 0" "kwe_kwqqueue (kn_kwe s e) = None" "inserted kqi e s s'"
proof (cases "r = 0")
  case False
  with assms have "s' = s" by (auto simp: ksyn_queue_insert_def Let_def split: if_splits prod.splits)
  with False that show thesis by blast
next
  case True
  obtain kq where p: "queue_place (kn_kwe s) e (g AND PTHRW_COUNT_MASK) ff (queue_of kqi s) = (0, kq)"
    using assms True by (auto simp: ksyn_queue_insert_def Let_def split: if_splits prod.splits)
  with assms have n: "kwe_kwqqueue (kn_kwe s e) = None"
    and s': "s' = with_kwq (\<lambda>q. update_low_high (g AND PTHRW_COUNT_MASK)
        ((with_queue kqi (\<lambda>_. kq\<lparr>ksynq_count := ksynq_count kq + 1\<rparr>) q)\<lparr>kw_inqueue := kw_inqueue q + 1\<rparr>))
      (with_kwe e (\<lambda>k. k\<lparr>kwe_kwqqueue := Some (self_of s)\<rparr>) s)"
    by (auto simp: ksyn_queue_insert_def Let_def split: if_splits)
  have "inserted kqi e s s'"
    using queue_place_list [OF p] by (simp add: inserted_def s')
  with True n that show thesis by blast
qed

definition removed :: "kwq_queue_type \<Rightarrow> kwe_ref \<Rightarrow> ksyn \<Rightarrow> ksyn \<Rightarrow> bool" where
  "removed kqi e s s' \<longleftrightarrow>
     elements kqi s' = remove1 e (elements kqi s) \<and>
     (\<forall>k. k \<noteq> kqi \<longrightarrow> queue_of k s' = queue_of k s) \<and>
     ksynq_count (queue_of kqi s') = ksynq_count (queue_of kqi s) - 1 \<and>
     kw_inqueue (kn_kwq s') = kw_inqueue (kn_kwq s) - 1 \<and> rest_of (kn_kwq s') = rest_of (kn_kwq s) \<and>
     kn_kwe s' = (kn_kwe s)(e := (kn_kwe s e)\<lparr>kwe_kwqqueue := None\<rparr>) \<and>
     kn_wait s' = kn_wait s \<and> kn_zone s' = kn_zone s \<and> kn_refs s' = kn_refs s"

lemma remove_removes:
  assumes "ksyn_queue_remove_item kqi e s = Inr s'"
  shows "removed kqi e s s'"
  using assms
  by (auto simp: ksyn_queue_remove_item_def removed_def queue_unlink_def Let_def split: if_splits)

text \<open>In a well-formed state removal of a queued element does not fail.\<close>

lemma remove_works:
  assumes "lists_ok s" "e \<in> set (elements kqi s)"
  shows "\<exists>s'. ksyn_queue_remove_item kqi e s = Inr s'"
proof -
  have "ksynq_count (queue_of kqi s) = length (elements kqi s)" "kwe_kwqqueue (kn_kwe s e) = Some (self_of s)"
    using assms by (auto simp: lists_ok_def queued_def)
  with assms(2) show ?thesis by (auto simp: ksyn_queue_remove_item_def Let_def)
qed

text \<open>An element has left its list and the thread in it, if any, is not blocked any more.\<close>

definition dropped :: "kwq_queue_type \<Rightarrow> kwe_ref \<Rightarrow> ksyn \<Rightarrow> ksyn \<Rightarrow> bool" where
  "dropped kqi e s s' \<longleftrightarrow>
     elements kqi s' = remove1 e (elements kqi s) \<and>
     (\<forall>k. k \<noteq> kqi \<longrightarrow> elements k s' = elements k s \<and> ksynq_count (queue_of k s') = ksynq_count (queue_of k s)) \<and>
     ksynq_count (queue_of kqi s') = ksynq_count (queue_of kqi s) - 1 \<and>
     kw_inqueue (kn_kwq s') = kw_inqueue (kn_kwq s) - 1 \<and>
     self_of s' = self_of s \<and> kw_type (kn_kwq s') = kw_type (kn_kwq s) \<and>
     (\<forall>x. x \<noteq> e \<longrightarrow> kn_kwe s' x = kn_kwe s x) \<and> kwe_kwqqueue (kn_kwe s' e) = None \<and>
     (\<forall>t. Uukwe t \<noteq> e \<longrightarrow> kn_wait s' t = kn_wait s t) \<and>
     (\<forall>t k. Uukwe t = e \<longrightarrow> kn_wait s' t \<noteq> Blocked (self_of s) k) \<and>
     kw_fakecount (kn_kwq s') = kw_fakecount (kn_kwq s) - of_bool (is_fake e) \<and>
     (\<forall>a. Zalloc a \<noteq> e \<longrightarrow> a \<in> set (kn_zone s) \<longrightarrow> a \<in> set (kn_zone s'))"

lemma dropped_elements:
  assumes "dropped kqi e s s'"
  shows "elements k s' = (if k = kqi then remove1 e (elements k s) else elements k s)"
    "ksynq_count (queue_of k s') = ksynq_count (queue_of k s) - of_bool (k = kqi)"
  using assms by (auto simp: dropped_def)

lemma lists_ok_distinct:
  assumes "lists_ok s"
  shows "distinct (elements k s)" "e \<in> set (elements k s) \<Longrightarrow> e \<in> set (elements j s) \<Longrightarrow> k = j"
  using assms by (cases k; cases j; auto simp: lists_ok_def)+

lemma lists_ok_back:
  "lists_ok s \<Longrightarrow> e \<in> set (elements k s) \<Longrightarrow> kwe_kwqqueue (kn_kwe s e) = Some (self_of s)"
  unfolding lists_ok_def queued_def by blast

lemma lists_ok_linked:
  "lists_ok s \<Longrightarrow> kwe_kwqqueue (kn_kwe s e) = Some (self_of s) \<Longrightarrow> \<exists>k. e \<in> set (elements k s)"
  unfolding lists_ok_def queued_def by blast

lemma dropped_members:
  assumes "lists_ok s" "e \<in> set (elements kqi s)" "dropped kqi e s s'"
  shows "x \<in> set (elements k s') \<longleftrightarrow> x \<in> set (elements k s) \<and> x \<noteq> e"
  using lists_ok_distinct [OF assms(1)] assms(2)
  by (auto simp: dropped_elements(1) [OF assms(3)] set_remove1_eq)

lemma dropped_lists_ok:
  assumes "lists_ok s" "e \<in> set (elements kqi s)" "dropped kqi e s s'"
  shows "lists_ok s'"
proof -
  note d = dropped_elements [OF assms(3)]
  have ne: "elements kqi s \<noteq> []" using assms(2) by auto
  have q: "queued s' x \<longleftrightarrow> queued s x \<and> x \<noteq> e" for x
    by (auto simp: queued_def dropped_members [OF assms])
  have "kwe_kwqqueue (kn_kwe s' x) = Some (self_of s') \<longleftrightarrow> queued s' x" for x
    using assms(1,3) q by (cases "x = e") (simp_all add: dropped_def lists_ok_def)
  moreover have "distinct (elements KSYN_QUEUE_READ s' @ elements KSYN_QUEUE_WRITE s')"
    using assms(1) by (auto simp: d(1) lists_ok_def dest: notin_set_remove1)
  moreover have "ksynq_count (queue_of k s') = length (elements k s')" for k
    using assms(1,2) by (simp add: d lists_ok_def length_remove1)
  moreover have "kw_inqueue (kn_kwq s') = length (elements KSYN_QUEUE_READ s') + length (elements KSYN_QUEUE_WRITE s')"
    using assms ne by (cases kqi) (auto simp: d(1) dropped_def lists_ok_def length_remove1 neq_Nil_conv)
  ultimately show ?thesis by (simp add: lists_ok_def)
qed

lemma dropped_waits_ok:
  assumes "ksyn_ok s" "e \<in> set (elements kqi s)" "dropped kqi e s s'"
  shows "waits_ok s'"
proof -
  have l: "lists_ok s" and w: "waits_ok s" using assms(1) by (simp_all add: ksyn_ok_def)
  note d = dropped_elements(1) [OF assms(3)]
  show ?thesis
    unfolding waits_ok_def
  proof (intro allI)
    fix t k
    show "(kn_wait s' t = Blocked (self_of s') k \<longrightarrow> Uukwe t \<in> set (elements k s')) \<and>
        (Uukwe t \<in> set (elements k s') \<longrightarrow>
           kn_wait s' t = Blocked (self_of s') k \<or> kn_wait s' t = Unblocked (self_of s') k THREAD_TIMED_OUT \<or>
           kn_wait s' t = Unblocked (self_of s') k THREAD_INTERRUPTED)"
    proof (cases "Uukwe t = e")
      case True
      then have "Uukwe t \<notin> set (elements k s')" by (simp add: dropped_members [OF l assms(2,3)])
      with True assms(3) show ?thesis by (auto simp: dropped_def)
    next
      case False
      then have "kn_wait s' t = kn_wait s t" "self_of s' = self_of s"
        "Uukwe t \<in> set (elements k s') \<longleftrightarrow> Uukwe t \<in> set (elements k s)"
        using assms(3) by (auto simp: dropped_def dropped_members [OF l assms(2,3)])
      with w show ?thesis by (simp add: waits_ok_def)
    qed
  qed
qed

lemma element_ok_cong:
  "kn_kwe s' e = kn_kwe s e \<Longrightarrow> kw_type (kn_kwq s') = kw_type (kn_kwq s) \<Longrightarrow>
   (\<And>a. e = Zalloc a \<Longrightarrow> a \<in> set (kn_zone s) \<Longrightarrow> a \<in> set (kn_zone s')) \<Longrightarrow>
   element_ok s kqi e \<Longrightarrow> element_ok s' kqi e"
  by (auto simp: element_ok_def split: kwe_ref.splits)

lemma dropped_ok:
  assumes "ksyn_ok s" "e \<in> set (elements kqi s)" "dropped kqi e s s'"
  shows "ksyn_ok s'"
proof -
  have l: "lists_ok s" using assms(1) by (simp add: ksyn_ok_def)
  note d = dropped_elements(1) [OF assms(3)]
  have "element_ok s' k x" if "x \<in> set (elements k s')" for k x
  proof -
    have x: "x \<in> set (elements k s)" "x \<noteq> e" using that by (simp_all add: dropped_members [OF l assms(2,3)])
    with assms(1) have "element_ok s k x" by (simp add: ksyn_ok_def)
    with x assms(3) show ?thesis by (auto simp: dropped_def intro: element_ok_cong)
  qed
  moreover have "fakes s' \<le> kw_fakecount (kn_kwq s')"
  proof (cases "kqi = KSYN_QUEUE_WRITE")
    case True
    have "count_if is_fake (remove1 e (elements KSYN_QUEUE_WRITE s)) + of_bool (is_fake e) = fakes s"
      using True assms(2) by (simp add: fakes_def count_if_remove1)
    with True assms show ?thesis by (auto simp: fakes_def d dropped_def ksyn_ok_def)
  next
    case False
    have "element_ok s kqi e" using assms(1,2) by (simp add: ksyn_ok_def)
    with False have "\<not> is_fake e" by (cases e) (auto simp: element_ok_def)
    with False assms show ?thesis by (auto simp: fakes_def d dropped_def ksyn_ok_def)
  qed
  moreover have "links_ok s'"
    unfolding links_ok_def
  proof (intro allI impI)
    fix t k r
    assume "kn_wait s' t = Unblocked (self_of s') k r"
    with assms(1,3) show "kwe_kwqqueue (kn_kwe s' (Uukwe t)) \<in> {None, Some (self_of s')}"
      by (cases "Uukwe t = e") (simp_all add: dropped_def ksyn_ok_def links_ok_def)
  qed
  ultimately show ?thesis
    using dropped_lists_ok [OF l assms(2,3)] dropped_waits_ok [OF assms] by (simp add: ksyn_ok_def)
qed


section \<open>Signals, waits and fakes\<close>

text \<open>A signal takes the thread out of the queue and wakes it if it is still blocked.\<close>

definition signalled :: "kwq_queue_type \<Rightarrow> ptr \<Rightarrow> u32 \<Rightarrow> bool \<Rightarrow> ksyn \<Rightarrow> ksyn \<Rightarrow> bool" where
  "signalled kqi t v b s s' \<longleftrightarrow>
     elements kqi s' = remove1 (Uukwe t) (elements kqi s) \<and>
     (\<forall>k. k \<noteq> kqi \<longrightarrow> queue_of k s' = queue_of k s) \<and>
     ksynq_count (queue_of kqi s') = ksynq_count (queue_of kqi s) - 1 \<and>
     kw_inqueue (kn_kwq s') = kw_inqueue (kn_kwq s) - 1 \<and> rest_of (kn_kwq s') = rest_of (kn_kwq s) \<and>
     kn_kwe s' = (kn_kwe s)(Uukwe t := (kn_kwe s (Uukwe t))\<lparr>kwe_kwqqueue := None, kwe_psynchretval := v\<rparr>) \<and>
     b = (kn_wait s t = Blocked (self_of s) kqi) \<and>
     kn_wait s' = (if b then (kn_wait s)(t := Unblocked (self_of s) kqi THREAD_AWAKENED) else kn_wait s) \<and>
     kn_zone s' = kn_zone s \<and> kn_refs s' = kn_refs s"

lemma signal_works:
  assumes "ksyn_ok s" "Uukwe t \<in> set (elements kqi s)"
  shows "\<exists>b s'. ksyn_signal kqi (Some (Uukwe t)) v s = Inr (b, s') \<and> signalled kqi t v b s s'"
proof -
  have ok: "lists_ok s" "element_ok s kqi (Uukwe t)" "waits_ok s" using assms by (auto simp: ksyn_ok_def)
  obtain r where r: "ksyn_queue_remove_item kqi (Uukwe t) s = Inr r"
    using remove_works [OF ok(1) assms(2)] by blast
  have q: "removed kqi (Uukwe t) s r" by (rule remove_removes [OF r])
  have w: "kn_wait r = kn_wait s" "self_of r = self_of s"
    using q by (auto simp: removed_def dest: rest_of_fields(1))
  have "kn_wait s t = Blocked (self_of s) kqi \<or> kn_wait s t = Unblocked (self_of s) kqi THREAD_TIMED_OUT \<or>
      kn_wait s t = Unblocked (self_of s) kqi THREAD_INTERRUPTED"
    using ok(3) assms(2) by (simp add: waits_ok_def)
  moreover have "state_of s (Uukwe t) = KWE_THREAD_INWAIT" using ok(2) by (simp add: element_ok_def)
  ultimately show ?thesis
    using q by (elim disjE; force simp: ksyn_signal_def r psynch_wait_wakeup_def w signalled_def removed_def)
qed

lemma signalled_dropped:
  assumes "ksyn_ok s" "Uukwe t \<in> set (elements kqi s)" "signalled kqi t v b s s'"
  shows "dropped kqi (Uukwe t) s s'"
proof -
  have nb: "j = kqi" if "kn_wait s t = Blocked (self_of s) j" for j
    using assms(1,2) that lists_ok_distinct(2) [of s "Uukwe t" kqi j] by (auto simp: ksyn_ok_def waits_ok_def)
  have "rest_of (kn_kwq s') = rest_of (kn_kwq s)" using assms(3) by (simp add: signalled_def)
  note r = rest_of_fields(1-3) [OF this]
  have "kn_wait s' t \<noteq> Blocked (self_of s) k" for k
    using assms(3) nb [of k] by (cases b) (auto simp: signalled_def)
  moreover have "kn_wait s' u = kn_wait s u" if "u \<noteq> t" for u
    using assms(3) that by (cases b) (simp_all add: signalled_def)
  ultimately show ?thesis
    using assms(3) by (simp add: dropped_def signalled_def r)
qed

lemma signalled_rest:
  assumes "signalled kqi t v b s s'"
  shows "rest_of (kn_kwq s') = rest_of (kn_kwq s)" "kn_zone s' = kn_zone s" "kn_refs s' = kn_refs s"
    "\<And>x. x \<noteq> Uukwe t \<Longrightarrow> kn_kwe s' x = kn_kwe s x" "\<And>u. u \<noteq> t \<Longrightarrow> kn_wait s' u = kn_wait s u"
    "elements kqi s' = remove1 (Uukwe t) (elements kqi s)" "\<And>k. k \<noteq> kqi \<Longrightarrow> queue_of k s' = queue_of k s"
  using assms by (auto simp: signalled_def)

lemma signalled_ok:
  "ksyn_ok s \<Longrightarrow> Uukwe t \<in> set (elements kqi s) \<Longrightarrow> signalled kqi t v b s s' \<Longrightarrow> ksyn_ok s'"
  using dropped_ok signalled_dropped by blast

text \<open>With no element named, the first one of the queue is signalled.\<close>

lemma signal_first:
  "elements kqi s = e # es \<Longrightarrow> ksyn_signal kqi None v s = ksyn_signal kqi (Some e) v s"
  by (simp add: ksyn_signal_def)


lemma inserted_elements:
  assumes "inserted kqi e s s'"
  shows "set (elements k s') = (if k = kqi then insert e (set (elements k s)) else set (elements k s))"
    "length (elements k s') = length (elements k s) + of_bool (k = kqi)"
    "ksynq_count (queue_of k s') = ksynq_count (queue_of k s) + of_bool (k = kqi)"
  using assms by (auto simp: inserted_def)

lemma inserted_lists_ok:
  assumes "lists_ok s" "kwe_kwqqueue (kn_kwe s e) = None" "inserted kqi e s s'"
  shows "lists_ok s'"
proof -
  note i = inserted_elements [OF assms(3)]
  have fresh: "e \<notin> set (elements k s)" for k
    using lists_ok_back [OF assms(1), of e k] assms(2) by auto
  have self: "self_of s' = self_of s" using assms(3) by (auto simp: inserted_def dest: rest_of_fields(1))
  obtain as bs where l: "elements kqi s = as @ bs" "elements kqi s' = as @ e # bs"
    using assms(3) by (auto simp: inserted_def)
  have "distinct (elements k s')" for k
  proof (cases "k = kqi")
    case True
    have "distinct (as @ bs)" "e \<notin> set (as @ bs)"
      using lists_ok_distinct(1) [OF assms(1), of kqi] fresh [of kqi] by (simp_all add: l)
    with True l show ?thesis by simp
  next
    case False
    with assms(3) have "queue_of k s' = queue_of k s" by (simp add: inserted_def)
    with lists_ok_distinct(1) [OF assms(1)] show ?thesis by simp
  qed
  moreover have "set (elements KSYN_QUEUE_READ s') \<inter> set (elements KSYN_QUEUE_WRITE s') = {}"
    using assms(1) fresh by (auto simp: i(1) lists_ok_def split: if_splits)
  moreover have "kwe_kwqqueue (kn_kwe s' x) = Some (self_of s') \<longleftrightarrow> queued s' x" for x
  proof (cases "x = e")
    case True
    with assms(3) show ?thesis by (auto simp: self queued_def i(1) inserted_def)
  next
    case False
    then have "kn_kwe s' x = kn_kwe s x" "queued s' x = queued s x"
      using assms(3) by (auto simp: queued_def i(1) inserted_def)
    with assms(1) show ?thesis by (simp add: self lists_ok_def)
  qed
  ultimately show ?thesis
    using assms(1,3) by (cases kqi) (simp_all add: lists_ok_def i inserted_def)
qed

lemma lists_ok_cong:
  assumes "lists_ok s" "kw_ksynqueues (kn_kwq s') = kw_ksynqueues (kn_kwq s)"
    "kw_inqueue (kn_kwq s') = kw_inqueue (kn_kwq s)" "self_of s' = self_of s"
    "\<And>e. kwe_kwqqueue (kn_kwe s' e) = Some (self_of s) \<longleftrightarrow> kwe_kwqqueue (kn_kwe s e) = Some (self_of s)"
  shows "lists_ok s'"
  using assms by (simp add: lists_ok_def queued_def)

lemma waits_ok_cong:
  "waits_ok s \<Longrightarrow> kw_ksynqueues (kn_kwq s') = kw_ksynqueues (kn_kwq s) \<Longrightarrow> self_of s' = self_of s \<Longrightarrow>
   kn_wait s' = kn_wait s \<Longrightarrow> waits_ok s'"
  by (simp add: waits_ok_def)

text \<open>Writing an element that is not in the queue, and fields that do not matter.\<close>

lemma ksyn_ok_cong:
  assumes "ksyn_ok s" "kw_ksynqueues (kn_kwq s') = kw_ksynqueues (kn_kwq s)"
    "kw_inqueue (kn_kwq s') = kw_inqueue (kn_kwq s)" "self_of s' = self_of s"
    "kw_type (kn_kwq s') = kw_type (kn_kwq s)" "kw_fakecount (kn_kwq s) \<le> kw_fakecount (kn_kwq s')"
    "\<And>e. queued s e \<Longrightarrow> kn_kwe s' e = kn_kwe s e"
    "\<And>e. \<not> queued s e \<Longrightarrow> kn_kwe s' e = kn_kwe s e \<or> kwe_kwqqueue (kn_kwe s' e) = None"
    "kn_wait s' = kn_wait s" "set (kn_zone s) \<subseteq> set (kn_zone s')"
  shows "ksyn_ok s'"
proof -
  have l: "lists_ok s" "waits_ok s" using assms(1) by (simp_all add: ksyn_ok_def)
  have link: "kwe_kwqqueue (kn_kwe s' e) = kwe_kwqqueue (kn_kwe s e) \<or>
      kwe_kwqqueue (kn_kwe s' e) = None \<and> kwe_kwqqueue (kn_kwe s e) \<noteq> Some (self_of s)" for e
  proof (cases "queued s e")
    case False
    with l(1) have "kwe_kwqqueue (kn_kwe s e) \<noteq> Some (self_of s)" by (simp add: lists_ok_def)
    with assms(8) [OF False] show ?thesis by auto
  qed (simp add: assms(7))
  have "lists_ok s'"
    by (rule lists_ok_cong [OF l(1)]) (use assms(2-4) link in \<open>simp_all, metis option.distinct(1)\<close>)
  moreover have "links_ok s'"
    unfolding links_ok_def
  proof (intro allI impI)
    fix t k r
    assume "kn_wait s' t = Unblocked (self_of s') k r"
    then have "kwe_kwqqueue (kn_kwe s (Uukwe t)) \<in> {None, Some (self_of s)}"
      using assms(1,4,9) by (simp add: ksyn_ok_def links_ok_def)
    with link [of "Uukwe t"] assms(4) show "kwe_kwqqueue (kn_kwe s' (Uukwe t)) \<in> {None, Some (self_of s')}"
      by auto
  qed
  moreover have "waits_ok s'" by (rule waits_ok_cong [OF l(2)]) (use assms in simp_all)
  moreover have "element_ok s' k e" if "e \<in> set (elements k s')" for k e
  proof -
    have e: "e \<in> set (elements k s)" using that assms(2) by simp
    then have "element_ok s k e" "kn_kwe s' e = kn_kwe s e"
      using assms(1,7) by (auto simp: ksyn_ok_def queued_def)
    with assms(5,10) show ?thesis by (auto intro: element_ok_cong)
  qed
  moreover have "fakes s' \<le> kw_fakecount (kn_kwq s')"
    using assms(1,2,6) by (simp add: fakes_def ksyn_ok_def)
  ultimately show ?thesis by (simp add: ksyn_ok_def)
qed

lemma ksyn_ok_waits:
  assumes "ksyn_ok s"
  shows "kn_wait s t = Blocked (self_of s) k \<Longrightarrow> Uukwe t \<in> set (elements k s)"
    "Uukwe t \<in> set (elements k s) \<Longrightarrow>
       kn_wait s t = Blocked (self_of s) k \<or> kn_wait s t = Unblocked (self_of s) k THREAD_TIMED_OUT \<or>
       kn_wait s t = Unblocked (self_of s) k THREAD_INTERRUPTED"
  using assms unfolding ksyn_ok_def waits_ok_def by blast+

lemma not_queued_on_cpu: "ksyn_ok s \<Longrightarrow> kn_wait s t = On_cpu \<Longrightarrow> \<not> queued s (Uukwe t)"
  unfolding queued_def using ksyn_ok_waits(2) by fastforce

lemma insert_no_panic:
  "kwe_kwqqueue (kn_kwe s e) = None \<Longrightarrow> \<exists>r s'. ksyn_queue_insert kqi e g ff s = Inr (r, s')"
  by (auto simp: ksyn_queue_insert_def Let_def split: prod.splits)

lemma inserted_ok:
  assumes "ksyn_ok s" "kwe_kwqqueue (kn_kwe s e) = None" "inserted kqi e s s1"
    "kw_ksynqueues (kn_kwq s') = kw_ksynqueues (kn_kwq s1)" "kw_inqueue (kn_kwq s') = kw_inqueue (kn_kwq s1)"
    "self_of s' = self_of s1" "kw_type (kn_kwq s') = kw_type (kn_kwq s1)" "kn_kwe s' = kn_kwe s1"
    "kn_zone s' = kn_zone s1" "kw_fakecount (kn_kwq s1) + of_bool (is_fake e) \<le> kw_fakecount (kn_kwq s')"
    "\<And>t. Uukwe t \<noteq> e \<Longrightarrow> kn_wait s' t = kn_wait s1 t"
    "\<And>t. Uukwe t = e \<Longrightarrow> kn_wait s' t = Blocked (self_of s) kqi" "element_ok s' kqi e"
  shows "ksyn_ok s'"
proof -
  have l: "lists_ok s" "waits_ok s" using assms(1) by (simp_all add: ksyn_ok_def)
  note i = inserted_elements [OF assms(3)]
  have "rest_of (kn_kwq s1) = rest_of (kn_kwq s)" using assms(3) by (simp add: inserted_def)
  note r = rest_of_fields(1-3) [OF this]
  have m: "set (elements k s') = (if k = kqi then insert e (set (elements k s)) else set (elements k s))" for k
    using i(1) assms(4) by simp
  have fresh: "e \<notin> set (elements k s)" for k using lists_ok_back [OF l(1), of e k] assms(2) by auto
  have "lists_ok s'"
    by (rule lists_ok_cong [OF inserted_lists_ok [OF l(1) assms(2,3)]]) (use assms in simp_all)
  moreover have "waits_ok s'"
    unfolding waits_ok_def
  proof (intro allI)
    fix t k
    show "(kn_wait s' t = Blocked (self_of s') k \<longrightarrow> Uukwe t \<in> set (elements k s')) \<and>
        (Uukwe t \<in> set (elements k s') \<longrightarrow>
           kn_wait s' t = Blocked (self_of s') k \<or> kn_wait s' t = Unblocked (self_of s') k THREAD_TIMED_OUT \<or>
           kn_wait s' t = Unblocked (self_of s') k THREAD_INTERRUPTED)"
    proof (cases "Uukwe t = e")
      case True
      then show ?thesis using fresh [of k] assms(6,12) r by (auto simp: m)
    next
      case False
      then have "kn_wait s' t = kn_wait s t" using assms(3,11) by (simp add: inserted_def)
      moreover have "Uukwe t \<in> set (elements k s') \<longleftrightarrow> Uukwe t \<in> set (elements k s)" using False by (simp add: m)
      moreover have "self_of s' = self_of s" using assms(6) r by simp
      ultimately show ?thesis using ksyn_ok_waits [OF assms(1), of t k] by simp
    qed
  qed
  moreover have "element_ok s' k x" if x: "x \<in> set (elements k s')" for k x
  proof (cases "x = e")
    case True
    with x fresh have "k = kqi" by (auto simp: m split: if_splits)
    with True assms(13) show ?thesis by simp
  next
    case False
    with x have "x \<in> set (elements k s)" by (auto simp: m split: if_splits)
    then have "element_ok s k x" using assms(1) by (simp add: ksyn_ok_def)
    moreover have "kn_kwe s' x = kn_kwe s x" "kn_zone s' = kn_zone s"
      using assms(3,8,9) False by (simp_all add: inserted_def)
    ultimately show ?thesis using element_ok_cong [of s' x s k] assms(7) r(2) by simp
  qed
  moreover have "fakes s' \<le> kw_fakecount (kn_kwq s')"
  proof -
    have "fakes s1 \<le> fakes s + of_bool (is_fake e)"
      using assms(3) by (cases "kqi = KSYN_QUEUE_WRITE") (auto simp: fakes_def inserted_def)
    with assms(1,4,10) r show ?thesis by (simp add: fakes_def ksyn_ok_def)
  qed
  moreover have "links_ok s'"
    unfolding links_ok_def
  proof (intro allI impI)
    fix t k v
    assume w: "kn_wait s' t = Unblocked (self_of s') k v"
    then have n: "Uukwe t \<noteq> e" using assms(12) [of t] by auto
    then have "kn_wait s t = Unblocked (self_of s) k v" "kn_kwe s' (Uukwe t) = kn_kwe s (Uukwe t)"
      using w assms(3,6,8,11) r by (simp_all add: inserted_def)
    with assms(1,6) r show "kwe_kwqqueue (kn_kwe s' (Uukwe t)) \<in> {None, Some (self_of s')}"
      by (simp add: ksyn_ok_def links_ok_def)
  qed
  ultimately show ?thesis by (simp add: ksyn_ok_def)
qed

text \<open>What \<open>ksyn_wait\<close> does to the state of a running thread.\<close>

lemma wait_works:
  assumes "ksyn_ok s" "kn_wait s th = On_cpu"
  obtains r s' where "ksyn_wait kqi th l ff s = Inr (r, s')" "ksyn_ok s'"
    "rest_of (kn_kwq s') = rest_of (kn_kwq s)" "kn_zone s' = kn_zone s" "kn_refs s' = kn_refs s"
    "kn_wait s' = (if r = None then (kn_wait s)(th := Blocked (self_of s) kqi) else kn_wait s)"
    "r \<noteq> None \<Longrightarrow> kn_kwq s' = kn_kwq s"
    "r = None \<Longrightarrow> set (elements kqi s') = insert (Uukwe th) (set (elements kqi s))"
    "\<And>k. k \<noteq> kqi \<Longrightarrow> queue_of k s' = queue_of k s"
proof -
  let ?k = "kwe_zero\<lparr>kwe_count := 1, kwe_lockseq := l AND PTHRW_COUNT_MASK, kwe_st := KWE_THREAD_INWAIT,
    kwe_thread := Some th\<rparr>"
  let ?s = "with_kwe (Uukwe th) (\<lambda>_. ?k) s"
  have nq: "\<not> queued s (Uukwe th)" by (rule not_queued_on_cpu [OF assms])
  have n: "kwe_kwqqueue (kn_kwe ?s (Uukwe th)) = None" by (simp add: kwe_zero_def)
  have ok: "ksyn_ok ?s"
    by (rule ksyn_ok_cong [OF assms(1)]) (use nq in \<open>auto simp: kwe_zero_def\<close>)
  obtain r s1 where i: "ksyn_queue_insert kqi (Uukwe th) l ff ?s = Inr (r, s1)"
    using insert_no_panic [OF n] by blast
  from i show thesis
  proof (cases rule: insert_cases)
    case refused
    with i have "ksyn_wait kqi th l ff s = Inr (Some r, ?s)" by (simp add: ksyn_wait_def Let_def)
    then show thesis by (rule that) (use ok in simp_all)
  next
    case inserted
    let ?t = "s1\<lparr>kn_wait := (kn_wait s1)(th := Blocked (self_of s1) kqi)\<rparr>"
    have w: "ksyn_wait kqi th l ff s = Inr (None, ?t)" using i inserted(1) by (simp add: ksyn_wait_def Let_def)
    have "rest_of (kn_kwq s1) = rest_of (kn_kwq s)" using inserted(3) by (simp add: inserted_def)
    note f = rest_of_fields(1-3) [OF this]
    have e: "element_ok ?t kqi (Uukwe th)"
      using inserted(3) by (simp add: element_ok_def inserted_def kwe_zero_def and.assoc)
    have "ksyn_ok ?t"
      by (rule inserted_ok [OF ok n inserted(3)]) (use f e in simp_all)
    with w show thesis
      by (rule that) (use inserted(3) f inserted_elements(1) [OF inserted(3)] in \<open>simp_all add: inserted_def\<close>)
  qed
qed

text \<open>A thread whose wait is over leaves the queue it may still be in.\<close>

abbreviation running :: "ptr \<Rightarrow> ksyn \<Rightarrow> ksyn" where
  "running th s \<equiv> s\<lparr>kn_wait := (kn_wait s)(th := On_cpu)\<rparr>"

lemma leave_works:
  assumes "ksyn_ok s" "Uukwe th \<in> set (elements kqi s)"
  shows "\<exists>r. ksyn_queue_remove_item kqi (Uukwe th) (running th s) = Inr r \<and> ksyn_ok r \<and>
    removed kqi (Uukwe th) (running th s) r"
proof -
  have "lists_ok (running th s)"
    by (rule lists_ok_cong [of s]) (use assms(1) in \<open>simp_all add: ksyn_ok_def\<close>)
  then obtain r where r: "ksyn_queue_remove_item kqi (Uukwe th) (running th s) = Inr r"
    using remove_works [of "running th s" "Uukwe th" kqi] assms(2) by auto
  have m: "removed kqi (Uukwe th) (running th s) r" by (rule remove_removes [OF r])
  then have "rest_of (kn_kwq r) = rest_of (kn_kwq s)" by (simp add: removed_def)
  note f = rest_of_fields [OF this]
  have "dropped kqi (Uukwe th) s r" using m f by (simp add: dropped_def removed_def)
  then have "ksyn_ok r" by (rule dropped_ok [OF assms])
  with r m show ?thesis by blast
qed

lemma not_queued_running:
  assumes "ksyn_ok s" "\<not> queued s (Uukwe th)"
  shows "ksyn_ok (running th s)"
proof -
  have "waits_ok (running th s)"
    unfolding waits_ok_def
  proof (intro allI)
    fix t k
    show "(kn_wait (running th s) t = Blocked (self_of (running th s)) k \<longrightarrow> Uukwe t \<in> set (elements k (running th s))) \<and>
       (Uukwe t \<in> set (elements k (running th s)) \<longrightarrow>
        kn_wait (running th s) t = Blocked (self_of (running th s)) k \<or>
        kn_wait (running th s) t = Unblocked (self_of (running th s)) k THREAD_TIMED_OUT \<or>
        kn_wait (running th s) t = Unblocked (self_of (running th s)) k THREAD_INTERRUPTED)"
      using assms(2) ksyn_ok_waits [OF assms(1), of t k] by (cases "t = th") (auto simp: queued_def)
  qed
  moreover have "lists_ok (running th s)"
    by (rule lists_ok_cong [of s]) (use assms(1) in \<open>simp_all add: ksyn_ok_def\<close>)
  moreover have "links_ok (running th s)"
    using assms(1) by (auto simp: ksyn_ok_def links_ok_def)
  moreover have "element_ok (running th s) k e = element_ok s k e" for k e
    by (cases e) (simp_all add: element_ok_def)
  ultimately show ?thesis
    using assms(1) by (simp add: ksyn_ok_def fakes_def)
qed

lemma not_queued_unlinked:
  assumes "ksyn_ok s" "\<not> queued s (Uukwe th)" "kn_wait s th = Unblocked (self_of s) k w"
  shows "kwe_kwqqueue (kn_kwe s (Uukwe th)) = None"
proof -
  have "lists_ok s" "links_ok s" using assms(1) by (simp_all add: ksyn_ok_def)
  then have "kwe_kwqqueue (kn_kwe s (Uukwe th)) \<noteq> Some (self_of s)"
    "kwe_kwqqueue (kn_kwe s (Uukwe th)) \<in> {None, Some (self_of s)}"
    using assms(2,3) unfolding lists_ok_def links_ok_def by blast+
  then show ?thesis by simp
qed

lemma ended_ok:
  assumes "ksyn_ok s" "kn_wait s t = Blocked (self_of s) k" "w \<noteq> THREAD_AWAKENED"
  shows "ksyn_ok (s\<lparr>kn_wait := (kn_wait s)(t := Unblocked (self_of s) k w)\<rparr>)"
proof -
  let ?s = "s\<lparr>kn_wait := (kn_wait s)(t := Unblocked (self_of s) k w)\<rparr>"
  have m: "Uukwe t \<in> set (elements k s)" by (rule ksyn_ok_waits(1) [OF assms(1,2)])
  have w: "w = THREAD_TIMED_OUT \<or> w = THREAD_INTERRUPTED" using assms(3) by (cases w) simp_all
  have l: "lists_ok s" "links_ok s" using assms(1) by (simp_all add: ksyn_ok_def)
  have k: "k' = k" if "Uukwe t \<in> set (elements k' s)" for k'
    using ksyn_ok_waits(2) [OF assms(1) that] assms(2) by auto
  have "waits_ok ?s"
    unfolding waits_ok_def
  proof (intro allI)
    fix u k'
    show "(kn_wait ?s u = Blocked (self_of ?s) k' \<longrightarrow> Uukwe u \<in> set (elements k' ?s)) \<and>
        (Uukwe u \<in> set (elements k' ?s) \<longrightarrow>
           kn_wait ?s u = Blocked (self_of ?s) k' \<or> kn_wait ?s u = Unblocked (self_of ?s) k' THREAD_TIMED_OUT \<or>
           kn_wait ?s u = Unblocked (self_of ?s) k' THREAD_INTERRUPTED)"
      using ksyn_ok_waits [OF assms(1), of u k'] w k [of k'] by (cases "u = t") auto
  qed
  moreover have "links_ok ?s" using l(2) lists_ok_back [OF l(1) m] by (auto simp: links_ok_def)
  moreover have "lists_ok ?s" by (rule lists_ok_cong [OF l(1)]) simp_all
  moreover have "element_ok ?s kqi e = element_ok s kqi e" "fakes ?s = fakes s" for kqi e
    by (simp_all add: element_ok_def fakes_def cong: kwe_ref.case_cong)
  ultimately show ?thesis using assms(1) by (simp add: ksyn_ok_def)
qed

section \<open>Threads and their waits\<close>

text \<open>Nothing happened to the waiting threads but that some were woken.\<close>

definition woke :: "ksyn \<Rightarrow> ksyn \<Rightarrow> bool" where
  "woke s r \<longleftrightarrow> self_of r = self_of s \<and>
     (\<forall>u. kn_wait r u = kn_wait s u \<or> (\<exists>k. kn_wait s u = Blocked (self_of s) k \<and>
        kn_wait r u = Unblocked (self_of s) k THREAD_AWAKENED))"

lemma woke_at:
  "woke s r \<Longrightarrow> kn_wait r u = kn_wait s u \<or> (\<exists>k. kn_wait s u = Blocked (self_of s) k \<and>
     kn_wait r u = Unblocked (self_of s) k THREAD_AWAKENED)"
  by (simp add: woke_def)

lemma woke_trans:
  assumes "woke s r" "woke r w"
  shows "woke s w"
proof -
  have "self_of r = self_of s" "self_of w = self_of r" using assms by (simp_all add: woke_def)
  moreover have "kn_wait w u = kn_wait s u \<or> (\<exists>k. kn_wait s u = Blocked (self_of s) k \<and>
        kn_wait w u = Unblocked (self_of s) k THREAD_AWAKENED)" for u
    using woke_at [OF assms(1), of u] woke_at [OF assms(2), of u] calculation by auto
  ultimately show ?thesis by (simp add: woke_def)
qed

lemma woke_refl [simp]: "self_of r = self_of s \<Longrightarrow> kn_wait r = kn_wait s \<Longrightarrow> woke s r"
  by (simp add: woke_def)

lemma signalled_woke:
  assumes "signalled kqi t v b s r"
  shows "woke s r"
proof -
  have "b = (kn_wait s t = Blocked (self_of s) kqi)"
    "kn_wait r = (if b then (kn_wait s)(t := Unblocked (self_of s) kqi THREAD_AWAKENED) else kn_wait s)"
    using assms by (simp_all add: signalled_def)
  then show ?thesis using rest_of_fields(1) [OF signalled_rest(1) [OF assms]] by (simp add: woke_def)
qed

text \<open>
  \<open>agree B s\<close>: the threads that called, as \<open>B\<close> says, and block in a queue are those that wait in it or have
  not yet continued after their wait.
\<close>

definition waits_as :: "ptr \<Rightarrow> kwq_queue_type option \<Rightarrow> th_wait \<Rightarrow> bool" where
  "waits_as q k w =
     (case k of None \<Rightarrow> w = On_cpu | Some k \<Rightarrow> w = Blocked q k \<or> (\<exists>r. w = Unblocked q k r))"

lemma waits_as_simps [simp]:
  "waits_as q None w \<longleftrightarrow> w = On_cpu" "waits_as q k On_cpu \<longleftrightarrow> k = None" "waits_as q k (Blocked p j) \<longleftrightarrow> k = Some j \<and> q = p"
  "waits_as q k (Unblocked p j r) \<longleftrightarrow> k = Some j \<and> q = p"
  by (auto simp: waits_as_def split: option.splits)

definition agree :: "(ptr \<Rightarrow> kwq_queue_type option) \<Rightarrow> ksyn \<Rightarrow> bool" where
  "agree B s \<longleftrightarrow> (\<forall>t. waits_as (self_of s) (B t) (kn_wait s t))"

lemma agree_at:
  assumes "agree B s"
  shows "B t = None \<Longrightarrow> kn_wait s t = On_cpu"
    "B t = Some k \<Longrightarrow> kn_wait s t = Blocked (self_of s) k \<or> (\<exists>r. kn_wait s t = Unblocked (self_of s) k r)"
    "kn_wait s t = Blocked q k \<Longrightarrow> B t = Some k \<and> q = self_of s"
    "kn_wait s t = Unblocked q k r \<Longrightarrow> B t = Some k \<and> q = self_of s"
  using assms [unfolded agree_def, rule_format, of t] by (auto simp: waits_as_def split: option.splits)

lemma agree_woke:
  assumes "agree B s" "woke s r"
  shows "agree B r"
proof -
  have s: "self_of r = self_of s" using assms(2) by (simp add: woke_def)
  have "waits_as (self_of s) (B t) (kn_wait r t)" for t
    using assms(1) [unfolded agree_def, rule_format, of t] woke_at [OF assms(2), of t] by auto
  then show ?thesis by (simp add: agree_def s)
qed

lemma agree_moved:
  "agree B s \<Longrightarrow> self_of r = self_of s \<Longrightarrow> kn_wait r = (kn_wait s)(t := w) \<Longrightarrow> waits_as (self_of s) k w \<Longrightarrow>
   agree (B(t := k)) r"
  by (simp add: agree_def)

lemma agree_ended:
  assumes "agree B s" "kn_wait s t = Blocked q k"
  shows "agree B (s\<lparr>kn_wait := (kn_wait s)(t := Unblocked q k w)\<rparr>)"
  using assms(1) agree_at(3) [OF assms] by (simp add: agree_def)

end
