(* ===== verification/PsynchMutex.thy ===== *)
theory PsynchMutex
  imports KsynQueue
begin

text \<open>
  Contended pthread mutexes (src/duct-tape/pthread/kern_synch.c): \<open>psynch_mutexwait\<close>,
  \<open>psynch_mutexdrop\<close> and the continuation of a waiting thread. Each function is a section under
  the lock of the wait queue; where the code drops the lock and starts again, the section ends
  with an answer that says so, and other threads may come in between.
\<close>

unbundle bit_operations_syntax

section \<open>Pending wake-ups and owners\<close>

definition kwq_clear_preposted_wakeup :: "ksyn_wait_queue \<Rightarrow> ksyn_wait_queue" where
  "kwq_clear_preposted_wakeup q =
     q\<lparr>kw_prepost_lseq := 0, kw_prepost_sseq := PTHRW_RWS_INIT, kw_prepost_count := 0\<rparr>"

definition kwq_mark_preposted_wakeup :: "nat \<Rightarrow> u32 \<Rightarrow> u32 \<Rightarrow> ksyn_wait_queue \<Rightarrow> ksyn_wait_queue" where
  "kwq_mark_preposted_wakeup n lseq sseq q =
     q\<lparr>kw_prepost_count := n, kw_prepost_lseq := lseq, kw_prepost_sseq := sseq\<rparr>"

definition kwq_clear_interrupted_wakeup :: "ksyn_wait_queue \<Rightarrow> ksyn_wait_queue" where
  "kwq_clear_interrupted_wakeup q =
     q\<lparr>kw_intr_type := KWQ_INTR_NONE, kw_intr_count := 0, kw_intr_seq := 0, kw_intr_returnbits := 0\<rparr>"

definition kwq_mark_interruped_wakeup ::
  "u32 \<Rightarrow> nat \<Rightarrow> u32 \<Rightarrow> u32 \<Rightarrow> ksyn_wait_queue \<Rightarrow> ksyn_wait_queue" where
  "kwq_mark_interruped_wakeup type n lseq returnbits q =
     q\<lparr>kw_intr_count := n, kw_intr_seq := lseq, kw_intr_returnbits := returnbits, kw_intr_type := type\<rparr>"

definition kwq_handle_interrupted_wakeup ::
  "u32 \<Rightarrow> u32 \<Rightarrow> ksyn_wait_queue \<Rightarrow> u32 option \<times> ksyn_wait_queue" where
  "kwq_handle_interrupted_wakeup type lseq q =
     (if kw_intr_count q \<noteq> 0 \<and> kw_intr_type q = type \<and>
         (kw_intr_seq q = 0 \<or> is_seqlower_eq lseq (kw_intr_seq q)) then
        (let q = q\<lparr>kw_intr_count := kw_intr_count q - 1\<rparr> in
         (Some (kw_intr_returnbits q),
          if kw_intr_returnbits q = 0 then kwq_clear_interrupted_wakeup q else q))
      else (None, q))"

definition kwq_is_used :: "ksyn_wait_queue \<Rightarrow> bool" where
  "kwq_is_used q \<longleftrightarrow> kw_inqueue q \<noteq> 0 \<or> kw_prepost_count q \<noteq> 0 \<or> kw_intr_count q \<noteq> 0"

text \<open>The owner of a queue is referenced; the old owner comes back with its reference.\<close>

definition kwq_set_owner :: "ptr option \<Rightarrow> bool \<Rightarrow> ksyn \<Rightarrow> ptr option \<times> ksyn" where
  "kwq_set_owner new_owner transfer_ref s =
     (let old_owner = kw_owner (kn_kwq s) in
      if old_owner = new_owner then (if transfer_ref then new_owner else None, s)
      else (old_owner,
            with_kwq (\<lambda>q. q\<lparr>kw_owner := new_owner\<rparr>)
              (if transfer_ref then s else s\<lparr>kn_refs := opt_list new_owner @ kn_refs s\<rparr>)))"

definition kwq_clear_owner :: "ksyn \<Rightarrow> ptr option \<times> ksyn" where
  "kwq_clear_owner s = kwq_set_owner None True s"

definition kwq_cleanup_old_owner :: "ptr option \<Rightarrow> ksyn \<Rightarrow> ksyn" where
  "kwq_cleanup_old_owner thread s =
     (case thread of None \<Rightarrow> s | Some t \<Rightarrow> s\<lparr>kn_refs := remove1 t (kn_refs s)\<rparr>)"

section \<open>Unlocking\<close>

text \<open>The thread in the element becomes the owner, unless it had stopped waiting.\<close>

definition ksyn_mtxsignal :: "kwe_ref option \<Rightarrow> u32 \<Rightarrow> ksyn \<Rightarrow> (bool \<times> ptr option \<times> ksyn) result" where
  "ksyn_mtxsignal kwe updateval s =
     (case (case kwe of Some e \<Rightarrow> [e] | None \<Rightarrow> elements KSYN_QUEUE_WRITE s) of
        [] \<Rightarrow> Inl (Panic ''ksyn_mtxsignal: panic signaling empty queue'')
      | e # _ \<Rightarrow>
          (case ksyn_signal KSYN_QUEUE_WRITE (Some e) updateval s of
             Inl x \<Rightarrow> Inl x
           | Inr (success, s) \<Rightarrow>
               Inr (success, if success then kwq_set_owner (kwe_thread (kn_kwe s e)) False s
                             else kwq_clear_owner s)))"

definition drop_bits :: "ksyn \<Rightarrow> u32" where
  "drop_bits s = (kw_highseq (kn_kwq s) AND PTHRW_COUNT_MASK) OR (PTH_RWL_EBIT OR PTH_RWL_KBIT)"

text \<open>First fit: the answer is whether the code starts again, having dropped the lock.\<close>

definition mutexdrop_firstfit :: "u32 \<Rightarrow> ksyn \<Rightarrow> (bool \<times> ksyn) result" where
  "mutexdrop_firstfit mgen s =
     (if kw_inqueue (kn_kwq s) = 0 then
        (let s = with_kwq (\<lambda>q. kwq_mark_preposted_wakeup (kw_prepost_count q + 1)
                   (mgen AND PTHRW_COUNT_MASK) 0 q) s;
             (old_owner, s) = kwq_clear_owner s in
         Inr (False, kwq_cleanup_old_owner old_owner s))
      else
        (case ksyn_mtxsignal None (drop_bits s) s of
           Inl x \<Rightarrow> Inl x
         | Inr (success, old_owner, s) \<Rightarrow> Inr (\<not> success, kwq_cleanup_old_owner old_owner s)))"

definition fairshare_prepost :: "u32 \<Rightarrow> ksyn \<Rightarrow> ksyn" where
  "fairshare_prepost nextgen s =
     (let s = (if kw_prepost_count (kn_kwq s) \<noteq> 0 then s
               else with_kwq (kwq_mark_preposted_wakeup 1 (nextgen AND PTHRW_COUNT_MASK) 0) s);
          (old_owner, s) = kwq_clear_owner s in
      kwq_cleanup_old_owner old_owner s)"

lemma set_owner_frame [simp]:
  "kw_ksynqueues (kn_kwq (snd (kwq_set_owner n b s))) = kw_ksynqueues (kn_kwq s)"
  "kw_ksynqueues (kn_kwq (snd (kwq_clear_owner s))) = kw_ksynqueues (kn_kwq s)"
  by (simp_all add: kwq_set_owner_def kwq_clear_owner_def Let_def)

lemma mtxsignal_parts:
  assumes "ksyn_mtxsignal e v s = Inr (b, old, s')"
  obtains d r where "ksyn_signal KSYN_QUEUE_WRITE (Some d) v s = Inr (b, r)"
    "(old, s') = (if b then kwq_set_owner (kwe_thread (kn_kwe r d)) False r else kwq_clear_owner r)"
    "e = Some d \<or> e = None \<and> (\<exists>es. elements KSYN_QUEUE_WRITE s = d # es)"
  using assms by (auto simp: ksyn_mtxsignal_def split: list.splits option.splits sum.splits if_splits)

lemma mtxsignal_shorter:
  assumes "ksyn_mtxsignal e v s = Inr (b, old, s')"
  shows "length (elements KSYN_QUEUE_WRITE s') < length (elements KSYN_QUEUE_WRITE s)"
proof -
  from assms obtain d r where r: "ksyn_signal KSYN_QUEUE_WRITE (Some d) v s = Inr (b, r)"
    "(old, s') = (if b then kwq_set_owner (kwe_thread (kn_kwe r d)) False r else kwq_clear_owner r)"
    by (rule mtxsignal_parts)
  have "kw_ksynqueues (kn_kwq s') = kw_ksynqueues (kn_kwq r)"
    using set_owner_frame r(2) by (metis snd_conv)
  with signal_shorter [OF r(1)] show ?thesis by simp
qed

text \<open>Fair share; starting again keeps the lock, and forgets the old owner without releasing it.\<close>

function mutexdrop_fairshare :: "u32 \<Rightarrow> ksyn \<Rightarrow> ksyn result" where
  "mutexdrop_fairshare nextgen s =
     (let low_writer = ksynq_firstnum (queue_of KSYN_QUEUE_WRITE s) AND PTHRW_COUNT_MASK;
          updatebits = drop_bits s in
      if kw_inqueue (kn_kwq s) = 0 then Inr (fairshare_prepost nextgen s)
      else if low_writer = nextgen then
        (case ksyn_mtxsignal None (updatebits OR PTH_RWL_MTX_WAIT) s of
           Inl x \<Rightarrow> Inl x
         | Inr (success, old_owner, s) \<Rightarrow>
             Inr (kwq_cleanup_old_owner old_owner
               (if success then s
                else with_kwq (kwq_mark_interruped_wakeup KWQ_INTR_WRITE 1 nextgen updatebits) s)))
      else if is_seqhigher low_writer nextgen then Inr (fairshare_prepost nextgen s)
      else
        (case ksyn_queue_find_seq (kn_kwe s) (queue_of KSYN_QUEUE_WRITE s) nextgen of
           None \<Rightarrow> Inr (fairshare_prepost nextgen s)
         | Some kwe \<Rightarrow>
             (case ksyn_mtxsignal (Some kwe) (updatebits OR PTH_RWL_MTX_WAIT) s of
                Inl x \<Rightarrow> Inl x
              | Inr (success, old_owner, s) \<Rightarrow>
                  if success then Inr (kwq_cleanup_old_owner old_owner s)
                  else mutexdrop_fairshare nextgen s)))"
  by auto
termination
  by (relation "measure (\<lambda>(_, s). length (elements KSYN_QUEUE_WRITE s))") (auto dest: mtxsignal_shorter)

declare mutexdrop_fairshare.simps [simp del]

definition mutexdrop_section :: "bool \<Rightarrow> bool \<Rightarrow> u32 \<Rightarrow> u32 \<Rightarrow> ksyn \<Rightarrow> (bool \<times> ksyn) result" where
  "mutexdrop_section firstfit redrive mgen ugen s =
     (let s = (if redrive then s
               else with_kwq (\<lambda>q. q\<lparr>kw_lastunlockseq := ugen AND PTHRW_COUNT_MASK\<rparr>) s) in
      if firstfit then mutexdrop_firstfit mgen s
      else (case mutexdrop_fairshare (ugen + PTHRW_INC) s of
              Inl x \<Rightarrow> Inl x
            | Inr s \<Rightarrow> Inr (False, s)))"

section \<open>Locking\<close>

text \<open>How a pass through \<open>psynch_mutexwait\<close> ends.\<close>

datatype mtx_answer =
    Mtx_granted u32
  | Mtx_failed int
  | Mtx_findtid
  | Mtx_blocked

definition mutexwait_got ::
  "ptr \<Rightarrow> ptr option \<Rightarrow> u32 \<Rightarrow> ksyn \<Rightarrow> (mtx_answer \<times> ksyn) result" where
  "mutexwait_got th tid_th bits s =
     (let (old_owner, s) = kwq_set_owner (Some th) False s in
      Inr (Mtx_granted bits, kwq_cleanup_old_owner old_owner (kwq_cleanup_old_owner tid_th s)))"

text \<open>
  \<open>tid\<close> is the owner's thread ID as user space saw it, \<open>tid_th\<close> the thread it was resolved to, and
  \<open>thread_tid\<close> gives the IDs of the threads.
\<close>

definition mutexwait_block ::
  "bool \<Rightarrow> ptr \<Rightarrow> u32 \<Rightarrow> ptr option \<Rightarrow> ksyn \<Rightarrow> (mtx_answer \<times> ksyn) result" where
  "mutexwait_block firstfit th mgen tid_th s =
     (case ksyn_wait KSYN_QUEUE_WRITE th mgen firstfit (kwq_cleanup_old_owner tid_th s) of
        Inl x \<Rightarrow> Inl x
      | Inr (Some error, s) \<Rightarrow> Inr (Mtx_failed error, s)
      | Inr (None, s) \<Rightarrow> Inr (Mtx_blocked, s))"

definition mutexwait_preposted ::
  "bool \<Rightarrow> ptr \<Rightarrow> u32 \<Rightarrow> ptr option \<Rightarrow> ksyn \<Rightarrow> (mtx_answer \<times> ksyn) result" where
  "mutexwait_preposted firstfit th lseq tid_th s =
     (let s = with_kwq (\<lambda>q. q\<lparr>kw_prepost_count := kw_prepost_count q - 1\<rparr>) s in
      if \<not> firstfit \<and> kw_prepost_count (kn_kwq s) > 0 then
        Inr (Mtx_failed EINVAL, kwq_cleanup_old_owner tid_th
          (with_kwq (\<lambda>q. q\<lparr>kw_prepost_lseq := kw_prepost_lseq q + PTHRW_INC\<rparr>) s))
      else
        (let s = (if firstfit then s else with_kwq kwq_clear_preposted_wakeup s);
             updatebits = (if kw_inqueue (kn_kwq s) = 0 then lseq
                           else kw_highseq (kn_kwq s) AND PTHRW_COUNT_MASK) OR
               (PTH_RWL_KBIT OR PTH_RWL_EBIT) in
         mutexwait_got th tid_th (updatebits AND NOT PTH_RWL_MTX_WAIT) s))"

text \<open>Whether the kernel's idea of the owner is kept: the hint agrees, is missing, stale or switching.\<close>

definition hint_useless :: "(ptr option \<Rightarrow> u64) \<Rightarrow> u32 \<Rightarrow> u64 \<Rightarrow> ksyn \<Rightarrow> bool" where
  "hint_useless thread_tid ugen tid s \<longleftrightarrow>
     tid = thread_tid (kw_owner (kn_kwq s)) \<or> tid = 0 \<or>
     (kw_lastunlockseq (kn_kwq s) \<noteq> PTHRW_RWL_INIT \<and> is_seqlower ugen (kw_lastunlockseq (kn_kwq s))) \<or>
     tid = - 1"

definition mutexwait_section ::
  "(ptr option \<Rightarrow> u64) \<Rightarrow> bool \<Rightarrow> ptr \<Rightarrow> u32 \<Rightarrow> u32 \<Rightarrow> u64 \<Rightarrow> ptr option \<Rightarrow> ksyn \<Rightarrow> (mtx_answer \<times> ksyn) result" where
  "mutexwait_section thread_tid firstfit th mgen ugen tid tid_th s =
     (let lseq = mgen AND PTHRW_COUNT_MASK in
      case kwq_handle_interrupted_wakeup KWQ_INTR_WRITE lseq (kn_kwq s) of
        (Some bits, q) \<Rightarrow> mutexwait_got th tid_th bits (with_kwq (\<lambda>_. q) s)
      | (None, _) \<Rightarrow>
          if kw_prepost_count (kn_kwq s) \<noteq> 0 \<and> (firstfit \<or> lseq = kw_prepost_lseq (kn_kwq s))
          then mutexwait_preposted firstfit th lseq tid_th s
          else if hint_useless thread_tid ugen tid s then mutexwait_block firstfit th mgen tid_th s
          else if tid_th = None then Inr (Mtx_findtid, s)
          else (let (old, s) = kwq_set_owner tid_th True s in mutexwait_block firstfit th mgen old s))"

text \<open>\<open>task_findtid\<close> searches the threads of the task; the found thread is referenced.\<close>

definition task_findtid :: "ptr \<Rightarrow> u64 \<Rightarrow> (ptr \<times> u64) list \<Rightarrow> u64 \<Rightarrow> ptr option" where
  "task_findtid self self_tid threads tid =
     (if tid = self_tid \<or> tid = 0 then Some self
      else map_option fst (find (\<lambda>(t, i). i = tid) threads))"

definition mutexwait_findtid ::
  "ptr \<Rightarrow> u64 \<Rightarrow> (ptr \<times> u64) list \<Rightarrow> u64 \<Rightarrow> ksyn \<Rightarrow> u64 \<times> ptr option \<times> ksyn" where
  "mutexwait_findtid self self_tid threads tid s =
     (case task_findtid self self_tid threads tid of
        None \<Rightarrow> (0, None, s)
      | Some t \<Rightarrow> (tid, Some t, s\<lparr>kn_refs := t # kn_refs s\<rparr>))"

text \<open>
  The continuation of a thread whose wait has ended. The answer is the error and, on success, the
  value for user space.
\<close>

definition psynch_mtxcontinue :: "ptr \<Rightarrow> wait_result \<Rightarrow> ksyn \<Rightarrow> (int \<times> u32 option \<times> ksyn) result" where
  "psynch_mtxcontinue th r s =
     (let error = wait_result_to_errno r; kwe = Uukwe th; s1 = s\<lparr>kn_wait := (kn_wait s)(th := On_cpu)\<rparr> in
      if error \<noteq> 0 then
        (if kwe_kwqqueue (kn_kwe s kwe) \<noteq> None then
           (case ksyn_queue_remove_item KSYN_QUEUE_WRITE kwe s1 of
              Inl x \<Rightarrow> Inl x
            | Inr s \<Rightarrow> Inr (error, None, s))
         else Inr (error, None, s1))
      else Inr (0, Some (kwe_psynchretval (kn_kwe s kwe) AND NOT PTH_RWL_MTX_WAIT), s1))"

text \<open>The part of \<open>psynch_cvclrprepost\<close> for mutexes.\<close>

definition mutex_clrprepost :: "bool \<Rightarrow> u32 \<Rightarrow> ksyn \<Rightarrow> ksyn" where
  "mutex_clrprepost firstfit cvgen s =
     (if firstfit \<and> kw_prepost_count (kn_kwq s) \<noteq> 0 \<and> is_seqlower_eq (kw_prepost_lseq (kn_kwq s)) cvgen
      then with_kwq kwq_clear_preposted_wakeup s else s)"

text \<open>
  A thread that goes away is taken out of the queue it waits in; the hint of its last block
  says which one.
\<close>

definition dtape_psynch_thread_dying :: "ptr \<Rightarrow> ksyn \<Rightarrow> ksyn result" where
  "dtape_psynch_thread_dying th s =
     (if kwe_kwqqueue (kn_kwe s (Uukwe th)) \<noteq> None then
        ksyn_queue_remove_item
          (case kn_wait s th of
             Blocked _ k \<Rightarrow> k | Unblocked _ k _ \<Rightarrow> k | On_cpu \<Rightarrow> KSYN_QUEUE_WRITE)
          (Uukwe th) (s\<lparr>kn_wait := (kn_wait s)(th := On_cpu)\<rparr>)
      else Inr s)"

section \<open>What the sections do\<close>

text \<open>The part of the state that the invariant of the queues speaks about.\<close>

definition core :: "ksyn \<Rightarrow> _" where
  "core s = (kw_ksynqueues (kn_kwq s), kw_inqueue (kn_kwq s), self_of s, kw_type (kn_kwq s),
     kw_fakecount (kn_kwq s), kn_kwe s, kn_wait s, kn_zone s)"

lemma core_ok:
  assumes "core s' = core s" "ksyn_ok s"
  shows "ksyn_ok s'"
  by (rule ksyn_ok_cong [OF assms(2)]) (use assms(1) in \<open>simp_all add: core_def\<close>)

lemma core_fields:
  assumes "core s' = core s"
  shows "self_of s' = self_of s" "kw_type (kn_kwq s') = kw_type (kn_kwq s)"
    "kw_inqueue (kn_kwq s') = kw_inqueue (kn_kwq s)" "elements k s' = elements k s" "kn_wait s' = kn_wait s"
    "queue_of k s' = queue_of k s" "kn_kwe s' = kn_kwe s" "kn_zone s' = kn_zone s"
  using assms by (simp_all add: core_def)

lemma set_owner_core [simp]:
  "core (snd (kwq_set_owner n b s)) = core s" "core (snd (kwq_clear_owner s)) = core s"
  "core (kwq_cleanup_old_owner t s) = core s"
  by (simp_all add: kwq_set_owner_def kwq_clear_owner_def kwq_cleanup_old_owner_def core_def Let_def
      split: option.splits)

lemma mark_core [simp]:
  "core (s\<lparr>kn_kwq := kwq_mark_preposted_wakeup n l m (kn_kwq s)\<rparr>) = core s"
  "core (s\<lparr>kn_kwq := kwq_mark_interruped_wakeup y n l m (kn_kwq s)\<rparr>) = core s"
  "core (s\<lparr>kn_kwq := kwq_clear_preposted_wakeup (kn_kwq s)\<rparr>) = core s"
  "core (s\<lparr>kn_kwq := (kn_kwq s)\<lparr>kw_lastunlockseq := l\<rparr>\<rparr>) = core s"
  "core (s\<lparr>kn_kwq := (kn_kwq s)\<lparr>kw_prepost_count := n\<rparr>\<rparr>) = core s"
  "core (s\<lparr>kn_kwq := (kn_kwq s)\<lparr>kw_prepost_lseq := l\<rparr>\<rparr>) = core s"
  by (simp_all add: core_def kwq_mark_preposted_wakeup_def kwq_mark_interruped_wakeup_def
      kwq_clear_preposted_wakeup_def)

text \<open>Threads that hold the mutex without knowing it yet, and wake-ups that wait for a thread.\<close>

definition woken :: "ksyn \<Rightarrow> ptr set" where
  "woken s = {t. kn_wait s t = Unblocked (self_of s) KSYN_QUEUE_WRITE THREAD_AWAKENED}"

definition pending :: "ksyn \<Rightarrow> nat" where
  "pending s = card (woken s) + kw_prepost_count (kn_kwq s) + kw_intr_count (kn_kwq s)"

abbreviation marks :: "ksyn \<Rightarrow> nat \<times> nat" where
  "marks s \<equiv> (kw_prepost_count (kn_kwq s), kw_intr_count (kn_kwq s))"

lemma core_woken: "core s' = core s \<Longrightarrow> woken s' = woken s"
  by (simp add: woken_def core_def)

lemma owner_marks [simp]:
  "kw_prepost_count (kn_kwq (snd (kwq_set_owner n b s))) = kw_prepost_count (kn_kwq s)"
  "kw_intr_count (kn_kwq (snd (kwq_set_owner n b s))) = kw_intr_count (kn_kwq s)"
  "kw_prepost_count (kn_kwq (snd (kwq_clear_owner s))) = kw_prepost_count (kn_kwq s)"
  "kw_intr_count (kn_kwq (snd (kwq_clear_owner s))) = kw_intr_count (kn_kwq s)"
  "kw_prepost_count (kn_kwq (kwq_cleanup_old_owner t s)) = kw_prepost_count (kn_kwq s)"
  "kw_intr_count (kn_kwq (kwq_cleanup_old_owner t s)) = kw_intr_count (kn_kwq s)"
  by (simp_all add: kwq_set_owner_def kwq_clear_owner_def kwq_cleanup_old_owner_def Let_def
      split: option.splits)

text \<open>The states of a mutex queue.\<close>

definition mutex_ok :: "ksyn \<Rightarrow> bool" where
  "mutex_ok s \<longleftrightarrow> ksyn_ok s \<and> elements KSYN_QUEUE_READ s = [] \<and> kw_type (kn_kwq s) = KSYN_WQTYPE_MTX \<and>
     finite (woken s) \<and> (\<forall>e \<in> set (elements KSYN_QUEUE_WRITE s). \<not> is_fake e)"

lemma mutex_ok_core: "core s' = core s \<Longrightarrow> mutex_ok s \<Longrightarrow> mutex_ok s'"
  using core_ok core_fields core_woken unfolding mutex_ok_def by metis

lemma mutex_ok_inqueue: "mutex_ok s \<Longrightarrow> kw_inqueue (kn_kwq s) = length (elements KSYN_QUEUE_WRITE s)"
  by (simp add: mutex_ok_def ksyn_ok_def lists_ok_def)

lemma core_woke: "core r = core s \<Longrightarrow> woke s r"
  by (simp add: woke_def core_def)

text \<open>A signal to a waiter either wakes it or finds that it had stopped waiting.\<close>

lemma mutex_signal:
  assumes "mutex_ok s" "e \<in> set (elements KSYN_QUEUE_WRITE s)"
  obtains b r where "ksyn_signal KSYN_QUEUE_WRITE (Some e) v s = Inr (b, r)" "mutex_ok r" "marks r = marks s"
    "card (woken r) = card (woken s) + of_bool b" "woke s r"
    "elements KSYN_QUEUE_WRITE r = remove1 e (elements KSYN_QUEUE_WRITE s)"
proof -
  obtain t where t: "e = Uukwe t" using assms by (cases e) (auto simp: mutex_ok_def)
  have ok: "ksyn_ok s" using assms(1) by (simp add: mutex_ok_def)
  have m: "Uukwe t \<in> set (elements KSYN_QUEUE_WRITE s)" using assms(2) t by simp
  obtain b r where r: "ksyn_signal KSYN_QUEUE_WRITE (Some (Uukwe t)) v s = Inr (b, r)"
    "signalled KSYN_QUEUE_WRITE t v b s r"
    using signal_works [OF ok m] by blast
  note g = signalled_rest [OF r(2)] and f = rest_of_fields [OF signalled_rest(1) [OF r(2)]]
  have b: "b = (kn_wait s t = Blocked (self_of s) KSYN_QUEUE_WRITE)"
    "kn_wait r = (if b then (kn_wait s)(t := Unblocked (self_of s) KSYN_QUEUE_WRITE THREAD_AWAKENED) else kn_wait s)"
    using r(2) by (simp_all add: signalled_def)
  have w: "woken r = (if b then insert t (woken s) else woken s)" "b \<Longrightarrow> t \<notin> woken s"
    using b f(1) by (auto simp: woken_def)
  have "mutex_ok r"
    using assms(1) signalled_ok [OF ok m r(2)] f g w(1)
    by (auto simp: mutex_ok_def dest: notin_set_remove1)
  then show thesis
    using r(1) f g(6) w assms(1) b by (intro that [of b r]) (auto simp: t mutex_ok_def woke_def)
qed

lemma mutex_mtxsignal:
  assumes "mutex_ok s"
    "case e of Some d \<Rightarrow> d \<in> set (elements KSYN_QUEUE_WRITE s) | None \<Rightarrow> elements KSYN_QUEUE_WRITE s \<noteq> []"
  obtains b old r where "ksyn_mtxsignal e v s = Inr (b, old, r)" "mutex_ok r" "marks r = marks s"
    "card (woken r) = card (woken s) + of_bool b" "woke s r"
    "length (elements KSYN_QUEUE_WRITE r) < length (elements KSYN_QUEUE_WRITE s)"
proof -
  obtain d where d: "d \<in> set (elements KSYN_QUEUE_WRITE s)"
    "(case e of Some e \<Rightarrow> [e] | None \<Rightarrow> elements KSYN_QUEUE_WRITE s) = d # (case e of Some _ \<Rightarrow> [] | None \<Rightarrow> tl (elements KSYN_QUEUE_WRITE s))"
    using assms(2) by (cases e; cases "elements KSYN_QUEUE_WRITE s") auto
  obtain b r where r: "ksyn_signal KSYN_QUEUE_WRITE (Some d) v s = Inr (b, r)" "mutex_ok r" "marks r = marks s"
    "card (woken r) = card (woken s) + of_bool b" "woke s r"
    by (rule mutex_signal [OF assms(1) d(1)])
  let ?o = "if b then kwq_set_owner (kwe_thread (kn_kwe r d)) False r else kwq_clear_owner r"
  have m: "ksyn_mtxsignal e v s = Inr (b, fst ?o, snd ?o)" by (simp add: ksyn_mtxsignal_def d(2) r(1))
  have c: "core (snd ?o) = core r" "marks (snd ?o) = marks r" by simp_all
  show thesis
  proof (rule that [OF m])
    show "mutex_ok (snd ?o)" using mutex_ok_core [OF c(1) r(2)] .
    show "marks (snd ?o) = marks s" using c(2) r(3) by simp
    show "card (woken (snd ?o)) = card (woken s) + of_bool b" using core_woken [OF c(1)] r(4) by simp
    show "woke s (snd ?o)" using woke_trans [OF r(5) core_woke [OF c(1)]] .
    show "length (elements KSYN_QUEUE_WRITE (snd ?o)) < length (elements KSYN_QUEUE_WRITE s)"
      by (rule mtxsignal_shorter [OF m])
  qed
qed

text \<open>Dropping the mutex by first fit adds one wake-up, unless it has to start again.\<close>

lemma firstfit_drop:
  assumes "mutex_ok s"
  obtains redrive r where "mutexdrop_firstfit mgen s = Inr (redrive, r)" "mutex_ok r" "woke s r"
    "kw_intr_count (kn_kwq r) = kw_intr_count (kn_kwq s)" "pending r = pending s + of_bool (\<not> redrive)"
    "kw_prepost_count (kn_kwq r) = kw_prepost_count (kn_kwq s) + of_bool (kw_inqueue (kn_kwq s) = 0)"
    "redrive \<Longrightarrow> length (elements KSYN_QUEUE_WRITE r) < length (elements KSYN_QUEUE_WRITE s)"
    "kw_inqueue (kn_kwq s) = 0 \<Longrightarrow> elements KSYN_QUEUE_WRITE r = []"
proof (cases "kw_inqueue (kn_kwq s) = 0")
  case True
  let ?a = "with_kwq (\<lambda>q. kwq_mark_preposted_wakeup (kw_prepost_count q + 1) (mgen AND PTHRW_COUNT_MASK) 0 q) s"
  let ?r = "kwq_cleanup_old_owner (fst (kwq_clear_owner ?a)) (snd (kwq_clear_owner ?a))"
  have d: "mutexdrop_firstfit mgen s = Inr (False, ?r)"
    using True by (simp add: mutexdrop_firstfit_def split_beta Let_def)
  have "core ?r = core ?a" by simp
  then have c: "core ?r = core s" by simp
  have "marks ?r = marks ?a" by simp
  then have m: "marks ?r = (kw_prepost_count (kn_kwq s) + 1, kw_intr_count (kn_kwq s))"
    by (simp add: kwq_mark_preposted_wakeup_def)
  show thesis
    by (rule that [OF d mutex_ok_core [OF c assms] core_woke [OF c]])
      (use True m core_woken [OF c] core_fields(4) [OF c] mutex_ok_inqueue [OF assms] in \<open>simp_all add: pending_def\<close>)
next
  case False
  have "case None of Some d \<Rightarrow> d \<in> set (elements KSYN_QUEUE_WRITE s) | None \<Rightarrow> elements KSYN_QUEUE_WRITE s \<noteq> []"
    using False mutex_ok_inqueue [OF assms] by auto
  from mutex_mtxsignal [OF assms this, of "drop_bits s"] obtain b old r where
    r: "ksyn_mtxsignal None (drop_bits s) s = Inr (b, old, r)" "mutex_ok r" "marks r = marks s"
      "card (woken r) = card (woken s) + of_bool b" "woke s r"
      "length (elements KSYN_QUEUE_WRITE r) < length (elements KSYN_QUEUE_WRITE s)" by blast
  let ?r = "kwq_cleanup_old_owner old r"
  have d: "mutexdrop_firstfit mgen s = Inr (\<not> b, ?r)" using False r(1) by (simp add: mutexdrop_firstfit_def)
  have c: "core ?r = core r" "marks ?r = marks s" using r(3) by simp_all
  show thesis
    by (rule that [OF d mutex_ok_core [OF c(1) r(2)] woke_trans [OF r(5) core_woke [OF c(1)]]])
      (use False c(2) r(4,6) core_woken [OF c(1)] core_fields(4) [OF c(1)] in \<open>simp_all add: pending_def\<close>)
qed

lemma fairshare_prepost_effect:
  "core (fairshare_prepost g s) = core s" "kw_intr_count (kn_kwq (fairshare_prepost g s)) = kw_intr_count (kn_kwq s)"
  "kw_prepost_count (kn_kwq (fairshare_prepost g s)) = max 1 (kw_prepost_count (kn_kwq s))"
  by (simp_all add: fairshare_prepost_def Let_def split_beta kwq_mark_preposted_wakeup_def max_def)
    (simp_all add: core_def)

definition dropped_once :: "ksyn \<Rightarrow> ksyn \<Rightarrow> bool" where
  "dropped_once s r \<longleftrightarrow> mutex_ok r \<and> woke s r \<and> pending r \<le> pending s + 1"

lemma dropped_once_core:
  "mutex_ok r \<Longrightarrow> woke s r \<Longrightarrow> core r' = core r \<Longrightarrow>
   card (woken r) + kw_prepost_count (kn_kwq r') + kw_intr_count (kn_kwq r') \<le> pending s + 1 \<Longrightarrow> dropped_once s r'"
  using mutex_ok_core [of r' r] woke_trans [of s r r'] core_woke [of r' r] core_woken [of r' r]
  by (simp add: dropped_once_def pending_def)

lemma fairshare_prepost_dropped: "mutex_ok s \<Longrightarrow> dropped_once s (fairshare_prepost g s)"
  by (rule dropped_once_core [OF _ core_woke [OF refl] fairshare_prepost_effect(1)])
    (simp_all add: pending_def fairshare_prepost_effect)

lemma find_seq_member: "ksyn_queue_find_seq m kq g = Some e \<Longrightarrow> e \<in> set (ksynq_kwelist kq)"
  by (auto simp: ksyn_queue_find_seq_def find_Some_iff)

text \<open>Fair share never panics and adds at most one wake-up.\<close>

lemma fairshare_drop: "mutex_ok s \<Longrightarrow> \<exists>r. mutexdrop_fairshare g s = Inr r \<and> dropped_once s r"
proof (induction "length (elements KSYN_QUEUE_WRITE s)" arbitrary: s rule: less_induct)
  case less
  note ok = less.prems and sel = mutexdrop_fairshare.simps [of g s]
  let ?low = "ksynq_firstnum (queue_of KSYN_QUEUE_WRITE s) AND PTHRW_COUNT_MASK"
  let ?find = "ksyn_queue_find_seq (kn_kwe s) (queue_of KSYN_QUEUE_WRITE s) g"
  consider (prepost) "mutexdrop_fairshare g s = Inr (fairshare_prepost g s)"
    | (first) "kw_inqueue (kn_kwq s) \<noteq> 0" "?low = g"
    | (other) kwe where "kw_inqueue (kn_kwq s) \<noteq> 0" "?low \<noteq> g" "\<not> is_seqhigher ?low g" "?find = Some kwe"
    using sel by (cases ?find) (auto simp: Let_def split: if_splits)
  then show ?case
  proof cases
    case prepost
    with fairshare_prepost_dropped [OF ok] show ?thesis by blast
  next
    case first
    then have "case None of Some d \<Rightarrow> d \<in> set (elements KSYN_QUEUE_WRITE s) | None \<Rightarrow> elements KSYN_QUEUE_WRITE s \<noteq> []"
      using mutex_ok_inqueue [OF ok] by auto
    from mutex_mtxsignal [OF ok this, of "drop_bits s OR PTH_RWL_MTX_WAIT"] obtain b old r where
      r: "ksyn_mtxsignal None (drop_bits s OR PTH_RWL_MTX_WAIT) s = Inr (b, old, r)" "mutex_ok r" "marks r = marks s"
        "card (woken r) = card (woken s) + of_bool b" "woke s r" by blast
    let ?r = "kwq_cleanup_old_owner old (if b then r
        else with_kwq (kwq_mark_interruped_wakeup KWQ_INTR_WRITE 1 g (drop_bits s)) r)"
    have "mutexdrop_fairshare g s = Inr ?r" using first r(1) by (simp add: sel Let_def)
    moreover have "dropped_once s ?r"
    proof (rule dropped_once_core [OF r(2,5)])
      show "core ?r = core r" by simp
      show "card (woken r) + kw_prepost_count (kn_kwq ?r) + kw_intr_count (kn_kwq ?r) \<le> pending s + 1"
        using r(3,4) by (simp add: pending_def kwq_mark_interruped_wakeup_def)
    qed
    ultimately show ?thesis by blast
  next
    case other
    then have "case Some kwe of Some d \<Rightarrow> d \<in> set (elements KSYN_QUEUE_WRITE s) | None \<Rightarrow> elements KSYN_QUEUE_WRITE s \<noteq> []"
      by (simp add: find_seq_member)
    from mutex_mtxsignal [OF ok this, of "drop_bits s OR PTH_RWL_MTX_WAIT"] obtain b old r where
      r: "ksyn_mtxsignal (Some kwe) (drop_bits s OR PTH_RWL_MTX_WAIT) s = Inr (b, old, r)" "mutex_ok r" "marks r = marks s"
        "card (woken r) = card (woken s) + of_bool b" "woke s r"
        "length (elements KSYN_QUEUE_WRITE r) < length (elements KSYN_QUEUE_WRITE s)" by blast
    show ?thesis
    proof (cases b)
      case True
      then have "mutexdrop_fairshare g s = Inr (kwq_cleanup_old_owner old r)" using other r(1) by (simp add: sel Let_def)
      moreover have "dropped_once s (kwq_cleanup_old_owner old r)"
        by (rule dropped_once_core [OF r(2,5)]) (use r(3,4) True in \<open>simp_all add: pending_def\<close>)
      ultimately show ?thesis by blast
    next
      case False
      then have "mutexdrop_fairshare g s = mutexdrop_fairshare g r" using other r(1) by (simp add: sel Let_def)
      moreover obtain q where "mutexdrop_fairshare g r = Inr q" "dropped_once r q"
        using less.hyps [OF r(6,2)] by blast
      moreover have "pending r = pending s" using r(3,4) False by (simp add: pending_def)
      ultimately show ?thesis using r(5) woke_trans [of s r q] by (auto simp: dropped_once_def)
    qed
  qed
qed

section \<open>The waiting side\<close>

lemma handle_interrupted_effect:
  assumes "kwq_handle_interrupted_wakeup y l q = (Some bits, q')"
  shows "kw_intr_count q' + 1 \<le> kw_intr_count q" "kw_prepost_count q' = kw_prepost_count q"
    "q'\<lparr>kw_intr_type := kw_intr_type q, kw_intr_count := kw_intr_count q, kw_intr_seq := kw_intr_seq q,
       kw_intr_returnbits := kw_intr_returnbits q\<rparr> = q"
  using assms by (auto simp: kwq_handle_interrupted_wakeup_def kwq_clear_interrupted_wakeup_def Let_def split: if_splits)

lemma got_effect:
  "\<exists>r. mutexwait_got th tid bits s = Inr (Mtx_granted bits, r) \<and> core r = core s \<and> marks r = marks s"
  by (simp add: mutexwait_got_def split_beta)

text \<open>What a pass through \<open>psynch_mutexwait\<close> does, by its answer.\<close>

fun wait_effect :: "ptr \<Rightarrow> ksyn \<Rightarrow> mtx_answer \<Rightarrow> ksyn \<Rightarrow> bool" where
  "wait_effect th s (Mtx_granted _) r \<longleftrightarrow> kn_wait r = kn_wait s \<and> pending r + 1 \<le> pending s"
| "wait_effect th s (Mtx_failed _) r \<longleftrightarrow> kn_wait r = kn_wait s \<and> pending r \<le> pending s"
| "wait_effect th s Mtx_findtid r \<longleftrightarrow> r = s"
| "wait_effect th s Mtx_blocked r \<longleftrightarrow>
     kn_wait r = (kn_wait s)(th := Blocked (self_of s) KSYN_QUEUE_WRITE) \<and> pending r = pending s"

lemma block_effect:
  assumes "mutex_ok s" "kn_wait s th = On_cpu"
  obtains a r where "mutexwait_block ff th mgen tid s = Inr (a, r)" "mutex_ok r" "self_of r = self_of s"
    "wait_effect th s a r" "marks r = marks s"
    "a = Mtx_blocked \<or> (\<exists>e. a = Mtx_failed e \<and> kn_kwq r = kn_kwq (kwq_cleanup_old_owner tid s))"
proof -
  let ?s = "kwq_cleanup_old_owner tid s"
  have c: "core ?s = core s" by simp
  have ok: "ksyn_ok ?s" using core_ok [OF c] assms(1) by (simp add: mutex_ok_def)
  have cpu: "kn_wait ?s th = On_cpu" using core_fields(5) [OF c] assms(2) by simp
  obtain x r where w: "ksyn_wait KSYN_QUEUE_WRITE th mgen ff ?s = Inr (x, r)" "ksyn_ok r"
    "rest_of (kn_kwq r) = rest_of (kn_kwq ?s)"
    "kn_wait r = (if x = None then (kn_wait ?s)(th := Blocked (self_of ?s) KSYN_QUEUE_WRITE) else kn_wait ?s)"
    "x \<noteq> None \<Longrightarrow> kn_kwq r = kn_kwq ?s"
    "x = None \<Longrightarrow> set (elements KSYN_QUEUE_WRITE r) = insert (Uukwe th) (set (elements KSYN_QUEUE_WRITE ?s))"
    "\<And>k. k \<noteq> KSYN_QUEUE_WRITE \<Longrightarrow> queue_of k r = queue_of k ?s"
    using wait_works [OF ok cpu, of KSYN_QUEUE_WRITE mgen ff] by metis
  note f = rest_of_fields [OF w(3)] and g = core_fields [OF c]
  have wk: "woken r = woken s" using w(4) f(1) g(1,5) assms(2) by (auto simp: woken_def)
  have "\<forall>e\<in>set (elements KSYN_QUEUE_WRITE r). \<not> is_fake e"
    using w(5,6) assms(1) g(4) by (cases x) (auto simp: mutex_ok_def)
  then have mok: "mutex_ok r" using w(2) f(2) w(7) [of KSYN_QUEUE_READ] wk assms(1) g by (simp add: mutex_ok_def)
  have p: "marks r = marks s" using f by simp
  show thesis
  proof (cases x)
    case None
    show thesis
      by (rule that [of Mtx_blocked r])
        (use None w(1,4) mok f g wk p in \<open>simp_all add: mutexwait_block_def pending_def\<close>)
  next
    case (Some e)
    show thesis
      by (rule that [of "Mtx_failed e" r])
        (use Some w(1,4,5) mok f g wk p in \<open>simp_all add: mutexwait_block_def pending_def\<close>)
  qed
qed

lemma firstfit_no_error: "ksyn_wait kqi th l True s = Inr (x, r) \<Longrightarrow> x = None"
  by (auto simp: ksyn_wait_def ksyn_queue_insert_def queue_place_def Let_def
      split: sum.splits prod.splits if_splits)

lemma block_firstfit: "mutexwait_block True th mgen tid s = Inr (a, r) \<Longrightarrow> a = Mtx_blocked"
  by (auto simp: mutexwait_block_def dest: firstfit_no_error split: sum.splits option.splits)

fun is_granted :: "mtx_answer \<Rightarrow> bool" where
  "is_granted (Mtx_granted _) = True"
| "is_granted _ = False"

text \<open>By first fit, and without interrupted wake-ups, the accounts are exact.\<close>

definition exact_wait :: "ksyn \<Rightarrow> mtx_answer \<Rightarrow> ksyn \<Rightarrow> bool" where
  "exact_wait s a r \<longleftrightarrow>
     kw_intr_count (kn_kwq r) = 0 \<and> pending r + of_bool (is_granted a) = pending s \<and>
     kw_prepost_count (kn_kwq r) \<le> kw_prepost_count (kn_kwq s) \<and>
     (a = Mtx_blocked \<longrightarrow> kw_prepost_count (kn_kwq s) = 0) \<and>
     (a \<noteq> Mtx_blocked \<longrightarrow> elements KSYN_QUEUE_WRITE r = elements KSYN_QUEUE_WRITE s)"

lemma granted_effect:
  assumes "mutex_ok s" "core u = core s" "kw_prepost_count (kn_kwq u) + kw_intr_count (kn_kwq u) + 1 \<le>
      kw_prepost_count (kn_kwq s) + kw_intr_count (kn_kwq s)"
  obtains r where "mutexwait_got th tid bits u = Inr (Mtx_granted bits, r)" "mutex_ok r"
    "self_of r = self_of s" "wait_effect th s (Mtx_granted bits) r" "core r = core s" "marks r = marks u"
proof -
  obtain r where r: "mutexwait_got th tid bits u = Inr (Mtx_granted bits, r)" "core r = core u" "marks r = marks u"
    using got_effect by blast
  have c: "core r = core s" using r(2) assms(2) by simp
  show thesis
    by (rule that [OF r(1) mutex_ok_core [OF c assms(1)]])
      (use c core_fields [OF c] core_woken [OF c] r(3) assms(3) in \<open>simp_all add: pending_def\<close>)
qed

lemma wait_section_effect:
  assumes "mutex_ok s" "kn_wait s th = On_cpu"
  shows "\<exists>a r. mutexwait_section tt ff th mgen ugen tid tid_th s = Inr (a, r) \<and> mutex_ok r \<and>
    self_of r = self_of s \<and> wait_effect th s a r \<and> (ff \<longrightarrow> kw_intr_count (kn_kwq s) = 0 \<longrightarrow> exact_wait s a r)"
proof -
  let ?lseq = "mgen AND PTHRW_COUNT_MASK"
  let ?sec = "mutexwait_section tt ff th mgen ugen tid tid_th s"
  obtain i q where i: "kwq_handle_interrupted_wakeup KWQ_INTR_WRITE ?lseq (kn_kwq s) = (i, q)" by fastforce
  have blocks: "\<exists>a r. mutexwait_block ff th mgen old u = Inr (a, r) \<and> mutex_ok r \<and> self_of r = self_of s \<and>
      wait_effect th s a r \<and> (ff \<longrightarrow> kw_intr_count (kn_kwq s) = 0 \<longrightarrow> exact_wait s a r)"
    if c: "core u = core s" "marks u = marks s" and p: "ff \<longrightarrow> kw_prepost_count (kn_kwq s) = 0" for u old
  proof -
    have "mutex_ok u" "kn_wait u th = On_cpu"
      using mutex_ok_core [OF c(1) assms(1)] core_fields(5) [OF c(1)] assms(2) by simp_all
    then obtain a r where r: "mutexwait_block ff th mgen old u = Inr (a, r)" "mutex_ok r" "self_of r = self_of u"
      "wait_effect th u a r" "marks r = marks u" "a = Mtx_blocked \<or> (\<exists>e. a = Mtx_failed e)"
      by (metis block_effect)
    have n: "pending u = pending s" using c(2) core_woken [OF c(1)] by (simp add: pending_def)
    have "wait_effect th s a r" using r(4,6) n core_fields(1,5) [OF c(1)] by auto
    moreover have "exact_wait s a r" if ff and "kw_intr_count (kn_kwq s) = 0"
      using that r(1,4,5) c(2) n p block_firstfit [of th mgen old u a r] by (auto simp: exact_wait_def)
    ultimately show ?thesis using r(1-3) core_fields(1) [OF c(1)] by auto
  qed
  show ?thesis
  proof (cases i)
    case (Some bits)
    let ?u = "with_kwq (\<lambda>_. q) s"
    note e = handle_interrupted_effect [OF i [unfolded Some]]
    have "core ?u = core s" using arg_cong [OF e(3), of kw_ksynqueues] arg_cong [OF e(3), of kw_inqueue]
        arg_cong [OF e(3), of kw_self] arg_cong [OF e(3), of kw_type] arg_cong [OF e(3), of kw_fakecount]
      by (simp add: core_def)
    then obtain r where r: "mutexwait_got th tid_th bits ?u = Inr (Mtx_granted bits, r)" "mutex_ok r"
      "self_of r = self_of s" "wait_effect th s (Mtx_granted bits) r"
      by (rule granted_effect [OF assms(1)]) (use e in auto)
    have "?sec = Inr (Mtx_granted bits, r)" using i Some r(1) by (simp add: mutexwait_section_def Let_def)
    with r(2-4) e(1) show ?thesis by (intro exI [of _ "Mtx_granted bits"] exI [of _ r]) auto
  next
    case None
    have c: "core (s\<lparr>kn_kwq := (kn_kwq s)\<lparr>kw_prepost_count := n\<rparr>\<rparr>) = core s" for n by simp
    consider (prepost) "kw_prepost_count (kn_kwq s) \<noteq> 0" "ff \<or> ?lseq = kw_prepost_lseq (kn_kwq s)"
      | (block) old u where "?sec = mutexwait_block ff th mgen old u" "core u = core s" "marks u = marks s"
          "ff \<longrightarrow> kw_prepost_count (kn_kwq s) = 0"
      | (find) "?sec = Inr (Mtx_findtid, s)"
    proof (cases "kw_prepost_count (kn_kwq s) \<noteq> 0 \<and> (ff \<or> ?lseq = kw_prepost_lseq (kn_kwq s))")
      case True
      then show thesis using prepost by blast
    next
      case False
      then have p: "ff \<longrightarrow> kw_prepost_count (kn_kwq s) = 0" by auto
      let ?hint = "hint_useless tt ugen tid s"
      have sec: "?sec = (if ?hint then mutexwait_block ff th mgen tid_th s
          else if tid_th = None then Inr (Mtx_findtid, s)
          else mutexwait_block ff th mgen (fst (kwq_set_owner tid_th True s)) (snd (kwq_set_owner tid_th True s)))"
        by (simp only: mutexwait_section_def Let_def i None fst_conv option.case if_not_P [OF False] split_beta)
      show thesis
      proof (cases ?hint)
        case True
        with sec have "?sec = mutexwait_block ff th mgen tid_th s" by simp
        then show thesis by (rule block) (simp_all add: p)
      next
        case False
        show thesis
        proof (cases "tid_th = None")
          case True
          with sec False have "?sec = Inr (Mtx_findtid, s)" by simp
          then show thesis by (rule find)
        next
          case set: False
          with sec False have "?sec = mutexwait_block ff th mgen (fst (kwq_set_owner tid_th True s))
              (snd (kwq_set_owner tid_th True s))" by simp
          then show thesis by (rule block) (simp_all add: p)
        qed
      qed
    qed
    then show ?thesis
    proof cases
      case block
      from blocks [OF block(2-4)] block(1) show ?thesis by metis
    next
      case find
      then show ?thesis
        using assms(1) by (intro exI [of _ Mtx_findtid] exI [of _ s]) (simp add: exact_wait_def)
    next
      case prepost
      let ?n = "kw_prepost_count (kn_kwq s) - 1"
      let ?p = "with_kwq (\<lambda>q. q\<lparr>kw_prepost_count := ?n\<rparr>) s"
      have sec: "?sec = mutexwait_preposted ff th ?lseq tid_th s"
        unfolding mutexwait_section_def i None Let_def using prepost by simp
      show ?thesis
      proof (cases "\<not> ff \<and> ?n > 0")
        case True
        let ?r = "kwq_cleanup_old_owner tid_th (with_kwq (\<lambda>q. q\<lparr>kw_prepost_lseq := kw_prepost_lseq q + PTHRW_INC\<rparr>) ?p)"
        have "?sec = Inr (Mtx_failed EINVAL, ?r)"
          using sec True by (simp add: mutexwait_preposted_def Let_def)
        moreover have cr: "core ?r = core s" by (simp add: core_def kwq_cleanup_old_owner_def split: option.splits)
        moreover have "pending ?r \<le> pending s" using core_woken [OF cr] by (simp add: pending_def)
        ultimately show ?thesis
          using mutex_ok_core [OF cr assms(1)] core_fields(1,5) [OF cr] True by (intro exI) auto
      next
        case False
        let ?u = "if ff then ?p else with_kwq kwq_clear_preposted_wakeup ?p"
        have "\<exists>bits. ?sec = mutexwait_got th tid_th bits ?u"
          unfolding sec mutexwait_preposted_def Let_def using False by (cases ff) auto
        then obtain bits where got: "?sec = mutexwait_got th tid_th bits ?u" ..
        have cu: "core ?u = core s" by (simp add: core_def kwq_clear_preposted_wakeup_def)
        obtain r where r: "mutexwait_got th tid_th bits ?u = Inr (Mtx_granted bits, r)" "mutex_ok r"
          "self_of r = self_of s" "wait_effect th s (Mtx_granted bits) r" "core r = core s" "marks r = marks ?u"
          by (rule granted_effect [OF assms(1) cu])
            (use prepost(1) False in \<open>auto simp: kwq_clear_preposted_wakeup_def split: if_splits\<close>)
        have "exact_wait s (Mtx_granted bits) r" if ff "kw_intr_count (kn_kwq s) = 0"
          using that r(6) prepost(1) core_woken [OF r(5)] core_fields(4) [OF r(5)]
          by (simp add: exact_wait_def pending_def)
        with got r show ?thesis by metis
      qed
    qed
  qed
qed

text \<open>The continuation: the thread is running again and out of the queue.\<close>

lemma woken_running:
  "kn_wait r = (kn_wait s)(th := On_cpu) \<Longrightarrow> self_of r = self_of s \<Longrightarrow> woken r = woken s - {th}"
  by (auto simp: woken_def)

lemma card_running:
  "finite (woken s) \<Longrightarrow> card (woken s - {th}) + of_bool (th \<in> woken s) = card (woken s)"
  using card_Suc_Diff1 [of "woken s" th] by auto

text \<open>A thread leaves the queue it waits in, or leaves when it is in none.\<close>

lemma mutex_leaves:
  assumes "mutex_ok s" "queued s (Uukwe th)"
  obtains r where "ksyn_queue_remove_item KSYN_QUEUE_WRITE (Uukwe th) (running th s) = Inr r" "mutex_ok r"
    "self_of r = self_of s" "kn_wait r = (kn_wait s)(th := On_cpu)" "marks r = marks s"
    "set (elements KSYN_QUEUE_WRITE r) \<subseteq> set (elements KSYN_QUEUE_WRITE s)"
    "Uukwe th \<in> set (elements KSYN_QUEUE_WRITE s)" "kwe_kwqqueue (kn_kwe s (Uukwe th)) \<noteq> None"
proof -
  have ok: "ksyn_ok s" using assms(1) by (simp add: mutex_ok_def)
  obtain k where k: "Uukwe th \<in> set (elements k s)" using assms(2) by (auto simp: queued_def)
  then have "k = KSYN_QUEUE_WRITE" using assms(1) by (cases k) (auto simp: mutex_ok_def)
  with k have m: "Uukwe th \<in> set (elements KSYN_QUEUE_WRITE s)" by simp
  obtain r where r: "ksyn_queue_remove_item KSYN_QUEUE_WRITE (Uukwe th) (running th s) = Inr r" "ksyn_ok r"
    "removed KSYN_QUEUE_WRITE (Uukwe th) (running th s) r" using leave_works [OF ok m] by blast
  have "rest_of (kn_kwq r) = rest_of (kn_kwq s)" using r(3) by (simp add: removed_def)
  note f = rest_of_fields [OF this]
  have v: "kn_wait r = (kn_wait s)(th := On_cpu)" using r(3) by (simp add: removed_def)
  have l: "kwe_kwqqueue (kn_kwe s (Uukwe th)) \<noteq> None"
    using lists_ok_back [OF _ m] ok by (simp add: ksyn_ok_def)
  have sub: "set (elements KSYN_QUEUE_WRITE r) \<subseteq> set (elements KSYN_QUEUE_WRITE s)"
    "queue_of KSYN_QUEUE_READ r = queue_of KSYN_QUEUE_READ s"
    using r(3) set_remove1_subset [of "Uukwe th" "elements KSYN_QUEUE_WRITE s"] by (simp_all add: removed_def)
  have "mutex_ok r"
    using assms(1) r(2) f woken_running [OF v f(1)] sub by (auto simp: mutex_ok_def)
  then show thesis using that r(1) f v sub(1) m l by simp
qed

lemma mutex_running:
  assumes "mutex_ok s" "\<not> queued s (Uukwe th)"
  shows "mutex_ok (running th s)"
proof -
  have "woken (running th s) = woken s - {th}" by (rule woken_running) simp_all
  then show ?thesis
    using assms(1) not_queued_running [OF _ assms(2)] by (simp add: mutex_ok_def)
qed

lemma continue_effect:
  assumes "mutex_ok s" "kn_wait s th = Unblocked (self_of s) KSYN_QUEUE_WRITE w"
  shows "\<exists>e v r. psynch_mtxcontinue th w s = Inr (e, v, r) \<and> mutex_ok r \<and> self_of r = self_of s \<and>
    kn_wait r = (kn_wait s)(th := On_cpu) \<and> marks r = marks s \<and> (e = 0 \<longleftrightarrow> w = THREAD_AWAKENED) \<and>
    pending r + of_bool (e = 0) = pending s \<and> set (elements KSYN_QUEUE_WRITE r) \<subseteq> set (elements KSYN_QUEUE_WRITE s)"
proof -
  have ok: "ksyn_ok s" using assms(1) by (simp add: mutex_ok_def)
  have err: "wait_result_to_errno w = 0 \<longleftrightarrow> w = THREAD_AWAKENED"
    by (cases w) (simp_all add: wait_result_to_errno_def)
  have "th \<in> woken s \<longleftrightarrow> w = THREAD_AWAKENED" using assms(2) by (simp add: woken_def)
  then have card: "card (woken s - {th}) + of_bool (w = THREAD_AWAKENED) = card (woken s)"
    using card_running [of s th] assms(1) by (simp add: mutex_ok_def)
  show ?thesis
  proof (cases "queued s (Uukwe th)")
    case True
    obtain r where r: "ksyn_queue_remove_item KSYN_QUEUE_WRITE (Uukwe th) (running th s) = Inr r" "mutex_ok r"
      "self_of r = self_of s" "kn_wait r = (kn_wait s)(th := On_cpu)" "marks r = marks s"
      "set (elements KSYN_QUEUE_WRITE r) \<subseteq> set (elements KSYN_QUEUE_WRITE s)"
      "Uukwe th \<in> set (elements KSYN_QUEUE_WRITE s)" "kwe_kwqqueue (kn_kwe s (Uukwe th)) \<noteq> None"
      using mutex_leaves [OF assms(1) True] by metis
    have w: "w \<noteq> THREAD_AWAKENED" using ksyn_ok_waits(2) [OF ok r(7)] assms(2) by auto
    with r(1,8) have c: "psynch_mtxcontinue th w s = Inr (wait_result_to_errno w, None, r)"
      by (cases w) (simp_all add: psynch_mtxcontinue_def Let_def wait_result_to_errno_def)
    with r(2-6) w woken_running [OF r(4,3)] card err show ?thesis
      by (intro exI [of _ "wait_result_to_errno w"] exI [of _ None] exI [of _ r]) (simp add: pending_def)
  next
    case False
    have "kwe_kwqqueue (kn_kwe s (Uukwe th)) = None" by (rule not_queued_unlinked [OF ok False assms(2)])
    then obtain v where c: "psynch_mtxcontinue th w s = Inr (wait_result_to_errno w, v, running th s)"
      by (cases w) (auto simp: psynch_mtxcontinue_def Let_def wait_result_to_errno_def)
    have "woken (running th s) = woken s - {th}" by (rule woken_running) simp_all
    with c mutex_running [OF assms(1) False] card err show ?thesis
      by (intro exI [of _ "wait_result_to_errno w"] exI [of _ v] exI [of _ "running th s"]) (simp add: pending_def)
  qed
qed

lemma die_effect:
  assumes "mutex_ok s" "kn_wait s th = Blocked (self_of s) KSYN_QUEUE_WRITE \<or>
    (\<exists>w. kn_wait s th = Unblocked (self_of s) KSYN_QUEUE_WRITE w)"
  shows "\<exists>r. dtape_psynch_thread_dying th s = Inr r \<and> mutex_ok (running th r) \<and> self_of r = self_of s \<and>
    kn_wait (running th r) = (kn_wait s)(th := On_cpu) \<and> marks r = marks s \<and>
    pending (running th r) + of_bool (th \<in> woken s) = pending s \<and>
    set (elements KSYN_QUEUE_WRITE r) \<subseteq> set (elements KSYN_QUEUE_WRITE s)"
proof -
  have ok: "ksyn_ok s" using assms(1) by (simp add: mutex_ok_def)
  have card: "card (woken s - {th}) + of_bool (th \<in> woken s) = card (woken s)"
    using card_running assms(1) by (simp add: mutex_ok_def)
  show ?thesis
  proof (cases "queued s (Uukwe th)")
    case True
    obtain r where r: "ksyn_queue_remove_item KSYN_QUEUE_WRITE (Uukwe th) (running th s) = Inr r" "mutex_ok r"
      "self_of r = self_of s" "kn_wait r = (kn_wait s)(th := On_cpu)" "marks r = marks s"
      "set (elements KSYN_QUEUE_WRITE r) \<subseteq> set (elements KSYN_QUEUE_WRITE s)"
      "kwe_kwqqueue (kn_kwe s (Uukwe th)) \<noteq> None"
      using mutex_leaves [OF assms(1) True] by metis
    have d: "dtape_psynch_thread_dying th s = Inr r"
      using assms(2) r(1,7) by (auto simp: dtape_psynch_thread_dying_def)
    have e: "running th r = r" using r(4) by simp
    show ?thesis
      by (rule exI [of _ r], unfold e) (use d r(2-6) woken_running [OF r(4,3)] card in \<open>simp add: pending_def\<close>)
  next
    case False
    have "kwe_kwqqueue (kn_kwe s (Uukwe th)) = None"
      using assms(2)
    proof
      assume "kn_wait s th = Blocked (self_of s) KSYN_QUEUE_WRITE"
      then show ?thesis using ksyn_ok_waits(1) [OF ok] False unfolding queued_def by blast
    qed (use not_queued_unlinked [OF ok False] in blast)
    then have d: "dtape_psynch_thread_dying th s = Inr s" by (simp add: dtape_psynch_thread_dying_def)
    have "woken (running th s) = woken s - {th}" by (rule woken_running) simp_all
    with d mutex_running [OF assms(1) False] card show ?thesis by (simp add: pending_def)
  qed
qed

section \<open>Threads that lock and unlock\<close>

text \<open>
  Any number of threads call \<open>psynch_mutexwait\<close> and \<open>psynch_mutexdrop\<close> with any arguments, one section
  at a time; waits end by wake-up, timeout or interruption, and waiting threads may die. The
  counters record completed drops, grants that reached a thread, and grants that were cleared
  or died with their thread.
\<close>

datatype mtx_pc =
    Mx_user
  | Mx_wait bool u32 u32 u64 "ptr option"
  | Mx_find bool u32 u32 u64
  | Mx_blocked
  | Mx_drop bool u32 u32 bool
  | Mx_gone

record mtx_sys =
  mx_s :: ksyn
  mx_pc :: "ptr \<Rightarrow> mtx_pc"
  mx_drops :: nat
  mx_grants :: nat
  mx_lost :: nat

datatype mtx_action =
    Call_wait ptr bool u32 u32 u64
  | Call_drop ptr bool u32 u32
  | Wait_section ptr
  | Find_section ptr u64 "(ptr \<times> u64) list"
  | Drop_section ptr
  | Clear_prepost bool u32
  | End_wait ptr wait_result
  | Continue ptr
  | Die ptr

abbreviation set_pc :: "ptr \<Rightarrow> mtx_pc \<Rightarrow> mtx_sys \<Rightarrow> mtx_sys" where
  "set_pc t p m \<equiv> m\<lparr>mx_pc := (mx_pc m)(t := p)\<rparr>"

definition after_wait :: "ptr \<Rightarrow> bool \<Rightarrow> u32 \<Rightarrow> u32 \<Rightarrow> u64 \<Rightarrow> mtx_answer \<Rightarrow> ksyn \<Rightarrow> mtx_sys \<Rightarrow> mtx_sys" where
  "after_wait t ff g u tid a r m =
     set_pc t (case a of Mtx_findtid \<Rightarrow> Mx_find ff g u tid | Mtx_blocked \<Rightarrow> Mx_blocked | _ \<Rightarrow> Mx_user)
       (m\<lparr>mx_s := r, mx_grants := mx_grants m + of_bool (is_granted a)\<rparr>)"

fun mtx_exec :: "(ptr option \<Rightarrow> u64) \<Rightarrow> mtx_action \<Rightarrow> mtx_sys \<Rightarrow> mtx_sys option" where
  "mtx_exec tt (Call_wait t ff g u tid) m =
     (if mx_pc m t = Mx_user then Some (set_pc t (Mx_wait ff g u tid None) m) else None)"
| "mtx_exec tt (Call_drop t ff g u) m =
     (if mx_pc m t = Mx_user then Some (set_pc t (Mx_drop ff g u False) m) else None)"
| "mtx_exec tt (Wait_section t) m =
     (case mx_pc m t of
        Mx_wait ff g u tid tid_th \<Rightarrow>
          (case mutexwait_section tt ff t g u tid tid_th (mx_s m) of
             Inr (a, r) \<Rightarrow> Some (after_wait t ff g u tid a r m)
           | Inl _ \<Rightarrow> None)
      | _ \<Rightarrow> None)"
| "mtx_exec tt (Find_section t self_tid threads) m =
     (case mx_pc m t of
        Mx_find ff g u tid \<Rightarrow>
          (case mutexwait_findtid t self_tid threads tid (mx_s m) of
             (tid', h, r) \<Rightarrow> Some (set_pc t (Mx_wait ff g u tid' h) (m\<lparr>mx_s := r\<rparr>)))
      | _ \<Rightarrow> None)"
| "mtx_exec tt (Drop_section t) m =
     (case mx_pc m t of
        Mx_drop ff g u again \<Rightarrow>
          (case mutexdrop_section ff again g u (mx_s m) of
             Inr (redrive, r) \<Rightarrow>
               Some (set_pc t (if redrive then Mx_drop ff g u True else Mx_user)
                 (m\<lparr>mx_s := r, mx_drops := mx_drops m + of_bool (\<not> redrive)\<rparr>))
           | Inl _ \<Rightarrow> None)
      | _ \<Rightarrow> None)"
| "mtx_exec tt (Clear_prepost ff g) m =
     (let r = mutex_clrprepost ff g (mx_s m) in
      Some (m\<lparr>mx_s := r,
        mx_lost := mx_lost m + (kw_prepost_count (kn_kwq (mx_s m)) - kw_prepost_count (kn_kwq r))\<rparr>))"
| "mtx_exec tt (End_wait t w) m =
     (case kn_wait (mx_s m) t of
        Blocked q k \<Rightarrow>
          if w = THREAD_AWAKENED then None
          else Some (m\<lparr>mx_s := (mx_s m)\<lparr>kn_wait := (kn_wait (mx_s m))(t := Unblocked q k w)\<rparr>\<rparr>)
      | _ \<Rightarrow> None)"
| "mtx_exec tt (Continue t) m =
     (case kn_wait (mx_s m) t of
        Unblocked q k w \<Rightarrow>
          if mx_pc m t = Mx_blocked then
            (case psynch_mtxcontinue t w (mx_s m) of
               Inr (e, _, r) \<Rightarrow>
                 Some (set_pc t Mx_user (m\<lparr>mx_s := r, mx_grants := mx_grants m + of_bool (e = 0)\<rparr>))
             | Inl _ \<Rightarrow> None)
          else None
      | _ \<Rightarrow> None)"
| "mtx_exec tt (Die t) m =
     (if mx_pc m t = Mx_blocked then
        (case dtape_psynch_thread_dying t (mx_s m) of
           Inr r \<Rightarrow>
             Some (set_pc t Mx_gone (m\<lparr>mx_s := running t r,
               mx_lost := mx_lost m + of_bool
                 (kn_wait (mx_s m) t = Unblocked (self_of (mx_s m)) KSYN_QUEUE_WRITE THREAD_AWAKENED)\<rparr>))
         | Inl _ \<Rightarrow> None)
      else None)"

fun first_fit :: "mtx_action \<Rightarrow> bool" where
  "first_fit (Call_wait _ ff _ _ _) = ff"
| "first_fit (Call_drop _ ff _ _) = ff"
| "first_fit _ = True"

text \<open>With \<open>pol\<close> all threads use the policy first fit, the default of the library.\<close>

definition mtx_step :: "(ptr option \<Rightarrow> u64) \<Rightarrow> bool \<Rightarrow> mtx_sys \<Rightarrow> mtx_sys \<Rightarrow> bool" where
  "mtx_step tt pol m m' \<longleftrightarrow> (\<exists>a. (pol \<longrightarrow> first_fit a) \<and> mtx_exec tt a m = Some m')"

definition mtx_start :: "mtx_sys \<Rightarrow> bool" where
  "mtx_start m \<longleftrightarrow>
     (let s = mx_s m; q = kn_kwq s in
      kw_type q = KSYN_WQTYPE_MTX \<and> kw_ksynqueues q = (\<lambda>_. ksyn_queue_init) \<and> kw_inqueue q = 0 \<and>
      kw_prepost_count q = 0 \<and> kw_intr_count q = 0 \<and> (\<forall>t. kn_wait s t = On_cpu) \<and>
      (\<forall>e. kwe_kwqqueue (kn_kwe s e) \<noteq> Some (kw_self q))) \<and>
     (\<forall>t. mx_pc m t = Mx_user) \<and> mx_drops m = 0 \<and> mx_grants m = 0 \<and> mx_lost m = 0"

section \<open>The invariant of the runs\<close>

definition mx_blocked :: "mtx_sys \<Rightarrow> ptr \<Rightarrow> kwq_queue_type option" where
  "mx_blocked m t = (if mx_pc m t = Mx_blocked then Some KSYN_QUEUE_WRITE else None)"

lemma mx_blocked_simps [simp]:
  "mx_blocked (m\<lparr>mx_s := s\<rparr>) = mx_blocked m"
  "mx_pc m t \<noteq> Mx_blocked \<Longrightarrow> p \<noteq> Mx_blocked \<Longrightarrow> mx_blocked (set_pc t p m) = mx_blocked m"
  by (auto simp: mx_blocked_def)

abbreviation pcs_ok :: "mtx_sys \<Rightarrow> bool" where
  "pcs_ok m \<equiv> agree (mx_blocked m) (mx_s m)"

lemma mx_blocked_moved:
  "mx_pc m' = (mx_pc m)(t := p) \<Longrightarrow>
   mx_blocked m' = (mx_blocked m)(t := if p = Mx_blocked then Some KSYN_QUEUE_WRITE else None)"
  by (auto simp: mx_blocked_def)

fun pc_firstfit :: "mtx_pc \<Rightarrow> bool" where
  "pc_firstfit (Mx_wait ff _ _ _ _) = ff"
| "pc_firstfit (Mx_find ff _ _ _) = ff"
| "pc_firstfit (Mx_drop ff _ _ _) = ff"
| "pc_firstfit _ = True"

definition exact_ok :: "mtx_sys \<Rightarrow> bool" where
  "exact_ok m \<longleftrightarrow> (\<forall>t. pc_firstfit (mx_pc m t)) \<and> kw_intr_count (kn_kwq (mx_s m)) = 0 \<and>
     mx_grants m + mx_lost m + pending (mx_s m) = mx_drops m \<and>
     (elements KSYN_QUEUE_WRITE (mx_s m) \<noteq> [] \<longrightarrow> kw_prepost_count (kn_kwq (mx_s m)) = 0)"

definition mtx_inv :: "bool \<Rightarrow> mtx_sys \<Rightarrow> bool" where
  "mtx_inv pol m \<longleftrightarrow> mutex_ok (mx_s m) \<and> pcs_ok m \<and>
     mx_grants m + mx_lost m + pending (mx_s m) \<le> mx_drops m \<and> (pol \<longrightarrow> exact_ok m)"

lemma mtx_start_inv:
  assumes "mtx_start m"
  shows "mtx_inv pol m"
proof -
  let ?s = "mx_s m"
  have w: "woken ?s = {}" using assms by (simp add: mtx_start_def woken_def Let_def)
  have q: "\<not> queued ?s e" for e using assms by (simp add: mtx_start_def queued_def Let_def ksyn_queue_init_def)
  have "ksyn_ok ?s"
    using assms q
    by (simp add: mtx_start_def Let_def ksyn_ok_def lists_ok_def waits_ok_def links_ok_def fakes_def ksyn_queue_init_def)
  with assms w show ?thesis
    by (simp add: mtx_inv_def mutex_ok_def agree_def mx_blocked_def exact_ok_def pending_def mtx_start_def Let_def ksyn_queue_init_def)
qed

lemma woke_pcs:
  assumes "pcs_ok m" "woke (mx_s m) r" "mx_pc m t \<noteq> Mx_blocked" "p \<noteq> Mx_blocked" "mx_s m' = r"
    "mx_pc m' = (mx_pc m)(t := p)"
  shows "pcs_ok m'"
proof -
  have "mx_blocked m' = mx_blocked m" using assms(3,4,6) by (auto simp: mx_blocked_def)
  then show ?thesis using agree_woke [OF assms(1,2)] assms(5) by simp
qed

lemma drop_section_effect:
  assumes "mutex_ok s"
  shows "\<exists>redrive r. mutexdrop_section ff again g u s = Inr (redrive, r) \<and> mutex_ok r \<and> woke s r \<and>
    pending r \<le> pending s + of_bool (\<not> redrive) \<and>
    (ff \<longrightarrow> kw_intr_count (kn_kwq r) = kw_intr_count (kn_kwq s) \<and> pending r = pending s + of_bool (\<not> redrive) \<and>
      (kw_inqueue (kn_kwq s) = 0 \<longrightarrow> elements KSYN_QUEUE_WRITE r = []) \<and>
      (kw_inqueue (kn_kwq s) \<noteq> 0 \<longrightarrow> kw_prepost_count (kn_kwq r) = kw_prepost_count (kn_kwq s)))"
proof -
  let ?s = "if again then s else with_kwq (\<lambda>q. q\<lparr>kw_lastunlockseq := u AND PTHRW_COUNT_MASK\<rparr>) s"
  have c: "core ?s = core s" by simp
  have n: "marks ?s = marks s" "kw_inqueue (kn_kwq ?s) = kw_inqueue (kn_kwq s)" by simp_all
  have pn: "pending ?s = pending s" using core_woken [OF c] n(1) by (simp add: pending_def)
  note ok = mutex_ok_core [OF c assms]
  show ?thesis
  proof (cases ff)
    case True
    from ok obtain redrive r where r: "mutexdrop_firstfit g ?s = Inr (redrive, r)" "mutex_ok r" "woke ?s r"
      "kw_intr_count (kn_kwq r) = kw_intr_count (kn_kwq ?s)" "pending r = pending ?s + of_bool (\<not> redrive)"
      "kw_prepost_count (kn_kwq r) = kw_prepost_count (kn_kwq ?s) + of_bool (kw_inqueue (kn_kwq ?s) = 0)"
      "kw_inqueue (kn_kwq ?s) = 0 \<Longrightarrow> elements KSYN_QUEUE_WRITE r = []"
      using firstfit_drop [of ?s g] by metis
    have "mutexdrop_section ff again g u s = Inr (redrive, r)"
      using True r(1) unfolding mutexdrop_section_def Let_def by simp
    with True r n pn woke_trans [OF core_woke [OF c] r(3)] show ?thesis
      by (intro exI [of _ redrive] exI [of _ r]) simp
  next
    case False
    obtain r where r: "mutexdrop_fairshare (u + PTHRW_INC) ?s = Inr r" "dropped_once ?s r"
      using fairshare_drop [OF ok] by blast
    have "mutexdrop_section ff again g u s = Inr (False, r)"
      using False r(1) unfolding mutexdrop_section_def Let_def by simp
    with False r(2) pn woke_trans [OF core_woke [OF c]] show ?thesis by (auto simp: dropped_once_def)
  qed
qed

lemma findtid_effect:
  assumes "mutexwait_findtid t n ts tid s = (tid', h, r)"
  shows "core r = core s" "marks r = marks s"
  using assms by (auto simp: mutexwait_findtid_def core_def split: option.splits)

lemma clrprepost_effect:
  "core (mutex_clrprepost ff g s) = core s"
  "kw_intr_count (kn_kwq (mutex_clrprepost ff g s)) = kw_intr_count (kn_kwq s)"
  "kw_prepost_count (kn_kwq (mutex_clrprepost ff g s)) \<le> kw_prepost_count (kn_kwq s)"
  by (simp_all add: mutex_clrprepost_def) (simp_all add: kwq_clear_preposted_wakeup_def)

lemma pending_core: "core r = core s \<Longrightarrow> marks r = marks s \<Longrightarrow> pending r = pending s"
  using core_woken [of r s] by (simp add: pending_def)

lemma pcs_core:
  assumes "pcs_ok m" "core r = core (mx_s m)" "mx_s m' = r" "mx_pc m' = mx_pc m"
  shows "pcs_ok m'"
proof -
  have "mx_blocked m' = mx_blocked m" using assms(4) by (auto simp: mx_blocked_def)
  then show ?thesis using agree_woke [OF assms(1) core_woke [OF assms(2)]] assms(3) by simp
qed

lemma pcs_moved:
  assumes "pcs_ok m" "mx_pc m' = (mx_pc m)(t := p)" "self_of (mx_s m') = self_of (mx_s m)"
    "kn_wait (mx_s m') = (kn_wait (mx_s m))(t := w)"
    "if p = Mx_blocked then w = Blocked (self_of (mx_s m)) KSYN_QUEUE_WRITE else w = On_cpu"
  shows "pcs_ok m'"
  unfolding mx_blocked_moved [OF assms(2)]
  by (rule agree_moved [OF assms(1,3,4)]) (use assms(5) in \<open>auto split: if_splits\<close>)

lemma pcs_at:
  assumes "pcs_ok m"
  shows "mx_pc m t \<noteq> Mx_blocked \<Longrightarrow> kn_wait (mx_s m) t = On_cpu"
    "mx_pc m t = Mx_blocked \<Longrightarrow> kn_wait (mx_s m) t = Blocked (self_of (mx_s m)) KSYN_QUEUE_WRITE \<or>
       (\<exists>r. kn_wait (mx_s m) t = Unblocked (self_of (mx_s m)) KSYN_QUEUE_WRITE r)"
  using agree_at(1,2) [OF assms, of t] by (simp_all add: mx_blocked_def)

lemma wait_step:
  assumes "mtx_inv pol m" "mtx_exec tt (Wait_section t) m = Some m'"
  shows "mtx_inv pol m'"
proof -
  from assms(2) obtain ff g u tid h a r where p: "mx_pc m t = Mx_wait ff g u tid h"
    and r: "mutexwait_section tt ff t g u tid h (mx_s m) = Inr (a, r)" "m' = after_wait t ff g u tid a r m"
    by (auto split: mtx_pc.splits sum.splits)
  have ok: "mutex_ok (mx_s m)" "pcs_ok m" using assms(1) by (simp_all add: mtx_inv_def)
  have cpu: "kn_wait (mx_s m) t = On_cpu" using pcs_at(1) [OF ok(2), of t] p by simp
  have e: "mutex_ok r" "self_of r = self_of (mx_s m)" "wait_effect t (mx_s m) a r"
    "ff \<longrightarrow> kw_intr_count (kn_kwq (mx_s m)) = 0 \<longrightarrow> exact_wait (mx_s m) a r"
    using wait_section_effect [OF ok(1) cpu, of tt ff g u tid h] r(1) by auto
  have "pcs_ok m'"
    by (rule pcs_moved [OF ok(2), where p = "case a of Mtx_findtid \<Rightarrow> Mx_find ff g u tid | Mtx_blocked \<Rightarrow> Mx_blocked | _ \<Rightarrow> Mx_user"
      and w = "if a = Mtx_blocked then Blocked (self_of (mx_s m)) KSYN_QUEUE_WRITE else On_cpu" and t = t])
      (use e(2,3) cpu in \<open>cases a; auto simp: r(2) after_wait_def\<close>)+
  moreover have "mx_grants m' + mx_lost m' + pending (mx_s m') \<le> mx_drops m'"
    using assms(1) e(3) by (cases a) (auto simp: mtx_inv_def r(2) after_wait_def)
  moreover have "exact_ok m'" if pol
  proof -
    have x: "exact_ok m" using assms(1) that by (simp add: mtx_inv_def)
    then have ff using p unfolding exact_ok_def by (metis pc_firstfit.simps(1))
    with x e(4) have w: "exact_wait (mx_s m) a r" by (simp add: exact_ok_def)
    show ?thesis
      using x w \<open>ff\<close> unfolding exact_ok_def exact_wait_def r(2) after_wait_def by (cases a) auto
  qed
  ultimately show ?thesis using e(1) by (simp add: mtx_inv_def r(2) after_wait_def)
qed

lemma drop_step:
  assumes "mtx_inv pol m" "mtx_exec tt (Drop_section t) m = Some m'"
  shows "mtx_inv pol m'"
proof -
  from assms(2) obtain ff g u again redrive r where p: "mx_pc m t = Mx_drop ff g u again"
    and r: "mutexdrop_section ff again g u (mx_s m) = Inr (redrive, r)"
    "m' = set_pc t (if redrive then Mx_drop ff g u True else Mx_user)
                 (m\<lparr>mx_s := r, mx_drops := mx_drops m + of_bool (\<not> redrive)\<rparr>)"
    by (auto split: mtx_pc.splits sum.splits)
  have ok: "mutex_ok (mx_s m)" "pcs_ok m" using assms(1) by (simp_all add: mtx_inv_def)
  have e: "mutex_ok r" "woke (mx_s m) r" "pending r \<le> pending (mx_s m) + of_bool (\<not> redrive)"
    "ff \<longrightarrow> kw_intr_count (kn_kwq r) = kw_intr_count (kn_kwq (mx_s m)) \<and>
      pending r = pending (mx_s m) + of_bool (\<not> redrive) \<and>
      (kw_inqueue (kn_kwq (mx_s m)) = 0 \<longrightarrow> elements KSYN_QUEUE_WRITE r = []) \<and>
      (kw_inqueue (kn_kwq (mx_s m)) \<noteq> 0 \<longrightarrow> kw_prepost_count (kn_kwq r) = kw_prepost_count (kn_kwq (mx_s m)))"
    using drop_section_effect [OF ok(1), of ff again g u] r(1) by auto
  have "pcs_ok m'"
    by (rule woke_pcs [OF ok(2) e(2), where t = t and p = "if redrive then Mx_drop ff g u True else Mx_user"])
      (use p in \<open>simp_all add: r(2)\<close>)
  moreover have "mx_grants m' + mx_lost m' + pending (mx_s m') \<le> mx_drops m'"
    using assms(1) e(3) by (simp add: mtx_inv_def r(2))
  moreover have "exact_ok m'" if pol
  proof -
    have x: "exact_ok m" using assms(1) that by (simp add: mtx_inv_def)
    then have ff using p unfolding exact_ok_def by (metis pc_firstfit.simps(3))
    then show ?thesis
      using x e(4) mutex_ok_inqueue [OF ok(1)] unfolding exact_ok_def r(2) by auto
  qed
  ultimately show ?thesis using e(1) by (simp add: mtx_inv_def r(2))
qed

lemma leave_step:
  assumes "mtx_inv pol m" "mutex_ok r" "self_of r = self_of (mx_s m)"
    "kn_wait r = (kn_wait (mx_s m))(t := On_cpu)" "marks r = marks (mx_s m)"
    "pending r + of_bool b = pending (mx_s m)"
    "set (elements KSYN_QUEUE_WRITE r) \<subseteq> set (elements KSYN_QUEUE_WRITE (mx_s m))" "p = Mx_user \<or> p = Mx_gone"
    "mx_s m' = r" "mx_pc m' = (mx_pc m)(t := p)" "mx_drops m' = mx_drops m"
    "mx_grants m' + mx_lost m' = mx_grants m + mx_lost m + of_bool b"
  shows "mtx_inv pol m'"
proof -
  have "pcs_ok m'"
    by (rule pcs_moved [of m _ t p On_cpu]) (use assms in \<open>auto simp: mtx_inv_def\<close>)
  moreover have "exact_ok m'" if pol
  proof -
    have x: "exact_ok m" using assms(1) that by (simp add: mtx_inv_def)
    then have "elements KSYN_QUEUE_WRITE r \<noteq> [] \<longrightarrow> kw_prepost_count (kn_kwq r) = 0"
      using assms(5,7) by (auto simp: exact_ok_def)
    then show ?thesis using x assms(5,6,8-12) unfolding exact_ok_def by auto
  qed
  ultimately show ?thesis using assms(1,2,6,9,11,12) by (simp add: mtx_inv_def)
qed

lemma continue_step:
  assumes "mtx_inv pol m" "mtx_exec tt (Continue t) m = Some m'"
  shows "mtx_inv pol m'"
proof -
  from assms(2) obtain q k w e v r where p: "mx_pc m t = Mx_blocked" "kn_wait (mx_s m) t = Unblocked q k w"
    and r: "psynch_mtxcontinue t w (mx_s m) = Inr (e, v, r)"
    "m' = set_pc t Mx_user (m\<lparr>mx_s := r, mx_grants := mx_grants m + of_bool (e = 0)\<rparr>)"
    by (auto split: th_wait.splits if_splits sum.splits)
  have ok: "mutex_ok (mx_s m)" "pcs_ok m" using assms(1) by (simp_all add: mtx_inv_def)
  have u: "kn_wait (mx_s m) t = Unblocked (self_of (mx_s m)) KSYN_QUEUE_WRITE w"
    using pcs_at(2) [OF ok(2) p(1)] p(2) by auto
  show ?thesis
    by (rule leave_step [OF assms(1), of r t "e = 0" Mx_user])
      (use continue_effect [OF ok(1) u] r in auto)
qed

lemma die_step:
  assumes "mtx_inv pol m" "mtx_exec tt (Die t) m = Some m'"
  shows "mtx_inv pol m'"
proof -
  from assms(2) obtain r where p: "mx_pc m t = Mx_blocked"
    and r: "dtape_psynch_thread_dying t (mx_s m) = Inr r"
    "m' = set_pc t Mx_gone (m\<lparr>mx_s := running t r, mx_lost := mx_lost m + of_bool (t \<in> woken (mx_s m))\<rparr>)"
    by (auto simp: woken_def split: if_splits sum.splits)
  have ok: "mutex_ok (mx_s m)" "pcs_ok m" using assms(1) by (simp_all add: mtx_inv_def)
  show ?thesis
    by (rule leave_step [OF assms(1), of "running t r" t "t \<in> woken (mx_s m)" Mx_gone])
      (use die_effect [OF ok(1) pcs_at(2) [OF ok(2) p]] r in auto)
qed

lemma end_wait_step:
  assumes "mtx_inv pol m" "mtx_exec tt (End_wait t w) m = Some m'"
  shows "mtx_inv pol m'"
proof -
  let ?s = "mx_s m"
  from assms(2) obtain q k where p: "kn_wait ?s t = Blocked q k" "w \<noteq> THREAD_AWAKENED"
    and r: "m' = m\<lparr>mx_s := ?s\<lparr>kn_wait := (kn_wait ?s)(t := Unblocked q k w)\<rparr>\<rparr>"
    by (auto split: th_wait.splits if_splits)
  have ok: "mutex_ok ?s" "pcs_ok m" using assms(1) by (simp_all add: mtx_inv_def)
  have b: "mx_pc m t = Mx_blocked" using pcs_at(1) [OF ok(2), of t] p(1) by auto
  then have q: "q = self_of ?s" "k = KSYN_QUEUE_WRITE" using pcs_at(2) [OF ok(2), of t] p(1) by auto
  have wk: "woken (mx_s m') = woken ?s" using p q by (auto simp: woken_def r)
  have ks: "ksyn_ok ?s" using ok(1) by (simp add: mutex_ok_def)
  have "ksyn_ok (mx_s m')" using ended_ok [OF ks, of t k w] p q by (simp add: r)
  then have "mutex_ok (mx_s m')" using ok(1) wk by (simp add: mutex_ok_def r)
  moreover have "pcs_ok m'" using agree_ended [OF ok(2) p(1)] by (simp add: r)
  moreover have "pending (mx_s m') = pending ?s" using wk by (simp add: pending_def r)
  moreover have "exact_ok m'" if pol
    using assms(1) that calculation(3) by (simp add: mtx_inv_def exact_ok_def r)
  ultimately show ?thesis using assms(1) by (simp add: mtx_inv_def r)
qed

lemma mtx_exec_inv:
  assumes "mtx_inv pol m" "mtx_exec tt a m = Some m'" "pol \<longrightarrow> first_fit a"
  shows "mtx_inv pol m'"
proof (cases a)
  case (Call_wait t ff g u tid)
  then have "m' = set_pc t (Mx_wait ff g u tid None) m" "mx_pc m t = Mx_user" "pol \<longrightarrow> ff"
    using assms(2,3) by (simp_all split: if_splits)
  with assms(1) show ?thesis by (auto simp: mtx_inv_def exact_ok_def)
next
  case (Call_drop t ff g u)
  then have "m' = set_pc t (Mx_drop ff g u False) m" "mx_pc m t = Mx_user" "pol \<longrightarrow> ff"
    using assms(2,3) by (simp_all split: if_splits)
  with assms(1) show ?thesis by (auto simp: mtx_inv_def exact_ok_def)
next
  case (Find_section t n ts)
  then obtain ff g u tid tid' h r where p: "mx_pc m t = Mx_find ff g u tid"
    "mutexwait_findtid t n ts tid (mx_s m) = (tid', h, r)" "m' = set_pc t (Mx_wait ff g u tid' h) (m\<lparr>mx_s := r\<rparr>)"
    using assms(2) by (auto split: mtx_pc.splits prod.splits)
  note c = findtid_effect [OF p(2)]
  have "mutex_ok r" using mutex_ok_core [OF c(1)] assms(1) by (simp add: mtx_inv_def)
  moreover have "pcs_ok m'"
    by (rule woke_pcs [OF _ core_woke [OF c(1)], of t "Mx_wait ff g u tid' h"])
      (use assms(1) p(1) in \<open>simp_all add: mtx_inv_def p(3)\<close>)
  moreover have "exact_ok m'" if pol
  proof -
    have x: "exact_ok m" using assms(1) that by (simp add: mtx_inv_def)
    then have ff using p unfolding exact_ok_def by (metis pc_firstfit.simps(2))
    then show ?thesis using x c core_fields(4) [OF c(1)] pending_core [OF c] by (simp add: exact_ok_def p(3))
  qed
  ultimately show ?thesis using assms(1) pending_core [OF c] by (simp add: mtx_inv_def p(3))
next
  case (Clear_prepost ff g)
  let ?r = "mutex_clrprepost ff g (mx_s m)"
  have m': "m' = m\<lparr>mx_s := ?r, mx_lost := mx_lost m +
      (kw_prepost_count (kn_kwq (mx_s m)) - kw_prepost_count (kn_kwq ?r))\<rparr>"
    using assms(2) Clear_prepost by (simp add: Let_def)
  note c = clrprepost_effect [of ff g "mx_s m"]
  have n: "pending ?r + (kw_prepost_count (kn_kwq (mx_s m)) - kw_prepost_count (kn_kwq ?r)) = pending (mx_s m)"
    using c(2,3) core_woken [OF c(1)] by (simp add: pending_def)
  have "pcs_ok m'" by (rule pcs_core [of m, OF _ c(1)]) (use assms(1) in \<open>simp_all add: mtx_inv_def m'\<close>)
  moreover have "exact_ok m'" if pol
  proof -
    have x: "exact_ok m" using assms(1) that by (simp add: mtx_inv_def)
    then show ?thesis using c n core_fields(4) [OF c(1)] by (auto simp: exact_ok_def m')
  qed
  ultimately show ?thesis
    using assms(1) n mutex_ok_core [OF c(1)] by (simp add: mtx_inv_def m')
next
  case (Wait_section t)
  with assms show ?thesis by (blast intro: wait_step)
next
  case (Drop_section t)
  with assms show ?thesis by (blast intro: drop_step)
next
  case (End_wait t w)
  with assms show ?thesis by (blast intro: end_wait_step)
next
  case (Continue t)
  with assms show ?thesis by (blast intro: continue_step)
next
  case (Die t)
  with assms show ?thesis by (blast intro: die_step)
qed

interpretation mtx_runs: inductive_invariant mtx_start "mtx_step tt pol" "mtx_inv pol"
  by unfold_locales (auto simp: mtx_step_def intro: mtx_start_inv mtx_exec_inv)

primrec mtx_run :: "(ptr option \<Rightarrow> u64) \<Rightarrow> mtx_action list \<Rightarrow> mtx_sys \<Rightarrow> mtx_sys option" where
  "mtx_run tt [] m = Some m"
| "mtx_run tt (a # as) m = (case mtx_exec tt a m of None \<Rightarrow> None | Some m \<Rightarrow> mtx_run tt as m)"

lemma mtx_run_reach:
  "reach mtx_start (mtx_step tt pol) m \<Longrightarrow> pol \<longrightarrow> list_all first_fit as \<Longrightarrow> mtx_run tt as m = Some m' \<Longrightarrow>
   reach mtx_start (mtx_step tt pol) m'"
proof (induction as arbitrary: m)
  case (Cons a as)
  from Cons.prems(3) obtain n where n: "mtx_exec tt a m = Some n" "mtx_run tt as n = Some m'"
    by (auto split: option.splits)
  have "mtx_step tt pol m n" using n(1) Cons.prems(2) by (auto simp: mtx_step_def)
  then show ?case using Cons.IH [of n] n(2) Cons.prems(1,2) by (auto intro: reach_next)
qed simp

text \<open>C7: Whatever the threads of a process do with a mutex, and whatever arguments they pass, the grants that
  reached a thread, the grants on their way and those that were cleared or died with a thread
  are at most as many as the completed unlocks. No section of a waiting or unlocking thread panics, and a blocked
  thread is always found in the queue.\<close>

theorem mutex_grants_bounded:
  assumes "reach mtx_start (mtx_step tt pol) m"
  shows "mx_grants m + mx_lost m + pending (mx_s m) \<le> mx_drops m \<and>
    (\<forall>t ff g u tid h. mx_pc m t = Mx_wait ff g u tid h \<longrightarrow> mtx_exec tt (Wait_section t) m \<noteq> None) \<and>
    (\<forall>t ff g u again. mx_pc m t = Mx_drop ff g u again \<longrightarrow> mtx_exec tt (Drop_section t) m \<noteq> None) \<and>
    (\<forall>t. mx_pc m t = Mx_blocked \<longrightarrow>
      Uukwe t \<in> set (elements KSYN_QUEUE_WRITE (mx_s m)) \<or> mtx_exec tt (Continue t) m \<noteq> None)"
proof (intro conjI allI impI)
  have i: "mtx_inv pol m" using assms by (rule mtx_runs.holds_when_reached)
  then have ok: "mutex_ok (mx_s m)" "pcs_ok m" "ksyn_ok (mx_s m)" by (simp_all add: mtx_inv_def mutex_ok_def)
  show "mx_grants m + mx_lost m + pending (mx_s m) \<le> mx_drops m" using i by (simp add: mtx_inv_def)
  show "mtx_exec tt (Wait_section t) m \<noteq> None" if p: "mx_pc m t = Mx_wait ff g u tid h" for t ff g u tid h
    using wait_section_effect [OF ok(1) pcs_at(1) [OF ok(2), of t], of tt ff g u tid h] p by auto
  show "mtx_exec tt (Drop_section t) m \<noteq> None" if p: "mx_pc m t = Mx_drop ff g u again" for t ff g u again
    using drop_section_effect [OF ok(1), of ff again g u] p by auto
  show "Uukwe t \<in> set (elements KSYN_QUEUE_WRITE (mx_s m)) \<or> mtx_exec tt (Continue t) m \<noteq> None"
    if p: "mx_pc m t = Mx_blocked" for t
    using pcs_at(2) [OF ok(2) p]
  proof
    assume "kn_wait (mx_s m) t = Blocked (self_of (mx_s m)) KSYN_QUEUE_WRITE"
    then show ?thesis using ksyn_ok_waits(1) [OF ok(3)] by blast
  next
    assume "\<exists>r. kn_wait (mx_s m) t = Unblocked (self_of (mx_s m)) KSYN_QUEUE_WRITE r"
    then show ?thesis using p continue_effect [OF ok(1), of t] by auto
  qed
qed

definition mutex_demo :: mtx_sys where
  "mutex_demo =
     \<lparr>mx_s = \<lparr>kn_kwq = (kwq_alloc 1)\<lparr>kw_type := KSYN_WQTYPE_MTX\<rparr>, kn_kwe = \<lambda>_. kwe_zero, kn_wait = \<lambda>_. On_cpu,
        kn_zone = [], kn_refs = []\<rparr>,
      mx_pc = \<lambda>_. Mx_user, mx_drops = 0, mx_grants = 0, mx_lost = 0\<rparr>"

definition mutex_demo_run :: "mtx_sys option" where
  "mutex_demo_run = mtx_run (\<lambda>_. 0)
     [Call_wait 1 True 0x100 0 7, Wait_section 1, Find_section 1 1 [(2, 7)], Wait_section 1,
      Call_wait 3 True 0x200 0 7, Call_drop 2 True 0x100 0, Drop_section 2, Continue 1,
      Call_wait 4 True 0x300 0 7] mutex_demo"

lemma mutex_demo_start: "mtx_start mutex_demo"
  by (simp add: mtx_start_def mutex_demo_def kwq_alloc_def Let_def kwe_zero_def)

lemma mutex_demo_returns: "mutex_demo_run \<noteq> None"
  by code_simp

lemma mutex_demo_reached: "reach mtx_start (mtx_step (\<lambda>_. 0) True) (the mutex_demo_run)"
proof -
  obtain m where m: "mutex_demo_run = Some m" using mutex_demo_returns by blast
  have "reach mtx_start (mtx_step (\<lambda>_. 0) True) mutex_demo" using mutex_demo_start by (rule reach_start)
  then have "reach mtx_start (mtx_step (\<lambda>_. 0) True) m"
    by (rule mtx_run_reach [OF _ _ m [unfolded mutex_demo_run_def]]) simp
  then show ?thesis unfolding m option.sel .
qed

lemma mutex_demo_counts:
  "mx_grants (the mutex_demo_run) = 1" "mx_drops (the mutex_demo_run) = 1" "mx_pc (the mutex_demo_run) 3 = Mx_wait True 0x200 0 7 None"
  by code_simp+

theorem mutex_grants_bounded_witness:
  "mx_grants (the mutex_demo_run) = 1 \<and> mx_lost (the mutex_demo_run) + pending (mx_s (the mutex_demo_run)) = 0 \<and>
   mtx_exec (\<lambda>_. 0) (Wait_section 3) (the mutex_demo_run) \<noteq> None"
  using mutex_grants_bounded [OF mutex_demo_reached] mutex_demo_counts by fastforce



end
