(* ===== verification/Spec2Isabelle.thy ===== *)
theory Spec2Isabelle
  imports Registry MessageQueue Workers StackPool AsyncWriter Timer Monitors EventLoop Locks ProcMaps S2C
    SharedMap Kqchan Microthread KernelAsync ProcessLife Interrupts Calls PsynchMutex
begin

text \<open>
  A model of darlingserver, the user-space server that gives the processes of a Darling container
  the services of the XNU kernel, with theorems about it.

  \<^bold>\<open>The program.\<close> Managed processes send datagrams to the server's socket. The main loop
  (src/src/server.cpp) receives them, turns each into a call of a registered process and thread
  (src/src/call.cpp, registry.hpp) and queues the thread for the workers (workers.hpp). A worker
  runs the thread's microthread (src/src/thread.cpp) on a stack of the pool; the microthread
  executes the call, often inside XNU code that sits on the duct tape (src/duct-tape/src), and may
  suspend there. Replies leave through the outbox. Side channels are the kqueue channels
  (src/src/kqchan.cpp), the timer, monitors on descriptors, and calls from the server to a client
  (S2C) for memory only the client can map. Kernel microthreads do work that belongs to no client.

  \<^bold>\<open>Theories and sources.\<close>
  \<^item> \<open>Prelude\<close>: errors as values of a sum type, machine words, association lists, reachability and
    the locale \<open>inductive_invariant\<close>, through which every run is reasoned about.
  \<^item> \<open>Registry\<close> (registry.hpp): the three maps of a registry as association lists over a store of
    entries; the locale of an index is interpreted for each map. The registry keeps its
    invariant, refines a set of entries, and never reuses an eternal ID.
  \<^item> \<open>Message\<close>, \<open>MessageQueue\<close> (message.cpp): control data with credentials and descriptors as lists
    of headers and cells; batches of \<open>sendmmsg\<close> and \<open>recvmmsg\<close> answers as scripts. Control data
    stays well formed, refines a list of descriptors, and queues keep order.
  \<^item> \<open>Workers\<close> (workers.hpp), \<open>StackPool\<close> (stack-pool.cpp), \<open>AsyncWriter\<close> (async-writer.cpp), \<open>Timer\<close>
    (server.cpp, timer.c and XNU's timer_call.c), \<open>Monitors\<close> and \<open>EventLoop\<close> (server.cpp): one state
    record each, one function for each critical section, and a step relation for the interleavings.
  \<^item> \<open>Locks\<close> (locks.c, condvar.c): microthread mutexes and condition variables between microthreads
    and native threads; mutual exclusion and no lost wake-up.
  \<^item> \<open>Microthread\<close> (thread.cpp, thread.c): the locked sections of \<open>doWork\<close>, \<open>suspend\<close>, \<open>resume\<close>,
    impersonation and death under any number of workers. \<open>KernelAsync\<close> (thread.cpp): the runners of
    kernel microthreads. \<open>ProcessLife\<close> (process.cpp, thread.cpp): creation, exec, death and release,
    with an account of the duct-taped objects.
  \<^item> \<open>S2C\<close> (thread.cpp, call.cpp): the protocol of server-to-client calls on one thread.
  \<^item> \<open>ProcMaps\<close> (process.cpp, memory.c): parsing of /proc/<pid>/maps and the Mach region calls.
    \<open>TaskMemory\<close> (thread.cpp, process.cpp, server.cpp), \<open>VmCopy\<close> and \<open>SharedMap\<close> (memory.c): memory of
    other processes, copy objects, and shared memory with its reference counts.
  \<^item> \<open>Knotes\<close> (kqchan.c) and \<open>Kqchan\<close> (kqchan.cpp, rpc-supplement.h): channels on processes and Mach
    ports, their notification protocol and its interleavings.

  \<^bold>\<open>Conventions.\<close> State is passed explicitly in records; an exception, a failed assertion or
  undefined behaviour of the C code is a value of type \<open>exn\<close>. What Linux answers is an argument: a
  script of answers or a record of functions. A critical section is atomic; code between two
  critical sections may interleave with everything else, which the step relations make explicit.
  Fields that the code does not have (what was handed over, sent or taken) are named as such
  where they are declared and are written only. Addresses of objects are natural numbers.

  \<^bold>\<open>Bounds.\<close> Loops over what Linux answers consume one answer per turn and return None when the
  script ends; theorems of termination say how many answers are enough. All other loops are
  structural or have a termination proof. Integers have their width where the code computes with
  them (addresses, sizes, deadlines, flags); identifiers are integers without a bound.

  \<^bold>\<open>Not modelled.\<close> The vendored XNU sources under src/duct-tape/xnu, except where the server's own
  code hands work to them and they are small (timer calls, the red-black tree macros): their
  answers are arguments. The pthread kernel extension under src/duct-tape/pthread is likewise
  vendored. Switching machine contexts (\<open>getcontext\<close>, \<open>setcontext\<close>, stacks of suspended code) is
  represented by what it means for the state of the thread. Start-up of the container
  (src/src/darlingserver.cpp), the debugging tool (src/tools) and log output are input and output
  only.
\<close>

end
